(* ===== verification/Cynthia_Prelude.thy ===== *)
theory Cynthia_Prelude
  imports Main "HOL-Library.Word"
begin

text \<open>
  Shared vocabulary of the development: the machine integers of a 64-bit target, the
  values that stand for panics, the \<open>Poll\<close> type of \<open>core::task\<close>, and the generic lemmas on
  lists, options and words that several components use. The collections declared here are
  filled by the component theories: \<open>run_simps\<close> holds the equations that execute an
  operation symbolically, \<open>inv_intros\<close> the facts that an operation keeps its invariant.
\<close>

named_theorems run_simps "equations that execute an operation"
named_theorems inv_intros "preservation of component invariants"

unbundle bit_operations_syntax

section \<open>Machine integers\<close>

type_synonym u8 = "8 word"
type_synonym u32 = "32 word"
type_synonym u64 = "64 word"
type_synonym u128 = "128 word"
type_synonym usize = "64 word"

text \<open>A waker and a thread, by the number of the task or thread they stand for.\<close>

type_synonym waker = nat
type_synonym thread_id = nat

text \<open>
  Lengths and indices that the code cannot overflow are \<open>nat\<close>; \<open>usize::MAX\<close> and
  \<open>isize::MAX\<close> are then the numbers below.
\<close>

definition usize_max :: nat where
  "usize_max = 2 ^ 64 - 1"

definition isize_max :: nat where
  "isize_max = 2 ^ 63 - 1"

lemma isize_less_usize [simp]: "isize_max < usize_max"
  by (simp add: isize_max_def usize_max_def)

lemma isize_le_ne_usize [simp]: "n \<le> isize_max \<Longrightarrow> n \<noteq> usize_max"
  using isize_less_usize by linarith

lemma bit_word_of_nat_iff: "bit (of_nat n :: 'a::len word) j \<longleftrightarrow> j < LENGTH('a) \<and> bit n j"
  by transfer (simp add: bit_take_bit_iff bit_of_nat_iff_bit)

lemma bit_less_power: "(i::nat) < 2 ^ k \<Longrightarrow> bit i j \<Longrightarrow> j < k"
  by (metis bit_take_bit_iff take_bit_nat_eq_self_iff)

lemma unat_usize_of_nat: "n < 2 ^ 64 \<Longrightarrow> unat (of_nat n :: usize) = n"
  by (simp add: unat_of_nat take_bit_nat_eq_self)

lemma usize_of_nat_mod: "(of_nat (n mod 2 ^ 64) :: usize) = of_nat n"
  unfolding word_unat_eq_iff by (simp add: unat_of_nat take_bit_eq_mod)

lemma usize_of_nat_div: "n < 2 ^ 64 \<Longrightarrow> m < 2 ^ 64 \<Longrightarrow> (of_nat n :: usize) div of_nat m = of_nat (n div m)"
  unfolding word_unat_eq_iff
  by (simp add: unat_div unat_usize_of_nat le_less_trans [OF div_le_dividend])

section \<open>Panics\<close>

text \<open>
  A Rust panic ends the call. An operation that can panic returns \<open>Inl\<close> of the reason;
  a normal return is \<open>Inr\<close>. \<open>Dangling\<close> stands for the undefined behaviour of following
  a pointer to memory that is not live; the theorems show that it does not occur.
\<close>

datatype panic =
    Unreachable
  | IndexOutOfBounds
  | AssertFailed
  | ExpectNone
  | CapacityOverflow
  | Overflow
  | Aborted
  | Dangling

type_synonym 'a fallible = "panic + 'a"

fun bind_fallible :: "'a fallible \<Rightarrow> ('a \<Rightarrow> 'b fallible) \<Rightarrow> 'b fallible" where
  "bind_fallible (Inl p) f = Inl p"
| "bind_fallible (Inr x) f = f x"

lemma bind_fallible_Inr [simp]:
  "bind_fallible m f = Inr y \<longleftrightarrow> (\<exists>x. m = Inr x \<and> f x = Inr y)"
  by (cases m) auto

text \<open>
  \<open>Vec::push\<close>: a vector holds at most \<open>isize::MAX\<close> bytes, so never more than that many
  elements of nonzero size; growing past the limit panics.
\<close>

definition vec_push :: "'a list \<Rightarrow> 'a \<Rightarrow> 'a list fallible" where
  "vec_push xs x = (if length xs < isize_max then Inr (xs @ [x]) else Inl CapacityOverflow)"

lemma vec_push_Inr [simp]:
  "vec_push xs x = Inr ys \<longleftrightarrow> length xs < isize_max \<and> ys = xs @ [x]"
  by (auto simp: vec_push_def)

text \<open>The \<open>+\<close> of \<open>usize\<close> with its overflow check.\<close>

definition usize_add :: "usize \<Rightarrow> usize \<Rightarrow> usize fallible" where
  "usize_add a b = (if unat a + unat b < 2 ^ 64 then Inr (a + b) else Inl Overflow)"

text \<open>\<open>usize::next_power_of_two\<close>: the smallest power of two that is not smaller.\<close>

function next_pow2_from :: "nat \<Rightarrow> nat \<Rightarrow> nat" where
  "next_pow2_from p n = (if n \<le> p \<or> p = 0 then p else next_pow2_from (2 * p) n)"
  by auto
termination by (relation "measure (\<lambda>(p, n). n - p)") auto

declare next_pow2_from.simps [simp del]

definition next_power_of_two :: "nat \<Rightarrow> nat" where
  "next_power_of_two n = next_pow2_from 1 n"

lemma next_pow2_from_correct:
  assumes "p = 2 ^ i" "\<And>j. j < i \<Longrightarrow> 2 ^ j < n"
  shows "\<exists>k. next_pow2_from p n = 2 ^ k \<and> n \<le> 2 ^ k \<and> (\<forall>j<k. 2 ^ j < n)"
  using assms
proof (induction p n arbitrary: i rule: next_pow2_from.induct)
  case (1 p n)
  show ?case
  proof (cases "n \<le> p")
    case True
    with "1.prems" show ?thesis by (auto simp: next_pow2_from.simps)
  next
    case False
    have "\<exists>k. next_pow2_from (2 * p) n = 2 ^ k \<and> n \<le> 2 ^ k \<and> (\<forall>j<k. 2 ^ j < n)"
      using False "1.prems" by (intro "1.IH" [of "Suc i"]) (auto simp: less_Suc_eq)
    with False "1.prems" show ?thesis by (simp add: next_pow2_from.simps [of "2 ^ i" n])
  qed
qed

lemma next_power_of_two_correct:
  obtains k where "next_power_of_two n = 2 ^ k" "n \<le> 2 ^ k" "\<And>j. j < k \<Longrightarrow> 2 ^ j < n"
  using next_pow2_from_correct [of 1 0 n] by (auto simp: next_power_of_two_def)

lemma not_le_mod [simp]: "0 < (n::nat) \<Longrightarrow> \<not> n \<le> m mod n"
  by (simp add: not_le)

section \<open>Lists\<close>

lemma filter_update_length:
  assumes "i < length xs"
  shows "length (filter P (xs[i := y])) + (if P (xs ! i) then 1 else 0) =
         length (filter P xs) + (if P y then 1 else 0)"
  using assms
proof (induction xs arbitrary: i)
  case Nil
  then show ?case by simp
next
  case (Cons x xs)
  then show ?case by (cases i) auto
qed

end
