(* ===== verification/Colo.thy ===== *)
theory Colo
  imports Cynthia_Prelude
begin

text \<open>
  The slab \<open>utils::Colo\<close> (src/cynthia/src/utils/colo.rs): a vector of slots, the vacant
  ones linked into a free list by the index of the next vacant slot, with \<open>!0\<close> as the end
  of that list. The executor keeps the wakers of its live tasks in one, the reactor its
  I/O sources and each source the wakers that wait on it. The theory shows that every
  operation keeps the free list and the count exact, and that the slab is a finite map
  from keys to objects (the interface \<open>slab\<close>, interpreted at the end).
\<close>

section \<open>Data\<close>

datatype 'a slot = Vacant nat | Occupied 'a

fun is_occupied :: "'a slot \<Rightarrow> bool" where
  "is_occupied (Vacant _) = False"
| "is_occupied (Occupied _) = True"

record 'a colo =
  c_slots :: "'a slot list"
  c_limited :: nat
  c_len :: nat
  c_head :: nat

section \<open>Operations\<close>

definition colo_new :: "'a colo" where
  "colo_new = \<lparr>c_slots = [], c_limited = 0, c_len = 0, c_head = usize_max\<rparr>"

definition colo_with_limited :: "nat \<Rightarrow> 'a colo" where
  "colo_with_limited limit = \<lparr>c_slots = [], c_limited = limit, c_len = 0, c_head = usize_max\<rparr>"

definition colo_is_empty :: "'a colo \<Rightarrow> bool" where
  "colo_is_empty c \<longleftrightarrow> c_len c = 0"

definition colo_next_vacant :: "'a colo \<Rightarrow> nat" where
  "colo_next_vacant c = (if c_head c = usize_max then c_len c else c_head c)"

text \<open>A full limited slab returns \<open>usize::MIN\<close> and drops the object.\<close>

definition colo_insert :: "'a colo \<Rightarrow> 'a \<Rightarrow> (nat \<times> 'a colo) fallible" where
  "colo_insert c object =
     (if c_limited c \<noteq> 0 \<and> c_len c = c_limited c then Inr (0, c)
      else if c_head c = usize_max then
        bind_fallible (vec_push (c_slots c) (Occupied object))
          (\<lambda>ss. Inr (c_len c, c\<lparr>c_slots := ss, c_len := c_len c + 1\<rparr>))
      else let index = c_head c in
        if index < length (c_slots c) then
          (case c_slots c ! index of
             Vacant next \<Rightarrow>
               Inr (index, c\<lparr>c_slots := (c_slots c)[index := Occupied object],
                             c_len := c_len c + 1, c_head := next\<rparr>)
           | Occupied _ \<Rightarrow> Inl Unreachable)
        else Inl IndexOutOfBounds)"

definition colo_remove :: "'a colo \<Rightarrow> nat \<Rightarrow> 'a option \<times> 'a colo" where
  "colo_remove c index =
     (if index < length (c_slots c) then
        (case c_slots c ! index of
           Vacant _ \<Rightarrow> (None, c)
         | Occupied object \<Rightarrow>
             (Some object, c\<lparr>c_slots := (c_slots c)[index := Vacant (c_head c)],
                             c_len := c_len c - 1, c_head := index\<rparr>))
      else (None, c))"

definition colo_clear :: "'a colo \<Rightarrow> 'a colo" where
  "colo_clear c = c\<lparr>c_slots := [], c_len := 0, c_head := usize_max\<rparr>"

definition colo_get :: "'a colo \<Rightarrow> nat \<Rightarrow> 'a option" where
  "colo_get c index =
     (if index < length (c_slots c) then
        (case c_slots c ! index of Vacant _ \<Rightarrow> None | Occupied object \<Rightarrow> Some object)
      else None)"

text \<open>Writing through \<open>get_mut\<close>, and through \<open>IndexMut\<close>, which panics on a vacant key.\<close>

definition colo_get_mut :: "'a colo \<Rightarrow> nat \<Rightarrow> ('a \<Rightarrow> 'a) \<Rightarrow> 'a colo option" where
  "colo_get_mut c index f =
     (case colo_get c index of
        None \<Rightarrow> None
      | Some object \<Rightarrow> Some (c\<lparr>c_slots := (c_slots c)[index := Occupied (f object)]\<rparr>))"

definition colo_index :: "'a colo \<Rightarrow> nat \<Rightarrow> 'a fallible" where
  "colo_index c index =
     (case colo_get c index of None \<Rightarrow> Inl ExpectNone | Some object \<Rightarrow> Inr object)"

definition colo_index_mut :: "'a colo \<Rightarrow> nat \<Rightarrow> ('a \<Rightarrow> 'a) \<Rightarrow> 'a colo fallible" where
  "colo_index_mut c index f =
     (case colo_get_mut c index f of None \<Rightarrow> Inl ExpectNone | Some c' \<Rightarrow> Inr c')"

definition colo_swap :: "'a colo \<Rightarrow> nat \<Rightarrow> nat \<Rightarrow> 'a colo fallible" where
  "colo_swap c a b =
     (if \<not> a < length (c_slots c) then Inl IndexOutOfBounds
      else if \<not> is_occupied (c_slots c ! a) then Inl AssertFailed
      else if \<not> b < length (c_slots c) then Inl IndexOutOfBounds
      else if \<not> is_occupied (c_slots c ! b) then Inl AssertFailed
      else if a \<noteq> b then
        (let lo = min a b; hi = max a b in
         Inr (c\<lparr>c_slots := (c_slots c)[lo := c_slots c ! hi, hi := c_slots c ! lo]\<rparr>))
      else Inr c)"

text \<open>
  \<open>retain\<close> calls a closure with mutable state \<open>'f\<close> on every occupied slot; the closure may
  change the object in place and says whether it stays.
\<close>

fun colo_retain_loop ::
  "('f \<Rightarrow> nat \<Rightarrow> 'a \<Rightarrow> bool \<times> 'a \<times> 'f) \<Rightarrow> 'f \<Rightarrow> 'a colo \<Rightarrow> nat list \<Rightarrow> 'f \<times> 'a colo" where
  "colo_retain_loop f st c [] = (st, c)"
| "colo_retain_loop f st c (i # is) =
     (case colo_get c i of
        None \<Rightarrow> colo_retain_loop f st c is
      | Some v \<Rightarrow>
          (case f st i v of (keep, v', st') \<Rightarrow>
             let c' = c\<lparr>c_slots := (c_slots c)[i := Occupied v']\<rparr> in
             if keep then colo_retain_loop f st' c' is
             else colo_retain_loop f st' (snd (colo_remove c' i)) is))"

definition colo_retain ::
  "('f \<Rightarrow> nat \<Rightarrow> 'a \<Rightarrow> bool \<times> 'a \<times> 'f) \<Rightarrow> 'f \<Rightarrow> 'a colo \<Rightarrow> 'f \<times> 'a colo" where
  "colo_retain f st c = colo_retain_loop f st c [0..<length (c_slots c)]"

text \<open>The three iterators skip the vacant slots and pair each object with its key.\<close>

fun occupied_from :: "nat \<Rightarrow> 'a slot list \<Rightarrow> (nat \<times> 'a) list" where
  "occupied_from i [] = []"
| "occupied_from i (Vacant _ # ss) = occupied_from (Suc i) ss"
| "occupied_from i (Occupied x # ss) = (i, x) # occupied_from (Suc i) ss"

definition colo_iter :: "'a colo \<Rightarrow> (nat \<times> 'a) list" where
  "colo_iter c = occupied_from 0 (c_slots c)"

fun colo_extend :: "'a colo \<Rightarrow> 'a list \<Rightarrow> 'a colo fallible" where
  "colo_extend c [] = Inr c"
| "colo_extend c (x # xs) = bind_fallible (colo_insert c x) (\<lambda>(_, c'). colo_extend c' xs)"

definition colo_from_iter :: "'a list \<Rightarrow> 'a colo fallible" where
  "colo_from_iter xs = colo_extend colo_new xs"

section \<open>Invariant\<close>

text \<open>
  Following the vacant slots from \<open>h\<close> visits exactly the indices \<open>is\<close> and then meets the
  sentinel.
\<close>

fun free_chain :: "'a slot list \<Rightarrow> nat \<Rightarrow> nat list \<Rightarrow> bool" where
  "free_chain ss h [] \<longleftrightarrow> h = usize_max"
| "free_chain ss h (i # is) \<longleftrightarrow> h = i \<and> i < length ss \<and>
     (case ss ! i of Vacant next \<Rightarrow> free_chain ss next is | Occupied _ \<Rightarrow> False)"

definition vacant_keys :: "'a slot list \<Rightarrow> nat set" where
  "vacant_keys ss = {i. i < length ss \<and> \<not> is_occupied (ss ! i)}"

definition colo_inv :: "'a colo \<Rightarrow> bool" where
  "colo_inv c \<longleftrightarrow>
     length (c_slots c) \<le> isize_max \<and>
     c_len c = length (filter is_occupied (c_slots c)) \<and>
     (\<exists>is. free_chain (c_slots c) (c_head c) is \<and> distinct is \<and> set is = vacant_keys (c_slots c))"

lemma vacant_keys_update_Occupied:
  "i < length ss \<Longrightarrow> vacant_keys (ss[i := Occupied x]) = vacant_keys ss - {i}"
  by (auto simp: vacant_keys_def nth_list_update)

lemma vacant_keys_update_Vacant:
  "i < length ss \<Longrightarrow> vacant_keys (ss[i := Vacant n]) = insert i (vacant_keys ss)"
  by (auto simp: vacant_keys_def nth_list_update split: if_splits)

lemma vacant_keys_append_Occupied [simp]: "vacant_keys (ss @ [Occupied x]) = vacant_keys ss"
  by (auto simp: vacant_keys_def nth_append less_Suc_eq)

lemma not_occupied_conv: "\<not> is_occupied s \<longleftrightarrow> (\<exists>n. s = Vacant n)"
  by (cases s) auto

lemma free_chain_update:
  assumes "free_chain ss h is" and "i \<notin> set is"
  shows "free_chain (ss[i := s]) h is"
  using assms by (induction "is" arbitrary: h) (auto split: slot.splits)

lemma free_chain_subset: "free_chain ss h is \<Longrightarrow> set is \<subseteq> vacant_keys ss"
  by (induction "is" arbitrary: h) (auto simp: vacant_keys_def split: slot.splits)

lemma colo_invI:
  assumes "free_chain (c_slots c) (c_head c) is" "distinct is"
    "set is = vacant_keys (c_slots c)" "length (c_slots c) \<le> isize_max"
    "c_len c = length (filter is_occupied (c_slots c))"
  shows "colo_inv c"
  using assms unfolding colo_inv_def by blast

lemma colo_invE:
  assumes "colo_inv c"
  obtains "is" where "free_chain (c_slots c) (c_head c) is" "distinct is"
    "set is = vacant_keys (c_slots c)" "length (c_slots c) \<le> isize_max"
    "c_len c = length (filter is_occupied (c_slots c))"
  using assms unfolding colo_inv_def by blast

text \<open>With an empty free list every slot is occupied, so the length is the next index.\<close>

lemma colo_inv_head_end:
  assumes "colo_inv c" and "c_head c = usize_max"
  shows "vacant_keys (c_slots c) = {}" and "c_len c = length (c_slots c)"
proof -
  obtain "is" where fc: "free_chain (c_slots c) (c_head c) is"
    and vs: "set is = vacant_keys (c_slots c)" and le: "length (c_slots c) \<le> isize_max"
    and len: "c_len c = length (filter is_occupied (c_slots c))"
    using assms(1) by (elim colo_invE)
  have "is = []"
    using fc assms(2) le isize_less_usize by (cases "is") auto
  with vs show v: "vacant_keys (c_slots c) = {}" by simp
  have "filter is_occupied (c_slots c) = c_slots c"
    using v by (auto simp: vacant_keys_def filter_id_conv in_set_conv_nth)
  with len show "c_len c = length (c_slots c)" by simp
qed

lemma colo_inv_head_vacant:
  assumes "colo_inv c" and "c_head c \<noteq> usize_max"
  obtains n where "c_head c < length (c_slots c)" and "c_slots c ! c_head c = Vacant n"
proof -
  obtain "is" where fc: "free_chain (c_slots c) (c_head c) is"
    using assms(1) by (elim colo_invE)
  with assms(2) that show thesis by (cases "is") (auto split: slot.splits)
qed

section \<open>Every operation keeps the invariant\<close>

lemma colo_new_inv [inv_intros, simp]: "colo_inv colo_new"
  by (auto simp: colo_inv_def colo_new_def vacant_keys_def intro!: exI [of _ "[]"])

lemma colo_with_limited_inv [inv_intros]: "colo_inv (colo_with_limited n)"
  by (auto simp: colo_inv_def colo_with_limited_def vacant_keys_def intro!: exI [of _ "[]"])

lemma colo_clear_inv [inv_intros]: "colo_inv (colo_clear c)"
  by (auto simp: colo_inv_def colo_clear_def vacant_keys_def intro!: exI [of _ "[]"])

lemma colo_inv_push:
  assumes inv: "colo_inv c" and h: "c_head c = usize_max" and l: "length (c_slots c) < isize_max"
  shows "colo_inv (c\<lparr>c_slots := c_slots c @ [Occupied x], c_len := c_len c + 1\<rparr>)"
  using colo_inv_head_end [OF inv h] inv h l
  by (auto simp: colo_inv_def intro!: exI [of _ "[]"])

lemma colo_inv_reuse:
  assumes inv: "colo_inv c" and h: "c_head c < length (c_slots c)"
    and v: "c_slots c ! c_head c = Vacant n"
  shows "colo_inv (c\<lparr>c_slots := (c_slots c)[c_head c := Occupied x],
                     c_len := c_len c + 1, c_head := n\<rparr>)"
proof -
  obtain "is" where fc: "free_chain (c_slots c) (c_head c) is" and d: "distinct is"
    and vs: "set is = vacant_keys (c_slots c)" and le: "length (c_slots c) \<le> isize_max"
    and len: "c_len c = length (filter is_occupied (c_slots c))"
    using inv by (elim colo_invE)
  have "c_head c \<noteq> usize_max" using h le by auto
  with fc obtain js where js: "is = c_head c # js" by (cases "is") auto
  have "free_chain (c_slots c) n js" using fc js v by simp
  then have fc': "free_chain ((c_slots c)[c_head c := Occupied x]) n js"
    using d js by (intro free_chain_update) auto
  have "length (filter is_occupied ((c_slots c)[c_head c := Occupied x])) = c_len c + 1"
    using filter_update_length [OF h, of is_occupied "Occupied x"] v len by simp
  moreover have "set js = vacant_keys ((c_slots c)[c_head c := Occupied x])"
    using vs js d h by (auto simp: vacant_keys_update_Occupied)
  ultimately show ?thesis
    using fc' d js le by (intro colo_invI [of _ js]) simp_all
qed

text \<open>The three ways an insertion can return.\<close>

lemma colo_insert_cases [consumes 1, case_names full push reuse]:
  assumes "colo_insert c x = Inr (k, c')"
  obtains "c_limited c \<noteq> 0" "c_len c = c_limited c" "k = 0" "c' = c"
  | "c_limited c = 0 \<or> c_len c \<noteq> c_limited c" "c_head c = usize_max"
    "length (c_slots c) < isize_max" "k = c_len c"
    "c' = c\<lparr>c_slots := c_slots c @ [Occupied x], c_len := c_len c + 1\<rparr>"
  | n where "c_limited c = 0 \<or> c_len c \<noteq> c_limited c" "c_head c \<noteq> usize_max" "k = c_head c"
    "c_head c < length (c_slots c)" "c_slots c ! c_head c = Vacant n"
    "c' = c\<lparr>c_slots := (c_slots c)[c_head c := Occupied x], c_len := c_len c + 1, c_head := n\<rparr>"
  using assms by (auto simp: colo_insert_def Let_def split: if_splits slot.splits)

theorem colo_insert_inv [inv_intros]:
  assumes "colo_inv c" and "colo_insert c x = Inr (k, c')"
  shows "colo_inv c'"
  using assms(2)
proof (cases rule: colo_insert_cases)
  case push
  with colo_inv_push [OF assms(1)] show ?thesis by simp
next
  case (reuse n)
  with colo_inv_reuse [OF assms(1)] show ?thesis by simp
qed (use assms(1) in simp)

lemma colo_inv_free:
  assumes inv: "colo_inv c" and h: "i < length (c_slots c)"
    and oc: "c_slots c ! i = Occupied x"
  shows "colo_inv (c\<lparr>c_slots := (c_slots c)[i := Vacant (c_head c)],
                     c_len := c_len c - 1, c_head := i\<rparr>)"
proof -
  obtain "is" where fc: "free_chain (c_slots c) (c_head c) is" and d: "distinct is"
    and vs: "set is = vacant_keys (c_slots c)" and le: "length (c_slots c) \<le> isize_max"
    and len: "c_len c = length (filter is_occupied (c_slots c))"
    using inv by (elim colo_invE)
  let ?ss = "(c_slots c)[i := Vacant (c_head c)]"
  have ni: "i \<notin> set is" using vs oc by (auto simp: vacant_keys_def)
  have "free_chain ?ss (c_head c) is"
    using fc ni by (rule free_chain_update)
  with h have fc': "free_chain ?ss i (i # is)" by simp
  have "set (i # is) = vacant_keys ?ss"
    using vs h by (simp add: vacant_keys_update_Vacant)
  moreover have "length (filter is_occupied ?ss) = c_len c - 1"
    using filter_update_length [OF h, of is_occupied "Vacant (c_head c)"] oc len by simp
  ultimately show ?thesis
    using d ni le by (intro colo_invI [of _ "i # is"]) (use fc' in \<open>simp_all del: free_chain.simps\<close>)
qed

theorem colo_remove_inv [inv_intros]:
  assumes "colo_inv c" and "colo_remove c i = (r, c')"
  shows "colo_inv c'"
proof (cases "colo_get c i")
  case None
  with assms show ?thesis
    by (auto simp: colo_remove_def colo_get_def split: if_splits slot.splits)
next
  case (Some x)
  then have "i < length (c_slots c)" "c_slots c ! i = Occupied x"
    by (auto simp: colo_get_def split: if_splits slot.splits)
  with assms(2) colo_inv_free [OF assms(1)] show ?thesis
    by (auto simp: colo_remove_def)
qed

lemma colo_inv_overwrite [inv_intros]:
  assumes "colo_inv c" and "i < length (c_slots c)" and "is_occupied (c_slots c ! i)"
    and "is_occupied s"
  shows "colo_inv (c\<lparr>c_slots := (c_slots c)[i := s]\<rparr>)"
proof -
  obtain y where s: "s = Occupied y" using assms(4) by (cases s) auto
  obtain "is" where fc: "free_chain (c_slots c) (c_head c) is" and d: "distinct is"
    and vs: "set is = vacant_keys (c_slots c)" and le: "length (c_slots c) \<le> isize_max"
    and len: "c_len c = length (filter is_occupied (c_slots c))"
    using assms(1) by (elim colo_invE)
  have ni: "i \<notin> set is" using vs assms(3) by (auto simp: vacant_keys_def)
  have "free_chain ((c_slots c)[i := s]) (c_head c) is"
    using fc ni by (rule free_chain_update)
  moreover have "set is = vacant_keys ((c_slots c)[i := s])"
    using vs s assms(2) ni by (simp add: vacant_keys_update_Occupied)
  moreover have "length (filter is_occupied ((c_slots c)[i := s])) = c_len c"
    using filter_update_length [OF assms(2), of is_occupied s] assms(3,4) len by simp
  ultimately show ?thesis
    using d le by (intro colo_invI [of _ "is"]) simp_all
qed

lemma colo_get_Some_conv:
  "colo_get c i = Some x \<longleftrightarrow> i < length (c_slots c) \<and> c_slots c ! i = Occupied x"
  by (auto simp: colo_get_def split: if_splits slot.splits)

lemma colo_get_mut_inv [inv_intros]:
  "colo_inv c \<Longrightarrow> colo_get_mut c i f = Some c' \<Longrightarrow> colo_inv c'"
  by (auto simp: colo_get_mut_def colo_get_Some_conv intro!: colo_inv_overwrite split: option.splits)

theorem colo_swap_inv [inv_intros]:
  assumes "colo_inv c" and "colo_swap c a b = Inr c'"
  shows "colo_inv c'"
proof (cases "a = b")
  case True
  with assms show ?thesis by (auto simp: colo_swap_def split: if_splits)
next
  case False
  let ?lo = "min a b" and ?hi = "max a b" and ?ss = "c_slots c"
  have bounds: "?lo < length ?ss" "?hi < length ?ss" "is_occupied (?ss ! ?lo)"
    "is_occupied (?ss ! ?hi)" and c': "c' = c\<lparr>c_slots := ?ss[?lo := ?ss ! ?hi, ?hi := ?ss ! ?lo]\<rparr>"
    using assms(2) False by (auto simp: colo_swap_def Let_def min_def max_def split: if_splits)
  have "colo_inv (c\<lparr>c_slots := ?ss[?lo := ?ss ! ?hi]\<rparr>)" (is "colo_inv ?c1")
    using assms(1) bounds by (intro colo_inv_overwrite)
  then have "colo_inv (?c1\<lparr>c_slots := (c_slots ?c1)[?hi := ?ss ! ?lo]\<rparr>)"
    using bounds by (rule_tac colo_inv_overwrite) (auto simp: nth_list_update)
  with c' show ?thesis by simp
qed

lemma colo_retain_loop_inv:
  "colo_inv c \<Longrightarrow> colo_inv (snd (colo_retain_loop f st c is))"
proof (induction "is" arbitrary: st c)
  case (Cons i "is")
  show ?case
  proof (cases "colo_get c i")
    case None
    with Cons show ?thesis by simp
  next
    case (Some v)
    obtain keep v' st' where f: "f st i v = (keep, v', st')" by (cases "f st i v")
    let ?c = "c\<lparr>c_slots := (c_slots c)[i := Occupied v']\<rparr>"
    have inv: "colo_inv ?c"
      using Cons.prems Some by (auto simp: colo_get_Some_conv intro!: colo_inv_overwrite)
    have "colo_inv (snd (colo_remove ?c i))"
      using colo_remove_inv [OF inv] by (cases "colo_remove ?c i") simp
    then show ?thesis
      using Some f Cons.IH [OF inv] Cons.IH [of "snd (colo_remove ?c i)"] by (simp add: Let_def)
  qed
qed simp

lemma colo_retain_inv [inv_intros]: "colo_inv c \<Longrightarrow> colo_inv (snd (colo_retain f st c))"
  unfolding colo_retain_def by (rule colo_retain_loop_inv)

lemma colo_extend_inv [inv_intros]:
  "colo_inv c \<Longrightarrow> colo_extend c xs = Inr c' \<Longrightarrow> colo_inv c'"
  by (induction xs arbitrary: c) (auto dest: colo_insert_inv)

section \<open>The slab as a map\<close>

lemma colo_get_fresh:
  assumes "colo_inv c"
  shows "colo_get c (colo_next_vacant c) = None"
proof (cases "c_head c = usize_max")
  case True
  with colo_inv_head_end(2) [OF assms] show ?thesis
    by (simp add: colo_next_vacant_def colo_get_def)
next
  case False
  with assms obtain n where "c_slots c ! c_head c = Vacant n" by (rule colo_inv_head_vacant)
  with False show ?thesis by (simp add: colo_next_vacant_def colo_get_def)
qed

lemma colo_insert_get:
  assumes "colo_inv c" and "colo_insert c x = Inr (k, c')"
    and "c_limited c = 0 \<or> c_len c < c_limited c"
  shows "k = colo_next_vacant c \<and> colo_get c' = (colo_get c)(k \<mapsto> x) \<and> c_len c' = c_len c + 1"
  using assms(2)
proof (cases rule: colo_insert_cases)
  case push
  with colo_inv_head_end(2) [OF assms(1)] show ?thesis
    by (auto simp: colo_next_vacant_def colo_get_def fun_eq_iff nth_append)
next
  case (reuse n)
  then show ?thesis
    by (auto simp: colo_next_vacant_def colo_get_def fun_eq_iff nth_list_update)
qed (use assms(3) in auto)

lemma colo_insert_full:
  "c_limited c \<noteq> 0 \<Longrightarrow> c_len c = c_limited c \<Longrightarrow> colo_insert c x = Inr (0, c)"
  by (simp add: colo_insert_def)

text \<open>An insertion into a well-formed slab can only fail by running out of memory.\<close>

lemma colo_insert_total:
  assumes "colo_inv c" and "length (c_slots c) < isize_max"
  shows "\<exists>k c'. colo_insert c x = Inr (k, c')"
proof (cases "c_head c = usize_max")
  case True
  with assms(2) show ?thesis by (simp add: colo_insert_def vec_push_def)
next
  case False
  with assms(1) obtain n where "c_head c < length (c_slots c)" "c_slots c ! c_head c = Vacant n"
    by (rule colo_inv_head_vacant)
  with False show ?thesis by (simp add: colo_insert_def Let_def)
qed

lemma colo_remove_get:
  "colo_remove c k = (r, c') \<Longrightarrow> r = colo_get c k \<and> colo_get c' = (colo_get c)(k := None)"
  by (auto simp: colo_remove_def colo_get_def fun_eq_iff nth_list_update
      split: if_splits slot.splits)

lemma colo_remove_len:
  assumes "colo_inv c" and "colo_get c k = Some x" and "colo_remove c k = (r, c')"
  shows "c_len c = c_len c' + 1"
proof -
  have "Occupied x \<in> set (filter is_occupied (c_slots c))"
    using assms(2) by (auto simp: colo_get_Some_conv in_set_conv_nth)
  then have "0 < length (filter is_occupied (c_slots c))" by (rule length_pos_if_in_set)
  with assms(1) have "0 < c_len c" by (simp add: colo_inv_def)
  with assms(2,3) show ?thesis by (auto simp: colo_remove_def colo_get_Some_conv)
qed

lemma colo_remove_limited [simp]: "c_limited (snd (colo_remove c k)) = c_limited c"
  by (auto simp: colo_remove_def split: slot.splits)

lemma colo_insert_limited: "colo_insert c x = Inr (k, c') \<Longrightarrow> c_limited c' = c_limited c"
  by (auto elim: colo_insert_cases)

lemma colo_get_mut_get:
  "colo_get_mut c k f = Some c' \<longleftrightarrow> (\<exists>x. colo_get c k = Some x \<and>
     c' = c\<lparr>c_slots := (c_slots c)[k := Occupied (f x)]\<rparr>)"
  by (auto simp: colo_get_mut_def split: option.splits)

lemma colo_get_overwrite:
  "k < length (c_slots c) \<Longrightarrow>
   colo_get (c\<lparr>c_slots := (c_slots c)[k := Occupied y]\<rparr>) = (colo_get c)(k \<mapsto> y)"
  by (auto simp: colo_get_def fun_eq_iff nth_list_update)

lemma colo_clear_get [simp]: "colo_get (colo_clear c) = Map.empty"
  by (auto simp: colo_get_def colo_clear_def fun_eq_iff)

lemma colo_swap_slots:
  assumes "colo_swap c a b = Inr c'"
  shows "a < length (c_slots c) \<and> b < length (c_slots c) \<and>
    c_slots c' = (c_slots c)[a := c_slots c ! b, b := c_slots c ! a]"
  using assms
  by (auto simp: colo_swap_def Let_def min_def max_def list_update_swap split: if_splits)

lemma colo_swap_get:
  assumes "colo_swap c a b = Inr c'"
  shows "colo_get c' = (colo_get c)(a := colo_get c b, b := colo_get c a)"
proof
  fix i
  show "colo_get c' i = ((colo_get c)(a := colo_get c b, b := colo_get c a)) i"
    using colo_swap_slots [OF assms] by (simp add: colo_get_def nth_list_update)
qed

text \<open>The iterators list exactly the live entries, in key order.\<close>

lemma occupied_from_set:
  "(k, x) \<in> set (occupied_from i ss) \<longleftrightarrow> (\<exists>j<length ss. k = i + j \<and> ss ! j = Occupied x)"
  by (induction i ss rule: occupied_from.induct) (auto simp: less_Suc_eq_0_disj)

lemma occupied_from_sorted: "sorted_wrt (<) (map fst (occupied_from i ss))"
  by (induction i ss rule: occupied_from.induct) (auto simp: occupied_from_set)

lemma colo_iter_entries: "(k, x) \<in> set (colo_iter c) \<longleftrightarrow> colo_get c k = Some x"
  by (simp add: colo_iter_def occupied_from_set colo_get_Some_conv)

lemma colo_iter_sorted: "sorted_wrt (<) (map fst (colo_iter c))"
  by (simp add: colo_iter_def occupied_from_sorted)

lemma colo_iter_length: "length (colo_iter c) = length (filter is_occupied (c_slots c))"
proof -
  have "length (occupied_from i ss) = length (filter is_occupied ss)" for i and ss :: "'a slot list"
    by (induction i ss rule: occupied_from.induct) auto
  then show ?thesis by (simp add: colo_iter_def)
qed

section \<open>The interface the runtime relies on\<close>

text \<open>
  The executor and the reactor use an unlimited slab as a store of fresh keys: they read
  \<open>next_vacant\<close>, build an object that remembers that key, and insert it.
\<close>

locale slab =
  fixes invar :: "'c \<Rightarrow> bool"
    and lookup :: "'c \<Rightarrow> nat \<Rightarrow> 'a option"
    and next_key :: "'c \<Rightarrow> nat"
    and put :: "'c \<Rightarrow> 'a \<Rightarrow> (nat \<times> 'c) fallible"
    and take_out :: "'c \<Rightarrow> nat \<Rightarrow> 'a option \<times> 'c"
  assumes next_key_fresh: "invar c \<Longrightarrow> lookup c (next_key c) = None"
    and put_key: "invar c \<Longrightarrow> put c x = Inr (k, c') \<Longrightarrow> k = next_key c"
    and put_lookup: "invar c \<Longrightarrow> put c x = Inr (k, c') \<Longrightarrow> lookup c' = (lookup c)(k \<mapsto> x)"
    and put_invar: "invar c \<Longrightarrow> put c x = Inr (k, c') \<Longrightarrow> invar c'"
    and take_result: "invar c \<Longrightarrow> take_out c k = (r, c') \<Longrightarrow> r = lookup c k"
    and take_lookup: "invar c \<Longrightarrow> take_out c k = (r, c') \<Longrightarrow> lookup c' = (lookup c)(k := None)"
    and take_invar: "invar c \<Longrightarrow> take_out c k = (r, c') \<Longrightarrow> invar c'"
begin

lemma put_keeps_others:
  assumes "invar c" and "put c x = Inr (k, c')" and "lookup c j = Some y"
  shows "lookup c' j = Some y"
  using next_key_fresh [OF assms(1)] put_key [OF assms(1,2)] put_lookup [OF assms(1,2)] assms(3)
  by auto

lemma put_then_take:
  assumes "invar c" and "put c x = Inr (k, c')" and "take_out c' k = (r, c'')"
  shows "r = Some x \<and> lookup c'' = lookup c"
proof -
  have "lookup c k = None"
    using assms(1,2) next_key_fresh put_key by blast
  moreover have "lookup c' = (lookup c)(k \<mapsto> x)"
    using assms(1,2) by (rule put_lookup)
  ultimately show ?thesis
    using take_result [OF put_invar [OF assms(1,2)] assms(3)]
      take_lookup [OF put_invar [OF assms(1,2)] assms(3)]
    by (auto simp: fun_eq_iff)
qed

lemma take_twice:
  assumes "invar c" and "take_out c k = (r, c')" and "take_out c' k = (r', c'')"
  shows "r' = None"
  using take_result [OF take_invar [OF assms(1,2)] assms(3)] take_lookup [OF assms(1,2)] by simp

end

definition runtime_colo :: "'a colo \<Rightarrow> bool" where
  "runtime_colo c \<longleftrightarrow> colo_inv c \<and> c_limited c = 0"

lemma runtime_colo_insert:
  assumes "runtime_colo c" and "colo_insert c x = Inr (k, c')"
  shows "k = colo_next_vacant c" "colo_get c' = (colo_get c)(k \<mapsto> x)" "runtime_colo c'"
proof -
  have inv: "colo_inv c" and l: "c_limited c = 0"
    using assms(1) by (simp_all add: runtime_colo_def)
  show "k = colo_next_vacant c" "colo_get c' = (colo_get c)(k \<mapsto> x)"
    using colo_insert_get [OF inv assms(2)] l by simp_all
  show "runtime_colo c'"
    using colo_insert_inv [OF inv assms(2)] colo_insert_limited [OF assms(2)] l
    by (simp add: runtime_colo_def)
qed

lemma runtime_colo_remove:
  assumes "runtime_colo c" and "colo_remove c k = (r, c')"
  shows "runtime_colo c'"
  using colo_remove_inv [OF _ assms(2)] colo_remove_limited [of c k] assms
  by (simp add: runtime_colo_def)

interpretation colo: slab runtime_colo colo_get colo_next_vacant colo_insert colo_remove
proof (unfold_locales, goal_cases)
  case (1 c)
  then show ?case by (simp add: runtime_colo_def colo_get_fresh)
next
  case (2 c x k c')
  then show ?case by (rule runtime_colo_insert(1))
next
  case (3 c x k c')
  then show ?case by (rule runtime_colo_insert(2))
next
  case (4 c x k c')
  then show ?case by (rule runtime_colo_insert(3))
next
  case (5 c k r c')
  then show ?case using colo_remove_get by blast
next
  case (6 c k r c')
  then show ?case using colo_remove_get by blast
next
  case (7 c k r c')
  then show ?case by (rule runtime_colo_remove)
qed

section \<open>Properties\<close>

text \<open>
  (C20) Inserting into a well-formed slab that is not full keeps it well formed (exact count,
  free list through every vacant slot), returns the key \<open>next_vacant\<close> had announced, which
  was unused, and changes the stored map at that key only.
\<close>

theorem colo_insert_correct:
  assumes "colo_inv c" and "c_limited c = 0 \<or> c_len c < c_limited c" and "colo_insert c x = Inr (k, c')"
  shows "colo_inv c' \<and> k = colo_next_vacant c \<and> colo_get c k = None \<and>
     colo_get c' = (colo_get c)(k \<mapsto> x) \<and> c_len c' = c_len c + 1"
  using colo_insert_inv [OF assms(1,3)] colo_insert_get [OF assms(1,3,2)] colo_get_fresh [OF assms(1)]
  by auto

theorem colo_insert_correct_witness:
  "colo_get \<lparr>c_slots = [Occupied (7::nat)], c_limited = 0, c_len = 1, c_head = usize_max\<rparr> 0 = Some 7"
proof -
  have run: "colo_insert colo_new (7::nat) =
      Inr (0, \<lparr>c_slots = [Occupied 7], c_limited = 0, c_len = 1, c_head = usize_max\<rparr>)"
    by (simp add: colo_insert_def colo_new_def vec_push_def isize_max_def)
  show ?thesis
    using colo_insert_correct [OF colo_new_inv _ run] by (simp add: colo_new_def)
qed

text \<open>
  (C21) Removing a key from a well-formed slab returns what the slab stored there, forgets
  exactly that key and keeps the slab well formed; the freed key is the next one handed out.
\<close>

theorem colo_remove_correct:
  assumes "colo_inv c" and "colo_remove c k = (r, c')"
  shows "colo_inv c' \<and> r = colo_get c k \<and> colo_get c' = (colo_get c)(k := None) \<and>
     (r \<noteq> None \<longrightarrow> c_len c = c_len c' + 1 \<and> colo_next_vacant c' = k) \<and> (r = None \<longrightarrow> c' = c)"
proof -
  have get: "r = colo_get c k" "colo_get c' = (colo_get c)(k := None)"
    using colo_remove_get [OF assms(2)] by simp_all
  have "colo_next_vacant c' = k" if "r \<noteq> None"
    using assms that by (auto simp: colo_remove_def colo_next_vacant_def colo_inv_def split: if_splits slot.splits)
  moreover have "c' = c" if "r = None"
    using assms(2) that by (auto simp: colo_remove_def split: if_splits slot.splits)
  ultimately show ?thesis
    using colo_remove_inv [OF assms] get colo_remove_len [OF assms(1) _ assms(2)] by auto
qed

theorem colo_remove_correct_witness:
  "colo_get \<lparr>c_slots = [Vacant usize_max], c_limited = 0, c_len = 0, c_head = 0\<rparr> (0::nat) = (None :: nat option)"
proof -
  let ?c = "\<lparr>c_slots = [Occupied (7::nat)], c_limited = 0, c_len = 1, c_head = usize_max\<rparr>"
  have inv: "colo_inv ?c"
    using colo_inv_push [OF colo_new_inv, of 7] by (simp add: colo_new_def isize_max_def)
  have run: "colo_remove ?c 0 = (Some 7, \<lparr>c_slots = [Vacant usize_max], c_limited = 0, c_len = 0, c_head = 0\<rparr>)"
    by (simp add: colo_remove_def)
  show ?thesis using colo_remove_correct [OF inv run] by simp
qed

end
