(* ===== verification/Queue_Spec.thy ===== *)
theory Queue_Spec
  imports Cynthia_Prelude
begin

text \<open>
  The results of the concurrent queues (src/cynthia/src/platform/queue/mod.rs) and the
  contract the three queue implementations share: a queue is a list of values, a closed
  flag and an optional capacity. \<open>push\<close> and \<open>pop\<close> are loops, so they return an
  \<open>option\<close> whose \<open>None\<close> is "does not return"; the laws promise a result.
\<close>

datatype pop_error = PopEmpty | PopClosed

datatype 'a push_error = PushFull 'a | PushClosed 'a

fun pop_error_is_empty :: "pop_error \<Rightarrow> bool" where
  "pop_error_is_empty PopEmpty = True"
| "pop_error_is_empty PopClosed = False"

fun pop_error_is_closed :: "pop_error \<Rightarrow> bool" where
  "pop_error_is_closed PopEmpty = False"
| "pop_error_is_closed PopClosed = True"

fun push_error_into_inner :: "'a push_error \<Rightarrow> 'a" where
  "push_error_into_inner (PushFull t) = t"
| "push_error_into_inner (PushClosed t) = t"

fun push_error_is_full :: "'a push_error \<Rightarrow> bool" where
  "push_error_is_full (PushFull _) = True"
| "push_error_is_full (PushClosed _) = False"

fun push_error_is_closed :: "'a push_error \<Rightarrow> bool" where
  "push_error_is_closed (PushFull _) = False"
| "push_error_is_closed (PushClosed _) = True"

text \<open>
  A \<open>compare_exchange_weak\<close> may fail spuriously. A list of flags tells which of the coming
  attempts do; after its end none does, so a run meets finitely many such failures, in any
  pattern.
\<close>

fun spurious :: "bool list \<Rightarrow> bool" where
  "spurious [] = False"
| "spurious (w # _) = w"

text \<open>What the abstract queue answers.\<close>

definition spec_push :: "nat option \<Rightarrow> bool \<Rightarrow> 'a list \<Rightarrow> 'a \<Rightarrow> 'a push_error + unit" where
  "spec_push cap closed xs v =
     (if closed then Inl (PushClosed v)
      else if cap = Some (length xs) then Inl (PushFull v)
      else Inr ())"

definition spec_pop :: "bool \<Rightarrow> 'a list \<Rightarrow> pop_error + 'a" where
  "spec_pop closed xs =
     (case xs of [] \<Rightarrow> Inl (if closed then PopClosed else PopEmpty) | x # _ \<Rightarrow> Inr x)"

text \<open>Histories: the operations of one thread, in order, and what the abstract queue answers.\<close>

datatype 'a queue_op = OpPush 'a | OpPop | OpClose

datatype 'a queue_res = ResPush "'a push_error + unit" | ResPop "pop_error + 'a" | ResClose bool

fun spec_op :: "nat option \<Rightarrow> bool \<times> 'a list \<Rightarrow> 'a queue_op \<Rightarrow> (bool \<times> 'a list) \<times> 'a queue_res" where
  "spec_op cap (c, xs) (OpPush v) =
     ((c, if spec_push cap c xs v = Inr () then xs @ [v] else xs), ResPush (spec_push cap c xs v))"
| "spec_op cap (c, xs) OpPop = ((c, tl xs), ResPop (spec_pop c xs))"
| "spec_op cap (c, xs) OpClose = ((True, xs), ResClose (\<not> c))"

fun spec_run :: "nat option \<Rightarrow> bool \<times> 'a list \<Rightarrow> 'a queue_op list \<Rightarrow> (bool \<times> 'a list) \<times> 'a queue_res list" where
  "spec_run cap s [] = (s, [])"
| "spec_run cap s (p # ps) =
     (let (s', r) = spec_op cap s p; (s'', rs) = spec_run cap s' ps in (s'', r # rs))"

text \<open>
  The interface of a FIFO queue. The contents are a list, oldest first. A failed push
  leaves the contents alone and gives the value back. \<open>room\<close> says that the address space
  has place for one more value; it limits only the unbounded queue.
\<close>

locale fifo =
  fixes invar :: "'q \<Rightarrow> bool"
    and contents :: "'q \<Rightarrow> 'a list"
    and closed :: "'q \<Rightarrow> bool"
    and capacity :: "'q \<Rightarrow> nat option"
    and room :: "'q \<Rightarrow> bool"
    and push :: "'q \<Rightarrow> 'a \<Rightarrow> ('q \<times> ('a push_error + unit)) option"
    and pop :: "'q \<Rightarrow> ('q \<times> (pop_error + 'a)) option"
    and close :: "'q \<Rightarrow> 'q \<times> bool"
  assumes push_spec: "invar q \<Longrightarrow> room q \<Longrightarrow> \<exists>q'. push q v = Some (q', spec_push (capacity q) (closed q) (contents q) v)
      \<and> invar q' \<and> closed q' = closed q \<and> capacity q' = capacity q
      \<and> contents q' = (if spec_push (capacity q) (closed q) (contents q) v = Inr ()
                        then contents q @ [v] else contents q)"
    and pop_spec: "invar q \<Longrightarrow> \<exists>q'. pop q = Some (q', spec_pop (closed q) (contents q))
      \<and> invar q' \<and> closed q' = closed q \<and> capacity q' = capacity q \<and> contents q' = tl (contents q)"
    and close_spec: "invar q \<Longrightarrow> \<exists>q'. close q = (q', \<not> closed q)
      \<and> invar q' \<and> closed q' \<and> capacity q' = capacity q \<and> contents q' = contents q"
    and capacity_bound: "invar q \<Longrightarrow> capacity q = Some n \<Longrightarrow> length (contents q) \<le> n"
    and room_bound: "8 * (length (contents q) + 1) \<le> isize_max \<Longrightarrow> room q"
begin

lemma push_okE:
  assumes "invar q" "room q" and "push q v = Some (q', Inr ())"
  shows "invar q'" "contents q' = contents q @ [v]" "\<not> closed q" "capacity q \<noteq> Some (length (contents q))"
    "closed q' = closed q" "capacity q' = capacity q"
  using push_spec [OF assms(1,2), of v] assms(3) by (auto simp: spec_push_def split: if_splits)

lemma push_errE:
  assumes "invar q" "room q" and "push q v = Some (q', Inl e)"
  shows "invar q'" "contents q' = contents q" "push_error_into_inner e = v"
    "push_error_is_closed e \<longleftrightarrow> closed q" "closed q' = closed q" "capacity q' = capacity q"
  using push_spec [OF assms(1,2), of v] assms(3) by (auto simp: spec_push_def split: if_splits)

lemma pop_okE:
  assumes "invar q" and "pop q = Some (q', Inr v)"
  shows "invar q'" "contents q = v # contents q'" "closed q' = closed q" "capacity q' = capacity q"
  using pop_spec [OF assms(1)] assms(2) by (auto simp: spec_pop_def split: list.splits)

lemma pop_errE:
  assumes "invar q" and "pop q = Some (q', Inl e)"
  shows "invar q'" "contents q = []" "contents q' = []" "pop_error_is_closed e \<longleftrightarrow> closed q"
    "closed q' = closed q" "capacity q' = capacity q"
  using pop_spec [OF assms(1)] assms(2) by (auto simp: spec_pop_def split: list.splits if_splits)

lemma push_returns: "invar q \<Longrightarrow> room q \<Longrightarrow> \<exists>q' r. push q v = Some (q', r)"
  using push_spec by blast

lemma pop_returns: "invar q \<Longrightarrow> \<exists>q' r. pop q = Some (q', r)"
  using pop_spec by blast

lemma push_pop_fifo:
  assumes "invar q" "room q" and "push q v = Some (q1, Inr ())" and "contents q = []"
  shows "\<exists>q2. pop q1 = Some (q2, Inr v) \<and> contents q2 = []"
  using pop_spec [OF push_okE(1) [OF assms(1,2,3)]] push_okE(2) [OF assms(1,2,3)] assms(4)
  by (auto simp: spec_pop_def)

lemma pop_after_close:
  assumes "invar q" and "close q = (q1, b)" and "pop q1 = Some (q2, r)"
  shows "r = spec_pop True (contents q)"
  using close_spec [OF assms(1)] assms(2) pop_spec [of q1] assms(3) by auto

lemma push_after_close:
  assumes "invar q" and "close q = (q1, b)" and "room q1" and "push q1 v = Some (q2, r)"
  shows "r = Inl (PushClosed v) \<and> contents q2 = contents q"
  using close_spec [OF assms(1)] assms(2) push_spec [of q1 v] assms(3,4) by (auto simp: spec_push_def)

lemma close_twice:
  assumes "invar q" and "close q = (q1, b)" and "close q1 = (q2, b')"
  shows "\<not> b'"
  using close_spec [OF assms(1)] assms(2) close_spec [of q1] assms(3) by auto

end

end
