(* ===== verification/Queue_Single.thy ===== *)
theory Queue_Single
  imports Queue_Spec
begin

text \<open>
  The one-slot queue (src/cynthia/src/platform/queue/single.rs). Each method is a sequence
  of accesses to one atomic word and to the slot, so it is modelled as a small machine: a
  program counter per access, \<open>single_step\<close> executes one access. Running the machine
  alone gives the sequential operations; interleaving the machines of any number of
  threads gives the concurrent behaviour. The slot is an \<open>option\<close>: \<open>None\<close> is
  uninitialised memory, and reading it is the undefined behaviour \<open>Single_UB\<close>.
\<close>

definition LOCKED :: usize where "LOCKED = 1"
definition PUSHED :: usize where "PUSHED = 2"
definition CLOSED :: usize where "CLOSED = 4"

lemmas single_bits = LOCKED_def PUSHED_def CLOSED_def

record 'a single =
  s_state :: usize
  s_slot :: "'a option"

definition single_new :: "'a single" where
  "single_new = \<lparr>s_state = 0, s_slot = None\<rparr>"

text \<open>
  \<open>compare_exchange(old, new).unwrap_or_else(|x| x)\<close> returns the value seen; it stores
  \<open>new\<close> exactly when that value is \<open>old\<close>.
\<close>

datatype 'a single_pc =
    Push_Cas 'a
  | Push_Write 'a
  | Push_Unlock
  | Push_Done "'a push_error + unit"
  | Pop_Cas usize
  | Pop_Read
  | Pop_Unlock 'a
  | Pop_Done "pop_error + 'a"
  | Close_Or
  | Close_Done bool
  | Single_UB

fun single_step :: "'a single \<Rightarrow> 'a single_pc \<Rightarrow> 'a single \<times> 'a single_pc" where
  "single_step q (Push_Cas value) =
     (let state = s_state q in
      if state = 0 then (q\<lparr>s_state := LOCKED OR PUSHED\<rparr>, Push_Write value)
      else if state AND CLOSED \<noteq> 0 then (q, Push_Done (Inl (PushClosed value)))
      else (q, Push_Done (Inl (PushFull value))))"
| "single_step q (Push_Write value) = (q\<lparr>s_slot := Some value\<rparr>, Push_Unlock)"
| "single_step q Push_Unlock = (q\<lparr>s_state := s_state q AND NOT LOCKED\<rparr>, Push_Done (Inr ()))"
| "single_step q (Pop_Cas state) =
     (let prev = s_state q in
      if prev = state then (q\<lparr>s_state := (state OR LOCKED) AND NOT PUSHED\<rparr>, Pop_Read)
      else if prev AND PUSHED = 0 then
        (if prev AND CLOSED = 0 then (q, Pop_Done (Inl PopEmpty)) else (q, Pop_Done (Inl PopClosed)))
      else if prev AND LOCKED = 0 then (q, Pop_Cas prev)
      else (q, Pop_Cas (prev AND NOT LOCKED)))"
| "single_step q Pop_Read =
     (case s_slot q of None \<Rightarrow> (q, Single_UB) | Some value \<Rightarrow> (q\<lparr>s_slot := None\<rparr>, Pop_Unlock value))"
| "single_step q (Pop_Unlock value) =
     (q\<lparr>s_state := s_state q AND NOT LOCKED\<rparr>, Pop_Done (Inr value))"
| "single_step q Close_Or =
     (q\<lparr>s_state := s_state q OR CLOSED\<rparr>, Close_Done (s_state q AND CLOSED = 0))"
| "single_step q pc = (q, pc)"

fun single_final :: "'a single_pc \<Rightarrow> bool" where
  "single_final (Push_Done _) = True"
| "single_final (Pop_Done _) = True"
| "single_final (Close_Done _) = True"
| "single_final Single_UB = True"
| "single_final _ = False"

text \<open>A thread alone: the loop of \<open>pop\<close> may spin for ever, hence \<open>option\<close>.\<close>

partial_function (option) single_run ::
  "'a single \<Rightarrow> 'a single_pc \<Rightarrow> ('a single \<times> 'a single_pc) option" where
  "single_run q pc =
     (if single_final pc then Some (q, pc)
      else single_run (fst (single_step q pc)) (snd (single_step q pc)))"

definition single_push :: "'a single \<Rightarrow> 'a \<Rightarrow> ('a single \<times> ('a push_error + unit)) option" where
  "single_push q value =
     (case single_run q (Push_Cas value) of Some (q', Push_Done r) \<Rightarrow> Some (q', r) | _ \<Rightarrow> None)"

definition single_pop :: "'a single \<Rightarrow> ('a single \<times> (pop_error + 'a)) option" where
  "single_pop q =
     (case single_run q (Pop_Cas PUSHED) of Some (q', Pop_Done r) \<Rightarrow> Some (q', r) | _ \<Rightarrow> None)"

definition single_len :: "'a single \<Rightarrow> nat" where
  "single_len q = (if s_state q AND PUSHED = 0 then 0 else 1)"

definition single_is_empty :: "'a single \<Rightarrow> bool" where
  "single_is_empty q \<longleftrightarrow> single_len q = 0"

definition single_is_full :: "'a single \<Rightarrow> bool" where
  "single_is_full q \<longleftrightarrow> single_len q = 1"

definition single_close :: "'a single \<Rightarrow> 'a single \<times> bool" where
  "single_close q = (q\<lparr>s_state := s_state q OR CLOSED\<rparr>, s_state q AND CLOSED = 0)"

definition single_is_closed :: "'a single \<Rightarrow> bool" where
  "single_is_closed q \<longleftrightarrow> s_state q AND CLOSED \<noteq> 0"

text \<open>\<open>Drop\<close> reads and drops the value left in the slot; \<open>None\<close> is undefined behaviour.\<close>

definition single_drop :: "'a single \<Rightarrow> 'a list option" where
  "single_drop q =
     (if s_state q AND PUSHED \<noteq> 0 then (case s_slot q of None \<Rightarrow> None | Some v \<Rightarrow> Some [v])
      else Some [])"

section \<open>The state word\<close>

text \<open>Every reachable state word is the sum of its three flags.\<close>

definition single_word :: "bool \<Rightarrow> bool \<Rightarrow> bool \<Rightarrow> usize" where
  "single_word l p c = (if l then 1 else 0) + (if p then 2 else 0) + (if c then 4 else 0)"

lemma single_word_flags [simp]:
  "single_word l p c AND LOCKED = 0 \<longleftrightarrow> \<not> l"
  "single_word l p c AND PUSHED = 0 \<longleftrightarrow> \<not> p"
  "single_word l p c AND CLOSED = 0 \<longleftrightarrow> \<not> c"
  by (auto simp: single_word_def single_bits)

lemma single_word_ops [simp]:
  "LOCKED OR PUSHED = single_word True True False"
  "single_word l p c AND NOT LOCKED = single_word False p c"
  "single_word l p c OR CLOSED = single_word l p True"
  "(single_word l p c OR LOCKED) AND NOT PUSHED = single_word True False c"
  "single_word l p c = 0 \<longleftrightarrow> \<not> l \<and> \<not> p \<and> \<not> c"
  "single_word l p c = single_word l' p' c' \<longleftrightarrow> l = l' \<and> p = p' \<and> c = c'"
  by (auto simp: single_word_def single_bits)

lemma single_word_zero: "(0::usize) = single_word False False False"
  by (simp add: single_word_def)

lemma single_word_pushed [simp]:
  "single_word l p c = PUSHED \<longleftrightarrow> \<not> l \<and> p \<and> \<not> c"
  "(PUSHED OR LOCKED) AND NOT PUSHED = single_word True False False"
  by (auto simp: single_word_def single_bits)

section \<open>One thread: the queue contract\<close>

definition single_contents :: "'a single \<Rightarrow> 'a list" where
  "single_contents q = (case s_slot q of None \<Rightarrow> [] | Some v \<Rightarrow> [v])"

definition single_inv :: "'a single \<Rightarrow> bool" where
  "single_inv q \<longleftrightarrow> s_state q = single_word False (s_slot q \<noteq> None) (single_is_closed q)"

lemma single_new_inv [simp]: "single_inv single_new"
  by (simp add: single_inv_def single_new_def single_is_closed_def)

lemma single_run_steps [simp]:
  "single_final pc \<Longrightarrow> single_run q pc = Some (q, pc)"
  "\<not> single_final pc \<Longrightarrow>
     single_run q pc = single_run (fst (single_step q pc)) (snd (single_step q pc))"
  by (simp_all add: single_run.simps)

lemma single_invE:
  assumes "single_inv q"
  obtains p c where "s_state q = single_word False p c" "s_slot q \<noteq> None \<longleftrightarrow> p" "single_is_closed q = c"
  using assms that [of "s_slot q \<noteq> None" "single_is_closed q"] unfolding single_inv_def by simp

lemmas single_seq_simps = single_contents_def single_inv_def single_is_closed_def Let_def

lemma single_push_spec:
  assumes "single_inv q"
  shows "\<exists>q'. single_push q v = Some (q', spec_push (Some 1) (single_is_closed q) (single_contents q) v)
    \<and> single_inv q' \<and> single_is_closed q' = single_is_closed q
    \<and> single_contents q' = (if spec_push (Some 1) (single_is_closed q) (single_contents q) v = Inr ()
         then single_contents q @ [v] else single_contents q)"
proof -
  obtain p c where st: "s_state q = single_word False p c" and sl: "s_slot q \<noteq> None \<longleftrightarrow> p"
    and cl: "single_is_closed q = c"
    using assms by (rule single_invE)
  show ?thesis
  proof (cases "p \<or> c")
    case True
    with st sl cl assms show ?thesis
      by (auto simp: single_push_def spec_push_def single_contents_def Let_def)
  next
    case False
    with st sl show ?thesis
      by (simp add: single_push_def spec_push_def single_seq_simps)
  qed
qed

lemma single_pop_spec:
  assumes "single_inv q"
  shows "\<exists>q'. single_pop q = Some (q', spec_pop (single_is_closed q) (single_contents q))
    \<and> single_inv q' \<and> single_is_closed q' = single_is_closed q
    \<and> single_contents q' = tl (single_contents q)"
proof -
  obtain p c where st: "s_state q = single_word False p c" and sl: "s_slot q \<noteq> None \<longleftrightarrow> p"
    and cl: "single_is_closed q = c"
    using assms by (rule single_invE)
  show ?thesis
  proof (cases p)
    case True
    with sl obtain v where "s_slot q = Some v" by auto
    with True st show ?thesis
      by (cases c) (simp_all add: single_pop_def spec_pop_def single_seq_simps)
  next
    case False
    with st sl show ?thesis
      by (cases c) (simp_all add: single_pop_def spec_pop_def single_seq_simps)
  qed
qed

lemma single_close_spec:
  assumes "single_inv q"
  shows "\<exists>q'. single_close q = (q', \<not> single_is_closed q) \<and> single_inv q' \<and> single_is_closed q'
    \<and> single_contents q' = single_contents q"
proof -
  obtain p c where "s_state q = single_word False p c" "s_slot q \<noteq> None \<longleftrightarrow> p"
    using assms by (rule single_invE)
  then show ?thesis by (simp add: single_close_def single_seq_simps)
qed

interpretation single: fifo single_inv single_contents single_is_closed "\<lambda>_. Some 1"
  "\<lambda>_. True" single_push single_pop single_close
proof (unfold_locales, goal_cases)
  case (1 q v)
  then show ?case using single_push_spec [of q v] by blast
next
  case (2 q)
  then show ?case using single_pop_spec [of q] by blast
next
  case (3 q)
  then show ?case using single_close_spec [of q] by blast
next
  case (4 q n)
  then show ?case by (auto simp: single_contents_def split: option.splits)
qed simp

lemma single_observers:
  assumes "single_inv q"
  shows "single_len q = length (single_contents q)"
    "single_is_empty q \<longleftrightarrow> single_contents q = []"
    "single_is_full q \<longleftrightarrow> length (single_contents q) = 1"
    "single_drop q = Some (single_contents q)"
proof -
  obtain p c where st: "s_state q = single_word False p c" and sl: "s_slot q \<noteq> None \<longleftrightarrow> p"
    using assms by (rule single_invE)
  then show len: "single_len q = length (single_contents q)"
    by (auto simp: single_len_def single_contents_def)
  then show "single_is_empty q \<longleftrightarrow> single_contents q = []"
    "single_is_full q \<longleftrightarrow> length (single_contents q) = 1"
    by (simp_all add: single_is_empty_def single_is_full_def)
  show "single_drop q = Some (single_contents q)"
    using st sl by (auto simp: single_drop_def single_contents_def)
qed

section \<open>Any number of threads\<close>

text \<open>
  The shared queue, the machine of each thread that is inside a call, and two ghost logs:
  the values written to the slot and the values read from it, in order.
\<close>

record 'a single_sys =
  sy_q :: "'a single"
  sy_pc :: "nat \<Rightarrow> 'a single_pc option"
  sy_in :: "'a list"
  sy_out :: "'a list"

fun single_start :: "'a single_pc \<Rightarrow> bool" where
  "single_start (Push_Cas _) = True"
| "single_start (Pop_Cas st) = (st = PUSHED)"
| "single_start Close_Or = True"
| "single_start _ = False"

fun single_written :: "'a single_pc \<Rightarrow> 'a list" where
  "single_written (Push_Write v) = [v]"
| "single_written _ = []"

fun single_taken :: "'a single_pc \<Rightarrow> 'a single_pc \<Rightarrow> 'a list" where
  "single_taken Pop_Read (Pop_Unlock v) = [v]"
| "single_taken _ _ = []"

definition single_sys_init :: "'a single_sys" where
  "single_sys_init = \<lparr>sy_q = single_new, sy_pc = (\<lambda>_. None), sy_in = [], sy_out = []\<rparr>"

inductive single_sys_step :: "'a single_sys \<Rightarrow> 'a single_sys \<Rightarrow> bool" where
  call: "sy_pc s t = None \<Longrightarrow> single_start pc \<Longrightarrow>
     single_sys_step s (s\<lparr>sy_pc := (sy_pc s)(t \<mapsto> pc)\<rparr>)"
| exec: "sy_pc s t = Some pc \<Longrightarrow> \<not> single_final pc \<Longrightarrow> single_step (sy_q s) pc = (q', pc') \<Longrightarrow>
     single_sys_step s (s\<lparr>sy_q := q', sy_pc := (sy_pc s)(t \<mapsto> pc'),
       sy_in := sy_in s @ single_written pc, sy_out := sy_out s @ single_taken pc pc'\<rparr>)"
| return: "sy_pc s t = Some pc \<Longrightarrow> single_final pc \<Longrightarrow>
     single_sys_step s (s\<lparr>sy_pc := (sy_pc s)(t := None)\<rparr>)"

inductive single_reachable :: "'a single_sys \<Rightarrow> bool" where
  init: "single_reachable single_sys_init"
| step: "single_reachable s \<Longrightarrow> single_sys_step s s' \<Longrightarrow> single_reachable s'"

text \<open>The accesses made between taking the lock bit and releasing it.\<close>

fun single_owns :: "'a single_pc \<Rightarrow> bool" where
  "single_owns (Push_Write _) = True"
| "single_owns Push_Unlock = True"
| "single_owns Pop_Read = True"
| "single_owns (Pop_Unlock _) = True"
| "single_owns _ = False"

fun single_pc_ok :: "bool \<Rightarrow> usize \<Rightarrow> 'a option \<Rightarrow> 'a single_pc \<Rightarrow> bool" where
  "single_pc_ok c st sl (Push_Write _) \<longleftrightarrow> st = single_word True True c \<and> sl = None"
| "single_pc_ok c st sl Push_Unlock \<longleftrightarrow> st = single_word True True c \<and> sl \<noteq> None"
| "single_pc_ok c st sl Pop_Read \<longleftrightarrow> st = single_word True False c \<and> sl \<noteq> None"
| "single_pc_ok c st sl (Pop_Unlock _) \<longleftrightarrow> st = single_word True False c \<and> sl = None"
| "single_pc_ok c st sl (Pop_Cas e) \<longleftrightarrow> (e = single_word False True False \<or> e = single_word False True True)"
| "single_pc_ok c st sl Single_UB \<longleftrightarrow> False"
| "single_pc_ok c st sl _ \<longleftrightarrow> True"

definition single_owner :: "'a single_sys \<Rightarrow> nat \<Rightarrow> bool" where
  "single_owner s t \<longleftrightarrow> (case sy_pc s t of None \<Rightarrow> False | Some pc \<Rightarrow> single_owns pc)"

definition single_sys_inv :: "'a single_sys \<Rightarrow> bool" where
  "single_sys_inv s \<longleftrightarrow>
     (\<forall>t pc. sy_pc s t = Some pc \<longrightarrow>
        single_pc_ok (single_is_closed (sy_q s)) (s_state (sy_q s)) (s_slot (sy_q s)) pc) \<and>
     (\<forall>t u. single_owner s t \<longrightarrow> single_owner s u \<longrightarrow> t = u) \<and>
     ((\<forall>t. \<not> single_owner s t) \<longrightarrow> single_inv (sy_q s)) \<and>
     sy_in s = sy_out s @ single_contents (sy_q s)"

lemma single_sys_init_inv: "single_sys_inv single_sys_init"
  by (simp add: single_sys_inv_def single_sys_init_def single_owner_def)
    (simp add: single_contents_def single_new_def)

lemma single_pc_ok_other:
  "\<not> single_owns pc \<Longrightarrow> single_pc_ok c st sl pc = single_pc_ok c' st' sl' pc"
  by (cases pc) auto

lemma single_sys_invD:
  assumes "single_sys_inv s"
  shows "sy_pc s t = Some pc \<Longrightarrow>
      single_pc_ok (single_is_closed (sy_q s)) (s_state (sy_q s)) (s_slot (sy_q s)) pc"
    and "single_owner s t \<Longrightarrow> single_owner s u \<Longrightarrow> t = u"
    and "(\<And>t. \<not> single_owner s t) \<Longrightarrow> single_inv (sy_q s)"
    and "sy_in s = sy_out s @ single_contents (sy_q s)"
  using assms unfolding single_sys_inv_def by auto

text \<open>A thread that enters or leaves a call touches no shared data.\<close>

lemma single_owner_upd:
  "single_owner (s\<lparr>sy_pc := (sy_pc s)(t := pc)\<rparr>) u \<longleftrightarrow>
     (if u = t then (case pc of None \<Rightarrow> False | Some pc \<Rightarrow> single_owns pc) else single_owner s u)"
  by (simp add: single_owner_def)

lemma single_owner_pc: "sy_pc s t = Some pc \<Longrightarrow> single_owner s t = single_owns pc"
  by (simp add: single_owner_def)

lemma single_sys_invI:
  assumes "\<And>t pc. sy_pc s t = Some pc \<Longrightarrow>
      single_pc_ok (single_is_closed (sy_q s)) (s_state (sy_q s)) (s_slot (sy_q s)) pc"
    and "\<And>t u. single_owner s t \<Longrightarrow> single_owner s u \<Longrightarrow> t = u"
    and "(\<And>t. \<not> single_owner s t) \<Longrightarrow> single_inv (sy_q s)"
    and "sy_in s = sy_out s @ single_contents (sy_q s)"
  shows "single_sys_inv s"
  unfolding single_sys_inv_def using assms by blast

lemma single_sys_inv_local:
  assumes inv: "single_sys_inv s" and old: "\<not> single_owner s t"
    and new: "\<And>pc'. pc = Some pc' \<Longrightarrow> \<not> single_owns pc' \<and>
      single_pc_ok (single_is_closed (sy_q s)) (s_state (sy_q s)) (s_slot (sy_q s)) pc'"
  shows "single_sys_inv (s\<lparr>sy_pc := (sy_pc s)(t := pc)\<rparr>)"
proof -
  have own: "single_owner (s\<lparr>sy_pc := (sy_pc s)(t := pc)\<rparr>) u \<longleftrightarrow> single_owner s u" for u
    using old new by (cases pc) (auto simp: single_owner_upd)
  show ?thesis
  proof (rule single_sys_invI, unfold own)
    fix u pc'
    assume "sy_pc (s\<lparr>sy_pc := (sy_pc s)(t := pc)\<rparr>) u = Some pc'"
    then show "single_pc_ok (single_is_closed (sy_q (s\<lparr>sy_pc := (sy_pc s)(t := pc)\<rparr>)))
        (s_state (sy_q (s\<lparr>sy_pc := (sy_pc s)(t := pc)\<rparr>))) (s_slot (sy_q (s\<lparr>sy_pc := (sy_pc s)(t := pc)\<rparr>))) pc'"
      using new [of pc'] single_sys_invD(1) [OF inv, of u pc'] by (cases "u = t") simp_all
  next
    fix u v
    assume "single_owner s u" "single_owner s v"
    then show "u = v" by (rule single_sys_invD(2) [OF inv])
  next
    assume "\<And>u. \<not> single_owner s u"
    then show "single_inv (sy_q (s\<lparr>sy_pc := (sy_pc s)(t := pc)\<rparr>))"
      using single_sys_invD(3) [OF inv] by simp
  qed (simp add: single_sys_invD(4) [OF inv])
qed

text \<open>An access that changes the shared data is safe when no other thread is inside.\<close>

lemma single_sys_inv_upd:
  assumes inv: "single_sys_inv s" and free: "\<And>u. u \<noteq> t \<Longrightarrow> \<not> single_owner s u"
    and new: "single_pc_ok (single_is_closed q') (s_state q') (s_slot q') pc'"
    and rel: "\<not> single_owns pc' \<Longrightarrow> single_inv q'"
    and log: "i = out' @ single_contents q'"
  shows "single_sys_inv (s\<lparr>sy_q := q', sy_pc := (sy_pc s)(t \<mapsto> pc'), sy_in := i, sy_out := out'\<rparr>)"
    (is "single_sys_inv ?s")
proof -
  have own: "single_owner ?s u \<longleftrightarrow> u = t \<and> single_owns pc'" for u
    using free [of u] by (simp add: single_owner_def)
  show ?thesis
  proof (rule single_sys_invI, unfold own)
    fix u pc
    assume pc: "sy_pc ?s u = Some pc"
    show "single_pc_ok (single_is_closed (sy_q ?s)) (s_state (sy_q ?s)) (s_slot (sy_q ?s)) pc"
    proof (cases "u = t")
      case True
      with pc new show ?thesis by simp
    next
      case False
      with pc have pc': "sy_pc s u = Some pc" by simp
      have "\<not> single_owns pc" using free [OF False] by (simp add: single_owner_pc [OF pc'])
      from single_pc_ok_other [OF this] single_sys_invD(1) [OF inv pc'] show ?thesis
        by blast
    qed
  next
    assume "\<And>u. \<not> (u = t \<and> single_owns pc')"
    then show "single_inv (sy_q ?s)" using rel by simp
  qed (use log in auto)
qed

lemma single_sys_inv_locked:
  assumes inv: "single_sys_inv s" and t: "single_owner s t"
  obtains pc p where "sy_pc s t = Some pc" "single_owns pc"
    "s_state (sy_q s) = single_word True p (single_is_closed (sy_q s))"
proof -
  from t obtain pc where pc: "sy_pc s t = Some pc" "single_owns pc"
    by (auto simp: single_owner_def split: option.splits)
  have "\<exists>p. s_state (sy_q s) = single_word True p (single_is_closed (sy_q s))"
    using single_sys_invD(1) [OF inv pc(1)] pc(2) by (cases pc) auto
  with pc that show thesis by blast
qed

lemma single_sys_inv_close:
  assumes inv: "single_sys_inv s" and nt: "\<not> single_owner s t"
  shows "single_sys_inv (s\<lparr>sy_q := (sy_q s)\<lparr>s_state := s_state (sy_q s) OR CLOSED\<rparr>,
     sy_pc := (sy_pc s)(t \<mapsto> Close_Done b)\<rparr>)"
proof (cases "\<exists>u. single_owner s u")
  case True
  then obtain u pc p where u: "single_owner s u" and pc: "sy_pc s u = Some pc" "single_owns pc"
    and st: "s_state (sy_q s) = single_word True p (single_is_closed (sy_q s))"
    using single_sys_inv_locked [OF inv] by metis
  let ?q = "(sy_q s)\<lparr>s_state := single_word True p True\<rparr>"
  have ok: "single_pc_ok True (single_word True p True) (s_slot (sy_q s)) pc"
    using single_sys_invD(1) [OF inv pc(1)] st pc(2) by (cases pc) auto
  have "single_sys_inv (s\<lparr>sy_q := ?q, sy_pc := (sy_pc s)(u \<mapsto> pc), sy_in := sy_in s, sy_out := sy_out s\<rparr>)"
    using inv
  proof (rule single_sys_inv_upd)
    show "\<not> single_owner s v" if "v \<noteq> u" for v
      using single_sys_invD(2) [OF inv u, of v] that by blast
    show "single_pc_ok (single_is_closed ?q) (s_state ?q) (s_slot ?q) pc"
      using ok by (simp add: single_is_closed_def)
    show "sy_in s = sy_out s @ single_contents ?q"
      using single_sys_invD(4) [OF inv] by (simp add: single_contents_def)
  qed (use pc in simp)
  then have "single_sys_inv (s\<lparr>sy_q := ?q\<rparr>)"
    using pc by (simp add: fun_upd_idem)
  then have "single_sys_inv (s\<lparr>sy_q := ?q\<rparr>\<lparr>sy_pc := (sy_pc (s\<lparr>sy_q := ?q\<rparr>))(t := Some (Close_Done b))\<rparr>)"
    by (rule single_sys_inv_local) (use nt in \<open>auto simp: single_owner_def\<close>)
  with st show ?thesis by simp
next
  case False
  with single_sys_invD(3) [OF inv] have inv': "single_inv (sy_q s)" by blast
  obtain p c where st: "s_state (sy_q s) = single_word False p c" and sl: "s_slot (sy_q s) \<noteq> None \<longleftrightarrow> p"
    using inv' by (rule single_invE)
  let ?q = "(sy_q s)\<lparr>s_state := single_word False p True\<rparr>"
  have "single_sys_inv (s\<lparr>sy_q := ?q, sy_pc := (sy_pc s)(t \<mapsto> Close_Done b),
      sy_in := sy_in s, sy_out := sy_out s\<rparr>)"
    using inv
  proof (rule single_sys_inv_upd)
    show "\<not> single_owner s v" if "v \<noteq> t" for v using False by blast
    show "single_inv ?q" using sl by (simp add: single_inv_def single_is_closed_def)
    show "sy_in s = sy_out s @ single_contents ?q"
      using single_sys_invD(4) [OF inv] by (simp add: single_contents_def)
  qed simp
  with st show ?thesis by simp
qed

text \<open>Every access of every method keeps the invariant, in whatever order threads move.\<close>

lemma single_exec_owner_inv:
  assumes "single_owns pc" "single_pc_ok c (s_state q) (s_slot q) pc"
    and "single_step q pc = (q', pc')" "\<not> single_owns pc'"
  shows "single_inv q'"
  using assms by (cases pc) (auto simp: single_inv_def single_is_closed_def)

lemma single_sys_inv_word:
  assumes "single_sys_inv s"
  obtains l p c where "s_state (sy_q s) = single_word l p c" "single_is_closed (sy_q s) = c"
    "\<And>u. \<not> l \<Longrightarrow> \<not> single_owner s u" "\<not> l \<Longrightarrow> s_slot (sy_q s) \<noteq> None \<longleftrightarrow> p"
proof (cases "\<exists>u. single_owner s u")
  case True
  then obtain p where "s_state (sy_q s) = single_word True p (single_is_closed (sy_q s))"
    using single_sys_inv_locked [OF assms] by metis
  then show thesis by (intro that [of True p "single_is_closed (sy_q s)"]) auto
next
  case False
  with single_sys_invD(3) [OF assms] have "single_inv (sy_q s)" by blast
  then obtain p c where "s_state (sy_q s) = single_word False p c"
    "s_slot (sy_q s) \<noteq> None \<longleftrightarrow> p" "single_is_closed (sy_q s) = c"
    by (rule single_invE)
  with False show thesis by (intro that [of False p c]) auto
qed

text \<open>What an access by a thread outside the lock can do.\<close>

lemma single_exec_outside:
  assumes out: "\<not> single_owns pc" and ok: "single_pc_ok c (s_state q) sl pc"
    and step: "single_step q pc = (q', pc')" and st: "s_state q = single_word l p c"
  obtains "q' = q" "\<not> single_owns pc'" "single_pc_ok c (s_state q) sl pc'"
  | v where "\<not> l" "\<not> p" "\<not> c" "q' = q\<lparr>s_state := single_word True True False\<rparr>" "pc' = Push_Write v"
  | "\<not> l" p "q' = q\<lparr>s_state := single_word True False c\<rparr>" "pc' = Pop_Read"
  | b where "q' = q\<lparr>s_state := s_state q OR CLOSED\<rparr>" "pc' = Close_Done b"
proof (cases pc)
  case (Push_Cas v)
  with step st show thesis
    by (cases "l \<or> p \<or> c") (auto simp: Let_def split: if_splits intro: that(1,2))
next
  case (Pop_Cas e)
  with ok obtain c' where e: "e = single_word False True c'" by auto
  show thesis
  proof (cases "\<not> l \<and> p \<and> c = c'")
    case True
    with step st Pop_Cas e show thesis by (intro that(3)) (auto simp: Let_def)
  next
    case False
    have "single_pc_ok c (s_state q) sl pc'" "q' = q" "\<not> single_owns pc'"
      using False step st Pop_Cas e by (auto simp: Let_def split: if_splits)
    then show thesis by (intro that(1))
  qed
next
  case Close_Or
  with step show thesis by (intro that(4) [of "s_state q AND CLOSED = 0"]) auto
qed (use out ok step in \<open>auto intro: that(1)\<close>)

lemma single_exec_inv:
  assumes inv: "single_sys_inv s" and pc: "sy_pc s t = Some pc"
    and step: "single_step (sy_q s) pc = (q', pc')"
  shows "single_sys_inv (s\<lparr>sy_q := q', sy_pc := (sy_pc s)(t \<mapsto> pc'),
     sy_in := sy_in s @ single_written pc, sy_out := sy_out s @ single_taken pc pc'\<rparr>)"
proof (cases "single_owns pc")
  case True
  note ok = single_sys_invD(1) [OF inv pc] and log = single_sys_invD(4) [OF inv]
  show ?thesis
  proof (rule single_sys_inv_upd [OF inv])
    show "\<not> single_owner s u" if "u \<noteq> t" for u
      using single_sys_invD(2) [OF inv, of u t] single_owner_pc [OF pc] True that by blast
    show "single_pc_ok (single_is_closed q') (s_state q') (s_slot q') pc'"
      using True step ok by (cases pc) (auto simp: single_is_closed_def)
    show "single_inv q'" if "\<not> single_owns pc'"
      using True ok step that by (rule single_exec_owner_inv)
    show "sy_in s @ single_written pc = (sy_out s @ single_taken pc pc') @ single_contents q'"
      using True step ok log by (cases pc) (auto simp: single_contents_def)
  qed
next
  case False
  have nt: "\<not> single_owner s t" using False by (simp add: single_owner_pc [OF pc])
  have log: "sy_in s = sy_out s @ single_contents (sy_q s)" using inv by (rule single_sys_invD)
  have logs: "single_written pc = []" "single_taken pc pc' = []"
    using False by (cases pc; simp)+
  obtain l p c where st: "s_state (sy_q s) = single_word l p c" and cl: "single_is_closed (sy_q s) = c"
    and free: "\<And>u. \<not> l \<Longrightarrow> \<not> single_owner s u" and sl: "\<not> l \<Longrightarrow> s_slot (sy_q s) \<noteq> None \<longleftrightarrow> p"
    using single_sys_inv_word [OF inv] by metis
  have upd: "single_sys_inv (s\<lparr>sy_q := q1, sy_pc := (sy_pc s)(t \<mapsto> pc1), sy_in := sy_in s, sy_out := sy_out s\<rparr>)"
    if "\<not> l" "single_owns pc1" "s_slot q1 = s_slot (sy_q s)"
      "single_pc_ok (single_is_closed q1) (s_state q1) (s_slot q1) pc1" for q1 pc1
    using inv free [OF that(1)] that(4)
    by (rule single_sys_inv_upd) (use that log in \<open>simp_all add: single_contents_def\<close>)
  from single_sys_invD(1) [OF inv pc]
  have "single_pc_ok c (s_state (sy_q s)) (s_slot (sy_q s)) pc" by (simp add: cl)
  from False this step st show ?thesis
  proof (cases rule: single_exec_outside)
    case 1
    have "single_sys_inv (s\<lparr>sy_pc := (sy_pc s)(t := Some pc')\<rparr>)"
      using inv nt by (rule single_sys_inv_local) (use 1 cl in simp)
    with 1 logs show ?thesis by simp
  next
    case (2 v)
    then show ?thesis
      using upd [of pc' q'] sl logs by (simp add: single_is_closed_def)
  next
    case 3
    then show ?thesis
      using upd [of pc' q'] sl logs by (simp add: single_is_closed_def)
  next
    case (4 b)
    then show ?thesis using single_sys_inv_close [OF inv nt] logs by simp
  qed
qed

lemma single_reachable_inv: "single_reachable s \<Longrightarrow> single_sys_inv s"
proof (induction rule: single_reachable.induct)
  case init
  show ?case by (rule single_sys_init_inv)
next
  case (step s s')
  from step.hyps(2) step.IH show ?case
  proof (cases rule: single_sys_step.cases)
    case (call t pc)
    have "single_sys_inv (s\<lparr>sy_pc := (sy_pc s)(t := Some pc)\<rparr>)"
      using step.IH
    proof (rule single_sys_inv_local)
      show "\<not> single_owner s t" using call by (simp add: single_owner_def)
      show "\<not> single_owns pc' \<and>
          single_pc_ok (single_is_closed (sy_q s)) (s_state (sy_q s)) (s_slot (sy_q s)) pc'"
        if "Some pc = Some pc'" for pc'
        using call(3) that by (cases pc') (auto simp: PUSHED_def single_word_def)
    qed
    then show ?thesis by (simp add: call)
  next
    case (exec t pc q' pc')
    show ?thesis unfolding exec(1)
      using step.IH exec(2,4) by (rule single_exec_inv)
  next
    case (return t pc)
    show ?thesis unfolding return(1)
      using step.IH
      by (rule single_sys_inv_local) (use return in \<open>cases pc; simp add: single_owner_def\<close>)+
  qed
qed

section \<open>Properties\<close>

text \<open>
  (C2) In every interleaving of any number of threads that push, pop and close one-slot
  queues access by access, the values that entered the slot are the values read from it, in
  order, followed by the value still there; no thread reads an uninitialised slot, and at
  most one thread at a time is between taking the lock bit and releasing it.
\<close>

theorem single_concurrent_safe:
  assumes "single_reachable s"
  shows "sy_in s = sy_out s @ single_contents (sy_q s) \<and> (\<forall>t. sy_pc s t \<noteq> Some Single_UB) \<and>
     (\<forall>t u. single_owner s t \<and> single_owner s u \<longrightarrow> t = u)"
  using single_reachable_inv [OF assms] single_sys_invD [OF single_reachable_inv [OF assms]]
  by (metis single_pc_ok.simps(6))

theorem single_concurrent_safe_witness:
  "\<exists>s :: nat single_sys. single_reachable s \<and> single_owner s 0 \<and> \<not> single_owner s 1 \<and>
     sy_in s = sy_out s @ single_contents (sy_q s)"
proof -
  let ?s1 = "single_sys_init\<lparr>sy_pc := (sy_pc single_sys_init)(0 \<mapsto> Push_Cas (5::nat))\<rparr>"
  let ?s2 = "?s1\<lparr>sy_q := (sy_q ?s1)\<lparr>s_state := LOCKED OR PUSHED\<rparr>, sy_pc := (sy_pc ?s1)(0 \<mapsto> Push_Write 5),
     sy_in := sy_in ?s1 @ single_written (Push_Cas 5), sy_out := sy_out ?s1 @ single_taken (Push_Cas 5) (Push_Write 5)\<rparr>"
  have "single_sys_step single_sys_init ?s1"
    by (rule single_sys_step.call) (simp_all add: single_sys_init_def)
  then have r1: "single_reachable ?s1" by (rule single_reachable.step [OF single_reachable.init])
  have "single_sys_step ?s1 ?s2"
    by (rule single_sys_step.exec) (simp_all add: single_sys_init_def single_new_def)
  with r1 have r2: "single_reachable ?s2" by (rule single_reachable.step)
  moreover have "single_owner ?s2 0" by (simp add: single_owner_def)
  ultimately show ?thesis
    using single_concurrent_safe [OF r2] by (metis zero_neq_one)
qed

end
