(* ===== verification/Queue_Bounded.thy ===== *)
theory Queue_Bounded
  imports Queue_Spec
begin

text \<open>
  The bounded ring-buffer queue (src/cynthia/src/platform/queue/bounded.rs). As in the
  one-slot queue a method is a machine with one program counter per access to shared
  memory; \<open>bounded_step w\<close> executes one access, and \<open>w\<close> tells whether a
  \<open>compare_exchange_weak\<close> fails spuriously. All positions and stamps are machine words, so
  the lap counter wraps around. An out-of-range index or an overflowing \<open>+\<close> is the state
  \<open>BPanic\<close>, reading an uninitialised slot is \<open>BUB\<close>.
\<close>

record 'a bslot =
  bs_stamp :: usize
  bs_value :: "'a option"

record 'a bounded =
  b_head :: usize
  b_tail :: usize
  b_buffer :: "'a bslot list"
  b_one_lap :: usize
  b_mark_bit :: usize

text \<open>
  \<open>slot_size\<close> is \<open>size_of::<Slot<T>>()\<close>; \<open>Vec::with_capacity\<close> panics when the buffer
  would take more than \<open>isize::MAX\<close> bytes.
\<close>

definition bounded_new :: "nat \<Rightarrow> usize \<Rightarrow> 'a bounded fallible" where
  "bounded_new slot_size cap =
     (if cap = 0 then Inl AssertFailed
      else if unat cap * slot_size > isize_max then Inl CapacityOverflow
      else if unat cap + 1 > usize_max then Inl Overflow
      else let buffer = map (\<lambda>i. \<lparr>bs_stamp = of_nat i, bs_value = None\<rparr>) [0..<unat cap];
               mark_bit = next_power_of_two (unat cap + 1) in
        if mark_bit * 2 > usize_max then Inl Overflow
        else Inr \<lparr>b_head = 0, b_tail = 0, b_buffer = buffer,
                  b_one_lap = of_nat (mark_bit * 2), b_mark_bit = of_nat mark_bit\<rparr>)"

datatype 'a bpc =
    BPush_Load 'a
  | BPush_Slot 'a usize
  | BPush_Cas 'a usize
  | BPush_Write 'a usize
  | BPush_Stamp usize
  | BPush_Head 'a usize
  | BPush_Done "'a push_error + unit"
  | BPop_Load
  | BPop_Slot usize
  | BPop_Cas usize
  | BPop_Read usize
  | BPop_Stamp 'a usize
  | BPop_Tail usize
  | BPop_Done "pop_error + 'a"
  | BLen_Tail
  | BLen_Head usize
  | BLen_Check usize usize
  | BLen_Done nat
  | BClose
  | BClose_Done bool
  | BPanic panic
  | BUB

definition b_index :: "'a bounded \<Rightarrow> usize \<Rightarrow> nat" where
  "b_index q pos = unat (pos AND (b_mark_bit q - 1))"

text \<open>The position after \<open>pos\<close>: the next slot, or slot 0 of the next lap.\<close>

definition b_next :: "'a bounded \<Rightarrow> usize \<Rightarrow> usize fallible" where
  "b_next q pos =
     (let lap = pos AND NOT (b_one_lap q - 1) in
      if b_index q pos + 1 < length (b_buffer q) then usize_add pos 1 else Inr (lap + b_one_lap q))"

definition b_update :: "'a bounded \<Rightarrow> usize \<Rightarrow> ('a bslot \<Rightarrow> 'a bslot) \<Rightarrow> 'a bounded" where
  "b_update q pos f =
     q\<lparr>b_buffer := (b_buffer q)[b_index q pos := f (b_buffer q ! b_index q pos)]\<rparr>"

definition b_or_panic :: "'a bounded \<Rightarrow> 'b fallible \<Rightarrow> ('b \<Rightarrow> 'a bounded \<times> 'a bpc) \<Rightarrow> 'a bounded \<times> 'a bpc" where
  "b_or_panic q r f = (case r of Inl p \<Rightarrow> (q, BPanic p) | Inr x \<Rightarrow> f x)"

fun bounded_len_of :: "'a bounded \<Rightarrow> usize \<Rightarrow> usize \<Rightarrow> nat" where
  "bounded_len_of q tail head =
     (let hix = b_index q head; tix = b_index q tail in
      if hix < tix then tix - hix
      else if hix > tix then length (b_buffer q) - hix + tix
      else if tail AND NOT (b_mark_bit q) = head then 0
      else length (b_buffer q))"

fun bounded_step :: "bool \<Rightarrow> 'a bounded \<Rightarrow> 'a bpc \<Rightarrow> 'a bounded \<times> 'a bpc" where
  "bounded_step w q (BPush_Load value) = (q, BPush_Slot value (b_tail q))"
| "bounded_step w q (BPush_Slot value tail) =
     (if tail AND b_mark_bit q \<noteq> 0 then (q, BPush_Done (Inl (PushClosed value)))
      else if b_index q tail \<ge> length (b_buffer q) then (q, BPanic IndexOutOfBounds)
      else let stamp = bs_stamp (b_buffer q ! b_index q tail) in
        if tail = stamp then (q, BPush_Cas value tail)
        else b_or_panic q (usize_add tail 1) (\<lambda>tail1.
          if stamp + b_one_lap q = tail1 then (q, BPush_Head value tail)
          else (q, BPush_Load value)))"
| "bounded_step w q (BPush_Cas value tail) =
     b_or_panic q (b_next q tail) (\<lambda>new_tail.
       if b_tail q = tail \<and> \<not> w then (q\<lparr>b_tail := new_tail\<rparr>, BPush_Write value tail)
       else (q, BPush_Slot value (b_tail q)))"
| "bounded_step w q (BPush_Write value tail) =
     (b_update q tail (\<lambda>s. s\<lparr>bs_value := Some value\<rparr>), BPush_Stamp tail)"
| "bounded_step w q (BPush_Stamp tail) =
     b_or_panic q (usize_add tail 1) (\<lambda>tail1.
       (b_update q tail (\<lambda>s. s\<lparr>bs_stamp := tail1\<rparr>), BPush_Done (Inr ())))"
| "bounded_step w q (BPush_Head value tail) =
     (if b_head q + b_one_lap q = tail then (q, BPush_Done (Inl (PushFull value)))
      else (q, BPush_Load value))"
| "bounded_step w q BPop_Load = (q, BPop_Slot (b_head q))"
| "bounded_step w q (BPop_Slot head) =
     (if b_index q head \<ge> length (b_buffer q) then (q, BPanic IndexOutOfBounds)
      else let stamp = bs_stamp (b_buffer q ! b_index q head) in
        b_or_panic q (usize_add head 1) (\<lambda>head1.
          if head1 = stamp then (q, BPop_Cas head)
          else if stamp = head then (q, BPop_Tail head)
          else (q, BPop_Load)))"
| "bounded_step w q (BPop_Cas head) =
     b_or_panic q (b_next q head) (\<lambda>new.
       if b_head q = head \<and> \<not> w then (q\<lparr>b_head := new\<rparr>, BPop_Read head)
       else (q, BPop_Slot (b_head q)))"
| "bounded_step w q (BPop_Read head) =
     (case bs_value (b_buffer q ! b_index q head) of
        None \<Rightarrow> (q, BUB)
      | Some value \<Rightarrow> (b_update q head (\<lambda>s. s\<lparr>bs_value := None\<rparr>), BPop_Stamp value head))"
| "bounded_step w q (BPop_Stamp value head) =
     (b_update q head (\<lambda>s. s\<lparr>bs_stamp := head + b_one_lap q\<rparr>), BPop_Done (Inr value))"
| "bounded_step w q (BPop_Tail head) =
     (let tail = b_tail q in
      if tail AND NOT (b_mark_bit q) = head then
        (if tail AND b_mark_bit q \<noteq> 0 then (q, BPop_Done (Inl PopClosed))
         else (q, BPop_Done (Inl PopEmpty)))
      else (q, BPop_Load))"
| "bounded_step w q BLen_Tail = (q, BLen_Head (b_tail q))"
| "bounded_step w q (BLen_Head tail) = (q, BLen_Check tail (b_head q))"
| "bounded_step w q (BLen_Check tail head) =
     (if b_tail q = tail then (q, BLen_Done (bounded_len_of q tail head)) else (q, BLen_Tail))"
| "bounded_step w q BClose =
     (q\<lparr>b_tail := b_tail q OR b_mark_bit q\<rparr>, BClose_Done (b_tail q AND b_mark_bit q = 0))"
| "bounded_step w q pc = (q, pc)"

fun bounded_final :: "'a bpc \<Rightarrow> bool" where
  "bounded_final (BPush_Done _) = True"
| "bounded_final (BPop_Done _) = True"
| "bounded_final (BLen_Done _) = True"
| "bounded_final (BClose_Done _) = True"
| "bounded_final (BPanic _) = True"
| "bounded_final BUB = True"
| "bounded_final _ = False"

text \<open>A thread alone; \<open>ws\<close> lists the spurious failures to come.\<close>

partial_function (option) bounded_run ::
  "bool list \<Rightarrow> 'a bounded \<Rightarrow> 'a bpc \<Rightarrow> ('a bounded \<times> 'a bpc) option" where
  "bounded_run ws q pc =
     (if bounded_final pc then Some (q, pc)
      else bounded_run (tl ws) (fst (bounded_step (spurious ws) q pc))
             (snd (bounded_step (spurious ws) q pc)))"

definition bounded_push ::
  "bool list \<Rightarrow> 'a bounded \<Rightarrow> 'a \<Rightarrow> ('a bounded \<times> ('a push_error + unit)) option" where
  "bounded_push ws q value =
     (case bounded_run ws q (BPush_Load value) of Some (q', BPush_Done r) \<Rightarrow> Some (q', r) | _ \<Rightarrow> None)"

definition bounded_pop ::
  "bool list \<Rightarrow> 'a bounded \<Rightarrow> ('a bounded \<times> (pop_error + 'a)) option" where
  "bounded_pop ws q =
     (case bounded_run ws q BPop_Load of Some (q', BPop_Done r) \<Rightarrow> Some (q', r) | _ \<Rightarrow> None)"

definition bounded_len :: "'a bounded \<Rightarrow> nat option" where
  "bounded_len q =
     (case bounded_run [] q BLen_Tail of Some (q', BLen_Done n) \<Rightarrow> Some n | _ \<Rightarrow> None)"

definition bounded_is_empty :: "'a bounded \<Rightarrow> bool" where
  "bounded_is_empty q \<longleftrightarrow> b_tail q AND NOT (b_mark_bit q) = b_head q"

definition bounded_is_full :: "'a bounded \<Rightarrow> bool" where
  "bounded_is_full q \<longleftrightarrow> b_head q + b_one_lap q = b_tail q AND NOT (b_mark_bit q)"

definition bounded_capacity :: "'a bounded \<Rightarrow> nat" where
  "bounded_capacity q = length (b_buffer q)"

definition bounded_close :: "'a bounded \<Rightarrow> 'a bounded \<times> bool" where
  "bounded_close q = (q\<lparr>b_tail := b_tail q OR b_mark_bit q\<rparr>, b_tail q AND b_mark_bit q = 0)"

definition bounded_is_closed :: "'a bounded \<Rightarrow> bool" where
  "bounded_is_closed q \<longleftrightarrow> b_tail q AND b_mark_bit q \<noteq> 0"

text \<open>
  \<open>Drop\<close> reads and drops the values still queued, oldest first; \<open>None\<close> is an
  out-of-range index or a read of an uninitialised slot.
\<close>

fun bounded_drop_loop :: "'a bounded \<Rightarrow> nat \<Rightarrow> nat list \<Rightarrow> 'a list option" where
  "bounded_drop_loop q hix [] = Some []"
| "bounded_drop_loop q hix (i # is) =
     (let index = (if hix + i < length (b_buffer q) then hix + i else hix + i - length (b_buffer q)) in
      if index \<ge> length (b_buffer q) then None
      else case bs_value (b_buffer q ! index) of
          None \<Rightarrow> None
        | Some v \<Rightarrow> map_option ((#) v) (bounded_drop_loop q hix is))"

definition bounded_drop :: "'a bounded \<Rightarrow> 'a list option" where
  "bounded_drop q =
     (case bounded_len q of
        None \<Rightarrow> None
      | Some n \<Rightarrow> bounded_drop_loop q (b_index q (b_head q)) [0..<n])"

lemma b_index_upd [simp]:
  "b_index (q\<lparr>b_tail := x\<rparr>) p = b_index q p" "b_index (q\<lparr>b_head := x\<rparr>) p = b_index q p"
  "b_index (q\<lparr>b_buffer := y\<rparr>) p = b_index q p"
  by (simp_all add: b_index_def)

section \<open>Positions\<close>

text \<open>
  The position that counts \<open>c\<close> operations: the lap in the high bits, the index below the
  mark bit. The lap wraps around with the word.
\<close>

definition b_word :: "nat \<Rightarrow> nat \<Rightarrow> nat \<Rightarrow> usize" where
  "b_word k a i = of_nat (a * 2 ^ Suc k + i)"

lemma bit_b_word:
  assumes "i < 2 ^ k"
  shows "bit (b_word k a i) j \<longleftrightarrow> j < 64 \<and> (j < k \<and> bit i j \<or> k < j \<and> bit a (j - Suc k))"
proof -
  have "push_bit (Suc k) a AND i = 0"
    by (rule bit_eqI) (auto simp: bit_simps dest: bit_less_power [OF assms])
  then have "a * 2 ^ Suc k + i = push_bit (Suc k) a OR i"
    by (simp only: push_bit_eq_mult [symmetric] disjunctive_add_eq_or)
  then have "bit (a * 2 ^ Suc k + i) j \<longleftrightarrow> (Suc k \<le> j \<and> bit a (j - Suc k)) \<or> bit i j"
    by (simp only: bit_or_iff bit_push_bit_iff_nat)
  moreover have "bit (b_word k a i) j \<longleftrightarrow> j < 64 \<and> bit (a * 2 ^ Suc k + i) j"
    unfolding b_word_def by (simp only: bit_word_of_nat_iff) simp
  ultimately show ?thesis
    using bit_less_power [OF assms, of j] by auto
qed

lemma bit_mark_word: "bit (2 ^ k :: usize) j \<longleftrightarrow> j = k \<and> k < 64"
  by (auto simp: bit_exp_iff)

lemma b_word_index:
  assumes "i < 2 ^ k" "k < 64"
  shows "unat (b_word k a i AND (2 ^ k - 1)) = i"
    "unat ((b_word k a i OR 2 ^ k) AND (2 ^ k - 1)) = i"
proof -
  have "i < 2 ^ 64"
    using assms by (meson less_le_trans less_imp_le_nat one_le_numeral power_increasing)
  then have i: "unat (of_nat i :: usize) = i"
    by (simp add: unat_of_nat take_bit_nat_eq_self)
  have "b_word k a i AND (2 ^ k - 1) = of_nat i"
    by (rule bit_word_eqI)
      (use assms in \<open>auto simp: bit_b_word bit_simps mask_eq_exp_minus_1 [symmetric] dest: bit_less_power\<close>)
  moreover have "(b_word k a i OR 2 ^ k) AND (2 ^ k - 1) = of_nat i"
    by (rule bit_word_eqI)
      (use assms in \<open>auto simp: bit_b_word bit_mark_word bit_simps mask_eq_exp_minus_1 [symmetric] dest: bit_less_power\<close>)
  ultimately show "unat (b_word k a i AND (2 ^ k - 1)) = i"
    "unat ((b_word k a i OR 2 ^ k) AND (2 ^ k - 1)) = i"
    by (simp_all add: i)
qed

lemma b_word_lap:
  assumes "i < 2 ^ k" "k < 63"
  shows "b_word k a i AND NOT (2 ^ Suc k - 1) = b_word k a 0"
  by (rule bit_word_eqI)
    (use assms in \<open>auto simp: bit_b_word bit_simps mask_eq_exp_minus_1 [symmetric] simp del: power_Suc\<close>)

lemma b_word_mark:
  assumes "i < 2 ^ k" "k < 64"
  shows "b_word k a i AND 2 ^ k = 0" "(b_word k a i OR 2 ^ k) AND 2 ^ k \<noteq> 0"
    "(b_word k a i OR 2 ^ k) AND NOT (2 ^ k) = b_word k a i" "b_word k a i AND NOT (2 ^ k) = b_word k a i"
proof -
  show "b_word k a i AND 2 ^ k = 0" "(b_word k a i OR 2 ^ k) AND NOT (2 ^ k) = b_word k a i"
    "b_word k a i AND NOT (2 ^ k) = b_word k a i"
    by (rule bit_word_eqI; use assms in \<open>auto simp: bit_b_word bit_mark_word bit_simps\<close>)+
  have "bit ((b_word k a i OR 2 ^ k) AND 2 ^ k) k"
    using assms by (simp add: bit_mark_word bit_simps)
  then show "(b_word k a i OR 2 ^ k) AND 2 ^ k \<noteq> 0" by (metis bit_0_eq bot_apply bot_bool_def)
qed

lemma b_word_add:
  assumes "i < 2 ^ k" "k < 64"
  shows "usize_add (b_word k a i) 1 = Inr (b_word k a (Suc i))"
proof -
  have "\<not> bit (b_word k a i) k" using assms by (simp add: bit_b_word)
  moreover have "bit (- 1 :: usize) k" using assms by (simp add: bit_simps)
  ultimately have "b_word k a i \<noteq> - 1" by metis
  then have "unat (b_word k a i) \<noteq> unat (- 1 :: usize)" by (metis unsigned_word_eqI)
  then have "unat (b_word k a i) \<noteq> 2 ^ 64 - 1" by (simp add: unsigned_minus_1_eq_mask mask_eq_exp_minus_1)
  moreover have "unat (b_word k a i) < 2 ^ LENGTH(64)" by (rule unsigned_less)
  ultimately have "unat (b_word k a i) + 1 < 2 ^ 64" by simp
  then show ?thesis by (simp add: usize_add_def b_word_def ac_simps)
qed

lemma b_word_lap_add: "b_word k a i + 2 ^ Suc k = b_word k (Suc a) i"
  by (simp add: b_word_def algebra_simps)

definition b_pos :: "nat \<Rightarrow> nat \<Rightarrow> nat \<Rightarrow> usize" where
  "b_pos n k c = b_word k (c div n) (c mod n)"

lemma b_pos_lap: "0 < n \<Longrightarrow> b_pos n k (c + n) = b_pos n k c + 2 ^ Suc k"
  by (simp only: b_pos_def b_word_lap_add) (simp add: div_add_self2)

lemma b_pos_0: "b_pos n k 0 = 0"
  by (simp add: b_pos_def b_word_def)

lemma b_pos_lap_neq:
  assumes "0 < n" "k < 63"
  shows "b_pos n k (c + n) \<noteq> b_pos n k c" "b_pos n k (c + n) \<noteq> b_pos n k c + 1"
proof -
  have "bit (2 ^ Suc k :: usize) (Suc k)" "\<not> bit (2 ^ Suc k :: usize) 0"
    using assms by (simp_all add: bit_exp_iff del: power_Suc)
  then have "(2 ^ Suc k :: usize) \<noteq> 0" "(2 ^ Suc k :: usize) \<noteq> 1"
    by (metis bit_0_eq bot_apply bot_bool_def, metis bit_1_iff)
  then show "b_pos n k (c + n) \<noteq> b_pos n k c" "b_pos n k (c + n) \<noteq> b_pos n k c + 1"
    by (simp_all add: b_pos_lap assms del: power_Suc)
qed

lemma mod_window_inj:
  fixes i j h n :: nat
  assumes "h \<le> i" "i < h + n" "h \<le> j" "j < h + n" "i mod n = j mod n"
  shows "i = j"
proof -
  have "n dvd (i - j)" "n dvd (j - i)"
    using assms(5) by (metis mod_eq_dvd_iff_nat nat_le_linear diff_is_0_eq dvd_0_right)+
  moreover have "i - j < n" "j - i < n" using assms by linarith+
  ultimately have "i - j = 0" "j - i = 0" by (meson dvd_imp_le leD neq0_conv)+
  then show ?thesis by simp
qed

section \<open>The representation of a queue\<close>

text \<open>
  \<open>h\<close> pops and \<open>t\<close> pushes have happened. The window of positions from \<open>h\<close> to \<open>h + n\<close>
  visits each slot once; slots below \<open>t\<close> hold a value and the stamp one above their
  position, the others are empty and stamped with the position that will fill them.
\<close>

definition b_rep :: "'a bounded \<Rightarrow> nat \<Rightarrow> nat \<Rightarrow> nat \<Rightarrow> nat \<Rightarrow> bool \<Rightarrow> bool" where
  "b_rep q n k h t c \<longleftrightarrow>
     0 < n \<and> n < 2 ^ k \<and> k < 63 \<and> h \<le> t \<and> t \<le> h + n \<and>
     length (b_buffer q) = n \<and> b_mark_bit q = 2 ^ k \<and> b_one_lap q = 2 ^ Suc k \<and>
     b_head q = b_pos n k h \<and> b_tail q = (if c then b_pos n k t OR 2 ^ k else b_pos n k t) \<and>
     (\<forall>j. h \<le> j \<longrightarrow> j < h + n \<longrightarrow>
        bs_stamp (b_buffer q ! (j mod n)) = (if j < t then b_pos n k j + 1 else b_pos n k j) \<and>
        (bs_value (b_buffer q ! (j mod n)) \<noteq> None \<longleftrightarrow> j < t))"

lemma b_repD:
  assumes "b_rep q n k h t c"
  shows "0 < n" "n < 2 ^ k" "k < 63" "h \<le> t" "t \<le> h + n" "length (b_buffer q) = n"
    "b_mark_bit q = 2 ^ k" "b_one_lap q = 2 ^ Suc k" "b_head q = b_pos n k h"
    "b_tail q = (if c then b_pos n k t OR 2 ^ k else b_pos n k t)"
    "h \<le> j \<Longrightarrow> j < h + n \<Longrightarrow>
        bs_stamp (b_buffer q ! (j mod n)) = (if j < t then b_pos n k j + 1 else b_pos n k j)"
    "h \<le> j \<Longrightarrow> j < h + n \<Longrightarrow> bs_value (b_buffer q ! (j mod n)) \<noteq> None \<longleftrightarrow> j < t"
  using assms unfolding b_rep_def by blast+

lemma b_repI:
  assumes "0 < n" "n < 2 ^ k" "k < 63" "h \<le> t" "t \<le> h + n" "length (b_buffer q) = n"
    "b_mark_bit q = 2 ^ k" "b_one_lap q = 2 ^ Suc k" "b_head q = b_pos n k h"
    "b_tail q = (if c then b_pos n k t OR 2 ^ k else b_pos n k t)"
    "\<And>j. h \<le> j \<Longrightarrow> j < h + n \<Longrightarrow>
        bs_stamp (b_buffer q ! (j mod n)) = (if j < t then b_pos n k j + 1 else b_pos n k j)"
    "\<And>j. h \<le> j \<Longrightarrow> j < h + n \<Longrightarrow> bs_value (b_buffer q ! (j mod n)) \<noteq> None \<longleftrightarrow> j < t"
  shows "b_rep q n k h t c"
  unfolding b_rep_def using assms by blast

text \<open>The words of a represented queue.\<close>

lemma b_rep_pos:
  assumes "b_rep q n k h t c"
  shows "b_index q (b_pos n k j) = j mod n" "b_index q (b_pos n k j OR 2 ^ k) = j mod n"
    "b_pos n k j AND b_mark_bit q = 0" "(b_pos n k j OR 2 ^ k) AND b_mark_bit q \<noteq> 0"
    "(b_pos n k j OR 2 ^ k) AND NOT (b_mark_bit q) = b_pos n k j"
    "b_pos n k j AND NOT (b_mark_bit q) = b_pos n k j"
    "usize_add (b_pos n k j) 1 = Inr (b_pos n k j + 1)"
    "b_next q (b_pos n k j) = Inr (b_pos n k (Suc j))"
proof -
  note r = b_repD [OF assms]
  have i: "j mod n < 2 ^ k" "k < 64" using r(1-3) by (auto intro: less_trans [OF mod_less_divisor])
  show ix: "b_index q (b_pos n k j) = j mod n" and "b_index q (b_pos n k j OR 2 ^ k) = j mod n"
    using b_word_index [OF i] by (simp_all add: b_index_def b_pos_def r(7))
  show "b_pos n k j AND b_mark_bit q = 0" "(b_pos n k j OR 2 ^ k) AND b_mark_bit q \<noteq> 0"
    "(b_pos n k j OR 2 ^ k) AND NOT (b_mark_bit q) = b_pos n k j"
    "b_pos n k j AND NOT (b_mark_bit q) = b_pos n k j"
    using b_word_mark [OF i] by (simp_all add: b_pos_def r(7))
  show add: "usize_add (b_pos n k j) 1 = Inr (b_pos n k j + 1)"
    using b_word_add [OF i, of "j div n"] by (simp add: b_pos_def b_word_def ac_simps)
  show "b_next q (b_pos n k j) = Inr (b_pos n k (Suc j))"
  proof (cases "Suc (j mod n) < n")
    case True
    then have "b_pos n k j + 1 = b_pos n k (Suc j)"
      by (simp add: b_pos_def b_word_def mod_Suc div_Suc)
    with True show ?thesis by (simp add: b_next_def ix r(6) add)
  next
    case False
    then have "Suc (j mod n) = n" using r(1) by (metis Suc_lessI mod_less_divisor)
    then have "b_pos n k (Suc j) = b_word k (Suc (j div n)) 0"
      by (simp add: b_pos_def mod_Suc div_Suc)
    with False show ?thesis
      using b_word_lap [OF i(1) r(3)] b_word_lap_add [of k "j div n" 0]
      by (simp add: b_next_def ix [unfolded b_pos_def] r(6,8) b_pos_def del: power_Suc)
  qed
qed

section \<open>One thread: the queue contract\<close>

lemma bounded_run_step:
  "\<not> bounded_final pc \<Longrightarrow> bounded_run ws q pc =
     bounded_run (tl ws) (fst (bounded_step (spurious ws) q pc)) (snd (bounded_step (spurious ws) q pc))"
  by (subst bounded_run.simps) simp

lemma bounded_run_final: "bounded_final pc \<Longrightarrow> bounded_run ws q pc = Some (q, pc)"
  by (subst bounded_run.simps) simp

lemma bounded_run_push_ok:
  fixes q :: "'a bounded" and v :: 'a
  assumes rep: "b_rep q n k h t False" and room: "t < h + n"
  defines "q' \<equiv> q\<lparr>b_tail := b_pos n k (Suc t), b_buffer := (b_buffer q)[t mod n :=
     (b_buffer q ! (t mod n))\<lparr>bs_value := Some v, bs_stamp := b_pos n k t + 1\<rparr>]\<rparr>"
  shows "bounded_run ws q (BPush_Slot v (b_pos n k t)) = Some (q', BPush_Done (Inr ()))"
proof (induction "length ws" arbitrary: ws rule: less_induct)
  case less
  note r = b_repD [OF rep] and pos = b_rep_pos [OF rep]
  have ix: "t mod n < n" using r(1) by simp
  have "bounded_run ws q (BPush_Slot v (b_pos n k t)) = bounded_run (tl ws) q (BPush_Cas v (b_pos n k t))"
    using room r(1,4,6) r(11) [of t] by (subst bounded_run_step) (simp_all add: pos)
  also have "\<dots> = Some (q', BPush_Done (Inr ()))"
  proof (cases "spurious (tl ws)")
    case True
    then have "length (tl (tl ws)) < length ws" by (cases ws) auto
    from less [OF this] show ?thesis
      using True r(10) by (subst bounded_run_step) (simp_all add: pos b_or_panic_def)
  next
    case False
    let ?q1 = "q\<lparr>b_tail := b_pos n k (Suc t)\<rparr>"
    let ?q2 = "?q1\<lparr>b_buffer := (b_buffer q)[t mod n := (b_buffer q ! (t mod n))\<lparr>bs_value := Some v\<rparr>]\<rparr>"
    have "bounded_run (tl ws) q (BPush_Cas v (b_pos n k t)) =
        bounded_run (tl (tl ws)) ?q1 (BPush_Write v (b_pos n k t))"
      using False r(10) by (subst bounded_run_step) (simp_all add: pos b_or_panic_def)
    also have "\<dots> = bounded_run (tl (tl (tl ws))) ?q2 (BPush_Stamp (b_pos n k t))"
      by (subst bounded_run_step) (simp_all add: b_update_def pos)
    also have "\<dots> = Some (q', BPush_Done (Inr ()))"
      using ix by (subst bounded_run_step)
        (simp_all add: pos b_or_panic_def b_update_def r(6) bounded_run_final q'_def)
    finally show ?thesis .
  qed
  finally show ?case .
qed

lemma b_rep_push:
  assumes rep: "b_rep q n k h t False" and room: "t < h + n"
  shows "b_rep (q\<lparr>b_tail := b_pos n k (Suc t), b_buffer := (b_buffer q)[t mod n :=
     (b_buffer q ! (t mod n))\<lparr>bs_value := Some v, bs_stamp := b_pos n k t + 1\<rparr>]\<rparr>) n k h (Suc t) False"
    (is "b_rep ?q _ _ _ _ _")
proof -
  note r = b_repD [OF rep]
  have ix: "t mod n < n" using r(1) by simp
  have other: "j mod n \<noteq> t mod n" if "h \<le> j" "j < h + n" "j \<noteq> t" for j
    using mod_window_inj [of h j n t] that room r(4) by blast
  show ?thesis
  proof (rule b_repI)
    fix j assume j: "h \<le> j" "j < h + n"
    show "bs_stamp (b_buffer ?q ! (j mod n)) = (if j < Suc t then b_pos n k j + 1 else b_pos n k j)"
      using r(11) [OF j] other [OF j] ix r(6) by (cases "j = t") auto
    show "bs_value (b_buffer ?q ! (j mod n)) \<noteq> None \<longleftrightarrow> j < Suc t"
      using r(12) [OF j] other [OF j] ix r(6) by (cases "j = t") auto
  qed (use r room in simp_all)
qed

lemma bounded_run_push_full:
  assumes rep: "b_rep q n k h (h + n) False"
  shows "bounded_run ws q (BPush_Slot v (b_pos n k (h + n))) = Some (q, BPush_Done (Inl (PushFull v)))"
proof -
  note r = b_repD [OF rep] and pos = b_rep_pos [OF rep]
  define T where "T = b_pos n k (h + n)"
  have posT: "b_index q T = h mod n" "T AND b_mark_bit q = 0" "usize_add T 1 = Inr (T + 1)"
    using pos(1,3,7) [of "h + n"] by (simp_all add: T_def)
  have lap: "b_one_lap q = T - b_pos n k h" using r(1,8) by (simp add: T_def b_pos_lap)
  have st: "bs_stamp (b_buffer q ! (h mod n)) = b_pos n k h + 1"
    using r(1) r(11) [of h] by simp
  have "bounded_run ws q (BPush_Slot v T) = bounded_run (tl ws) q (BPush_Head v T)"
    using r(1,6) b_pos_lap_neq(2) [OF r(1,3), of h]
    by (subst bounded_run_step) (simp_all add: posT b_or_panic_def st lap T_def [symmetric])
  also have "\<dots> = Some (q, BPush_Done (Inl (PushFull v)))"
    using r(9) by (subst bounded_run_step) (simp_all add: lap bounded_run_final)
  finally show ?thesis by (simp add: T_def)
qed

lemma bounded_run_push_closed:
  assumes rep: "b_rep q n k h t True"
  shows "bounded_run ws q (BPush_Slot v (b_tail q)) = Some (q, BPush_Done (Inl (PushClosed v)))"
  using b_repD(10) [OF rep] by (subst bounded_run_step) (simp_all add: b_rep_pos [OF rep] bounded_run_final)

lemma bounded_run_pop_ok:
  fixes q :: "'a bounded" and v :: 'a
  assumes rep: "b_rep q n k h t c" and ne: "h < t" and v: "bs_value (b_buffer q ! (h mod n)) = Some v"
  defines "q' \<equiv> q\<lparr>b_head := b_pos n k (Suc h), b_buffer := (b_buffer q)[h mod n :=
     (b_buffer q ! (h mod n))\<lparr>bs_value := None, bs_stamp := b_pos n k (h + n)\<rparr>]\<rparr>"
  shows "bounded_run ws q (BPop_Slot (b_pos n k h)) = Some (q', BPop_Done (Inr v))"
proof (induction "length ws" arbitrary: ws rule: less_induct)
  case less
  note r = b_repD [OF rep] and pos = b_rep_pos [OF rep]
  have ix: "h mod n < n" using r(1) by simp
  have "bounded_run ws q (BPop_Slot (b_pos n k h)) = bounded_run (tl ws) q (BPop_Cas (b_pos n k h))"
    using ne r(1,6) r(11) [of h] by (subst bounded_run_step) (simp_all add: pos b_or_panic_def)
  also have "\<dots> = Some (q', BPop_Done (Inr v))"
  proof (cases "spurious (tl ws)")
    case True
    then have "length (tl (tl ws)) < length ws" by (cases ws) auto
    from less [OF this] show ?thesis
      using True r(9) by (subst bounded_run_step) (simp_all add: pos b_or_panic_def)
  next
    case False
    let ?q1 = "q\<lparr>b_head := b_pos n k (Suc h)\<rparr>"
    let ?q2 = "?q1\<lparr>b_buffer := (b_buffer q)[h mod n := (b_buffer q ! (h mod n))\<lparr>bs_value := None\<rparr>]\<rparr>"
    have "bounded_run (tl ws) q (BPop_Cas (b_pos n k h)) =
        bounded_run (tl (tl ws)) ?q1 (BPop_Read (b_pos n k h))"
      using False r(9) by (subst bounded_run_step) (simp_all add: pos b_or_panic_def)
    also have "\<dots> = bounded_run (tl (tl (tl ws))) ?q2 (BPop_Stamp v (b_pos n k h))"
      using v by (subst bounded_run_step) (simp_all add: b_update_def pos)
    also have "\<dots> = Some (q', BPop_Done (Inr v))"
      using ix r(1) by (subst bounded_run_step)
        (simp_all add: pos b_update_def r(6,8) b_pos_lap bounded_run_final q'_def)
    finally show ?thesis .
  qed
  finally show ?case .
qed

lemma b_rep_pop:
  assumes rep: "b_rep q n k h t c" and ne: "h < t"
  shows "b_rep (q\<lparr>b_head := b_pos n k (Suc h), b_buffer := (b_buffer q)[h mod n :=
     (b_buffer q ! (h mod n))\<lparr>bs_value := None, bs_stamp := b_pos n k (h + n)\<rparr>]\<rparr>) n k (Suc h) t c"
    (is "b_rep ?q _ _ _ _ _")
proof -
  note r = b_repD [OF rep]
  have ix: "h mod n < n" using r(1) by simp
  have other: "j mod n \<noteq> h mod n" if "Suc h \<le> j" "j < Suc h + n" "j \<noteq> h + n" for j
    using mod_window_inj [of h j n h] that by auto
  show ?thesis
  proof (rule b_repI)
    fix j assume j: "Suc h \<le> j" "j < Suc h + n"
    show "bs_stamp (b_buffer ?q ! (j mod n)) = (if j < t then b_pos n k j + 1 else b_pos n k j)"
      using r(11) [of j] other [OF j] ix r(5,6) j by (cases "j = h + n") auto
    show "bs_value (b_buffer ?q ! (j mod n)) \<noteq> None \<longleftrightarrow> j < t"
      using r(12) [of j] other [OF j] ix r(5,6) j by (cases "j = h + n") auto
  qed (use r ne in simp_all)
qed

lemma bounded_run_pop_empty:
  assumes rep: "b_rep q n k h h c"
  shows "bounded_run ws q (BPop_Slot (b_pos n k h)) =
     Some (q, BPop_Done (Inl (if c then PopClosed else PopEmpty)))"
proof -
  note r = b_repD [OF rep] and pos = b_rep_pos [OF rep]
  have "bounded_run ws q (BPop_Slot (b_pos n k h)) = bounded_run (tl ws) q (BPop_Tail (b_pos n k h))"
    using r(1,6) r(11) [of h] by (subst bounded_run_step) (simp_all add: pos b_or_panic_def)
  also have "\<dots> = Some (q, BPop_Done (Inl (if c then PopClosed else PopEmpty)))"
    using r(10) by (subst bounded_run_step) (simp_all add: pos Let_def bounded_run_final)
  finally show ?thesis .
qed

definition bounded_contents :: "'a bounded \<Rightarrow> 'a list" where
  "bounded_contents q =
     map (\<lambda>i. the (bs_value (b_buffer q ! ((b_index q (b_head q) + i) mod length (b_buffer q)))))
       [0..<bounded_len_of q (b_tail q) (b_head q)]"

definition bounded_inv :: "'a bounded \<Rightarrow> bool" where
  "bounded_inv q \<longleftrightarrow> (\<exists>n k h t c. b_rep q n k h t c)"

lemma ring_distance_aux:
  fixes a b h t n :: nat
  assumes "b = a + (t - h) \<or> b + n = a + (t - h)" "h \<le> t" "t \<le> h + n" "a < n" "b < n"
  shows "a < b \<Longrightarrow> b - a = t - h" "b < a \<Longrightarrow> n - a + b = t - h" "b = a \<Longrightarrow> t = h \<or> t = h + n"
  using assms by arith+

lemma ring_distance:
  fixes h t n :: nat
  assumes "h \<le> t" "t \<le> h + n" "0 < n"
  shows "h mod n < t mod n \<Longrightarrow> t mod n - h mod n = t - h"
    "t mod n < h mod n \<Longrightarrow> n - h mod n + t mod n = t - h"
    "t mod n = h mod n \<Longrightarrow> t = h \<or> t = h + n"
proof -
  have t: "t mod n = (h mod n + (t - h)) mod n"
    using assms(1) by (metis le_add_diff_inverse mod_add_left_eq)
  have h: "h mod n < n" using assms by simp
  have "h mod n + (t - h) < 2 * n"
    using assms(2) h by (metis add_less_le_mono le_diff_conv add.commute mult_2)
  then consider "h mod n + (t - h) < n" | "n \<le> h mod n + (t - h)" "h mod n + (t - h) < 2 * n"
    by (meson not_le)
  then have "t mod n = h mod n + (t - h) \<or> t mod n + n = h mod n + (t - h)"
  proof cases
    case 1
    then show ?thesis using t by simp
  next
    case 2
    then have "(h mod n + (t - h)) mod n = h mod n + (t - h) - n"
      by (simp only: le_mod_geq) (intro mod_less, linarith)
    with 2 t show ?thesis by simp
  qed
  from ring_distance_aux [OF this assms(1,2) h]
  show "h mod n < t mod n \<Longrightarrow> t mod n - h mod n = t - h"
    "t mod n < h mod n \<Longrightarrow> n - h mod n + t mod n = t - h"
    "t mod n = h mod n \<Longrightarrow> t = h \<or> t = h + n"
    using assms(3) by simp_all
qed

lemma b_rep_len:
  assumes rep: "b_rep q n k h t c"
  shows "bounded_len_of q (b_tail q) (b_head q) = t - h"
proof -
  note r = b_repD [OF rep] and pos = b_rep_pos [OF rep]
  have ix: "b_index q (b_tail q) = t mod n" "b_index q (b_head q) = h mod n"
    "b_tail q AND NOT (b_mark_bit q) = b_pos n k t"
    using r(9,10) by (simp_all add: pos)
  consider "h mod n < t mod n" | "t mod n < h mod n" | "t = h" | "t = h + n"
    using ring_distance(3) [OF r(4,5,1)] by linarith
  then show ?thesis
    by cases (use ring_distance(1,2) [OF r(4,5,1)] b_pos_lap_neq [OF r(1,3), of h] r(6,9) ix
        in \<open>simp_all add: Let_def\<close>)
qed

lemma b_rep_contents:
  assumes rep: "b_rep q n k h t c"
  shows "bounded_contents q = map (\<lambda>j. the (bs_value (b_buffer q ! (j mod n)))) [h..<t]"
proof -
  note r = b_repD [OF rep] and pos = b_rep_pos [OF rep]
  have "[h..<t] = map (\<lambda>i. h + i) [0..<t - h]"
    using r(4) by (intro nth_equalityI) auto
  then show ?thesis
    using r(6,9) b_rep_len [OF rep]
    by (simp add: bounded_contents_def pos mod_add_left_eq o_def del: bounded_len_of.simps)
qed

lemma b_rep_closed: "b_rep q n k h t c \<Longrightarrow> bounded_is_closed q = c"
  using b_repD(10) [of q n k h t c] by (simp add: bounded_is_closed_def b_rep_pos)

lemma b_rep_contents_push:
  assumes rep: "b_rep q n k h t False" and room: "t < h + n"
  shows "bounded_contents (q\<lparr>b_tail := b_pos n k (Suc t), b_buffer := (b_buffer q)[t mod n :=
     (b_buffer q ! (t mod n))\<lparr>bs_value := Some v, bs_stamp := b_pos n k t + 1\<rparr>]\<rparr>) = bounded_contents q @ [v]"
proof -
  note r = b_repD [OF rep]
  have ix: "t mod n < n" using r(1) by simp
  have other: "j mod n \<noteq> t mod n" if "h \<le> j" "j < t" for j
    using mod_window_inj [of h j n t] that room r(4) by fastforce
  have upd: "(b_buffer q)[t mod n := y] ! (j mod n) = b_buffer q ! (j mod n)" if "h \<le> j" "j < t" for y j
    using other [OF that] by simp
  show ?thesis
    unfolding b_rep_contents [OF rep] b_rep_contents [OF b_rep_push [OF rep room]]
    using r(4,6) ix by (simp add: upd)
qed

lemma b_rep_contents_pop:
  assumes rep: "b_rep q n k h t c" and ne: "h < t"
  shows "bounded_contents q = the (bs_value (b_buffer q ! (h mod n))) #
    bounded_contents (q\<lparr>b_head := b_pos n k (Suc h), b_buffer := (b_buffer q)[h mod n :=
     (b_buffer q ! (h mod n))\<lparr>bs_value := None, bs_stamp := b_pos n k (h + n)\<rparr>]\<rparr>)"
proof -
  note r = b_repD [OF rep]
  have ix: "h mod n < n" using r(1) by simp
  have other: "j mod n \<noteq> h mod n" if "Suc h \<le> j" "j < t" for j
    using mod_window_inj [of h j n h] that r(5) by fastforce
  have upd: "(b_buffer q)[h mod n := y] ! (j mod n) = b_buffer q ! (j mod n)" if "Suc h \<le> j" "j < t" for y j
    using other [OF that] by simp
  show ?thesis
    unfolding b_rep_contents [OF rep] b_rep_contents [OF b_rep_pop [OF rep ne]]
    using ne r(6) ix by (simp add: upt_conv_Cons upd)
qed

lemma b_rep_length_contents: "b_rep q n k h t c \<Longrightarrow> length (bounded_contents q) = t - h"
  by (simp add: b_rep_contents)

lemma b_rep_inv: "b_rep q n k h t c \<Longrightarrow> bounded_inv q"
  unfolding bounded_inv_def by blast

lemma b_rep_cap: "b_rep q n k h t c \<Longrightarrow> bounded_capacity q = n"
  by (simp add: bounded_capacity_def b_repD(6))

lemma b_push_ok:
  assumes "b_rep q n k h t False" "t < h + n"
  shows "\<exists>q'. bounded_run ws q (BPush_Slot v (b_pos n k t)) = Some (q', BPush_Done (Inr ())) \<and>
    b_rep q' n k h (Suc t) False \<and> bounded_contents q' = bounded_contents q @ [v]"
  using bounded_run_push_ok [OF assms] b_rep_push [OF assms] b_rep_contents_push [OF assms] by blast

lemma b_pop_ok:
  assumes "b_rep q n k h t c" "h < t" "bs_value (b_buffer q ! (h mod n)) = Some v"
  shows "\<exists>q'. bounded_run ws q (BPop_Slot (b_pos n k h)) = Some (q', BPop_Done (Inr v)) \<and>
    b_rep q' n k (Suc h) t c \<and> bounded_contents q = v # bounded_contents q'"
  using bounded_run_pop_ok [OF assms] b_rep_pop [OF assms(1,2)] b_rep_contents_pop [OF assms(1,2)]
    assms(3) by (metis option.sel)

lemma bounded_push_spec:
  assumes "bounded_inv q"
  shows "\<exists>q'. bounded_push ws q v =
      Some (q', spec_push (Some (bounded_capacity q)) (bounded_is_closed q) (bounded_contents q) v)
    \<and> bounded_inv q' \<and> bounded_is_closed q' = bounded_is_closed q
    \<and> Some (bounded_capacity q') = Some (bounded_capacity q)
    \<and> bounded_contents q' =
       (if spec_push (Some (bounded_capacity q)) (bounded_is_closed q) (bounded_contents q) v = Inr ()
        then bounded_contents q @ [v] else bounded_contents q)"
proof -
  obtain n k h t c where rep: "b_rep q n k h t c" using assms unfolding bounded_inv_def by blast
  note r = b_repD [OF rep] and cl = b_rep_closed [OF rep] and len = b_rep_length_contents [OF rep]
  have cap: "bounded_capacity q = n" using r(6) by (simp add: bounded_capacity_def)
  have load: "bounded_run ws q (BPush_Load v) = bounded_run (tl ws) q (BPush_Slot v (b_tail q))"
    by (subst bounded_run_step) simp_all
  consider "c" | "\<not> c" "t < h + n" | "\<not> c" "t = h + n" using r(5) by linarith
  then show ?thesis
  proof cases
    case 1
    with rep have "b_rep q n k h t True" by simp
    from bounded_run_push_closed [OF this, of "tl ws" v] load 1 cl assms show ?thesis
      by (simp add: bounded_push_def spec_push_def)
  next
    case 2
    then have rep': "b_rep q n k h t False" using rep by simp
    from b_push_ok [OF this 2(2), of "tl ws" v] obtain q' where
      q': "bounded_run (tl ws) q (BPush_Slot v (b_pos n k t)) = Some (q', BPush_Done (Inr ()))"
        "b_rep q' n k h (Suc t) False" "bounded_contents q' = bounded_contents q @ [v]"
      by blast
    show ?thesis
      using 2 r(4,10) load cl cap len b_rep_closed [OF q'(2)] b_rep_cap [OF q'(2)]
      by (intro exI [of _ q']) (auto simp: bounded_push_def spec_push_def q' b_rep_inv [OF q'(2)])
  next
    case 3
    with rep have rep': "b_rep q n k h (h + n) False" by simp
    from bounded_run_push_full [OF rep', of "tl ws" v] show ?thesis
      using 3 r(10) load cl cap len assms by (simp add: bounded_push_def spec_push_def)
  qed
qed

lemma bounded_pop_spec:
  assumes "bounded_inv q"
  shows "\<exists>q'. bounded_pop ws q = Some (q', spec_pop (bounded_is_closed q) (bounded_contents q))
    \<and> bounded_inv q' \<and> bounded_is_closed q' = bounded_is_closed q
    \<and> Some (bounded_capacity q') = Some (bounded_capacity q)
    \<and> bounded_contents q' = tl (bounded_contents q)"
proof -
  obtain n k h t c where rep: "b_rep q n k h t c" using assms unfolding bounded_inv_def by blast
  note r = b_repD [OF rep] and cl = b_rep_closed [OF rep]
  have load: "bounded_run ws q BPop_Load = bounded_run (tl ws) q (BPop_Slot (b_pos n k h))"
    using r(9) by (subst bounded_run_step) simp_all
  show ?thesis
  proof (cases "h < t")
    case True
    with r(5) r(12) [of h] obtain v where v: "bs_value (b_buffer q ! (h mod n)) = Some v" by auto
    from b_pop_ok [OF rep True v, of "tl ws"] obtain q' where
      q': "bounded_run (tl ws) q (BPop_Slot (b_pos n k h)) = Some (q', BPop_Done (Inr v))"
        "b_rep q' n k (Suc h) t c" "bounded_contents q = v # bounded_contents q'"
      by blast
    show ?thesis
      using load cl b_rep_closed [OF q'(2)] b_rep_cap [OF q'(2)] b_rep_cap [OF rep]
      by (intro exI [of _ q']) (simp add: bounded_pop_def spec_pop_def q' b_rep_inv [OF q'(2)])
  next
    case False
    with r(4) have eq: "t = h" by simp
    from bounded_run_pop_empty [OF rep [unfolded eq], of "tl ws"] b_rep_length_contents [OF rep]
    show ?thesis
      using load cl eq assms by (simp add: bounded_pop_def spec_pop_def)
  qed
qed

lemma b_rep_close:
  assumes rep: "b_rep q n k h t c"
  shows "b_rep (q\<lparr>b_tail := b_tail q OR b_mark_bit q\<rparr>) n k h t True"
proof -
  note r = b_repD [OF rep]
  show ?thesis
  proof (rule b_repI)
    show "b_tail (q\<lparr>b_tail := b_tail q OR b_mark_bit q\<rparr>) =
        (if True then b_pos n k t OR 2 ^ k else b_pos n k t)"
      using r(7,10) by (simp add: or.assoc)
  qed (use r in simp_all)
qed

lemma bounded_close_spec:
  assumes "bounded_inv q"
  shows "\<exists>q'. bounded_close q = (q', \<not> bounded_is_closed q)
    \<and> bounded_inv q' \<and> bounded_is_closed q' \<and> Some (bounded_capacity q') = Some (bounded_capacity q)
    \<and> bounded_contents q' = bounded_contents q"
proof -
  obtain n k h t c where rep: "b_rep q n k h t c" using assms unfolding bounded_inv_def by blast
  note rep' = b_rep_close [OF rep]
  from b_rep_contents [OF rep'] b_rep_contents [OF rep]
  have "bounded_contents (q\<lparr>b_tail := b_tail q OR b_mark_bit q\<rparr>) = bounded_contents q" by simp
  then show ?thesis
    using b_rep_inv [OF rep'] b_rep_closed [OF rep']
    by (simp add: bounded_close_def bounded_is_closed_def [of q] bounded_capacity_def)
qed

interpretation bounded: fifo bounded_inv bounded_contents bounded_is_closed "\<lambda>q. Some (bounded_capacity q)"
  "\<lambda>_. True" "bounded_push ws" "bounded_pop ws'" bounded_close for ws ws'
proof (unfold_locales, goal_cases)
  case (1 q v)
  then show ?case using bounded_push_spec [of q ws v] by blast
next
  case (2 q)
  then show ?case using bounded_pop_spec [of q ws'] by blast
next
  case (3 q)
  then show ?case using bounded_close_spec [of q] by blast
next
  case (4 q m)
  then obtain n k h t c where rep: "b_rep q n k h t c" unfolding bounded_inv_def by blast
  from b_rep_length_contents [OF rep] b_rep_cap [OF rep] b_repD(5) [OF rep] 4(2)
  show ?case by simp
qed simp

text \<open>The constructor succeeds exactly when the buffer can be allocated.\<close>

lemma bounded_new_rep:
  assumes cap: "cap \<noteq> 0" and fits: "unat cap * slot_size \<le> isize_max" and size: "8 \<le> slot_size"
  obtains q :: "'a bounded" and k where "bounded_new slot_size cap = Inr q" "b_rep q (unat cap) k 0 0 False"
proof -
  obtain k where k: "next_power_of_two (unat cap + 1) = 2 ^ k" "unat cap + 1 \<le> 2 ^ k"
    "\<And>j. j < k \<Longrightarrow> 2 ^ j < unat cap + 1"
    using next_power_of_two_correct by blast
  have "unat cap * 8 \<le> unat cap * slot_size" using size by simp
  also have "\<dots> \<le> 2 ^ 63 - 1" using fits by (simp add: isize_max_def)
  finally have c60: "unat cap < 2 ^ 60" by simp
  have k61: "k \<le> 60"
  proof (rule ccontr)
    assume "\<not> k \<le> 60"
    with k(3) [of 60] c60 show False by simp
  qed
  then have "(2::nat) ^ k \<le> 2 ^ 60" by (intro power_increasing) auto
  then have "\<not> 2 ^ k * 2 > usize_max" "\<not> unat cap + 1 > usize_max" using c60 by (simp_all add: usize_max_def)
  then have new: "bounded_new slot_size cap = Inr \<lparr>b_head = 0, b_tail = 0,
      b_buffer = map (\<lambda>i. \<lparr>bs_stamp = of_nat i, bs_value = None :: 'a option\<rparr>) [0..<unat cap],
      b_one_lap = of_nat (2 ^ k * 2), b_mark_bit = of_nat (2 ^ k)\<rparr>" (is "_ = Inr ?q")
    using cap fits by (simp add: bounded_new_def k(1) [simplified])
  have c0: "0 < unat cap" using cap by (simp add: unat_gt_0)
  have "b_rep ?q (unat cap) k 0 0 False"
  proof (rule b_repI)
    fix j :: nat assume "0 \<le> j" "j < 0 + unat cap"
    then show "bs_stamp (b_buffer ?q ! (j mod unat cap)) = (if j < 0 then b_pos (unat cap) k j + 1 else b_pos (unat cap) k j)"
      "bs_value (b_buffer ?q ! (j mod unat cap)) \<noteq> None \<longleftrightarrow> j < 0"
      by (simp_all add: b_pos_def b_word_def)
  qed (use c0 k(2) k61 in \<open>simp_all add: b_pos_0\<close>)
  with new that show thesis by blast
qed

lemma bounded_new_ok:
  assumes "bounded_new slot_size cap = Inr (q :: 'a bounded)" "8 \<le> slot_size"
  shows "bounded_inv q" "bounded_contents q = []" "\<not> bounded_is_closed q" "bounded_capacity q = unat cap"
proof -
  have "cap \<noteq> 0" "unat cap * slot_size \<le> isize_max"
    using assms(1) by (auto simp: bounded_new_def split: if_splits)
  then obtain q' :: "'a bounded" and k where
    new: "bounded_new slot_size cap = Inr q'" and rep: "b_rep q' (unat cap) k 0 0 False"
    using bounded_new_rep assms(2) by blast
  from new assms(1) have "q' = q" by simp
  with rep b_rep_inv [OF rep] b_rep_contents [OF rep] b_rep_closed [OF rep] b_rep_cap [OF rep]
  show "bounded_inv q" "bounded_contents q = []" "\<not> bounded_is_closed q" "bounded_capacity q = unat cap"
    by simp_all
qed

lemma bounded_new_iff:
  assumes "8 \<le> slot_size"
  shows "(\<exists>q :: 'a bounded. bounded_new slot_size cap = Inr q) \<longleftrightarrow> cap \<noteq> 0 \<and> unat cap * slot_size \<le> isize_max"
proof
  assume "\<exists>q :: 'a bounded. bounded_new slot_size cap = Inr q"
  then show "cap \<noteq> 0 \<and> unat cap * slot_size \<le> isize_max"
    by (auto simp: bounded_new_def split: if_splits)
next
  assume "cap \<noteq> 0 \<and> unat cap * slot_size \<le> isize_max"
  then show "\<exists>q :: 'a bounded. bounded_new slot_size cap = Inr q"
    using bounded_new_rep assms by metis
qed

text \<open>The observers and the destructor agree with the contents.\<close>

lemma bounded_len_returns: "bounded_len q = Some (bounded_len_of q (b_tail q) (b_head q))"
  unfolding bounded_len_def
  by (simp del: bounded_len_of.simps add: bounded_run_step bounded_run_final)

lemma bounded_len_spec:
  assumes "bounded_inv q"
  shows "bounded_len q = Some (length (bounded_contents q))"
  using assms b_rep_len b_rep_length_contents by (metis bounded_inv_def bounded_len_returns)

lemma bounded_is_empty_spec:
  assumes "bounded_inv q"
  shows "bounded_is_empty q \<longleftrightarrow> bounded_contents q = []"
proof -
  obtain n k h t c where rep: "b_rep q n k h t c" using assms unfolding bounded_inv_def by blast
  note r = b_repD [OF rep] and pos = b_rep_pos [OF rep]
  have e: "bounded_is_empty q \<longleftrightarrow> b_pos n k t = b_pos n k h"
    using r(9,10) by (simp add: bounded_is_empty_def pos)
  have "b_pos n k t = b_pos n k h \<Longrightarrow> t mod n = h mod n"
    using pos(1) [of t] pos(1) [of h] by simp
  then have "b_pos n k t = b_pos n k h \<longleftrightarrow> t = h"
    using ring_distance(3) [OF r(4,5,1)] b_pos_lap_neq(1) [OF r(1,3), of h] by auto
  with e show ?thesis using b_rep_length_contents [OF rep] r(4) by auto
qed

lemma bounded_is_full_spec:
  assumes "bounded_inv q"
  shows "bounded_is_full q \<longleftrightarrow> length (bounded_contents q) = bounded_capacity q"
proof -
  obtain n k h t c where rep: "b_rep q n k h t c" using assms unfolding bounded_inv_def by blast
  note r = b_repD [OF rep] and pos = b_rep_pos [OF rep]
  have e: "bounded_is_full q \<longleftrightarrow> b_pos n k (h + n) = b_pos n k t"
    using r(1,8,9,10) by (simp add: bounded_is_full_def pos b_pos_lap)
  have "b_pos n k (h + n) = b_pos n k t \<Longrightarrow> t mod n = h mod n"
    using pos(1) [of t] pos(1) [of "h + n"] by simp
  then have "b_pos n k (h + n) = b_pos n k t \<longleftrightarrow> t = h + n"
    using ring_distance(3) [OF r(4,5,1)] b_pos_lap_neq(1) [OF r(1,3), of h] by auto
  with e show ?thesis using b_rep_length_contents [OF rep] b_rep_cap [OF rep] r(1,4) by auto
qed

lemma bounded_drop_loop_eq:
  assumes "hix < length (b_buffer q)"
    and "\<And>i. i \<in> set is \<Longrightarrow> bs_value (b_buffer q ! ((hix + i) mod length (b_buffer q))) \<noteq> None"
    and "\<And>i. i \<in> set is \<Longrightarrow> i < length (b_buffer q)"
  shows "bounded_drop_loop q hix is =
     Some (map (\<lambda>i. the (bs_value (b_buffer q ! ((hix + i) mod length (b_buffer q))))) is)"
  using assms(2,3)
proof (induction "is")
  case Nil
  show ?case by simp
next
  case (Cons i "is")
  let ?n = "length (b_buffer q)"
  have "(if hix + i < ?n then hix + i else hix + i - ?n) = (hix + i) mod ?n"
    using assms(1) Cons.prems(2) [of i] by (auto simp: le_mod_geq)
  moreover have "(hix + i) mod ?n < ?n" using assms(1) by (intro mod_less_divisor) auto
  moreover obtain v where "bs_value (b_buffer q ! ((hix + i) mod ?n)) = Some v"
    using Cons.prems(1) [of i] by auto
  moreover have "bounded_drop_loop q hix is =
      Some (map (\<lambda>i. the (bs_value (b_buffer q ! ((hix + i) mod ?n)))) is)"
    using Cons.prems by (intro Cons.IH) auto
  ultimately show ?case by (simp add: Let_def)
qed

lemma bounded_drop_spec:
  assumes "bounded_inv q"
  shows "bounded_drop q = Some (bounded_contents q)"
proof -
  obtain n k h t c where rep: "b_rep q n k h t c" using assms unfolding bounded_inv_def by blast
  note r = b_repD [OF rep] and pos = b_rep_pos [OF rep]
  have h: "b_index q (b_head q) = h mod n" using r(9) by (simp add: pos)
  have v: "bs_value (b_buffer q ! ((h mod n + i) mod n)) \<noteq> None" "i < n" if "i < t - h" for i
    using r(12) [of "h + i"] r(4,5) that by (simp_all add: mod_add_left_eq)
  have "bounded_drop_loop q (h mod n) [0..<t - h] =
      Some (map (\<lambda>i. the (bs_value (b_buffer q ! ((h mod n + i) mod length (b_buffer q))))) [0..<t - h])"
    by (rule bounded_drop_loop_eq) (use r(1,6) v in auto)
  then show ?thesis
    unfolding bounded_drop_def bounded_len_returns bounded_contents_def b_rep_len [OF rep] h by simp
qed

section \<open>Properties\<close>

text \<open> The destructor of a bounded queue reads initialised slots only and drops exactly the
  values still queued, oldest first, each once.
\<close>

lemma bounded_drop_correct:
  assumes "bounded_inv q"
  shows "bounded_drop q = Some (bounded_contents q)"
  using assms by (rule bounded_drop_spec)

lemma bounded_drop_correct_witness:
  "\<exists>q :: nat bounded. bounded_new 16 2 = Inr q \<and> bounded_drop q = Some []"
proof -
  obtain q :: "nat bounded" where q: "bounded_new 16 2 = Inr q"
    using bounded_new_iff [of 16 2, where 'a = nat] by (auto simp: isize_max_def)
  with bounded_drop_correct [OF bounded_new_ok(1) [OF q]] bounded_new_ok(2) [OF q] show ?thesis by auto
qed

end
