(* ===== verification/Queue_Unbounded.thy ===== *)
theory Queue_Unbounded
  imports Queue_Spec
begin

text \<open>
  The unbounded queue (src/cynthia/src/platform/queue/unbounded.rs): a linked list of blocks
  of 31 slots. The blocks live in an explicit heap, so that following a null or freed
  pointer, reading an uninitialised slot and leaking a block are visible. The loops of
  \<open>push\<close> and \<open>pop\<close> are modelled one iteration at a time for a thread that runs alone;
  \<open>w\<close> tells whether the \<open>compare_exchange_weak\<close> of the iteration fails spuriously. The
  index words wrap around (a build without overflow checks).
\<close>

definition WRITE :: usize where "WRITE = 1"
definition READ :: usize where "READ = 2"
definition DESTROY :: usize where "DESTROY = 4"
definition LAP :: nat where "LAP = 32"
definition BLOCK_CAP :: nat where "BLOCK_CAP = LAP - 1"
definition MARK_BIT :: usize where "MARK_BIT = 1"

text \<open>\<open>i >> SHIFT\<close> and \<open>1 << SHIFT\<close>, with \<open>SHIFT = 1\<close>.\<close>

definition shifted :: "usize \<Rightarrow> nat" where
  "shifted i = unat (drop_bit 1 i)"

record 'a uslot =
  us_value :: "'a option"
  us_state :: usize

record 'a ublock =
  ub_next :: "nat option"
  ub_slots :: "'a uslot list"

definition block_new :: "'a ublock" where
  "block_new = \<lparr>ub_next = None, ub_slots = replicate BLOCK_CAP \<lparr>us_value = None, us_state = 0\<rparr>\<rparr>"

text \<open>The heap maps the address of a live block to it; \<open>u_fresh\<close> is the next address.\<close>

record 'a unbounded =
  u_head_index :: usize
  u_head_block :: "nat option"
  u_tail_index :: usize
  u_tail_block :: "nat option"
  u_heap :: "nat \<rightharpoonup> 'a ublock"
  u_fresh :: nat

definition unbounded_new :: "'a unbounded" where
  "unbounded_new = \<lparr>u_head_index = 0, u_head_block = None, u_tail_index = 0, u_tail_block = None,
     u_heap = Map.empty, u_fresh = 0\<rparr>"

definition u_alloc :: "'a unbounded \<Rightarrow> 'a unbounded \<times> nat" where
  "u_alloc q = (q\<lparr>u_heap := (u_heap q)(u_fresh q \<mapsto> block_new), u_fresh := Suc (u_fresh q)\<rparr>, u_fresh q)"

definition u_free :: "'a unbounded \<Rightarrow> nat option \<Rightarrow> 'a unbounded" where
  "u_free q p = (case p of None \<Rightarrow> q | Some a \<Rightarrow> q\<lparr>u_heap := (u_heap q)(a := None)\<rparr>)"

definition u_set_slot :: "'a ublock \<Rightarrow> nat \<Rightarrow> 'a uslot \<Rightarrow> 'a ublock" where
  "u_set_slot b i s = b\<lparr>ub_slots := (ub_slots b)[i := s]\<rparr>"

text \<open>
  How an iteration ends: with new local variables, with a result, in a loop that waits for
  another thread (\<open>Spin\<close>), or in undefined behaviour.
\<close>

datatype ('l, 'r) iter = Again 'l | Return 'r | Spin | Undefined

type_synonym push_locals = "usize \<times> nat option \<times> nat option"

definition unbounded_push_cas ::
  "bool \<Rightarrow> 'a unbounded \<Rightarrow> usize \<Rightarrow> nat \<Rightarrow> nat option \<Rightarrow> 'a \<Rightarrow> 'a unbounded \<times> (push_locals, 'a push_error + unit) iter" where
  "unbounded_push_cas w q tail block next_block value =
     (let offset = shifted tail mod LAP; new_tail = tail + 2 in
      if u_tail_index q = tail \<and> \<not> w then
        (case u_heap q block of
           None \<Rightarrow> (q, Undefined)
         | Some b \<Rightarrow>
             if offset + 1 = BLOCK_CAP then
               (case next_block of
                  None \<Rightarrow> (q, Undefined)
                | Some nb \<Rightarrow>
                    let b1 = b\<lparr>ub_next := Some nb\<rparr>;
                        b2 = u_set_slot b1 offset \<lparr>us_value = Some value, us_state = us_state (ub_slots b ! offset) OR WRITE\<rparr> in
                    (q\<lparr>u_tail_index := new_tail + 2, u_tail_block := Some nb, u_heap := (u_heap q)(block \<mapsto> b2)\<rparr>,
                     Return (Inr ())))
             else
               let b2 = u_set_slot b offset \<lparr>us_value = Some value, us_state = us_state (ub_slots b ! offset) OR WRITE\<rparr> in
               (u_free (q\<lparr>u_tail_index := new_tail, u_heap := (u_heap q)(block \<mapsto> b2)\<rparr>) next_block, Return (Inr ())))
      else (q, Again (u_tail_index q, u_tail_block q, next_block)))"

definition unbounded_push_iter ::
  "bool \<Rightarrow> 'a unbounded \<Rightarrow> push_locals \<Rightarrow> 'a \<Rightarrow> 'a unbounded \<times> (push_locals, 'a push_error + unit) iter" where
  "unbounded_push_iter w q l value =
     (case l of (tail, block, next_block) \<Rightarrow>
      if tail AND MARK_BIT \<noteq> 0 then (u_free q next_block, Return (Inl (PushClosed value)))
      else let offset = shifted tail mod LAP in
        if offset = BLOCK_CAP then (q, Again (u_tail_index q, u_tail_block q, next_block))
        else
          let (q1, next1) =
                (if offset + 1 = BLOCK_CAP \<and> next_block = None
                 then (case u_alloc q of (q', a) \<Rightarrow> (q', Some a)) else (q, next_block)) in
          (case block of
             None \<Rightarrow>
               (case u_alloc q1 of (q2, new) \<Rightarrow>
                  if u_tail_block q2 = None
                  then unbounded_push_cas w (q2\<lparr>u_tail_block := Some new, u_head_block := Some new\<rparr>) tail new next1 value
                  else (u_free q2 next1, Again (u_tail_index q2, u_tail_block q2, Some new)))
           | Some a \<Rightarrow> unbounded_push_cas w q1 tail a next1 value))"

text \<open>\<open>Block::destroy\<close>: frees the block unless a slot is still to be read.\<close>

fun block_destroy :: "'a unbounded \<Rightarrow> nat \<Rightarrow> nat list \<Rightarrow> 'a unbounded option" where
  "block_destroy q this [] = Some (u_free q (Some this))"
| "block_destroy q this (i # is) =
     (case u_heap q this of
        None \<Rightarrow> None
      | Some b \<Rightarrow>
          let s = ub_slots b ! i in
          if us_state s AND READ = 0
          then Some (q\<lparr>u_heap := (u_heap q)(this \<mapsto> u_set_slot b i (s\<lparr>us_state := us_state s OR DESTROY\<rparr>))\<rparr>)
          else block_destroy q this is)"

type_synonym pop_locals = "usize \<times> nat option"

definition unbounded_pop_read ::
  "'a unbounded \<Rightarrow> nat \<Rightarrow> nat \<Rightarrow> 'a unbounded \<times> (pop_locals, pop_error + 'a) iter" where
  "unbounded_pop_read q block offset =
     (case u_heap q block of
        None \<Rightarrow> (q, Undefined)
      | Some b \<Rightarrow>
          let s = ub_slots b ! offset in
          if us_state s AND WRITE = 0 then (q, Spin)
          else (case us_value s of
              None \<Rightarrow> (q, Undefined)
            | Some value \<Rightarrow>
                if offset + 1 = BLOCK_CAP then
                  (case block_destroy (q\<lparr>u_heap := (u_heap q)(block \<mapsto> u_set_slot b offset (s\<lparr>us_value := None\<rparr>))\<rparr>)
                          block [0..<BLOCK_CAP - 1] of
                     None \<Rightarrow> (q, Undefined)
                   | Some q' \<Rightarrow> (q', Return (Inr value)))
                else
                  let q1 = q\<lparr>u_heap := (u_heap q)(block \<mapsto>
                         u_set_slot b offset \<lparr>us_value = None, us_state = us_state s OR READ\<rparr>)\<rparr> in
                  if us_state s AND DESTROY \<noteq> 0 then
                    (case block_destroy q1 block [offset + 1..<BLOCK_CAP - 1] of
                       None \<Rightarrow> (q, Undefined)
                     | Some q' \<Rightarrow> (q', Return (Inr value)))
                  else (q1, Return (Inr value))))"

definition unbounded_pop_cas ::
  "bool \<Rightarrow> 'a unbounded \<Rightarrow> usize \<Rightarrow> usize \<Rightarrow> nat \<Rightarrow> 'a unbounded \<times> (pop_locals, pop_error + 'a) iter" where
  "unbounded_pop_cas w q head new_head block =
     (let offset = shifted head mod LAP in
      if u_head_index q = head \<and> \<not> w then
        if offset + 1 = BLOCK_CAP then
          (case u_heap q block of
             None \<Rightarrow> (q, Undefined)
           | Some b \<Rightarrow>
               (case ub_next b of
                  None \<Rightarrow> (q\<lparr>u_head_index := new_head\<rparr>, Spin)
                | Some next \<Rightarrow>
                    (case u_heap q next of
                       None \<Rightarrow> (q, Undefined)
                     | Some nb \<Rightarrow>
                         let next_index = (new_head AND NOT MARK_BIT) + 2;
                             next_index' = (if ub_next nb \<noteq> None then next_index OR MARK_BIT else next_index) in
                         unbounded_pop_read (q\<lparr>u_head_block := Some next, u_head_index := next_index'\<rparr>) block offset)))
        else unbounded_pop_read (q\<lparr>u_head_index := new_head\<rparr>) block offset
      else (q, Again (u_head_index q, u_head_block q)))"

definition unbounded_pop_iter ::
  "bool \<Rightarrow> 'a unbounded \<Rightarrow> pop_locals \<Rightarrow> 'a unbounded \<times> (pop_locals, pop_error + 'a) iter" where
  "unbounded_pop_iter w q l =
     (case l of (head, block) \<Rightarrow>
      let offset = shifted head mod LAP in
      if offset = BLOCK_CAP then (q, Again (u_head_index q, u_head_block q))
      else
        let new_head = head + 2; tail = u_tail_index q in
        if new_head AND MARK_BIT = 0 \<and> shifted head = shifted tail then
          (q, Return (Inl (if tail AND MARK_BIT \<noteq> 0 then PopClosed else PopEmpty)))
        else
          let new_head1 = (if new_head AND MARK_BIT = 0 \<and> shifted head div LAP \<noteq> shifted tail div LAP
                           then new_head OR MARK_BIT else new_head) in
          (case block of
             None \<Rightarrow> (q, Again (u_head_index q, u_head_block q))
           | Some a \<Rightarrow> unbounded_pop_cas w q head new_head1 a))"

partial_function (option) unbounded_push_loop ::
  "bool list \<Rightarrow> 'a unbounded \<Rightarrow> push_locals \<Rightarrow> 'a \<Rightarrow> ('a unbounded \<times> ('a push_error + unit)) option" where
  "unbounded_push_loop ws q l value =
     (case unbounded_push_iter (spurious ws) q l value of
        (q', Again l') \<Rightarrow> unbounded_push_loop (tl ws) q' l' value
      | (q', Return r) \<Rightarrow> Some (q', r)
      | _ \<Rightarrow> None)"

partial_function (option) unbounded_pop_loop ::
  "bool list \<Rightarrow> 'a unbounded \<Rightarrow> pop_locals \<Rightarrow> ('a unbounded \<times> (pop_error + 'a)) option" where
  "unbounded_pop_loop ws q l =
     (case unbounded_pop_iter (spurious ws) q l of
        (q', Again l') \<Rightarrow> unbounded_pop_loop (tl ws) q' l'
      | (q', Return r) \<Rightarrow> Some (q', r)
      | _ \<Rightarrow> None)"

definition unbounded_push ::
  "bool list \<Rightarrow> 'a unbounded \<Rightarrow> 'a \<Rightarrow> ('a unbounded \<times> ('a push_error + unit)) option" where
  "unbounded_push ws q value = unbounded_push_loop ws q (u_tail_index q, u_tail_block q, None) value"

definition unbounded_pop ::
  "bool list \<Rightarrow> 'a unbounded \<Rightarrow> ('a unbounded \<times> (pop_error + 'a)) option" where
  "unbounded_pop ws q = unbounded_pop_loop ws q (u_head_index q, u_head_block q)"

text \<open>\<open>len\<close>: alone, the second load of the tail index sees the first value.\<close>

definition unbounded_len :: "'a unbounded \<Rightarrow> usize" where
  "unbounded_len q =
     (let tail0 = u_tail_index q AND NOT 1;
          head0 = u_head_index q AND NOT 1;
          tail1 = (if drop_bit 1 tail0 AND 31 = 31 then tail0 + 2 else tail0);
          head1 = (if drop_bit 1 head0 AND 31 = 31 then head0 + 2 else head0);
          lap = drop_bit 1 head1 div 32;
          tail2 = drop_bit 1 (tail1 - push_bit 1 (lap * 32));
          head2 = drop_bit 1 (head1 - push_bit 1 (lap * 32)) in
      tail2 - head2 - tail2 div 32)"

definition unbounded_is_empty :: "'a unbounded \<Rightarrow> bool" where
  "unbounded_is_empty q \<longleftrightarrow> shifted (u_head_index q) = shifted (u_tail_index q)"

definition unbounded_is_full :: "'a unbounded \<Rightarrow> bool" where
  "unbounded_is_full q \<longleftrightarrow> False"

definition unbounded_close :: "'a unbounded \<Rightarrow> 'a unbounded \<times> bool" where
  "unbounded_close q =
     (q\<lparr>u_tail_index := u_tail_index q OR MARK_BIT\<rparr>, u_tail_index q AND MARK_BIT = 0)"

definition unbounded_is_closed :: "'a unbounded \<Rightarrow> bool" where
  "unbounded_is_closed q \<longleftrightarrow> u_tail_index q AND MARK_BIT \<noteq> 0"

text \<open>
  \<open>Drop\<close> returns the values dropped, in order, and the heap that is left; \<open>None\<close> is
  undefined behaviour or a loop without end.
\<close>

partial_function (option) unbounded_drop_loop ::
  "'a unbounded \<Rightarrow> usize \<Rightarrow> usize \<Rightarrow> nat option \<Rightarrow> ('a unbounded \<times> 'a list) option" where
  "unbounded_drop_loop q head tail block =
     (if head = tail then Some (u_free q block, [])
      else let offset = shifted head mod LAP in
        case block of
          None \<Rightarrow> None
        | Some a \<Rightarrow>
            (case u_heap q a of
               None \<Rightarrow> None
             | Some b \<Rightarrow>
                 if offset < BLOCK_CAP then
                   (case us_value (ub_slots b ! offset) of
                      None \<Rightarrow> None
                    | Some v \<Rightarrow>
                        Option.bind (unbounded_drop_loop q (head + 2) tail block) (\<lambda>(q', vs). Some (q', v # vs)))
                 else unbounded_drop_loop (u_free q (Some a)) (head + 2) tail (ub_next b)))"

definition unbounded_drop :: "'a unbounded \<Rightarrow> ('a unbounded \<times> 'a list) option" where
  "unbounded_drop q =
     unbounded_drop_loop q (u_head_index q AND NOT 1) (u_tail_index q AND NOT 1) (u_head_block q)"

section \<open>Index words\<close>

text \<open>
  The index word of position \<open>u\<close> with its mark. Value number \<open>c\<close> sits at position
  \<open>u_pos c\<close>: every 32nd position is skipped.
\<close>

definition u_idx :: "nat \<Rightarrow> bool \<Rightarrow> usize" where
  "u_idx u m = of_nat (2 * u + of_bool m)"

definition u_pos :: "nat \<Rightarrow> nat" where
  "u_pos c = c div 31 * 32 + c mod 31"

lemma BLOCK_CAP_31 [simp]: "BLOCK_CAP = 31"
  by (simp add: BLOCK_CAP_def LAP_def)

lemma u_idx_bit: "bit (u_idx u m) j \<longleftrightarrow> j < 64 \<and> (if j = 0 then m else bit u (j - 1))"
  unfolding u_idx_def bit_word_of_nat_iff
  by (cases j) (auto simp: bit_simps bit_Suc bit_0)

lemma u_idx_mark [simp]:
  "u_idx u m AND MARK_BIT = of_bool m" "u_idx u m OR MARK_BIT = u_idx u True"
  "u_idx u m AND NOT MARK_BIT = u_idx u False"
  by (rule bit_word_eqI; auto simp: u_idx_bit MARK_BIT_def bit_simps)+

lemma u_idx_add [simp]: "u_idx u m + 2 = u_idx (Suc u) m"
  by (simp add: u_idx_def)

lemma shifted_u_idx: "shifted (u_idx u m) = u mod 2 ^ 63"
proof -
  have "drop_bit 1 (u_idx u m) = of_nat (take_bit 63 u)"
    by (rule bit_word_eqI) (auto simp: u_idx_bit bit_drop_bit_eq bit_word_of_nat_iff bit_take_bit_iff)
  then have "drop_bit 1 (u_idx u m) = of_nat (u mod 2 ^ 63)" by (simp only: take_bit_eq_mod)
  moreover have "u mod 2 ^ 63 < 2 ^ 64"
    by (rule less_trans [of _ "2 ^ 63"]) simp_all
  ultimately show ?thesis
    by (simp add: shifted_def unat_of_nat take_bit_nat_eq_self)
qed

lemma shifted_mod [simp]: "shifted (u_idx u m) mod LAP = u mod 32"
  by (simp add: shifted_u_idx LAP_def mod_mod_cancel)

lemma u_pos_mod [simp]: "u_pos c mod 32 = c mod 31"
  by (simp add: u_pos_def)

lemma u_pos_div [simp]: "u_pos c div 32 = c div 31"
proof -
  have "c mod 31 < 32" by (rule less_trans [of _ 31]) simp_all
  then show ?thesis by (simp add: u_pos_def)
qed

lemma u_pos_Suc:
  "c mod 31 < 30 \<Longrightarrow> u_pos (Suc c) = Suc (u_pos c)"
  "c mod 31 = 30 \<Longrightarrow> u_pos (Suc c) = Suc (Suc (u_pos c))"
  by (simp_all add: u_pos_def mod_Suc div_Suc)

lemma shifted_eq_iff:
  assumes "u \<le> u'" "u' < u + 2 ^ 63"
  shows "shifted (u_idx u m) = shifted (u_idx u' m') \<longleftrightarrow> u = u'"
proof
  assume "shifted (u_idx u m) = shifted (u_idx u' m')"
  then have "2 ^ 63 dvd u' - u"
    using assms(1) unfolding shifted_u_idx by (metis mod_eq_dvd_iff_nat)
  moreover have "u' - u < 2 ^ 63" using assms by linarith
  ultimately have "u' - u = 0" by (metis dvd_imp_le leD not_gr_zero)
  with assms(1) show "u = u'" by simp
qed (simp add: shifted_u_idx)

lemma shifted_div_eq_iff:
  assumes "u \<le> u'" "u' div 32 < u div 32 + 2 ^ 58"
  shows "shifted (u_idx u m) div LAP = shifted (u_idx u' m') div LAP \<longleftrightarrow> u div 32 = u' div 32"
proof -
  have d: "shifted (u_idx v b) div LAP = (v div 32) mod 2 ^ 58" for v b
    unfolding shifted_u_idx LAP_def
    using mod_mult2_eq [of v 32 "2 ^ 58"] by simp
  show ?thesis
  proof
    assume "shifted (u_idx u m) div LAP = shifted (u_idx u' m') div LAP"
    then have "2 ^ 58 dvd u' div 32 - u div 32"
      using div_le_mono [OF assms(1), of 32] unfolding d by (metis mod_eq_dvd_iff_nat)
    moreover have "u' div 32 - u div 32 < 2 ^ 58" using assms by linarith
    ultimately have "u' div 32 - u div 32 = 0" by (metis dvd_imp_le leD not_gr_zero)
    with div_le_mono [OF assms(1), of 32] show "u div 32 = u' div 32" by simp
  next
    assume "u div 32 = u' div 32"
    then show "shifted (u_idx u m) div LAP = shifted (u_idx u' m') div LAP" unfolding d by simp
  qed
qed

lemma u_pos_alt: "u_pos c = c + c div 31"
  unfolding u_pos_def using mult_div_mod_eq [of 31 c] by linarith

lemma u_pos_mono: "h \<le> t \<Longrightarrow> u_pos h \<le> u_pos t"
  by (simp add: u_pos_alt add_mono div_le_mono)

text \<open>
  A stored value takes at least the eight bytes of its state word, so fewer than \<open>2^60\<close> of
  them exist at a time and positions in use never meet modulo the word size.
\<close>

lemma u_pos_bounds:
  assumes "h \<le> t" "8 * (t - h) \<le> isize_max"
  shows "u_pos t < u_pos h + 2 ^ 63" "t div 31 < h div 31 + 2 ^ 58"
proof -
  have d: "t - h < 2 ^ 60" using assms(2) by (simp add: isize_max_def)
  have "h mod 31 < 31" "(t - h) mod 31 < 31" by simp_all
  then have "(h mod 31 + (t - h) mod 31) div 31 < 2"
    by (intro less_mult_imp_div_less) linarith
  then have q: "t div 31 \<le> h div 31 + (t - h) div 31 + 1"
    using div_add1_eq [of h "t - h" 31] assms(1) by simp
  have "(t - h) div 31 < 2 ^ 56" using d by (intro less_mult_imp_div_less) simp
  with q show b: "t div 31 < h div 31 + 2 ^ 58" by simp
  show "u_pos t < u_pos h + 2 ^ 63" using b d assms(1) by (simp add: u_pos_alt)
qed

section \<open>The representation of a queue\<close>

text \<open>
  \<open>h\<close> values have been popped and \<open>t\<close> pushed; \<open>vs\<close> are those in between and \<open>bs\<close> the
  addresses of the live blocks, oldest first. \<open>x\<close> is a block allocated for the future.
\<close>

definition u_slot :: "nat \<Rightarrow> nat \<Rightarrow> 'a list \<Rightarrow> nat \<Rightarrow> 'a uslot" where
  "u_slot h t vs c =
     (if c < h then \<lparr>us_value = None, us_state = WRITE OR READ\<rparr>
      else if c < t then \<lparr>us_value = Some (vs ! (c - h)), us_state = WRITE\<rparr>
      else \<lparr>us_value = None, us_state = 0\<rparr>)"

definition u_blk :: "nat list \<Rightarrow> nat \<Rightarrow> nat \<Rightarrow> 'a list \<Rightarrow> nat \<Rightarrow> 'a ublock" where
  "u_blk bs h t vs i =
     \<lparr>ub_next = (if Suc i < length bs then Some (bs ! Suc i) else None),
      ub_slots = map (u_slot h t vs) [31 * (h div 31 + i)..<31 * (h div 31 + i) + 31]\<rparr>"

definition u_rep :: "'a unbounded \<Rightarrow> nat list \<Rightarrow> nat option \<Rightarrow> nat \<Rightarrow> nat \<Rightarrow> 'a list \<Rightarrow> bool \<Rightarrow> bool" where
  "u_rep q bs x h t vs c \<longleftrightarrow>
     h \<le> t \<and> length vs = t - h \<and> length bs = t div 31 - h div 31 + 1 \<and>
     u_tail_index q = u_idx (u_pos t) c \<and>
     (\<exists>m. u_head_index q = u_idx (u_pos h) m \<and> (m \<longrightarrow> h div 31 < t div 31)) \<and>
     u_head_block q = Some (hd bs) \<and> u_tail_block q = Some (last bs) \<and> distinct bs \<and>
     (\<forall>i<length bs. u_heap q (bs ! i) = Some (u_blk bs h t vs i)) \<and>
     dom (u_heap q) = set bs \<union> set_option x \<and> (\<forall>a\<in>dom (u_heap q). a < u_fresh q) \<and>
     (\<forall>a. x = Some a \<longrightarrow> u_heap q a = Some block_new \<and> a \<notin> set bs)"

definition u_empty :: "'a unbounded \<Rightarrow> bool \<Rightarrow> bool" where
  "u_empty q c \<longleftrightarrow> u_tail_index q = u_idx 0 c \<and> u_head_index q = 0 \<and> u_head_block q = None \<and>
     u_tail_block q = None \<and> u_heap q = Map.empty"

lemma u_slots_push:
  assumes "h \<le> t" "length vs = t - h"
  shows "map (u_slot h (Suc t) (vs @ [v])) [a..<a + 31] =
     (if a \<le> t \<and> t < a + 31
      then (map (u_slot h t vs) [a..<a + 31])[t - a := \<lparr>us_value = Some v, us_state = WRITE\<rparr>]
      else map (u_slot h t vs) [a..<a + 31])"
  by (rule nth_equalityI) (use assms in \<open>auto simp: u_slot_def nth_append nth_list_update less_Suc_eq\<close>)

lemma u_slots_pop:
  assumes "h < t"
  shows "map (u_slot (Suc h) t vs) [a..<a + 31] =
     (if a \<le> h \<and> h < a + 31
      then (map (u_slot h t (v # vs)) [a..<a + 31])[h - a := \<lparr>us_value = None, us_state = WRITE OR READ\<rparr>]
      else map (u_slot h t (v # vs)) [a..<a + 31])"
  by (rule nth_equalityI) (use assms in \<open>auto simp: u_slot_def nth_Cons' nth_list_update less_Suc_eq\<close>)

lemma u_blk_push:
  assumes "h \<le> t" "length vs = t - h"
  shows "u_blk bs h (Suc t) (vs @ [v]) i =
     (if i = t div 31 - h div 31
      then u_set_slot (u_blk bs h t vs i) (t mod 31) \<lparr>us_value = Some v, us_state = WRITE\<rparr>
      else u_blk bs h t vs i)"
proof -
  have le: "h div 31 \<le> t div 31" using assms(1) by (rule div_le_mono)
  have "31 * (h div 31 + i) \<le> t \<and> t < 31 * (h div 31 + i) + 31 \<longleftrightarrow> t div 31 = h div 31 + i"
    by (auto simp: div_nat_eqI)
  then have "31 * (h div 31 + i) \<le> t \<and> t < 31 * (h div 31 + i) + 31 \<longleftrightarrow> i = t div 31 - h div 31"
    using le by auto
  moreover have "i = t div 31 - h div 31 \<Longrightarrow> t - 31 * (h div 31 + i) = t mod 31"
    using le by (simp add: minus_mult_div_eq_mod)
  ultimately show ?thesis
    unfolding u_blk_def u_slots_push [OF assms] by (simp add: u_set_slot_def)
qed

lemma u_blk_pop:
  assumes "h < t"
  shows "31 * (h div 31 + i) = a \<Longrightarrow> map (u_slot (Suc h) t vs) [a..<a + 31] =
     (if i = 0
      then (map (u_slot h t (v # vs)) [a..<a + 31])[h mod 31 := \<lparr>us_value = None, us_state = WRITE OR READ\<rparr>]
      else map (u_slot h t (v # vs)) [a..<a + 31])"
proof -
  assume a: "31 * (h div 31 + i) = a"
  have "a \<le> h \<and> h < a + 31 \<longleftrightarrow> i = 0" unfolding a [symmetric] by auto
  moreover have "i = 0 \<Longrightarrow> h - a = h mod 31" using a by (auto simp: minus_mult_div_eq_mod)
  ultimately show ?thesis using u_slots_pop [OF assms, of vs a v] by simp
qed

lemma u_blk_append:
  assumes "i < length bs"
  shows "u_blk (bs @ [nb]) h t vs i =
     (if Suc i = length bs then (u_blk bs h t vs i)\<lparr>ub_next := Some nb\<rparr> else u_blk bs h t vs i)"
  using assms by (auto simp: u_blk_def nth_append)

lemma u_blk_fresh:
  assumes "t \<le> 31 * (h div 31 + i)" "h \<le> t" "Suc i = length bs"
  shows "u_blk bs h t vs i = block_new"
proof -
  have "map (u_slot h t vs) [31 * (h div 31 + i)..<31 * (h div 31 + i) + 31] =
      replicate 31 \<lparr>us_value = None, us_state = 0\<rparr>"
    by (rule nth_equalityI) (use assms in \<open>auto simp: u_slot_def\<close>)
  then show ?thesis using assms(3) by (simp add: u_blk_def block_new_def)
qed

lemma u_repD:
  assumes "u_rep q bs x h t vs c"
  shows "h \<le> t" "length vs = t - h" "length bs = t div 31 - h div 31 + 1"
    "u_tail_index q = u_idx (u_pos t) c" "u_head_block q = Some (hd bs)"
    "u_tail_block q = Some (last bs)" "distinct bs"
    "i < length bs \<Longrightarrow> u_heap q (bs ! i) = Some (u_blk bs h t vs i)"
    "dom (u_heap q) = set bs \<union> set_option x" "a \<in> dom (u_heap q) \<Longrightarrow> a < u_fresh q"
    "x = Some a \<Longrightarrow> u_heap q a = Some block_new \<and> a \<notin> set bs"
  using assms unfolding u_rep_def by blast+

lemma u_rep_headE:
  assumes "u_rep q bs x h t vs c"
  obtains m where "u_head_index q = u_idx (u_pos h) m" "m \<longrightarrow> h div 31 < t div 31"
  using assms unfolding u_rep_def by blast

lemma u_repI:
  assumes "h \<le> t" "length vs = t - h" "length bs = t div 31 - h div 31 + 1"
    "u_tail_index q = u_idx (u_pos t) c"
    "u_head_index q = u_idx (u_pos h) m" "m \<longrightarrow> h div 31 < t div 31"
    "u_head_block q = Some (hd bs)" "u_tail_block q = Some (last bs)" "distinct bs"
    "\<And>i. i < length bs \<Longrightarrow> u_heap q (bs ! i) = Some (u_blk bs h t vs i)"
    "dom (u_heap q) = set bs \<union> set_option x" "\<And>a. a \<in> dom (u_heap q) \<Longrightarrow> a < u_fresh q"
    "\<And>a. x = Some a \<Longrightarrow> u_heap q a = Some block_new \<and> a \<notin> set bs"
  shows "u_rep q bs x h t vs c"
  unfolding u_rep_def using assms by blast

lemma u_rep_last:
  assumes "u_rep q bs x h t vs c"
  shows "bs \<noteq> []" "last bs = bs ! (t div 31 - h div 31)" "t div 31 - h div 31 < length bs"
    "u_heap q (last bs) = Some (u_blk bs h t vs (t div 31 - h div 31))" "last bs \<in> set bs"
proof -
  note r = u_repD [OF assms]
  show ne: "bs \<noteq> []" and lt: "t div 31 - h div 31 < length bs" using r(3) by auto
  show l: "last bs = bs ! (t div 31 - h div 31)" using r(3) ne by (simp add: last_conv_nth)
  show "u_heap q (last bs) = Some (u_blk bs h t vs (t div 31 - h div 31))"
    unfolding l using r(8) [OF lt] .
  show "last bs \<in> set bs" using ne by simp
qed

text \<open>The slot that the next push fills.\<close>

lemma u_rep_slot:
  assumes "u_rep q bs x h t vs c"
  shows "ub_slots (u_blk bs h t vs (t div 31 - h div 31)) ! (t mod 31) = \<lparr>us_value = None, us_state = 0\<rparr>"
proof -
  note r = u_repD [OF assms]
  have "31 * (h div 31 + (t div 31 - h div 31)) = 31 * (t div 31)"
    using div_le_mono [OF r(1), of 31] by simp
  then have "31 * (h div 31 + (t div 31 - h div 31)) + t mod 31 = t" by simp
  then show ?thesis using r(1) by (simp add: u_blk_def u_slot_def)
qed

lemma u_push_mid:
  assumes rep: "u_rep q bs x h t vs False" and mid: "t mod 31 < 30"
  shows "\<exists>q'. unbounded_push_cas False q (u_idx (u_pos t) False) (last bs) x v = (q', Return (Inr ())) \<and>
     u_rep q' bs None h (Suc t) (vs @ [v]) False"
proof -
  note r = u_repD [OF rep] and l = u_rep_last [OF rep]
  let ?k = "t div 31 - h div 31"
  let ?b = "u_set_slot (u_blk bs h t vs ?k) (t mod 31) \<lparr>us_value = Some v, us_state = WRITE\<rparr>"
  let ?q = "u_free (q\<lparr>u_tail_index := u_idx (u_pos (Suc t)) False, u_heap := (u_heap q)(last bs \<mapsto> ?b)\<rparr>) x"
  have run: "unbounded_push_cas False q (u_idx (u_pos t) False) (last bs) x v = (?q, Return (Inr ()))"
    using mid r(4) l(4) u_rep_slot [OF rep]
    by (simp add: unbounded_push_cas_def u_pos_Suc Let_def)
  have heap: "u_heap ?q = (\<lambda>a. if x = Some a then None else if a = last bs then Some ?b else u_heap q a)"
    by (cases x) (auto simp: u_free_def fun_eq_iff)
  have xbs: "x \<noteq> Some (bs ! i)" if "i < length bs" for i
    using r(11) that nth_mem by blast
  have div: "Suc t div 31 = t div 31" using mid by (simp add: div_Suc mod_Suc)
  obtain m where m: "u_head_index q = u_idx (u_pos h) m" "m \<longrightarrow> h div 31 < t div 31"
    using rep by (rule u_rep_headE)
  have "u_rep ?q bs None h (Suc t) (vs @ [v]) False"
  proof (rule u_repI [where m = m])
    fix i assume i: "i < length bs"
    show "u_heap ?q (bs ! i) = Some (u_blk bs h (Suc t) (vs @ [v]) i)"
      unfolding heap u_blk_push [OF r(1,2)]
      using i l(2,3) r(7,8) xbs by (auto simp: nth_eq_iff_index_eq)
  next
    show "dom (u_heap ?q) = set bs \<union> set_option None"
    proof -
      have "dom (u_heap ?q) = insert (last bs) (dom (u_heap q)) - set_option x"
        unfolding heap by (auto simp: dom_def)
      then show ?thesis using r(9,11) l(5) by (cases x) auto
    qed
  next
    fix a assume "a \<in> dom (u_heap ?q)"
    then have "a \<in> dom (u_heap q)" unfolding heap using l(4) by (auto split: if_splits)
    from r(10) [OF this] show "a < u_fresh ?q" by (cases x) (simp_all add: u_free_def)
  qed (use r m div in \<open>cases x; simp add: u_free_def Suc_diff_le\<close>)+
  with run show ?thesis by blast
qed

lemma u_push_last:
  assumes rep: "u_rep q bs (Some nb) h t vs False" and lst: "t mod 31 = 30"
  shows "\<exists>q'. unbounded_push_cas False q (u_idx (u_pos t) False) (last bs) (Some nb) v = (q', Return (Inr ())) \<and>
     u_rep q' (bs @ [nb]) None h (Suc t) (vs @ [v]) False"
proof -
  note r = u_repD [OF rep] and l = u_rep_last [OF rep]
  let ?k = "t div 31 - h div 31"
  let ?b = "u_set_slot ((u_blk bs h t vs ?k)\<lparr>ub_next := Some nb\<rparr>) (t mod 31) \<lparr>us_value = Some v, us_state = WRITE\<rparr>"
  let ?q = "q\<lparr>u_tail_index := u_idx (u_pos (Suc t)) False, u_tail_block := Some nb,
     u_heap := (u_heap q)(last bs \<mapsto> ?b)\<rparr>"
  have run: "unbounded_push_cas False q (u_idx (u_pos t) False) (last bs) (Some nb) v = (?q, Return (Inr ()))"
    using lst r(4) l(4) u_rep_slot [OF rep]
    by (simp add: unbounded_push_cas_def u_pos_Suc Let_def)
  have nb: "nb \<notin> set bs" "u_heap q nb = Some block_new" using r(11) by auto
  have div: "Suc t div 31 = Suc (t div 31)" using lst by (simp add: div_Suc mod_Suc)
  have le: "h div 31 \<le> t div 31" using r(1) by (rule div_le_mono)
  have len: "Suc ?k = length bs" using r(3) by simp
  obtain m where m: "u_head_index q = u_idx (u_pos h) m" "m \<longrightarrow> h div 31 < t div 31"
    using rep by (rule u_rep_headE)
  have "u_rep ?q (bs @ [nb]) None h (Suc t) (vs @ [v]) False"
  proof (rule u_repI [where m = m])
    fix i assume i: "i < length (bs @ [nb])"
    show "u_heap ?q ((bs @ [nb]) ! i) = Some (u_blk (bs @ [nb]) h (Suc t) (vs @ [v]) i)"
    proof (cases "i < length bs")
      case True
      then have "i = ?k \<longleftrightarrow> bs ! i = last bs" "Suc i = length bs \<longleftrightarrow> i = ?k"
        using l(2,3) r(7) len by (auto simp: nth_eq_iff_index_eq)
      with True show ?thesis
        using r(8) [OF True] nb
        by (auto simp: u_blk_append u_blk_push [OF r(1,2)] nth_append u_set_slot_def)
    next
      case False
      with i have i': "i = length bs" by simp
      have "Suc t \<le> 31 * (h div 31 + i)"
        using lst len le i' mult_div_mod_eq [of 31 t] by auto
      then have "u_blk (bs @ [nb]) h (Suc t) (vs @ [v]) i = block_new"
        using r(1) i' by (intro u_blk_fresh) auto
      with i' nb l(5) show ?thesis by auto
    qed
  next
    show "dom (u_heap ?q) = set (bs @ [nb]) \<union> set_option None"
      using r(9) l(5) by (auto simp: dom_def)
  next
    fix a assume "a \<in> dom (u_heap ?q)"
    then have "a \<in> dom (u_heap q)" using l(4) by (auto split: if_splits)
    from r(10) [OF this] show "a < u_fresh ?q" by simp
  qed (use r m div nb l(1) le in \<open>simp_all add: Suc_diff_le\<close>)
  with run show ?thesis by blast
qed

text \<open>Allocating a block, and giving back one that was not needed.\<close>

lemma u_rep_alloc:
  assumes rep: "u_rep q bs None h t vs c"
  shows "u_rep (q\<lparr>u_heap := (u_heap q)(u_fresh q \<mapsto> block_new), u_fresh := Suc (u_fresh q)\<rparr>) bs
     (Some (u_fresh q)) h t vs c"
proof -
  note r = u_repD [OF rep]
  have fresh: "u_fresh q \<notin> set bs" using r(9,10) by blast
  obtain m where m: "u_head_index q = u_idx (u_pos h) m" "m \<longrightarrow> h div 31 < t div 31"
    using rep by (rule u_rep_headE)
  show ?thesis
  proof (rule u_repI [where m = m])
    fix i assume i: "i < length bs"
    then have "bs ! i \<noteq> u_fresh q" using fresh nth_mem by metis
    with r(8) [OF i] show "u_heap (q\<lparr>u_heap := (u_heap q)(u_fresh q \<mapsto> block_new), u_fresh := Suc (u_fresh q)\<rparr>) (bs ! i) =
        Some (u_blk bs h t vs i)" by simp
  qed (use r m fresh in \<open>auto simp: less_Suc_eq\<close>)
qed

lemma unbounded_push_ready:
  assumes rep: "u_rep q bs x h t vs False" and x: "t mod 31 = 30 \<Longrightarrow> x \<noteq> None"
  shows "\<exists>q' bs'. unbounded_push_cas False q (u_idx (u_pos t) False) (last bs) x v = (q', Return (Inr ())) \<and>
     u_rep q' bs' None h (Suc t) (vs @ [v]) False"
    and "unbounded_push_cas True q (u_idx (u_pos t) False) (last bs) x v =
     (q, Again (u_idx (u_pos t) False, Some (last bs), x))"
proof -
  show "unbounded_push_cas True q (u_idx (u_pos t) False) (last bs) x v =
     (q, Again (u_idx (u_pos t) False, Some (last bs), x))"
    using u_repD(4,6) [OF rep] by (simp add: unbounded_push_cas_def)
  show "\<exists>q' bs'. unbounded_push_cas False q (u_idx (u_pos t) False) (last bs) x v = (q', Return (Inr ())) \<and>
     u_rep q' bs' None h (Suc t) (vs @ [v]) False"
  proof (cases "t mod 31 = 30")
    case True
    with x obtain nb where "x = Some nb" by auto
    with u_push_last [of q bs nb h t vs v] rep True show ?thesis by blast
  next
    case False
    have "t mod 31 < 31" by simp
    with False have "t mod 31 < 30" by linarith
    with u_push_mid [OF rep this, of v] show ?thesis by blast
  qed
qed

text \<open>One iteration of \<open>push\<close> on an open queue that has a tail block.\<close>

lemma u_push_iter:
  assumes rep: "u_rep q bs x h t vs False"
  obtains q1 x1 where "u_rep q1 bs x1 h t vs False" "t mod 31 = 30 \<Longrightarrow> x1 \<noteq> None"
    "\<And>w. unbounded_push_iter w q (u_idx (u_pos t) False, Some (last bs), x) v =
       unbounded_push_cas w q1 (u_idx (u_pos t) False) (last bs) x1 v"
proof -
  have lt: "t mod 31 \<noteq> 31" by (metis mod_less_divisor nat_neq_iff zero_less_numeral)
  show thesis
  proof (cases "t mod 31 = 30 \<and> x = None")
    case True
    with rep have "u_rep q bs None h t vs False" by simp
    from u_rep_alloc [OF this] show ?thesis
      by (rule that) (use True lt in \<open>simp_all add: unbounded_push_iter_def u_alloc_def\<close>)
  next
    case False
    with rep lt show ?thesis
      by (intro that [of q x]) (auto simp: unbounded_push_iter_def)
  qed
qed

lemma u_push_loop:
  assumes "u_rep q bs x h t vs False"
  shows "\<exists>q' bs'. unbounded_push_loop ws q (u_idx (u_pos t) False, Some (last bs), x) v = Some (q', Inr ()) \<and>
     u_rep q' bs' None h (Suc t) (vs @ [v]) False"
  using assms
proof (induction "length ws" arbitrary: ws q x rule: less_induct)
  case less
  obtain q1 x1 where rep1: "u_rep q1 bs x1 h t vs False" and x1: "t mod 31 = 30 \<Longrightarrow> x1 \<noteq> None"
    and it: "\<And>w. unbounded_push_iter w q (u_idx (u_pos t) False, Some (last bs), x) v =
       unbounded_push_cas w q1 (u_idx (u_pos t) False) (last bs) x1 v"
    using u_push_iter [OF less.prems, of v] by blast
  show ?case
  proof (cases "spurious ws")
    case True
    then have "length (tl ws) < length ws" by (cases ws) auto
    from less.hyps [OF this rep1] show ?thesis
      using True unbounded_push_ready(2) [OF rep1 x1]
      by (subst unbounded_push_loop.simps) (simp add: it)
  next
    case False
    obtain q' bs' where "unbounded_push_cas False q1 (u_idx (u_pos t) False) (last bs) x1 v = (q', Return (Inr ()))"
      "u_rep q' bs' None h (Suc t) (vs @ [v]) False"
      using unbounded_push_ready(1) [OF rep1 x1, of v] by blast
    with False show ?thesis
      by (subst unbounded_push_loop.simps) (auto simp: it)
  qed
qed

text \<open>The first push allocates the first block.\<close>

lemma u_empty_alloc:
  assumes "u_empty q False"
  shows "u_rep (q\<lparr>u_heap := (u_heap q)(u_fresh q \<mapsto> block_new), u_fresh := Suc (u_fresh q),
     u_tail_block := Some (u_fresh q), u_head_block := Some (u_fresh q)\<rparr>) [u_fresh q] None 0 0 [] False"
proof (rule u_repI [where m = False])
  fix i assume "i < length [u_fresh q]"
  then show "u_heap (q\<lparr>u_heap := (u_heap q)(u_fresh q \<mapsto> block_new), u_fresh := Suc (u_fresh q),
     u_tail_block := Some (u_fresh q), u_head_block := Some (u_fresh q)\<rparr>) ([u_fresh q] ! i) =
     Some (u_blk [u_fresh q] 0 0 [] i)"
    by (simp add: u_blk_fresh)
qed (use assms in \<open>auto simp: u_empty_def u_pos_def u_idx_def\<close>)

lemma u_push_first:
  assumes "u_empty q False"
  shows "\<exists>q' bs'. unbounded_push_loop ws q (u_idx 0 False, None, None) v = Some (q', Inr ()) \<and>
     u_rep q' bs' None 0 1 [v] False"
proof -
  let ?q = "q\<lparr>u_heap := (u_heap q)(u_fresh q \<mapsto> block_new), u_fresh := Suc (u_fresh q),
     u_tail_block := Some (u_fresh q), u_head_block := Some (u_fresh q)\<rparr>"
  have e: "u_tail_block q = None" using assms by (simp add: u_empty_def)
  note rep = u_empty_alloc [OF assms]
  have p0: "u_pos 0 = 0" by (simp add: u_pos_def)
  have it: "unbounded_push_iter w q (u_idx 0 False, None, None) v =
      unbounded_push_cas w ?q (u_idx 0 False) (u_fresh q) None v" for w
    using e by (simp add: unbounded_push_iter_def u_alloc_def)
  show ?thesis
  proof (cases "spurious ws")
    case True
    with u_push_loop [OF rep, of "tl ws" v] unbounded_push_ready(2) [OF rep, of v] show ?thesis
      by (subst unbounded_push_loop.simps) (simp add: it p0)
  next
    case False
    with unbounded_push_ready(1) [OF rep, of v] show ?thesis
      by (subst unbounded_push_loop.simps) (auto simp: it p0)
  qed
qed

section \<open>Popping\<close>

lemma u_state_bits [simp]:
  "WRITE \<noteq> 0" "READ \<noteq> 0" "WRITE AND DESTROY = 0"
  by (simp_all add: WRITE_def READ_def DESTROY_def)

lemma block_destroy_all:
  assumes "u_heap q this = Some b" "\<And>i. i \<in> set is \<Longrightarrow> us_state (ub_slots b ! i) AND READ \<noteq> 0"
  shows "block_destroy q this is = Some (q\<lparr>u_heap := (u_heap q)(this := None)\<rparr>)"
  using assms(2) by (induction "is") (simp_all add: assms(1) u_free_def)

lemma u_rep_head:
  assumes rep: "u_rep q bs x h t (v # vs) c"
  shows "h < t" "bs \<noteq> []" "u_heap q (hd bs) = Some (u_blk bs h t (v # vs) 0)"
    "ub_slots (u_blk bs h t (v # vs) 0) ! (h mod 31) = \<lparr>us_value = Some v, us_state = WRITE\<rparr>"
    "i < h mod 31 \<Longrightarrow> us_state (ub_slots (u_blk bs h t (v # vs) 0) ! i) = WRITE OR READ"
proof -
  note r = u_repD [OF rep]
  show lt: "h < t" using r(1,2) by (cases "h = t") auto
  show ne: "bs \<noteq> []" using r(3) by auto
  with r(8) [of 0] show "u_heap q (hd bs) = Some (u_blk bs h t (v # vs) 0)" by (simp add: hd_conv_nth)
  have "31 * (h div 31) + h mod 31 = h" by simp
  with lt show "ub_slots (u_blk bs h t (v # vs) 0) ! (h mod 31) = \<lparr>us_value = Some v, us_state = WRITE\<rparr>"
    by (simp add: u_blk_def u_slot_def)
  assume i: "i < h mod 31"
  moreover have "h mod 31 < 31" by simp
  ultimately have "i < 31" "31 * (h div 31) + i < h" using mult_div_mod_eq [of 31 h] by linarith+
  then show "us_state (ub_slots (u_blk bs h t (v # vs) 0) ! i) = WRITE OR READ"
    by (simp add: u_blk_def u_slot_def)
qed

lemma u_pop_mid:
  assumes rep: "u_rep q bs None h t (v # vs) c" and mid: "h mod 31 < 30"
    and m': "m' \<longleftrightarrow> h div 31 \<noteq> t div 31"
  shows "\<exists>q'. unbounded_pop_read (q\<lparr>u_head_index := u_idx (Suc (u_pos h)) m'\<rparr>) (hd bs) (h mod 31) =
      (q', Return (Inr v)) \<and> u_rep q' bs None (Suc h) t vs c"
proof -
  note r = u_repD [OF rep] and hd = u_rep_head [OF rep]
  let ?b = "u_set_slot (u_blk bs h t (v # vs) 0) (h mod 31) \<lparr>us_value = None, us_state = WRITE OR READ\<rparr>"
  let ?q = "q\<lparr>u_head_index := u_idx (u_pos (Suc h)) m', u_heap := (u_heap q)(hd bs \<mapsto> ?b)\<rparr>"
  have run: "unbounded_pop_read (q\<lparr>u_head_index := u_idx (Suc (u_pos h)) m'\<rparr>) (hd bs) (h mod 31) =
      (?q, Return (Inr v))"
    using mid hd(3,4) by (simp add: unbounded_pop_read_def u_pos_Suc Let_def)
  have div: "Suc h div 31 = h div 31" using mid by (simp add: div_Suc mod_Suc)
  have blk: "u_blk bs (Suc h) t vs i = (if i = 0 then ?b else u_blk bs h t (v # vs) i)" for i
    unfolding u_blk_def div u_set_slot_def using u_blk_pop [OF hd(1) refl, of vs i v] by simp
  have "u_rep ?q bs None (Suc h) t vs c"
  proof (rule u_repI [where m = m'])
    fix i assume i: "i < length bs"
    then have "bs ! i = hd bs \<longleftrightarrow> i = 0"
      using r(7) hd(2) by (simp add: hd_conv_nth nth_eq_iff_index_eq)
    with r(8) [OF i] show "u_heap ?q (bs ! i) = Some (u_blk bs (Suc h) t vs i)"
      unfolding blk by simp
  next
    show "dom (u_heap ?q) = set bs \<union> set_option None" using r(9) hd(2) by (auto simp: dom_def)
  next
    fix a assume "a \<in> dom (u_heap ?q)"
    then have "a \<in> dom (u_heap q)" using hd(3) by (auto split: if_splits)
    from r(10) [OF this] show "a < u_fresh ?q" by simp
  qed (use r hd(1) div m' div_le_mono [OF r(1), of 31] in \<open>auto simp: le_less\<close>)
  with run show ?thesis by blast
qed

lemma u_pop_last:
  assumes rep: "u_rep q bs None h t (v # vs) c" and lst: "h mod 31 = 30"
  shows "\<exists>q'. unbounded_pop_read (q\<lparr>u_head_block := Some (bs ! 1), u_head_index := u_idx (Suc (Suc (u_pos h))) (2 < length bs)\<rparr>)
      (hd bs) 30 = (q', Return (Inr v)) \<and> u_rep q' (tl bs) None (Suc h) t vs c"
proof -
  note r = u_repD [OF rep] and hd = u_rep_head [OF rep]
  let ?q = "q\<lparr>u_head_block := Some (bs ! 1), u_head_index := u_idx (u_pos (Suc h)) (2 < length bs),
     u_heap := (u_heap q)(hd bs := None)\<rparr>"
  have read: "us_state ((ub_slots (u_blk bs h t (v # vs) 0))[30 := s] ! i) AND READ \<noteq> 0" if "i < 30" for i s
    using hd(5) [of i] lst that by simp
  let ?b = "u_set_slot (u_blk bs h t (v # vs) 0) 30 \<lparr>us_value = None, us_state = WRITE\<rparr>"
  let ?q1 = "q\<lparr>u_head_block := Some (bs ! 1), u_head_index := u_idx (Suc (Suc (u_pos h))) (2 < length bs),
     u_heap := (u_heap q)(hd bs \<mapsto> ?b)\<rparr>"
  have destroy: "block_destroy ?q1 (hd bs) [0..<30] = Some (?q1\<lparr>u_heap := (u_heap ?q1)(hd bs := None)\<rparr>)"
    by (rule block_destroy_all [of _ _ ?b]) (use read in \<open>simp_all add: u_set_slot_def\<close>)
  have run: "unbounded_pop_read (q\<lparr>u_head_block := Some (bs ! 1), u_head_index := u_idx (Suc (Suc (u_pos h))) (2 < length bs)\<rparr>)
      (hd bs) 30 = (?q, Return (Inr v))"
    using lst hd(3,4) destroy by (simp add: unbounded_pop_read_def u_pos_Suc Let_def)
  have div: "Suc h div 31 = Suc (h div 31)" using lst by (simp add: div_Suc mod_Suc)
  have "Suc h div 31 \<le> t div 31" using hd(1) by (intro div_le_mono) simp
  then have le: "Suc (h div 31) \<le> t div 31" by (simp add: div)
  then have len: "2 \<le> length bs" using r(3) by simp
  have len': "length (tl bs) = t div 31 - Suc h div 31 + 1"
    using r(3) le Suc_diff_Suc [of "h div 31" "t div 31"] by (simp add: div)
  have lt': "2 < length bs \<Longrightarrow> Suc h div 31 < t div 31" using r(3) by (simp add: div)
  have vlen: "length vs = t - Suc h" using r(2) hd(1) by simp
  from len obtain b0 b1 bs' where bs: "bs = b0 # b1 # bs'" by (metis Suc_le_length_iff numeral_2_eq_2)
  have blk: "u_blk (tl bs) (Suc h) t vs i = u_blk bs h t (v # vs) (Suc i)" for i
    unfolding u_blk_def div using u_blk_pop [OF hd(1), of "Suc i" _ vs v] by (simp add: bs)
  have "u_rep ?q (tl bs) None (Suc h) t vs c"
  proof (rule u_repI [where m = "2 < length bs"])
    fix i assume i: "i < length (tl bs)"
    then have "u_heap q (bs ! Suc i) = Some (u_blk bs h t (v # vs) (Suc i))" by (intro r(8)) auto
    moreover have "tl bs ! i \<in> set (tl bs)" "hd bs \<notin> set (tl bs)"
      using nth_mem [OF i] r(7) by (simp_all add: bs)
    then have "tl bs ! i \<noteq> hd bs" by metis
    ultimately show "u_heap ?q (tl bs ! i) = Some (u_blk (tl bs) (Suc h) t vs i)"
      unfolding blk by (simp add: bs)
  next
    show "dom (u_heap ?q) = set (tl bs) \<union> set_option None" using r(7,9) by (auto simp: bs)
  next
    fix a assume "a \<in> dom (u_heap ?q)"
    then have "a \<in> dom (u_heap q)" by (auto split: if_splits)
    from r(10) [OF this] show "a < u_fresh ?q" by simp
  qed (use r(4,6,7) hd(1) len' lt' vlen in \<open>simp_all add: bs\<close>)
  with run show ?thesis by blast
qed

lemma u_pop_loop_ok:
  assumes rep: "u_rep q bs None h t (v # vs) c" and fits: "8 * length (v # vs) \<le> isize_max"
  shows "\<exists>q' bs'. unbounded_pop_loop ws q (u_head_index q, u_head_block q) = Some (q', Inr v) \<and>
     u_rep q' bs' None (Suc h) t vs c"
proof (induction "length ws" arbitrary: ws rule: less_induct)
  case less
  note r = u_repD [OF rep] and hd = u_rep_head [OF rep]
  obtain m where m: "u_head_index q = u_idx (u_pos h) m" "m \<longrightarrow> h div 31 < t div 31"
    using rep by (rule u_rep_headE)
  have b: "u_pos t < u_pos h + 2 ^ 63" "t div 31 < h div 31 + 2 ^ 58"
    using u_pos_bounds [OF r(1)] fits r(2) by simp_all
  have ne: "u_pos h \<noteq> u_pos t" using hd(1) div_le_mono [OF r(1), of 31] by (simp add: u_pos_alt)
  have eq: "shifted (u_idx (u_pos h) m) \<noteq> shifted (u_idx (u_pos t) c)"
    using shifted_eq_iff [OF u_pos_mono [OF r(1)] b(1)] ne by simp
  define m' where "m' \<longleftrightarrow> h div 31 \<noteq> t div 31"
  have lap: "shifted (u_idx (u_pos h) m) div LAP \<noteq> shifted (u_idx (u_pos t) c) div LAP \<longleftrightarrow> m'"
    using shifted_div_eq_iff [OF u_pos_mono [OF r(1)], of m c] b(2) by (simp add: m'_def)
  have lt: "h mod 31 \<noteq> 31" by (metis mod_less_divisor nat_neq_iff zero_less_numeral)
  have it: "unbounded_pop_iter w q (u_head_index q, u_head_block q) =
      unbounded_pop_cas w q (u_idx (u_pos h) m) (u_idx (Suc (u_pos h)) m') (hd bs)" for w
    using m r(4,5) eq lap lt
    by (cases m) (auto simp: unbounded_pop_iter_def Let_def m'_def)
  show ?case
  proof (cases "spurious ws")
    case True
    then have "length (tl ws) < length ws" by (cases ws) auto
    from less [OF this] True show ?thesis
      by (subst unbounded_pop_loop.simps) (simp add: it unbounded_pop_cas_def)
  next
    case False
    have "\<exists>q' bs'. unbounded_pop_cas False q (u_idx (u_pos h) m) (u_idx (Suc (u_pos h)) m') (hd bs) =
        (q', Return (Inr v)) \<and> u_rep q' bs' None (Suc h) t vs c"
    proof (cases "h mod 31 = 30")
      case True
      have "Suc h div 31 \<le> t div 31" using hd(1) by (intro div_le_mono) simp
      then have len: "1 < length bs" using True r(3) by (simp add: div_Suc mod_Suc)
      with r(8) [of 1] u_pop_last [OF rep True] hd(3) m(1) True show ?thesis
        by (auto simp: unbounded_pop_cas_def Let_def u_blk_def numeral_2_eq_2)
    next
      case False
      with lt have "h mod 31 < 30" using mod_less_divisor [of 31 h] by linarith
      from u_pop_mid [OF rep this m'_def] m(1) False show ?thesis
        by (auto simp: unbounded_pop_cas_def)
    qed
    with False show ?thesis
      by (subst unbounded_pop_loop.simps) (auto simp: it)
  qed
qed

lemma u_pop_loop_empty:
  assumes rep: "u_rep q bs None h h [] c"
  shows "unbounded_pop_loop ws q (u_head_index q, u_head_block q) =
     Some (q, Inl (if c then PopClosed else PopEmpty))"
proof -
  obtain m where m: "u_head_index q = u_idx (u_pos h) m" "m \<longrightarrow> h div 31 < h div 31"
    using rep by (rule u_rep_headE)
  have lt: "h mod 31 \<noteq> 31" by (metis mod_less_divisor nat_neq_iff zero_less_numeral)
  have "shifted (u_idx (u_pos h) False) = shifted (u_idx (u_pos h) c)" by (simp add: shifted_u_idx)
  with m u_repD(4) [OF rep] lt show ?thesis
    by (subst unbounded_pop_loop.simps) (simp add: unbounded_pop_iter_def Let_def)
qed

lemma u_pop_loop_new:
  assumes "u_empty q c"
  shows "unbounded_pop_loop ws q (u_head_index q, u_head_block q) =
     Some (q, Inl (if c then PopClosed else PopEmpty))"
proof -
  have "u_head_index q = u_idx 0 False" "u_tail_index q = u_idx 0 c"
    using assms by (simp_all add: u_empty_def u_idx_def)
  moreover have "shifted (u_idx 0 False) = shifted (u_idx 0 c)" by (simp add: shifted_u_idx)
  ultimately show ?thesis
    by (subst unbounded_pop_loop.simps) (simp add: unbounded_pop_iter_def Let_def)
qed

section \<open>Length and contents\<close>

lemma u_idx_diff:
  assumes "64 * n mod 2 ^ 64 = 64 * n' mod 2 ^ 64" "32 * n' \<le> u"
  shows "u_idx u False - of_nat (64 * n) = u_idx (u - 32 * n') False"
proof -
  have "(of_nat (64 * n) :: usize) = of_nat (64 * n')"
    using assms(1) by (metis usize_of_nat_mod)
  moreover have "2 * u = 2 * (u - 32 * n') + 64 * n'" using assms(2) by simp
  ultimately show ?thesis unfolding u_idx_def
    by (metis (no_types, lifting) add.right_neutral add_diff_cancel_right' of_bool_eq(1) of_nat_add)
qed

lemma u_len_words:
  assumes le: "h \<le> t" and fits: "8 * (t - h) \<le> isize_max"
    and idx: "u_tail_index q = u_idx (u_pos t) c" "u_head_index q = u_idx (u_pos h) m"
  shows "unbounded_len q = of_nat (t - h)"
proof -
  define d where "d = 32 * (t div 31 - h div 31) + t mod 31"
  have dl: "h div 31 \<le> t div 31" using le by (rule div_le_mono)
  have nm: "u_idx u b AND NOT 1 = u_idx u False" for u b
    using u_idx_mark(3) [of u b] by (simp add: MARK_BIT_def)
  have sh: "drop_bit 1 (u_idx u b) = of_nat (u mod 2 ^ 63)" for u b
    using shifted_u_idx [of u b] unfolding shifted_def by (metis of_nat_unat ucast_id)
  have off: "drop_bit 1 (u_idx (u_pos x) False) AND 31 \<noteq> 31" for x
  proof -
    have "drop_bit 1 (u_idx (u_pos x) False) AND 31 = take_bit 5 (of_nat (u_pos x mod 2 ^ 63) :: usize)"
      unfolding sh by (simp add: take_bit_eq_mask mask_eq_exp_minus_1)
    also have "\<dots> = of_nat (take_bit 5 (u_pos x mod 2 ^ 63))" by (simp add: take_bit_of_nat)
    also have "\<dots> = of_nat (x mod 31)" by (simp add: take_bit_eq_mod mod_mod_cancel)
    finally have "unat (drop_bit 1 (u_idx (u_pos x) False) AND 31) = x mod 31"
      by (simp add: unat_usize_of_nat less_trans [OF mod_less_divisor])
    moreover have "x mod 31 \<noteq> 31" by (metis mod_less_divisor nat_neq_iff zero_less_numeral)
    ultimately show ?thesis by auto
  qed
  define l where "l = u_pos h mod 2 ^ 63 div 32"
  have l: "64 * l mod 2 ^ 64 = 64 * (h div 31) mod 2 ^ 64"
  proof -
    have "l = (u_pos h div 32) mod 2 ^ 58"
      unfolding l_def using mod_mult2_eq [of "u_pos h" 32 "2 ^ 58"] by simp
    then show ?thesis by (simp add: mult_mod_right)
  qed
  have lap: "drop_bit 1 (u_idx (u_pos h) False) div 32 = of_nat l"
    unfolding sh l_def using usize_of_nat_div [of "u_pos h mod 2 ^ 63" 32]
    by (simp add: less_trans [OF mod_less_divisor])
  have pb: "push_bit 1 (of_nat l * 32 :: usize) = of_nat (64 * l)" by (simp add: push_bit_eq_mult)
  have "32 * (h div 31) \<le> u_pos h" "32 * (h div 31) \<le> u_pos t"
    using dl by (simp_all add: u_pos_def)
  then have sub: "u_idx (u_pos h) False - of_nat (64 * l) = u_idx (h mod 31) False"
      "u_idx (u_pos t) False - of_nat (64 * l) = u_idx d False"
    using u_idx_diff [OF l] dl by (simp_all add: u_pos_def d_def diff_mult_distrib2 mult.commute)
  have "d = t - h + h mod 31 + (t div 31 - h div 31)"
    using dl le mult_div_mod_eq [of 31 t] mult_div_mod_eq [of 31 h] unfolding d_def by linarith
  then have eq: "(of_nat d :: usize) = of_nat (t - h) + of_nat (h mod 31) + of_nat (t div 31 - h div 31)"
    by simp
  have "t div 31 - h div 31 < 2 ^ 58" using u_pos_bounds(2) [OF le fits] dl by linarith
  moreover have "t mod 31 < 31" by simp
  ultimately have d63: "d < 2 ^ 63" unfolding d_def by simp
  have ddiv: "d div 32 = t div 31 - h div 31"
    unfolding d_def using less_trans [of "t mod 31" 31 32] by simp
  have "unbounded_len q = of_nat d - of_nat (h mod 31) - of_nat d div 32"
  proof -
    have "h mod 31 < 2 ^ 63" by (rule less_trans [of _ 31]) simp_all
    then have "h mod 31 mod 2 ^ 63 = h mod 31" by (rule mod_less)
    moreover have "d mod 2 ^ 63 = d" using d63 by (rule mod_less)
    ultimately show ?thesis
      unfolding unbounded_len_def idx nm Let_def
      by (simp only: off lap pb sub if_False) (simp only: sh)
  qed
  also have "(of_nat d :: usize) div 32 = of_nat (t div 31 - h div 31)"
    using usize_of_nat_div [of d 32] d63 ddiv by simp
  finally show ?thesis by (simp add: eq)
qed

text \<open>The values from a position on, following the blocks.\<close>

fun u_walk :: "(nat \<rightharpoonup> 'a ublock) \<Rightarrow> nat \<Rightarrow> nat \<Rightarrow> nat option \<Rightarrow> 'a list" where
  "u_walk hp 0 offset block = []"
| "u_walk hp (Suc k) offset block =
     (case Option.bind block hp of
        None \<Rightarrow> []
      | Some b \<Rightarrow> the (us_value (ub_slots b ! offset)) #
          (if offset + 1 = BLOCK_CAP then u_walk hp k 0 (ub_next b) else u_walk hp k (offset + 1) block))"

definition unbounded_contents :: "'a unbounded \<Rightarrow> 'a list" where
  "unbounded_contents q =
     u_walk (u_heap q) (unat (unbounded_len q)) (shifted (u_head_index q) mod LAP) (u_head_block q)"

definition unbounded_inv :: "'a unbounded \<Rightarrow> bool" where
  "unbounded_inv q \<longleftrightarrow> (\<exists>c. u_empty q c) \<or>
     (\<exists>bs h t vs c. u_rep q bs None h t vs c \<and> 8 * length vs \<le> isize_max)"

definition unbounded_room :: "'a unbounded \<Rightarrow> bool" where
  "unbounded_room q \<longleftrightarrow> 8 * (length (unbounded_contents q) + 1) \<le> isize_max"

lemma u_walk_rep:
  assumes rep: "u_rep q bs x h t vs c" and j: "h \<le> j" "j + k = t"
  shows "u_walk (u_heap q) k (j mod 31) (if k = 0 then b else Some (bs ! (j div 31 - h div 31))) = drop (j - h) vs"
  using j
proof (induction k arbitrary: j b)
  case 0
  then show ?case using u_repD(2) [OF rep] by simp
next
  case (Suc k)
  note r = u_repD [OF rep]
  let ?i = "j div 31 - h div 31"
  have jt: "j < t" using Suc.prems by simp
  have le: "h div 31 \<le> j div 31" "j div 31 \<le> t div 31"
    using Suc.prems(1) jt by (auto intro: div_le_mono)
  have i: "?i < length bs" using r(3) le by linarith
  have "31 * (h div 31 + ?i) + j mod 31 = j" using le by simp
  then have v: "us_value (ub_slots (u_blk bs h t vs ?i) ! (j mod 31)) = Some (vs ! (j - h))"
    using Suc.prems(1) jt by (simp add: u_blk_def u_slot_def)
  have vs: "drop (j - h) vs = vs ! (j - h) # drop (Suc j - h) vs"
    using Suc.prems(1) jt r(2) by (simp add: Cons_nth_drop_Suc Suc_diff_le)
  show ?case
  proof (cases "j mod 31 = 30")
    case True
    have "Suc j div 31 \<le> t div 31" using jt by (intro div_le_mono) simp
    then have "j div 31 < t div 31" using True by (simp add: div_Suc mod_Suc)
    then have "?i < t div 31 - h div 31" using le(1) by (intro diff_less_mono)
    then have "ub_next (u_blk bs h t vs ?i) = Some (bs ! (Suc j div 31 - h div 31))"
      using True r(3) le by (simp add: u_blk_def div_Suc mod_Suc Suc_diff_le)
    moreover have "Suc j mod 31 = 0" using True by (simp add: mod_Suc)
    ultimately show ?thesis
      using Suc.IH [of "Suc j" "Some (bs ! (Suc j div 31 - h div 31))"] Suc.prems r(8) [OF i] v vs True
      by (simp split: if_splits)
  next
    case False
    with mod_less_divisor [of 31 j] have "Suc j mod 31 = Suc (j mod 31)" "Suc j div 31 = j div 31"
      by (simp_all add: mod_Suc div_Suc)
    then show ?thesis
      using Suc.IH [of "Suc j" "Some (bs ! ?i)"] Suc.prems r(8) [OF i] v vs False
      by (simp split: if_splits)
  qed
qed

lemma u_rep_contents:
  assumes rep: "u_rep q bs x h t vs c" and fits: "8 * length vs \<le> isize_max"
  shows "unbounded_len q = of_nat (length vs)" "unat (unbounded_len q) = length vs" "unbounded_contents q = vs"
proof -
  note r = u_repD [OF rep]
  obtain m where m: "u_head_index q = u_idx (u_pos h) m" using rep by (rule u_rep_headE)
  show len: "unbounded_len q = of_nat (length vs)"
    using u_len_words [OF r(1) _ r(4) m] fits r(2) by simp
  then show ulen: "unat (unbounded_len q) = length vs"
    using fits by (simp add: unat_usize_of_nat isize_max_def)
  have "bs \<noteq> []" using r(3) by auto
  then have hb: "u_head_block q = (if t - h = 0 then Some (hd bs) else Some (bs ! (h div 31 - h div 31)))"
    using r(5) by (simp add: hd_conv_nth)
  show "unbounded_contents q = vs"
    unfolding unbounded_contents_def ulen m hb using u_walk_rep [OF rep, of h "t - h" "Some (hd bs)"] r(1,2)
    by simp
qed

lemma u_empty_contents:
  assumes "u_empty q c"
  shows "unbounded_len q = 0" "unbounded_contents q = []"
proof -
  have i: "u_tail_index q = u_idx (u_pos 0) c" "u_head_index q = u_idx (u_pos 0) False"
    using assms by (simp_all add: u_empty_def u_pos_def u_idx_def)
  show "unbounded_len q = 0" using u_len_words [OF _ _ i] by simp
  then show "unbounded_contents q = []" by (simp add: unbounded_contents_def)
qed

lemma u_rep_closed: "u_rep q bs x h t vs c \<Longrightarrow> unbounded_is_closed q = c"
  using u_repD(4) [of q bs x h t vs c] by (simp add: unbounded_is_closed_def)

lemma u_empty_closed: "u_empty q c \<Longrightarrow> unbounded_is_closed q = c"
  by (simp add: unbounded_is_closed_def u_empty_def)

lemma unbounded_invE:
  assumes "unbounded_inv q"
  obtains (empty) c where "u_empty q c" "unbounded_contents q = []" "unbounded_is_closed q = c"
  | (rep) bs h t vs c where "u_rep q bs None h t vs c" "8 * length vs \<le> isize_max"
      "unbounded_contents q = vs" "unbounded_is_closed q = c"
  using assms u_empty_contents u_rep_contents u_rep_closed u_empty_closed unfolding unbounded_inv_def by metis

lemma unbounded_new_inv: "unbounded_inv unbounded_new" "unbounded_contents unbounded_new = []"
    "\<not> unbounded_is_closed unbounded_new"
proof -
  have e: "u_empty unbounded_new False" by (simp add: u_empty_def unbounded_new_def u_idx_def)
  then show "unbounded_inv unbounded_new" "unbounded_contents unbounded_new = []"
    "\<not> unbounded_is_closed unbounded_new"
    using u_empty_contents [OF e] u_empty_closed [OF e] unfolding unbounded_inv_def by blast+
qed

lemma u_rep_inv: "u_rep q bs None h t vs c \<Longrightarrow> 8 * length vs \<le> isize_max \<Longrightarrow> unbounded_inv q"
  unfolding unbounded_inv_def by blast

lemma u_push_closed:
  assumes "u_tail_index q = u_idx u True"
  shows "unbounded_push ws q v = Some (q, Inl (PushClosed v))"
  unfolding unbounded_push_def
  by (subst unbounded_push_loop.simps) (simp add: unbounded_push_iter_def assms u_free_def)

lemma unbounded_push_ok:
  assumes "unbounded_inv q" "unbounded_room q" "\<not> unbounded_is_closed q"
  shows "\<exists>q'. unbounded_push ws q v = Some (q', Inr ()) \<and> unbounded_inv q' \<and> \<not> unbounded_is_closed q' \<and>
     unbounded_contents q' = unbounded_contents q @ [v]"
proof -
  have "\<exists>q' bs h t. unbounded_push ws q v = Some (q', Inr ()) \<and>
      u_rep q' bs None h t (unbounded_contents q @ [v]) False"
    using assms(1)
  proof (cases rule: unbounded_invE)
    case (empty c)
    with assms(3) have "u_empty q False" by simp
    with u_push_first [OF this, of ws v] empty show ?thesis
      by (auto simp: unbounded_push_def u_empty_def)
  next
    case (rep bs h t vs c)
    with assms(3) have "u_rep q bs None h t vs False" by simp
    with u_push_loop [OF this, of ws v] rep u_repD(4,6) [OF this] show ?thesis
      by (auto simp: unbounded_push_def)
  qed
  then obtain q' bs h t where q': "unbounded_push ws q v = Some (q', Inr ())"
    "u_rep q' bs None h t (unbounded_contents q @ [v]) False" by blast
  moreover have "8 * length (unbounded_contents q @ [v]) \<le> isize_max"
    using assms(2) by (simp add: unbounded_room_def)
  ultimately show ?thesis
    using u_rep_contents(3) u_rep_closed unfolding unbounded_inv_def by blast
qed

lemma unbounded_push_spec:
  assumes "unbounded_inv q" "unbounded_room q"
  shows "\<exists>q'. unbounded_push ws q v = Some (q', spec_push None (unbounded_is_closed q) (unbounded_contents q) v)
    \<and> unbounded_inv q' \<and> unbounded_is_closed q' = unbounded_is_closed q \<and> (None :: nat option) = None
    \<and> unbounded_contents q' = (if spec_push None (unbounded_is_closed q) (unbounded_contents q) v = Inr ()
        then unbounded_contents q @ [v] else unbounded_contents q)"
proof (cases "unbounded_is_closed q")
  case False
  with unbounded_push_ok [OF assms False] show ?thesis by (auto simp: spec_push_def)
next
  case True
  obtain u where "u_tail_index q = u_idx u True"
    using assms(1)
  proof (cases rule: unbounded_invE)
    case (empty c)
    with True that show ?thesis by (auto simp: u_empty_def)
  next
    case (rep bs h t vs c)
    with True that u_repD(4) [OF rep(1)] show ?thesis by auto
  qed
  with u_push_closed [OF this] True assms(1) show ?thesis by (simp add: spec_push_def)
qed

lemma unbounded_pop_spec:
  assumes "unbounded_inv q"
  shows "\<exists>q'. unbounded_pop ws q = Some (q', spec_pop (unbounded_is_closed q) (unbounded_contents q))
    \<and> unbounded_inv q' \<and> unbounded_is_closed q' = unbounded_is_closed q \<and> (None :: nat option) = None
    \<and> unbounded_contents q' = tl (unbounded_contents q)"
  using assms
proof (cases rule: unbounded_invE)
  case (empty c)
  with u_pop_loop_new [OF empty(1), of ws] assms show ?thesis
    by (simp add: unbounded_pop_def spec_pop_def)
next
  case (rep bs h t vs c)
  show ?thesis
  proof (cases vs)
    case Nil
    with u_repD(1,2) [OF rep(1)] have "t = h" by simp
    with rep(1) Nil have "u_rep q bs None h h [] c" by simp
    from u_pop_loop_empty [OF this, of ws] rep Nil assms show ?thesis
      by (simp add: unbounded_pop_def spec_pop_def)
  next
    case (Cons v vs')
    obtain q' bs' where
      q': "unbounded_pop_loop ws q (u_head_index q, u_head_block q) = Some (q', Inr v)"
        "u_rep q' bs' None (Suc h) t vs' c"
      using u_pop_loop_ok [OF rep(1,2) [unfolded Cons], of ws] by blast
    moreover have "8 * length vs' \<le> isize_max" using rep(2) Cons by simp
    ultimately show ?thesis
      using u_rep_contents(3) [OF q'(2)] u_rep_closed [OF q'(2)] u_rep_inv [OF q'(2)] rep Cons
      by (simp add: unbounded_pop_def spec_pop_def)
  qed
qed

lemma u_rep_mark:
  assumes rep: "u_rep q bs None h t vs c"
  shows "u_rep (q\<lparr>u_tail_index := u_tail_index q OR MARK_BIT\<rparr>) bs None h t vs True"
proof -
  note r = u_repD [OF rep]
  obtain m where m: "u_head_index q = u_idx (u_pos h) m" "m \<longrightarrow> h div 31 < t div 31"
    using rep by (rule u_rep_headE)
  show ?thesis by (rule u_repI [where m = m]) (use r m in simp_all)
qed

lemma unbounded_close_spec:
  assumes "unbounded_inv q"
  shows "\<exists>q'. unbounded_close q = (q', \<not> unbounded_is_closed q)
    \<and> unbounded_inv q' \<and> unbounded_is_closed q' \<and> (None :: nat option) = None
    \<and> unbounded_contents q' = unbounded_contents q"
  using assms
proof (cases rule: unbounded_invE)
  case (empty c)
  then have e: "u_empty (q\<lparr>u_tail_index := u_tail_index q OR MARK_BIT\<rparr>) True" by (simp add: u_empty_def)
  with u_empty_contents(2) [OF e] u_empty_closed [OF e] empty show ?thesis
    by (auto simp: unbounded_close_def unbounded_is_closed_def [of q] unbounded_inv_def)
next
  case (rep bs h t vs c)
  note rep' = u_rep_mark [OF rep(1)]
  from u_rep_contents(3) [OF rep' rep(2)] u_rep_closed [OF rep'] u_rep_inv [OF rep' rep(2)] rep
  show ?thesis by (auto simp: unbounded_close_def unbounded_is_closed_def [of q])
qed

interpretation unbounded: fifo unbounded_inv unbounded_contents unbounded_is_closed "\<lambda>_. None"
  unbounded_room "unbounded_push ws" "unbounded_pop ws'" unbounded_close for ws ws'
proof (unfold_locales, goal_cases)
  case (1 q v)
  then show ?case using unbounded_push_spec [of q ws v] by blast
next
  case (2 q)
  then show ?case using unbounded_pop_spec [of q ws'] by blast
next
  case (3 q)
  then show ?case using unbounded_close_spec [of q] by blast
qed (simp_all add: unbounded_room_def)

section \<open>Observers and the destructor\<close>

lemma unbounded_observers:
  assumes "unbounded_inv q"
  shows "unat (unbounded_len q) = length (unbounded_contents q)"
    "unbounded_is_empty q \<longleftrightarrow> unbounded_contents q = []"
proof -
  show "unat (unbounded_len q) = length (unbounded_contents q)"
    using assms
  proof (cases rule: unbounded_invE)
    case (empty c)
    then show ?thesis using u_empty_contents [OF empty(1)] by simp
  next
    case (rep bs h t vs c)
    then show ?thesis using u_rep_contents(2) [OF rep(1,2)] by simp
  qed
  show "unbounded_is_empty q \<longleftrightarrow> unbounded_contents q = []"
    using assms
  proof (cases rule: unbounded_invE)
    case (empty c)
    then show ?thesis
      using shifted_u_idx [of 0 c] shifted_u_idx [of 0 False]
      by (simp add: unbounded_is_empty_def u_empty_def u_idx_def)
  next
    case (rep bs h t vs c)
    note r = u_repD [OF rep(1)]
    obtain m where m: "u_head_index q = u_idx (u_pos h) m" using rep(1) by (rule u_rep_headE)
    have "u_pos t < u_pos h + 2 ^ 63" using u_pos_bounds [OF r(1)] rep(2) r(2) by simp
    from shifted_eq_iff [OF u_pos_mono [OF r(1)] this]
    have "unbounded_is_empty q \<longleftrightarrow> u_pos h = u_pos t" by (simp add: unbounded_is_empty_def m r(4))
    also have "\<dots> \<longleftrightarrow> h = t" using r(1) div_le_mono [OF r(1), of 31] by (auto simp: u_pos_alt)
    finally show ?thesis using rep(3) r(1,2) by auto
  qed
qed

text \<open>
  The destructor drops every stored value once and frees every block; on the way the heap
  holds the blocks from the current one on.
\<close>

lemma u_idx_eq_iff:
  assumes "u \<le> u'" "u' < u + 2 ^ 63"
  shows "u_idx u m = u_idx u' m' \<Longrightarrow> u = u'"
  using shifted_eq_iff [OF assms, of m m'] by simp

lemma u_drop_loop:
  assumes rep: "u_rep q bs None h t vs c" and fits: "8 * length vs \<le> isize_max"
    and j: "h \<le> j" "j + k = t"
    and heap: "u_heap q' = u_heap q |` set (drop (j div 31 - h div 31) bs)"
  shows "\<exists>q''. unbounded_drop_loop q' (u_idx (u_pos j) False) (u_idx (u_pos t) False)
      (Some (bs ! (j div 31 - h div 31))) = Some (q'', drop (j - h) vs) \<and> u_heap q'' = Map.empty"
  using j heap
proof (induction k arbitrary: j q')
  case 0
  note r = u_repD [OF rep]
  have "drop (t div 31 - h div 31) bs = [bs ! (t div 31 - h div 31)]"
    using r(3) Cons_nth_drop_Suc [of "t div 31 - h div 31" bs] by simp
  with 0 r(2) show ?case
    by (subst unbounded_drop_loop.simps) (auto simp: u_free_def restrict_map_def fun_eq_iff)
next
  case (Suc k)
  note r = u_repD [OF rep]
  let ?i = "j div 31 - h div 31"
  have jt: "j < t" using Suc.prems by simp
  have le: "h div 31 \<le> j div 31" "j div 31 \<le> t div 31"
    using Suc.prems(1) jt by (auto intro: div_le_mono)
  have i: "?i < length bs" using r(3) le by linarith
  have dr: "drop ?i bs = bs ! ?i # drop (Suc ?i) bs" using Cons_nth_drop_Suc [OF i] by simp
  have hp: "u_heap q' (bs ! ?i) = Some (u_blk bs h t vs ?i)"
    using Suc.prems(3) r(8) [OF i] by (simp add: dr)
  have "31 * (h div 31 + ?i) + j mod 31 = j" using le by simp
  then have v: "us_value (ub_slots (u_blk bs h t vs ?i) ! (j mod 31)) = Some (vs ! (j - h))"
    using Suc.prems(1) jt by (simp add: u_blk_def u_slot_def)
  have vs: "drop (j - h) vs = vs ! (j - h) # drop (Suc j - h) vs"
    using Suc.prems(1) jt r(2) by (simp add: Cons_nth_drop_Suc Suc_diff_le)
  have b: "u_pos t < u_pos h + 2 ^ 63" using u_pos_bounds [OF r(1)] fits r(2) by simp
  have pj: "u_pos h \<le> u_pos j" "u_pos j < u_pos t"
    using Suc.prems(1) jt le by (simp_all add: u_pos_alt add_mono add_less_le_mono)
  have ne: "u_idx (u_pos j) False \<noteq> u_idx (u_pos t) False"
    using u_idx_eq_iff [of "u_pos j" "u_pos t"] pj b by force
  have j31: "j mod 31 < 31" by simp
  have step: "unbounded_drop_loop q' (u_idx (u_pos j) False) (u_idx (u_pos t) False) (Some (bs ! ?i)) =
      Option.bind (unbounded_drop_loop q' (u_idx (Suc (u_pos j)) False) (u_idx (u_pos t) False) (Some (bs ! ?i)))
        (\<lambda>(q', ws). Some (q', vs ! (j - h) # ws))"
    using ne hp v j31 by (subst unbounded_drop_loop.simps) (simp add: Let_def)
  show ?case
  proof (cases "j mod 31 = 30")
    case False
    with j31 have s: "Suc j div 31 = j div 31" "u_pos (Suc j) = Suc (u_pos j)"
      by (simp_all add: div_Suc mod_Suc u_pos_Suc)
    obtain q'' where "unbounded_drop_loop q' (u_idx (u_pos (Suc j)) False) (u_idx (u_pos t) False)
        (Some (bs ! ?i)) = Some (q'', drop (Suc j - h) vs)" "u_heap q'' = Map.empty"
      using Suc.IH [of "Suc j" q'] Suc.prems s by auto
    then show ?thesis unfolding step vs by (simp add: s)
  next
    case True
    let ?q = "u_free q' (Some (bs ! ?i))"
    have s: "Suc j div 31 = Suc (j div 31)" "u_pos (Suc j) = Suc (Suc (u_pos j))"
      using True by (simp_all add: div_Suc mod_Suc u_pos_Suc)
    have "Suc j div 31 \<le> t div 31" using jt by (intro div_le_mono) simp
    then have "?i < t div 31 - h div 31" using s le(1) by (intro diff_less_mono) simp
    then have nx: "ub_next (u_blk bs h t vs ?i) = Some (bs ! Suc ?i)" using r(3) by (simp add: u_blk_def)
    have m31: "Suc (u_pos j) mod 32 = 31" using True by (simp add: mod_Suc)
    have "u_pos t mod 32 \<noteq> 31" by simp
    then have "Suc (u_pos j) \<noteq> u_pos t" using m31 by metis
    then have ne': "u_idx (Suc (u_pos j)) False \<noteq> u_idx (u_pos t) False"
      using u_idx_eq_iff [of "Suc (u_pos j)" "u_pos t"] pj b by force
    have skip: "unbounded_drop_loop q' (u_idx (Suc (u_pos j)) False) (u_idx (u_pos t) False) (Some (bs ! ?i)) =
        unbounded_drop_loop ?q (u_idx (u_pos (Suc j)) False) (u_idx (u_pos t) False) (Some (bs ! Suc ?i))"
      using ne' hp nx m31 by (subst unbounded_drop_loop.simps) (simp add: Let_def s(2))
    have "bs ! ?i \<notin> set (drop (Suc ?i) bs)"
      using r(7) dr by (metis distinct.simps(2) distinct_drop)
    then have "u_heap ?q = u_heap q |` set (drop (Suc ?i) bs)"
      using Suc.prems(3) by (auto simp: u_free_def dr restrict_map_def fun_eq_iff)
    moreover have "Suc j div 31 - h div 31 = Suc ?i" using s le by (simp add: Suc_diff_le)
    ultimately obtain q'' where "unbounded_drop_loop ?q (u_idx (u_pos (Suc j)) False) (u_idx (u_pos t) False)
        (Some (bs ! Suc ?i)) = Some (q'', drop (Suc j - h) vs)" "u_heap q'' = Map.empty"
      using Suc.IH [of "Suc j" ?q] Suc.prems by auto
    then show ?thesis unfolding step skip vs by simp
  qed
qed

lemma unbounded_drop_spec:
  assumes "unbounded_inv q"
  shows "\<exists>q'. unbounded_drop q = Some (q', unbounded_contents q) \<and> u_heap q' = Map.empty"
proof -
  have nm: "u_idx u b AND NOT 1 = u_idx u False" for u b
    using u_idx_mark(3) [of u b] by (simp add: MARK_BIT_def)
  from assms show ?thesis
  proof (cases rule: unbounded_invE)
    case (empty c)
    then have "u_head_index q = u_idx 0 False" "u_tail_index q = u_idx 0 c" "u_head_block q = None"
      "u_heap q = Map.empty"
      by (simp_all add: u_empty_def u_idx_def)
    with empty(2) show ?thesis
      unfolding unbounded_drop_def by (subst unbounded_drop_loop.simps) (simp only: nm, simp add: u_free_def)
  next
    case (rep bs h t vs c)
    note r = u_repD [OF rep(1)]
    obtain m where m: "u_head_index q = u_idx (u_pos h) m" using rep(1) by (rule u_rep_headE)
    have "u_heap q |` set bs = u_heap q" using r(9) by (intro map_le_antisym) (auto simp: map_le_def restrict_map_def domIff)
    moreover have "hd bs = bs ! 0" using r(3) by (metis hd_conv_nth list.size(3) add_is_0 one_neq_zero)
    ultimately show ?thesis
      using u_drop_loop [OF rep(1,2), of h "t - h" q] r(1,5) rep(3)
      unfolding unbounded_drop_def m r(4) nm by simp
  qed
qed

section \<open>Properties\<close>

text \<open>
  (C19) The destructor of an unbounded queue ends, follows live blocks only, drops exactly
  the values still queued, oldest first, and frees every block.
\<close>

theorem unbounded_drop_correct:
  assumes "unbounded_inv q"
  shows "\<exists>q'. unbounded_drop q = Some (q', unbounded_contents q) \<and> u_heap q' = Map.empty"
  using assms by (rule unbounded_drop_spec)

theorem unbounded_drop_correct_witness:
  "\<exists>q' q'' :: nat unbounded. unbounded_push [] unbounded_new 3 = Some (q', Inr ()) \<and>
     unbounded_drop q' = Some (q'', [3]) \<and> u_heap q'' = Map.empty"
proof -
  obtain q' :: "nat unbounded" where q': "unbounded_push [] unbounded_new 3 = Some (q', Inr ())"
    "unbounded_inv q'" "unbounded_contents q' = [3]"
    using unbounded_push_ok [of unbounded_new "[]" "3::nat"]
    by (auto simp: unbounded_room_def isize_max_def unbounded_new_inv)
  with unbounded_drop_correct [OF q'(2)] show ?thesis by auto
qed

end
