(* ===== verification/Concurrent_Queue.thy ===== *)
theory Concurrent_Queue
  imports Queue_Single Queue_Bounded Queue_Unbounded
begin

text \<open>
  \<open>ConcurrentQueue\<close> (src/cynthia/src/platform/queue/mod.rs): the three queues behind one
  interface. A bounded queue of capacity one is the one-slot queue. The channel, the
  executor and the blocking pipe use queues only through the laws of \<open>fifo\<close>, which are
  discharged here once for every variant.
\<close>

datatype 'a concurrent_queue =
    CQ_Single "'a single"
  | CQ_Bounded "'a bounded"
  | CQ_Unbounded "'a unbounded"

definition queue_bounded :: "nat \<Rightarrow> usize \<Rightarrow> 'a concurrent_queue fallible" where
  "queue_bounded slot_size cap =
     (if cap = 1 then Inr (CQ_Single single_new)
      else bind_fallible (bounded_new slot_size cap) (\<lambda>q. Inr (CQ_Bounded q)))"

definition queue_unbounded :: "'a concurrent_queue" where
  "queue_unbounded = CQ_Unbounded unbounded_new"

fun queue_push :: "bool list \<Rightarrow> 'a concurrent_queue \<Rightarrow> 'a \<Rightarrow> ('a concurrent_queue \<times> ('a push_error + unit)) option" where
  "queue_push ws (CQ_Single q) value = map_option (map_prod CQ_Single id) (single_push q value)"
| "queue_push ws (CQ_Bounded q) value = map_option (map_prod CQ_Bounded id) (bounded_push ws q value)"
| "queue_push ws (CQ_Unbounded q) value = map_option (map_prod CQ_Unbounded id) (unbounded_push ws q value)"

fun queue_pop :: "bool list \<Rightarrow> 'a concurrent_queue \<Rightarrow> ('a concurrent_queue \<times> (pop_error + 'a)) option" where
  "queue_pop ws (CQ_Single q) = map_option (map_prod CQ_Single id) (single_pop q)"
| "queue_pop ws (CQ_Bounded q) = map_option (map_prod CQ_Bounded id) (bounded_pop ws q)"
| "queue_pop ws (CQ_Unbounded q) = map_option (map_prod CQ_Unbounded id) (unbounded_pop ws q)"

fun queue_is_empty :: "'a concurrent_queue \<Rightarrow> bool" where
  "queue_is_empty (CQ_Single q) = single_is_empty q"
| "queue_is_empty (CQ_Bounded q) = bounded_is_empty q"
| "queue_is_empty (CQ_Unbounded q) = unbounded_is_empty q"

fun queue_is_full :: "'a concurrent_queue \<Rightarrow> bool" where
  "queue_is_full (CQ_Single q) = single_is_full q"
| "queue_is_full (CQ_Bounded q) = bounded_is_full q"
| "queue_is_full (CQ_Unbounded q) = unbounded_is_full q"

fun queue_len :: "'a concurrent_queue \<Rightarrow> nat option" where
  "queue_len (CQ_Single q) = Some (single_len q)"
| "queue_len (CQ_Bounded q) = bounded_len q"
| "queue_len (CQ_Unbounded q) = Some (unat (unbounded_len q))"

fun queue_capacity :: "'a concurrent_queue \<Rightarrow> nat option" where
  "queue_capacity (CQ_Single q) = Some 1"
| "queue_capacity (CQ_Bounded q) = Some (bounded_capacity q)"
| "queue_capacity (CQ_Unbounded q) = None"

fun queue_close :: "'a concurrent_queue \<Rightarrow> 'a concurrent_queue \<times> bool" where
  "queue_close (CQ_Single q) = map_prod CQ_Single id (single_close q)"
| "queue_close (CQ_Bounded q) = map_prod CQ_Bounded id (bounded_close q)"
| "queue_close (CQ_Unbounded q) = map_prod CQ_Unbounded id (unbounded_close q)"

fun queue_is_closed :: "'a concurrent_queue \<Rightarrow> bool" where
  "queue_is_closed (CQ_Single q) = single_is_closed q"
| "queue_is_closed (CQ_Bounded q) = bounded_is_closed q"
| "queue_is_closed (CQ_Unbounded q) = unbounded_is_closed q"

fun queue_inv :: "'a concurrent_queue \<Rightarrow> bool" where
  "queue_inv (CQ_Single q) = single_inv q"
| "queue_inv (CQ_Bounded q) = bounded_inv q"
| "queue_inv (CQ_Unbounded q) = unbounded_inv q"

fun queue_contents :: "'a concurrent_queue \<Rightarrow> 'a list" where
  "queue_contents (CQ_Single q) = single_contents q"
| "queue_contents (CQ_Bounded q) = bounded_contents q"
| "queue_contents (CQ_Unbounded q) = unbounded_contents q"

fun queue_room :: "'a concurrent_queue \<Rightarrow> bool" where
  "queue_room (CQ_Unbounded q) = unbounded_room q"
| "queue_room _ = True"

lemma wrap_option:
  assumes "\<exists>q'. m = Some (q', r) \<and> P q'" and "\<And>q'. P q' \<Longrightarrow> P' (C q')"
  shows "\<exists>q'. map_option (map_prod C id) m = Some (q', r) \<and> P' q'"
  using assms by auto

lemma wrap_pair:
  assumes "\<exists>q'. m = (q', r) \<and> P q'" and "\<And>q'. P q' \<Longrightarrow> P' (C q')"
  shows "\<exists>q'. map_prod C id m = (q', r) \<and> P' q'"
  using assms by auto

lemmas queue_unfolds = queue_push.simps queue_pop.simps queue_close.simps queue_contents.simps
  queue_is_closed.simps queue_capacity.simps

interpretation cq: fifo queue_inv queue_contents queue_is_closed queue_capacity queue_room
  "queue_push ws" "queue_pop ws'" queue_close for ws ws'
proof (unfold_locales, goal_cases)
  case (1 q v)
  show ?case
  proof (cases q)
    case (CQ_Single s)
    show ?thesis unfolding CQ_Single queue_unfolds
      by (rule wrap_option [OF single.push_spec]) (use 1 CQ_Single in simp_all)
  next
    case (CQ_Bounded s)
    show ?thesis unfolding CQ_Bounded queue_unfolds
      by (rule wrap_option [OF bounded.push_spec]) (use 1 CQ_Bounded in simp_all)
  next
    case (CQ_Unbounded s)
    show ?thesis unfolding CQ_Unbounded queue_unfolds
      by (rule wrap_option [OF unbounded.push_spec]) (use 1 CQ_Unbounded in simp_all)
  qed
next
  case (2 q)
  show ?case
  proof (cases q)
    case (CQ_Single s)
    show ?thesis unfolding CQ_Single queue_unfolds
      by (rule wrap_option [OF single.pop_spec]) (use 2 CQ_Single in simp_all)
  next
    case (CQ_Bounded s)
    show ?thesis unfolding CQ_Bounded queue_unfolds
      by (rule wrap_option [OF bounded.pop_spec]) (use 2 CQ_Bounded in simp_all)
  next
    case (CQ_Unbounded s)
    show ?thesis unfolding CQ_Unbounded queue_unfolds
      by (rule wrap_option [OF unbounded.pop_spec]) (use 2 CQ_Unbounded in simp_all)
  qed
next
  case (3 q)
  show ?case
  proof (cases q)
    case (CQ_Single s)
    show ?thesis unfolding CQ_Single queue_unfolds
      by (rule wrap_pair [OF single.close_spec]) (use 3 CQ_Single in simp_all)
  next
    case (CQ_Bounded s)
    show ?thesis unfolding CQ_Bounded queue_unfolds
      by (rule wrap_pair [OF bounded.close_spec]) (use 3 CQ_Bounded in simp_all)
  next
    case (CQ_Unbounded s)
    show ?thesis unfolding CQ_Unbounded queue_unfolds
      by (rule wrap_pair [OF unbounded.close_spec]) (use 3 CQ_Unbounded in simp_all)
  qed
next
  case (4 q n)
  then show ?case
    using single.capacity_bound bounded.capacity_bound by (cases q) auto
next
  case (5 q)
  then show ?case using unbounded.room_bound by (cases q) auto
qed

lemma queue_unbounded_ok:
  "queue_inv queue_unbounded" "queue_contents queue_unbounded = []" "\<not> queue_is_closed queue_unbounded"
  "queue_capacity queue_unbounded = None"
  by (simp_all add: queue_unbounded_def unbounded_new_inv)

lemma queue_bounded_ok:
  assumes "queue_bounded slot_size cap = Inr q" "8 \<le> slot_size"
  shows "queue_inv q" "queue_contents q = []" "\<not> queue_is_closed q" "queue_capacity q = Some (unat cap)"
proof -
  have "queue_inv q \<and> queue_contents q = [] \<and> \<not> queue_is_closed q \<and> queue_capacity q = Some (unat cap)"
  proof (cases "cap = 1")
    case True
    with assms(1) show ?thesis
      by (auto simp: queue_bounded_def single_contents_def single_new_def single_inv_def single_is_closed_def)
  next
    case False
    with assms(1) obtain b where "bounded_new slot_size cap = Inr b" "q = CQ_Bounded b"
      by (auto simp: queue_bounded_def)
    with bounded_new_ok [OF this(1) assms(2)] show ?thesis by simp
  qed
  then show "queue_inv q" "queue_contents q = []" "\<not> queue_is_closed q" "queue_capacity q = Some (unat cap)"
    by simp_all
qed

lemma queue_observers:
  assumes "queue_inv q"
  shows "queue_len q = Some (length (queue_contents q))"
    "queue_is_empty q \<longleftrightarrow> queue_contents q = []"
    "queue_is_full q \<longleftrightarrow> queue_capacity q = Some (length (queue_contents q))"
  using assms
  by (cases q; simp add: single_observers bounded_len_spec bounded_is_empty_spec bounded_is_full_spec
      unbounded_observers unbounded_is_full_def eq_commute)+

section \<open>Histories\<close>

text \<open>
  A history of one thread; each operation comes with the spurious failures its
  \<open>compare_exchange_weak\<close> meets.
\<close>

fun queue_call :: "bool list \<Rightarrow> 'a concurrent_queue \<Rightarrow> 'a queue_op \<Rightarrow> ('a concurrent_queue \<times> 'a queue_res) option" where
  "queue_call ws q (OpPush v) = map_option (map_prod id ResPush) (queue_push ws q v)"
| "queue_call ws q OpPop = map_option (map_prod id ResPop) (queue_pop ws q)"
| "queue_call ws q OpClose = Some (map_prod id ResClose (queue_close q))"

fun queue_run :: "'a concurrent_queue \<Rightarrow> (bool list \<times> 'a queue_op) list \<Rightarrow>
    ('a concurrent_queue \<times> 'a queue_res list) option" where
  "queue_run q [] = Some (q, [])"
| "queue_run q ((ws, p) # ps) =
     Option.bind (queue_call ws q p) (\<lambda>(q', r).
       Option.bind (queue_run q' ps) (\<lambda>(q'', rs). Some (q'', r # rs)))"

lemma queue_call_refines:
  assumes "queue_inv q" and "8 * (length (queue_contents q) + 1) \<le> isize_max"
  shows "\<exists>q' r. queue_call ws q p = Some (q', r) \<and> queue_inv q' \<and> queue_capacity q' = queue_capacity q \<and>
     ((queue_is_closed q', queue_contents q'), r) = spec_op (queue_capacity q) (queue_is_closed q, queue_contents q) p"
proof (cases p)
  case (OpPush v)
  with cq.push_spec [OF assms(1) cq.room_bound [OF assms(2)], of ws v] show ?thesis by auto
next
  case OpPop
  with cq.pop_spec [OF assms(1), of ws] show ?thesis by auto
next
  case OpClose
  with cq.close_spec [OF assms(1)] show ?thesis by auto
qed

lemma spec_op_length: "length (snd (fst (spec_op cap s p))) \<le> length (snd s) + 1"
  by (cases s; cases p) auto

lemma queue_run_refines:
  assumes "queue_inv q" and "8 * (length (queue_contents q) + length ps) \<le> isize_max"
  shows "\<exists>q' rs. queue_run q ps = Some (q', rs) \<and> queue_inv q' \<and> queue_capacity q' = queue_capacity q \<and>
     ((queue_is_closed q', queue_contents q'), rs) =
       spec_run (queue_capacity q) (queue_is_closed q, queue_contents q) (map snd ps)"
  using assms
proof (induction ps arbitrary: q)
  case Nil
  then show ?case by simp
next
  case (Cons wp ps)
  obtain ws p where wp: "wp = (ws, p)" by (cases wp)
  let ?s = "(queue_is_closed q, queue_contents q)"
  obtain q' r where op: "queue_call ws q p = Some (q', r)" "queue_inv q'" "queue_capacity q' = queue_capacity q"
    and eq: "((queue_is_closed q', queue_contents q'), r) = spec_op (queue_capacity q) ?s p"
    using queue_call_refines [of q ws p] Cons.prems by auto
  have "length (queue_contents q') \<le> length (queue_contents q) + 1"
    using spec_op_length [of "queue_capacity q" ?s p] eq [symmetric] by simp
  with Cons.prems(2) have "8 * (length (queue_contents q') + length ps) \<le> isize_max" by simp
  from Cons.IH [OF op(2) this] obtain q'' rs where
    "queue_run q' ps = Some (q'', rs)" "queue_inv q''" "queue_capacity q'' = queue_capacity q'"
    "((queue_is_closed q'', queue_contents q''), rs) =
       spec_run (queue_capacity q') (queue_is_closed q', queue_contents q') (map snd ps)"
    by blast
  then show ?case
    using op eq [symmetric] by (auto simp: wp split: prod.splits)
qed

section \<open>Properties\<close>

text \<open>
  (C1) Every queue, one-slot, bounded or unbounded, answers every history of pushes, pops
  and closes exactly like the abstract first-in first-out queue with that capacity, for
  every pattern of spurious compare-exchange failures: no call hangs, panics or touches
  memory it must not, whatever wrap-around the position counters have undergone. The bound
  says that the values fit in the address space.
\<close>

theorem queue_history_correct:
  assumes "queue_inv q" and "8 * (length (queue_contents q) + length ps) \<le> isize_max"
  shows "\<exists>q' rs. queue_run q ps = Some (q', rs) \<and> queue_inv q' \<and> queue_capacity q' = queue_capacity q \<and>
     ((queue_is_closed q', queue_contents q'), rs) =
       spec_run (queue_capacity q) (queue_is_closed q, queue_contents q) (map snd ps)"
  using assms by (rule queue_run_refines)

theorem queue_history_correct_witness:
  "\<exists>q'. queue_run queue_unbounded [([True, True], OpPush (4::nat)), ([], OpPush 5), ([True], OpPop), ([], OpClose), ([], OpPush 6)]
     = Some (q', [ResPush (Inr ()), ResPush (Inr ()), ResPop (Inr 4), ResClose True, ResPush (Inl (PushClosed 6))])
     \<and> queue_contents q' = [5]"
  using queue_history_correct [of "queue_unbounded :: nat concurrent_queue"
      "[([True, True], OpPush (4::nat)), ([], OpPush 5), ([True], OpPop), ([], OpClose), ([], OpPush 6)]"]
  by (auto simp: queue_unbounded_ok isize_max_def spec_push_def spec_pop_def)



text \<open> \<open>len\<close>, \<open>is_empty\<close> and \<open>is_full\<close> of every queue agree with its contents and
  capacity, although they are computed from wrapped position words.
\<close>

lemma queue_observers_correct:
  assumes "queue_inv q"
  shows "queue_len q = Some (length (queue_contents q)) \<and>
    (queue_is_empty q \<longleftrightarrow> queue_contents q = []) \<and>
    (queue_is_full q \<longleftrightarrow> queue_capacity q = Some (length (queue_contents q)))"
  using queue_observers [OF assms] by blast

lemma queue_observers_correct_witness:
  "queue_len (queue_unbounded :: nat concurrent_queue) = Some 0 \<and> queue_is_empty (queue_unbounded :: nat concurrent_queue)"
  using queue_observers_correct [of "queue_unbounded :: nat concurrent_queue"] by (simp add: queue_unbounded_ok)

end
