(* ===== verification/Event_Listener.thy ===== *)
theory Event_Listener
  imports Cynthia_Prelude
begin

text \<open>
  Events and their listeners (src/cynthia/src/platform/event/listener.rs). An event owns a
  doubly linked list of entries, one per listener, in an explicit heap: the entry cached
  inside \<open>Inner\<close> is at address 0, boxed entries get fresh addresses and leave the heap when
  they are freed. Every method runs under the list's mutex, so it is one atomic step; when
  the guard is dropped the count that \<open>notify\<close> reads without the lock is refreshed. The
  wakers that an operation wakes and the threads it unparks are part of its result. The
  reference count of \<open>Inner\<close>, the fences and the poisoning of the mutex are not modelled.
\<close>

section \<open>Entries and lists\<close>

datatype event_state = Created | Notified bool | Polling waker | Waiting thread_id

fun is_notified :: "event_state \<Rightarrow> bool" where
  "is_notified (Notified _) = True"
| "is_notified Created = False"
| "is_notified (Polling _) = False"
| "is_notified (Waiting _) = False"

record entry =
  e_state :: event_state
  e_prev :: "nat option"
  e_next :: "nat option"

record event_list =
  l_head :: "nat option"
  l_tail :: "nat option"
  l_start :: "nat option"
  l_len :: nat
  l_notified :: nat
  l_cache_used :: bool

record event_inner =
  i_notified :: nat
  i_list :: event_list
  i_heap :: "nat \<rightharpoonup> entry"
  i_fresh :: nat

definition cache_ptr :: nat where "cache_ptr = 0"

definition set_head :: "event_inner \<Rightarrow> nat option \<Rightarrow> event_inner" where
  "set_head i v = i\<lparr>i_list := (i_list i)\<lparr>l_head := v\<rparr>\<rparr>"

definition set_tail :: "event_inner \<Rightarrow> nat option \<Rightarrow> event_inner" where
  "set_tail i v = i\<lparr>i_list := (i_list i)\<lparr>l_tail := v\<rparr>\<rparr>"

definition set_start :: "event_inner \<Rightarrow> nat option \<Rightarrow> event_inner" where
  "set_start i v = i\<lparr>i_list := (i_list i)\<lparr>l_start := v\<rparr>\<rparr>"

definition with_entry :: "event_inner \<Rightarrow> nat \<Rightarrow> (entry \<Rightarrow> entry) \<Rightarrow> event_inner fallible" where
  "with_entry i p f = (case i_heap i p of None \<Rightarrow> Inl Dangling
     | Some e \<Rightarrow> Inr (i\<lparr>i_heap := (i_heap i)(p \<mapsto> f e)\<rparr>))"

definition get_entry :: "event_inner \<Rightarrow> nat \<Rightarrow> entry fallible" where
  "get_entry i p = (case i_heap i p of None \<Rightarrow> Inl Dangling | Some e \<Rightarrow> Inr e)"

text \<open>\<open>List::insert\<close>; the cache or a new box holds the entry.\<close>

definition list_insert_alloc :: "event_inner \<Rightarrow> event_inner \<times> nat" where
  "list_insert_alloc i =
     (let l = i_list i; e = \<lparr>e_state = Created, e_prev = l_tail l, e_next = None\<rparr> in
      if l_cache_used l
      then (i\<lparr>i_heap := (i_heap i)(i_fresh i \<mapsto> e), i_fresh := Suc (i_fresh i)\<rparr>, i_fresh i)
      else (i\<lparr>i_heap := (i_heap i)(cache_ptr \<mapsto> e), i_list := l\<lparr>l_cache_used := True\<rparr>\<rparr>, cache_ptr))"

definition list_insert :: "event_inner \<Rightarrow> (event_inner \<times> nat) fallible" where
  "list_insert i =
     (case list_insert_alloc i of (i1, entry) \<Rightarrow>
      let old_tail = l_tail (i_list i1); i2 = set_tail i1 (Some entry) in
      bind_fallible (case old_tail of
          None \<Rightarrow> Inr (set_head i2 (Some entry))
        | Some t \<Rightarrow> with_entry i2 t (\<lambda>e. e\<lparr>e_next := Some entry\<rparr>)) (\<lambda>i3.
      let i4 = (if l_start (i_list i3) = None then set_start i3 (l_tail (i_list i3)) else i3) in
      if l_len (i_list i4) < usize_max
      then Inr (i4\<lparr>i_list := (i_list i4)\<lparr>l_len := l_len (i_list i4) + 1\<rparr>\<rparr>, entry)
      else Inl Overflow))"

text \<open>\<open>List::remove\<close>; a boxed entry is freed, the cached one is reset.\<close>

definition list_remove_free :: "event_inner \<Rightarrow> nat \<Rightarrow> (event_inner \<times> event_state) fallible" where
  "list_remove_free i entry =
     bind_fallible (get_entry i entry) (\<lambda>e.
     if entry = cache_ptr
     then Inr (i\<lparr>i_list := (i_list i)\<lparr>l_cache_used := False\<rparr>, i_heap := (i_heap i)(entry \<mapsto> e\<lparr>e_state := Created\<rparr>)\<rparr>, e_state e)
     else Inr (i\<lparr>i_heap := (i_heap i)(entry := None)\<rparr>, e_state e))"

definition list_remove_count :: "event_inner \<Rightarrow> event_state \<Rightarrow> event_inner fallible" where
  "list_remove_count i state =
     (let l = i_list i in
      if (is_notified state \<and> l_notified l = 0) \<or> l_len l = 0 then Inl Overflow
      else Inr (i\<lparr>i_list := l\<lparr>l_notified := (if is_notified state then l_notified l - 1 else l_notified l),
                              l_len := l_len l - 1\<rparr>\<rparr>))"

definition list_remove :: "event_inner \<Rightarrow> nat \<Rightarrow> (event_inner \<times> event_state) fallible" where
  "list_remove i entry =
     bind_fallible (get_entry i entry) (\<lambda>e.
     let prev = e_prev e; next = e_next e in
     bind_fallible (case prev of
         None \<Rightarrow> Inr (set_head i next)
       | Some p \<Rightarrow> with_entry i p (\<lambda>x. x\<lparr>e_next := next\<rparr>)) (\<lambda>i1.
     bind_fallible (case next of
         None \<Rightarrow> Inr (set_tail i1 prev)
       | Some n \<Rightarrow> with_entry i1 n (\<lambda>x. x\<lparr>e_prev := prev\<rparr>)) (\<lambda>i2.
     let i3 = (if l_start (i_list i2) = Some entry then set_start i2 next else i2) in
     bind_fallible (list_remove_free i3 entry) (\<lambda>(i4, state).
     bind_fallible (list_remove_count i4 state) (\<lambda>i5. Inr (i5, state))))))"

text \<open>What an operation wakes: \<open>Waker::wake\<close> or \<open>Thread::unpark\<close>.\<close>

datatype wakeup = Wake waker | Unpark thread_id

fun wakeup_of :: "event_state \<Rightarrow> wakeup list" where
  "wakeup_of (Notified _) = []"
| "wakeup_of Created = []"
| "wakeup_of (Polling w) = [Wake w]"
| "wakeup_of (Waiting t) = [Unpark t]"

text \<open>The loop that \<open>List::notify\<close> and \<open>List::notify_additional\<close> share, with the flag they store.\<close>

fun notify_loop :: "bool \<Rightarrow> nat \<Rightarrow> event_inner \<Rightarrow> (event_inner \<times> wakeup list) fallible" where
  "notify_loop b 0 i = Inr (i, [])"
| "notify_loop b (Suc n) i =
     (case l_start (i_list i) of
        None \<Rightarrow> Inr (i, [])
      | Some p \<Rightarrow>
          bind_fallible (get_entry i p) (\<lambda>e.
          bind_fallible (with_entry (set_start i (e_next e)) p (\<lambda>x. x\<lparr>e_state := Notified b\<rparr>)) (\<lambda>i1.
          bind_fallible (notify_loop b n (i1\<lparr>i_list := (i_list i1)\<lparr>l_notified := l_notified (i_list i1) + 1\<rparr>\<rparr>)) (\<lambda>(i2, ws).
          Inr (i2, wakeup_of (e_state e) @ ws)))))"

definition list_notify :: "event_inner \<Rightarrow> nat \<Rightarrow> (event_inner \<times> wakeup list) fallible" where
  "list_notify i n =
     (if n \<le> l_notified (i_list i) then Inr (i, [])
      else notify_loop False (n - l_notified (i_list i)) i)"

definition list_notify_additional :: "event_inner \<Rightarrow> nat \<Rightarrow> (event_inner \<times> wakeup list) fallible" where
  "list_notify_additional i n = notify_loop True n i"

text \<open>\<open>ListGuard::drop\<close>.\<close>

definition guard_drop :: "event_inner \<Rightarrow> event_inner" where
  "guard_drop i = i\<lparr>i_notified := (if l_notified (i_list i) < l_len (i_list i) then l_notified (i_list i) else usize_max)\<rparr>"

section \<open>Events and listeners\<close>

text \<open>
  An event is the pointer to its \<open>Inner\<close>, null until the first \<open>listen\<close>. A listener is the
  entry it owns.
\<close>

type_synonym event = "event_inner option"

record event_listener = lis_entry :: "nat option"

definition event_new :: event where "event_new = None"

definition inner_new :: event_inner where
  "inner_new = \<lparr>i_notified = usize_max,
     i_list = \<lparr>l_head = None, l_tail = None, l_start = None, l_len = 0, l_notified = 0, l_cache_used = False\<rparr>,
     i_heap = [cache_ptr \<mapsto> \<lparr>e_state = Created, e_prev = None, e_next = None\<rparr>], i_fresh = Suc cache_ptr\<rparr>"

definition event_inner_of :: "event \<Rightarrow> event_inner" where
  "event_inner_of ev = (case ev of None \<Rightarrow> inner_new | Some i \<Rightarrow> i)"

definition event_listen :: "event \<Rightarrow> (event \<times> event_listener) fallible" where
  "event_listen ev =
     bind_fallible (list_insert (event_inner_of ev)) (\<lambda>(i, entry).
     Inr (Some (guard_drop i), \<lparr>lis_entry = Some entry\<rparr>))"

definition event_notify :: "event \<Rightarrow> nat \<Rightarrow> (event \<times> wakeup list) fallible" where
  "event_notify ev n =
     (case ev of
        None \<Rightarrow> Inr (ev, [])
      | Some i \<Rightarrow>
          if i_notified i < n
          then bind_fallible (list_notify i n) (\<lambda>(i', ws). Inr (Some (guard_drop i'), ws))
          else Inr (ev, []))"

definition event_notify_additional :: "event \<Rightarrow> nat \<Rightarrow> (event \<times> wakeup list) fallible" where
  "event_notify_additional ev n =
     (case ev of
        None \<Rightarrow> Inr (ev, [])
      | Some i \<Rightarrow>
          if i_notified i < usize_max
          then bind_fallible (list_notify_additional i n) (\<lambda>(i', ws). Inr (Some (guard_drop i'), ws))
          else Inr (ev, []))"

text \<open>
  The methods of a listener, on the \<open>Inner\<close> it shares with its event. \<open>discard\<close> reports
  whether the listener had been notified.
\<close>

definition listener_discard :: "event_inner \<Rightarrow> event_listener \<Rightarrow> (event_inner \<times> event_listener \<times> bool) fallible" where
  "listener_discard i l =
     (case lis_entry l of
        None \<Rightarrow> Inr (i, l, False)
      | Some entry \<Rightarrow>
          bind_fallible (list_remove i entry) (\<lambda>(i', state).
          Inr (guard_drop i', l\<lparr>lis_entry := None\<rparr>, is_notified state)))"

definition listener_drop :: "event_inner \<Rightarrow> event_listener \<Rightarrow> (event_inner \<times> wakeup list) fallible" where
  "listener_drop i l =
     (case lis_entry l of
        None \<Rightarrow> Inr (i, [])
      | Some entry \<Rightarrow>
          bind_fallible (list_remove i entry) (\<lambda>(i', state).
          bind_fallible (case state of
              Notified additional \<Rightarrow> if additional then list_notify_additional i' 1 else list_notify i' 1
            | _ \<Rightarrow> Inr (i', [])) (\<lambda>(i'', ws).
          Inr (guard_drop i'', ws))))"

text \<open>\<open>Cell::replace\<close> and \<open>Cell::set\<close> of an entry's state.\<close>

definition state_set :: "event_inner \<Rightarrow> nat \<Rightarrow> event_state \<Rightarrow> event_inner fallible" where
  "state_set i entry s = with_entry i entry (\<lambda>e. e\<lparr>e_state := s\<rparr>)"

definition state_replace :: "event_inner \<Rightarrow> nat \<Rightarrow> event_state \<Rightarrow> (event_inner \<times> event_state) fallible" where
  "state_replace i entry s =
     bind_fallible (get_entry i entry) (\<lambda>e. bind_fallible (state_set i entry s) (\<lambda>i'. Inr (i', e_state e)))"

text \<open>
  \<open>Future::poll\<close>: \<open>True\<close> is \<open>Poll::Ready\<close>. \<open>will_wake\<close> is \<open>Waker::will_wake\<close> of the standard
  library, which may answer no for two wakers of the same task.
\<close>

definition listener_poll :: "(waker \<Rightarrow> waker \<Rightarrow> bool) \<Rightarrow> event_inner \<Rightarrow> event_listener \<Rightarrow> waker \<Rightarrow>
    (event_inner \<times> event_listener \<times> bool) fallible" where
  "listener_poll will_wake i l cx =
     (case lis_entry l of
        None \<Rightarrow> Inl Unreachable
      | Some entry \<Rightarrow>
          bind_fallible (state_replace i entry (Notified False)) (\<lambda>(i1, old).
          case old of
            Notified _ \<Rightarrow>
              bind_fallible (list_remove i1 entry) (\<lambda>(i2, _). Inr (guard_drop i2, l\<lparr>lis_entry := None\<rparr>, True))
          | Created \<Rightarrow>
              bind_fallible (state_set i1 entry (Polling cx)) (\<lambda>i2. Inr (guard_drop i2, l, False))
          | Polling w \<Rightarrow>
              bind_fallible (state_set i1 entry (Polling (if will_wake w cx then w else cx))) (\<lambda>i2.
              Inr (guard_drop i2, l, False))
          | Waiting _ \<Rightarrow> Inl Unreachable))"

text \<open>
  \<open>wait_internal\<close> in three critical sections: the first one registers the thread, the
  second runs after every return of \<open>park\<close>, the third when the deadline has passed.
\<close>

definition wait_begin :: "thread_id \<Rightarrow> event_inner \<Rightarrow> nat \<Rightarrow> (event_inner \<times> bool) fallible" where
  "wait_begin t i entry =
     bind_fallible (state_replace i entry (Notified False)) (\<lambda>(i1, old).
     if is_notified old
     then bind_fallible (list_remove i1 entry) (\<lambda>(i2, _). Inr (guard_drop i2, True))
     else bind_fallible (state_set i1 entry (Waiting t)) (\<lambda>i2. Inr (guard_drop i2, False)))"

definition wait_check :: "event_inner \<Rightarrow> nat \<Rightarrow> (event_inner \<times> bool) fallible" where
  "wait_check i entry =
     bind_fallible (state_replace i entry (Notified False)) (\<lambda>(i1, old).
     if is_notified old
     then bind_fallible (list_remove i1 entry) (\<lambda>(i2, _). Inr (guard_drop i2, True))
     else bind_fallible (state_set i1 entry old) (\<lambda>i2. Inr (guard_drop i2, False)))"

definition wait_expired :: "event_inner \<Rightarrow> nat \<Rightarrow> (event_inner \<times> bool) fallible" where
  "wait_expired i entry =
     bind_fallible (list_remove i entry) (\<lambda>(i1, state). Inr (guard_drop i1, is_notified state))"

text \<open>
  The loop. Each turn says whether the deadline has passed (never, when there is none) and
  what the other threads do to the event while this one is parked; when the turns are used
  up the thread is still parked (\<open>None\<close>).
\<close>

fun wait_loop :: "(bool \<times> (event_inner \<Rightarrow> event_inner)) list \<Rightarrow> event_inner \<Rightarrow> nat \<Rightarrow> (event_inner \<times> bool option) fallible" where
  "wait_loop [] i entry = Inr (i, None)"
| "wait_loop ((expired, others) # turns) i entry =
     (if expired then bind_fallible (wait_expired i entry) (\<lambda>(i', r). Inr (i', Some r))
      else bind_fallible (wait_check (others i) entry) (\<lambda>(i', done).
        if done then Inr (i', Some True) else wait_loop turns i' entry))"

definition wait_internal :: "thread_id \<Rightarrow> (bool \<times> (event_inner \<Rightarrow> event_inner)) list \<Rightarrow> event_inner \<Rightarrow> event_listener \<Rightarrow>
    (event_inner \<times> bool option) fallible" where
  "wait_internal t turns i l =
     (case lis_entry l of
        None \<Rightarrow> Inl Unreachable
      | Some entry \<Rightarrow>
          bind_fallible (wait_begin t i entry) (\<lambda>(i', done).
          if done then Inr (i', Some True) else wait_loop turns i' entry))"

section \<open>What an event promises\<close>

text \<open>
  Abstractly an event is the list of its listeners, oldest first, each with its state.
  Notified listeners come first. \<open>spec_mark b m\<close> notifies the first \<open>m\<close> listeners that are
  not notified yet; \<open>spec_wakeups m\<close> is whom that wakes.
\<close>

type_synonym listeners = "(nat \<times> event_state) list"

definition notified_count :: "listeners \<Rightarrow> nat" where
  "notified_count es = length (filter (is_notified \<circ> snd) es)"

fun spec_mark :: "bool \<Rightarrow> nat \<Rightarrow> listeners \<Rightarrow> listeners" where
  "spec_mark b m [] = []"
| "spec_mark b m ((a, s) # es) =
     (if is_notified s then (a, s) # spec_mark b m es
      else case m of 0 \<Rightarrow> (a, s) # es | Suc k \<Rightarrow> (a, Notified b) # spec_mark b k es)"

fun spec_wakeups :: "nat \<Rightarrow> listeners \<Rightarrow> wakeup list" where
  "spec_wakeups m [] = []"
| "spec_wakeups m ((a, s) # es) =
     (if is_notified s then spec_wakeups m es
      else case m of 0 \<Rightarrow> [] | Suc k \<Rightarrow> wakeup_of s @ spec_wakeups k es)"

definition spec_remove :: "nat \<Rightarrow> listeners \<Rightarrow> listeners" where
  "spec_remove a es = filter (\<lambda>e. fst e \<noteq> a) es"

definition spec_set :: "nat \<Rightarrow> event_state \<Rightarrow> listeners \<Rightarrow> listeners" where
  "spec_set a s es = map (\<lambda>e. if fst e = a then (a, s) else e) es"

text \<open>The listeners are pairwise different and the notified ones form a prefix.\<close>

definition listeners_ok :: "listeners \<Rightarrow> bool" where
  "listeners_ok es \<longleftrightarrow> distinct (map fst es) \<and> length es \<le> usize_max \<and>
     (\<exists>ns us. es = ns @ us \<and> (\<forall>e\<in>set ns. is_notified (snd e)) \<and> (\<forall>e\<in>set us. \<not> is_notified (snd e)))"

section \<open>Representation\<close>

fun first :: "listeners \<Rightarrow> nat option \<Rightarrow> nat option" where
  "first [] n = n"
| "first (e # es) n = Some (fst e)"

fun lastp :: "nat option \<Rightarrow> listeners \<Rightarrow> nat option" where
  "lastp p [] = p"
| "lastp p (e # es) = lastp (Some (fst e)) es"

fun dll :: "(nat \<rightharpoonup> entry) \<Rightarrow> nat option \<Rightarrow> listeners \<Rightarrow> nat option \<Rightarrow> bool" where
  "dll h p [] n = True"
| "dll h p ((a, s) # es) n \<longleftrightarrow>
     h a = Some \<lparr>e_state = s, e_prev = p, e_next = first es n\<rparr> \<and> dll h (Some a) es n"

lemma first_append [simp]: "first (xs @ ys) n = first xs (first ys n)"
  by (cases xs) simp_all

lemma lastp_append [simp]: "lastp p (xs @ ys) = lastp (lastp p xs) ys"
  by (induction xs arbitrary: p) simp_all

lemma dll_append [simp]: "dll h p (xs @ ys) n \<longleftrightarrow> dll h p xs (first ys n) \<and> dll h (lastp p xs) ys n"
  by (induction h p xs "first ys n" rule: dll.induct) auto

lemma dll_other [simp]: "a \<notin> fst ` set es \<Longrightarrow> dll (h(a := v)) p es n = dll h p es n"
  by (induction h p es n rule: dll.induct) auto

lemma lastp_ne: "es \<noteq> [] \<Longrightarrow> lastp p es = lastp q es"
  by (cases es) simp_all

lemma first_ne: "es \<noteq> [] \<Longrightarrow> first es m = first es n"
  by (cases es) simp_all

lemma lastp_in: "lastp p es = Some a \<Longrightarrow> p = Some a \<or> a \<in> fst ` set es"
  by (induction p es rule: lastp.induct) auto

lemma first_in: "first es n = Some a \<Longrightarrow> n = Some a \<or> a \<in> fst ` set es"
  by (cases es) auto

lemma lastp_snoc_cases:
  obtains "es = []" "lastp p es = p" | es' t s where "es = es' @ [(t, s)]" "lastp p es = Some t"
  by (cases es rule: rev_cases) auto

text \<open>The list as the mutex guards it; \<open>ns\<close> are the notified listeners.\<close>

definition list_rep :: "event_inner \<Rightarrow> listeners \<Rightarrow> listeners \<Rightarrow> bool" where
  "list_rep i ns us \<longleftrightarrow>
     dll (i_heap i) None (ns @ us) None \<and> distinct (map fst (ns @ us)) \<and>
     (\<forall>e\<in>set ns. is_notified (snd e)) \<and> (\<forall>e\<in>set us. \<not> is_notified (snd e)) \<and>
     l_head (i_list i) = first (ns @ us) None \<and> l_tail (i_list i) = lastp None (ns @ us) \<and>
     l_start (i_list i) = first us None \<and>
     l_len (i_list i) = length (ns @ us) \<and> l_notified (i_list i) = length ns \<and>
     length (ns @ us) \<le> usize_max \<and>
     (l_cache_used (i_list i) \<longleftrightarrow> cache_ptr \<in> fst ` set (ns @ us)) \<and>
     dom (i_heap i) = insert cache_ptr (fst ` set (ns @ us)) \<and>
     (\<forall>a\<in>dom (i_heap i). a < i_fresh i)"

definition inner_rep :: "event_inner \<Rightarrow> listeners \<Rightarrow> bool" where
  "inner_rep i es \<longleftrightarrow> (\<exists>ns us. es = ns @ us \<and> list_rep i ns us) \<and>
     i_notified i = (if notified_count es < length es then notified_count es else usize_max)"

definition event_rep :: "event \<Rightarrow> listeners \<Rightarrow> bool" where
  "event_rep ev es \<longleftrightarrow> (case ev of None \<Rightarrow> es = [] | Some i \<Rightarrow> inner_rep i es)"

lemma notified_count_split:
  assumes "\<forall>e\<in>set ns. is_notified (snd e)" "\<forall>e\<in>set us. \<not> is_notified (snd e)"
  shows "notified_count (ns @ us) = length ns"
proof -
  have "filter (is_notified \<circ> snd) ns = ns" using assms(1) by (simp add: filter_id_conv)
  moreover have "filter (is_notified \<circ> snd) us = []" using assms(2) by (simp add: filter_empty_conv)
  ultimately show ?thesis by (simp add: notified_count_def)
qed

lemma list_rep_count: "list_rep i ns us \<Longrightarrow> notified_count (ns @ us) = length ns"
  by (simp add: list_rep_def notified_count_split)

lemma guard_drop_rep:
  assumes "list_rep i ns us"
  shows "inner_rep (guard_drop i) (ns @ us)"
proof -
  have "list_rep (guard_drop i) ns us" using assms by (simp add: list_rep_def guard_drop_def)
  moreover have "l_notified (i_list i) = length ns" "l_len (i_list i) = length (ns @ us)"
    using assms by (simp_all add: list_rep_def)
  ultimately show ?thesis
    unfolding inner_rep_def list_rep_count [OF assms]
    by (intro conjI exI [of _ ns] exI [of _ us]) (simp_all add: guard_drop_def)
qed

lemma inner_repE:
  assumes "inner_rep i es"
  obtains ns us where "es = ns @ us" "list_rep i ns us"
    "i_notified i = (if us \<noteq> [] then length ns else usize_max)"
proof -
  obtain ns us where rep: "es = ns @ us" "list_rep i ns us" using assms by (auto simp: inner_rep_def)
  have "i_notified i = (if us \<noteq> [] then length ns else usize_max)"
    using assms list_rep_count [OF rep(2)] by (simp add: inner_rep_def rep(1))
  with rep show ?thesis by (rule that)
qed

lemma inner_rep_ok: "inner_rep i es \<Longrightarrow> listeners_ok es"
  by (erule inner_repE) (auto simp: list_rep_def listeners_ok_def)

lemma inner_new_rep: "list_rep inner_new [] []"
  by (auto simp: list_rep_def inner_new_def)

lemma event_inner_of_rep: "event_rep ev es \<Longrightarrow> \<exists>ns us. es = ns @ us \<and> list_rep (event_inner_of ev) ns us"
  using inner_new_rep by (cases ev) (auto simp: event_rep_def event_inner_of_def inner_rep_def)

section \<open>The list operations\<close>

lemma list_rep_fresh: "list_rep i ns us \<Longrightarrow> i_fresh i \<notin> fst ` set (ns @ us)"
  unfolding list_rep_def by blast

lemma insert_alloc_rep:
  assumes "list_rep i ns us" "list_insert_alloc i = (i1, a)"
  shows "a \<notin> fst ` set (ns @ us)"
    "i_heap i1 = (i_heap i)(a \<mapsto> \<lparr>e_state = Created, e_prev = lastp None (ns @ us), e_next = None\<rparr>)"
    "i_list i1 = (i_list i)\<lparr>l_cache_used := True\<rparr>" "a < i_fresh i1" "i_fresh i \<le> i_fresh i1"
    "a = cache_ptr \<or> cache_ptr \<in> fst ` set (ns @ us)"
proof -
  note rep = assms(1) [unfolded list_rep_def]
  have fresh: "i_fresh i \<notin> fst ` set (ns @ us)" by (rule list_rep_fresh) fact
  have tail: "l_tail (i_list i) = lastp None (ns @ us)" and
    used: "l_cache_used (i_list i) \<longleftrightarrow> cache_ptr \<in> fst ` set (ns @ us)" and
    pos: "cache_ptr < i_fresh i" using rep by simp_all
  show "a \<notin> fst ` set (ns @ us)"
    "i_heap i1 = (i_heap i)(a \<mapsto> \<lparr>e_state = Created, e_prev = lastp None (ns @ us), e_next = None\<rparr>)"
    "i_list i1 = (i_list i)\<lparr>l_cache_used := True\<rparr>" "a < i_fresh i1" "i_fresh i \<le> i_fresh i1"
    "a = cache_ptr \<or> cache_ptr \<in> fst ` set (ns @ us)"
    using assms(2) fresh tail used pos
    by (cases "l_cache_used (i_list i)"; force simp: list_insert_alloc_def Let_def)+
qed

text \<open>Facts about an entry in the middle of the list.\<close>

lemma dll_get: "dll h p (xs @ (a, s) # ys) n \<Longrightarrow> h a = Some \<lparr>e_state = s, e_prev = lastp p xs, e_next = first ys n\<rparr>"
  by simp

lemma dll_set_state:
  assumes "dll h p (xs @ (a, s) # ys) n" "a \<notin> fst ` set (xs @ ys)"
  shows "dll (h(a \<mapsto> (the (h a))\<lparr>e_state := s'\<rparr>)) p (xs @ (a, s') # ys) n"
  using assms by (simp add: image_Un)

lemma dll_set_next:
  assumes "dll h p es n" "es \<noteq> []" "distinct (map fst es)" "lastp p es = Some t"
  shows "dll (h(t \<mapsto> (the (h t))\<lparr>e_next := n'\<rparr>)) p es n'"
proof (cases es rule: rev_cases)
  case (snoc es' e)
  with assms show ?thesis by (cases e) (auto simp: image_iff)
qed (use assms(2) in simp)

lemma dll_set_prev:
  assumes "dll h p es n" "es \<noteq> []" "distinct (map fst es)" "first es n = Some t"
  shows "dll (h(t \<mapsto> (the (h t))\<lparr>e_prev := p'\<rparr>)) p' es n"
proof (cases es)
  case (Cons e es')
  with assms show ?thesis by (cases e) (auto simp: image_iff)
qed (use assms(2) in simp)

lemma with_entry_live:
  "p \<in> dom (i_heap i) \<Longrightarrow> with_entry i p f = Inr (i\<lparr>i_heap := (i_heap i)(p \<mapsto> f (the (i_heap i p)))\<rparr>)"
  by (auto simp: with_entry_def)

lemma list_insert_link:
  assumes "list_rep i ns us" "list_insert_alloc i = (i1, a)"
  shows "\<exists>h. (case l_tail (i_list i1) of
        None \<Rightarrow> Inr (set_head (set_tail i1 (Some a)) (Some a))
      | Some t \<Rightarrow> with_entry (set_tail i1 (Some a)) t (\<lambda>e. e\<lparr>e_next := Some a\<rparr>)) =
      Inr (i1\<lparr>i_heap := h, i_list := (i_list i1)\<lparr>l_head := first (ns @ us @ [(a, Created)]) None, l_tail := Some a\<rparr>\<rparr>) \<and>
    dll h None (ns @ us @ [(a, Created)]) None \<and> dom h = insert cache_ptr (fst ` set (ns @ us @ [(a, Created)]))"
proof -
  note rep = assms(1) [unfolded list_rep_def]
  note al = insert_alloc_rep [OF assms]
  let ?es = "ns @ us"
  have tail: "l_tail (i_list i1) = lastp None ?es" and head: "l_head (i_list i1) = first ?es None"
    using rep by (simp_all add: al(3))
  have dom: "dom (i_heap i1) = insert cache_ptr (fst ` set (?es @ [(a, Created)]))"
    using rep al(2) by auto
  show ?thesis
  proof (cases ?es rule: rev_cases)
    case Nil
    then have "ns = []" "us = []" by simp_all
    with tail head al(2) dom show ?thesis
      by (auto simp: set_head_def set_tail_def intro!: exI [of _ "i_heap i1"])
  next
    case (snoc es' e)
    obtain t s where e: "e = (t, s)" by (cases e)
    have t: "l_tail (i_list i1) = Some t" using tail by (simp only: snoc e lastp_append) simp
    have "t \<noteq> a" using al(1) by (simp only: snoc e) auto
    have "dll (i_heap i) None ?es None" "distinct (map fst ?es)" using rep by simp_all
    then have d: "dll (i_heap i1) None ?es None" using al(1,2) by (simp add: image_Un)
    have dt: "dll ((i_heap i1)(t \<mapsto> (the (i_heap i1 t))\<lparr>e_next := Some a\<rparr>)) None ?es (Some a)"
      by (rule dll_set_next [OF d]) (use rep tail t snoc in simp_all)
    have it: "t \<in> dom (i_heap i1)"
      using d by (simp only: snoc e dll_append) auto
    have "a \<notin> fst ` set ?es" by (fact al(1))
    show ?thesis
    proof (intro exI conjI)
      show "(case l_tail (i_list i1) of
          None \<Rightarrow> Inr (set_head (set_tail i1 (Some a)) (Some a))
        | Some t \<Rightarrow> with_entry (set_tail i1 (Some a)) t (\<lambda>e. e\<lparr>e_next := Some a\<rparr>)) =
        Inr (i1\<lparr>i_heap := (i_heap i1)(t \<mapsto> (the (i_heap i1 t))\<lparr>e_next := Some a\<rparr>),
          i_list := (i_list i1)\<lparr>l_head := first (ns @ us @ [(a, Created)]) None, l_tail := Some a\<rparr>\<rparr>)"
      proof -
        have "first ?es (Some a) = first ?es None" by (simp only: snoc) simp
        with head have "(i_list i1)\<lparr>l_head := first (ns @ us @ [(a, Created)]) None, l_tail := Some a\<rparr> = (i_list i1)\<lparr>l_tail := Some a\<rparr>"
          by simp
        with it show ?thesis by (simp add: t with_entry_live set_tail_def)
      qed
      show "dll ((i_heap i1)(t \<mapsto> (the (i_heap i1 t))\<lparr>e_next := Some a\<rparr>)) None (ns @ us @ [(a, Created)]) None"
        using dt \<open>t \<noteq> a\<close> al(2) by simp
      show "dom ((i_heap i1)(t \<mapsto> (the (i_heap i1 t))\<lparr>e_next := Some a\<rparr>)) = insert cache_ptr (fst ` set (ns @ us @ [(a, Created)]))"
        using dom it by auto
    qed
  qed
qed

lemma list_insert_rep:
  assumes "list_rep i ns us" "length (ns @ us) < usize_max"
  shows "\<exists>i' a. list_insert i = Inr (i', a) \<and> a \<notin> fst ` set (ns @ us) \<and> list_rep i' ns (us @ [(a, Created)])"
proof -
  obtain i1 a where al: "list_insert_alloc i = (i1, a)" by (cases "list_insert_alloc i")
  note rep = assms(1) [unfolded list_rep_def]
  note al' = insert_alloc_rep [OF assms(1) al]
  obtain h where link: "(case l_tail (i_list i1) of
        None \<Rightarrow> Inr (set_head (set_tail i1 (Some a)) (Some a))
      | Some t \<Rightarrow> with_entry (set_tail i1 (Some a)) t (\<lambda>e. e\<lparr>e_next := Some a\<rparr>)) =
      Inr (i1\<lparr>i_heap := h, i_list := (i_list i1)\<lparr>l_head := first (ns @ us @ [(a, Created)]) None, l_tail := Some a\<rparr>\<rparr>)"
    and d: "dll h None (ns @ us @ [(a, Created)]) None" "dom h = insert cache_ptr (fst ` set (ns @ us @ [(a, Created)]))"
    using list_insert_link [OF assms(1) al] by blast
  let ?l = "(i_list i)\<lparr>l_cache_used := True, l_head := first (ns @ us @ [(a, Created)]) None, l_tail := Some a,
      l_start := first (us @ [(a, Created)]) None, l_len := length (ns @ us) + 1\<rparr>"
  have start: "l_start (i_list i) = first us None" "l_len (i_list i) = length (ns @ us)" using rep by simp_all
  have us: "(first us None = None) = (us = [])" "us \<noteq> [] \<Longrightarrow> first us (Some a) = first us None" by (cases us; simp)+
  have ex: "list_insert i = Inr (i1\<lparr>i_heap := h, i_list := ?l\<rparr>, a)"
    unfolding list_insert_def al prod.case Let_def link bind_fallible.simps
    using start assms(2) us by (cases "us = []") (simp_all add: al'(3) set_start_def)
  have 1: "cache_ptr \<in> fst ` set (ns @ us @ [(a, Created)])" using al'(6) by auto
  have 2: "distinct (map fst (ns @ us @ [(a, Created)]))" using rep al'(1) by (simp add: image_Un)
  have 3: "x < i_fresh i1" if "x \<in> dom h" for x
  proof (cases "x = a")
    case False
    then have "x \<in> dom (i_heap i)" using that rep d(2) by auto
    with rep al'(5) show ?thesis by (meson less_le_trans)
  qed (use al'(4) in simp)
  have 3: "\<forall>x\<in>dom h. x < i_fresh i1" by (blast intro: 3)
  have 4: "\<forall>e\<in>set ns. is_notified (snd e)" "\<forall>e\<in>set (us @ [(a, Created)]). \<not> is_notified (snd e)" "l_notified (i_list i) = length ns"
    using rep by simp_all
  have "list_rep (i1\<lparr>i_heap := h, i_list := ?l\<rparr>) ns (us @ [(a, Created)])"
    unfolding list_rep_def using 1 2 3 4 d assms(2) by (intro conjI) simp_all
  with ex show ?thesis using al'(1) by blast
qed

text \<open>Removal.\<close>

lemma unlink_prev:
  assumes "dll (i_heap i) None (xs @ (a, s) # ys) None" "distinct (map fst (xs @ (a, s) # ys))"
  shows "\<exists>h. (case lastp None xs of
        None \<Rightarrow> Inr (set_head i (first ys None))
      | Some p \<Rightarrow> with_entry i p (\<lambda>x. x\<lparr>e_next := first ys None\<rparr>)) =
      Inr (i\<lparr>i_heap := h, i_list := (i_list i)\<lparr>l_head := (if xs = [] then first ys None else l_head (i_list i))\<rparr>\<rparr>) \<and>
    dll h None xs (first ys None) \<and> dll h (Some a) ys None \<and> dom h = dom (i_heap i) \<and> h a = i_heap i a"
proof (cases xs rule: rev_cases)
  case Nil
  with assms show ?thesis by (auto simp: set_head_def intro!: exI [of _ "i_heap i"])
next
  case (snoc xs' e)
  obtain t st where e: "e = (t, st)" by (cases e)
  have t: "lastp None xs = Some t" "xs \<noteq> []" by (simp_all add: snoc e)
  have it: "t \<in> dom (i_heap i)" using assms(1) by (auto simp: snoc e)
  have dx: "dll (i_heap i) None xs (Some a)" "dll (i_heap i) (Some a) ys None" using assms(1) by simp_all
  have ne: "t \<noteq> a" "t \<notin> fst ` set ys" using assms(2) by (auto simp: snoc e)
  have h: "dll ((i_heap i)(t \<mapsto> (the (i_heap i t))\<lparr>e_next := first ys None\<rparr>)) None xs (first ys None)"
    by (rule dll_set_next [OF dx(1)]) (use assms(2) t in simp_all)
  show ?thesis
    by (rule exI [of _ "(i_heap i)(t \<mapsto> (the (i_heap i t))\<lparr>e_next := first ys None\<rparr>)"])
      (use h dx ne it t in \<open>auto simp: with_entry_live\<close>)
qed

lemma unlink_next:
  assumes "dll (i_heap i) (Some a) ys None" "dll (i_heap i) None xs (first ys None)" "distinct (map fst (xs @ (a, s) # ys))"
  shows "\<exists>h. (case first ys None of
        None \<Rightarrow> Inr (set_tail i (lastp None xs))
      | Some n \<Rightarrow> with_entry i n (\<lambda>x. x\<lparr>e_prev := lastp None xs\<rparr>)) =
      Inr (i\<lparr>i_heap := h, i_list := (i_list i)\<lparr>l_tail := (if ys = [] then lastp None xs else l_tail (i_list i))\<rparr>\<rparr>) \<and>
    dll h None (xs @ ys) None \<and> dom h = dom (i_heap i) \<and> h a = i_heap i a"
proof (cases ys)
  case Nil
  with assms show ?thesis by (auto simp: set_tail_def intro!: exI [of _ "i_heap i"])
next
  case (Cons e ys')
  obtain t st where e: "e = (t, st)" by (cases e)
  have t: "first ys None = Some t" "ys \<noteq> []" by (simp_all add: Cons e)
  have it: "t \<in> dom (i_heap i)" using assms(1) by (auto simp: Cons e)
  have ne: "t \<noteq> a" "t \<notin> fst ` set xs" using assms(3) by (auto simp: Cons e)
  have h: "dll ((i_heap i)(t \<mapsto> (the (i_heap i t))\<lparr>e_prev := lastp None xs\<rparr>)) (lastp None xs) ys None"
    by (rule dll_set_prev [OF assms(1)]) (use assms(3) t in simp_all)
  show ?thesis
    by (rule exI [of _ "(i_heap i)(t \<mapsto> (the (i_heap i t))\<lparr>e_prev := lastp None xs\<rparr>)"])
      (use h assms(2) ne it t in \<open>auto simp: with_entry_live\<close>)
qed

text \<open>
  The effect of \<open>List::remove\<close> on a list in which the notified listeners are not
  necessarily a prefix: \<open>poll\<close> and \<open>wait\<close> mark an entry before they remove it.
\<close>

lemma list_remove_exec:
  assumes d: "dll (i_heap i) None (xs @ (a, s) # ys) None" "distinct (map fst (xs @ (a, s) # ys))"
    and len: "l_len (i_list i) = length (xs @ (a, s) # ys)"
    and not: "is_notified s \<Longrightarrow> 0 < l_notified (i_list i)"
  shows "\<exists>h. list_remove i a = Inr (i\<lparr>i_heap := h, i_list := (i_list i)\<lparr>
        l_head := (if xs = [] then first ys None else l_head (i_list i)),
        l_tail := (if ys = [] then lastp None xs else l_tail (i_list i)),
        l_start := (if l_start (i_list i) = Some a then first ys None else l_start (i_list i)),
        l_cache_used := (a \<noteq> cache_ptr \<and> l_cache_used (i_list i)),
        l_notified := (if is_notified s then l_notified (i_list i) - 1 else l_notified (i_list i)),
        l_len := length (xs @ ys)\<rparr>\<rparr>, s) \<and>
     dll h None (xs @ ys) None \<and> dom h = (if a = cache_ptr then dom (i_heap i) else dom (i_heap i) - {a})"
proof -
  have ge: "get_entry i a = Inr \<lparr>e_state = s, e_prev = lastp None xs, e_next = first ys None\<rparr>"
    using d(1) by (simp add: get_entry_def)
  obtain h1 where h1: "(case lastp None xs of
        None \<Rightarrow> Inr (set_head i (first ys None))
      | Some p \<Rightarrow> with_entry i p (\<lambda>x. x\<lparr>e_next := first ys None\<rparr>)) =
      Inr (i\<lparr>i_heap := h1, i_list := (i_list i)\<lparr>l_head := (if xs = [] then first ys None else l_head (i_list i))\<rparr>\<rparr>)"
    "dll h1 None xs (first ys None)" "dll h1 (Some a) ys None" "dom h1 = dom (i_heap i)" "h1 a = i_heap i a"
    using unlink_prev [OF d] by blast
  let ?i1 = "i\<lparr>i_heap := h1, i_list := (i_list i)\<lparr>l_head := (if xs = [] then first ys None else l_head (i_list i))\<rparr>\<rparr>"
  obtain h2 where h2: "(case first ys None of
        None \<Rightarrow> Inr (set_tail ?i1 (lastp None xs))
      | Some n \<Rightarrow> with_entry ?i1 n (\<lambda>x. x\<lparr>e_prev := lastp None xs\<rparr>)) =
      Inr (?i1\<lparr>i_heap := h2, i_list := (i_list ?i1)\<lparr>l_tail := (if ys = [] then lastp None xs else l_tail (i_list ?i1))\<rparr>\<rparr>)"
    "dll h2 None (xs @ ys) None" "dom h2 = dom (i_heap i)" "h2 a = i_heap i a"
    using unlink_next [of ?i1 a ys xs s] h1 d(2) by auto
  have ia: "i_heap i a = Some \<lparr>e_state = s, e_prev = lastp None xs, e_next = first ys None\<rparr>" using d(1) by simp
  let ?h = "if a = cache_ptr then h2(a \<mapsto> \<lparr>e_state = Created, e_prev = lastp None xs, e_next = first ys None\<rparr>) else h2(a := None)"
  have na: "a \<notin> fst ` set (xs @ ys)" using d(2) by auto
  show ?thesis
  proof (intro exI conjI)
    show "list_remove i a = Inr (i\<lparr>i_heap := ?h, i_list := (i_list i)\<lparr>
        l_head := (if xs = [] then first ys None else l_head (i_list i)),
        l_tail := (if ys = [] then lastp None xs else l_tail (i_list i)),
        l_start := (if l_start (i_list i) = Some a then first ys None else l_start (i_list i)),
        l_cache_used := (a \<noteq> cache_ptr \<and> l_cache_used (i_list i)),
        l_notified := (if is_notified s then l_notified (i_list i) - 1 else l_notified (i_list i)),
        l_len := length (xs @ ys)\<rparr>\<rparr>, s)"
      unfolding list_remove_def ge bind_fallible.simps Let_def entry.simps h1(1) h2(1)
      using not len ia h2(4)
      by (cases "is_notified s"; cases "a = cache_ptr"; cases "l_start (i_list i) = Some a")
        (simp_all add: list_remove_free_def list_remove_count_def get_entry_def set_start_def)
    show "dll ?h None (xs @ ys) None" using h2(2) na by (cases "a = cache_ptr") (simp_all add: image_Un)
    show "dom ?h = (if a = cache_ptr then dom (i_heap i) else dom (i_heap i) - {a})" using h2(3) ia by auto
  qed
qed

lemma spec_remove_id [simp]: "a \<notin> fst ` set es \<Longrightarrow> spec_remove a es = es"
  unfolding spec_remove_def by (rule filter_True) auto

lemma spec_remove_append [simp]: "spec_remove a (xs @ ys) = spec_remove a xs @ spec_remove a ys"
  by (simp add: spec_remove_def)

lemma spec_remove_Cons [simp]: "spec_remove a ((b, s) # es) = (if a = b then spec_remove a es else (b, s) # spec_remove a es)"
  by (simp add: spec_remove_def)

lemma list_remove_rep_notified:
  assumes rep: "list_rep i (n1 @ (a, s) # n2) us"
  shows "\<exists>i'. list_remove i a = Inr (i', s) \<and> list_rep i' (n1 @ n2) us"
proof -
  note r = rep [unfolded list_rep_def]
  let ?ys = "n2 @ us"
  have d: "dll (i_heap i) None (n1 @ (a, s) # ?ys) None" "distinct (map fst (n1 @ (a, s) # ?ys))"
    using r by simp_all
  have na: "a \<notin> fst ` set (n1 @ ?ys)" using d(2) by auto
  have c: "l_len (i_list i) = length (n1 @ (a, s) # ?ys)" "is_notified s \<Longrightarrow> 0 < l_notified (i_list i)" "is_notified s"
    using r by simp_all
  obtain h where ex: "list_remove i a = Inr (i\<lparr>i_heap := h, i_list := (i_list i)\<lparr>
        l_head := (if n1 = [] then first ?ys None else l_head (i_list i)),
        l_tail := (if ?ys = [] then lastp None n1 else l_tail (i_list i)),
        l_start := (if l_start (i_list i) = Some a then first ?ys None else l_start (i_list i)),
        l_cache_used := (a \<noteq> cache_ptr \<and> l_cache_used (i_list i)),
        l_notified := (if is_notified s then l_notified (i_list i) - 1 else l_notified (i_list i)),
        l_len := length (n1 @ ?ys)\<rparr>\<rparr>, s)"
    and h: "dll h None (n1 @ ?ys) None" "dom h = (if a = cache_ptr then dom (i_heap i) else dom (i_heap i) - {a})"
    using list_remove_exec [OF d c(1,2)] by blast
  have head: "(if n1 = [] then first ?ys None else l_head (i_list i)) = first (n1 @ ?ys) None"
    using r by (cases n1) simp_all
  have tail: "(if ?ys = [] then lastp None n1 else l_tail (i_list i)) = lastp None (n1 @ ?ys)"
    using r lastp_ne [of ?ys "Some a" "lastp None n1"] by (cases "?ys = []") simp_all
  have start: "(if l_start (i_list i) = Some a then first ?ys None else l_start (i_list i)) = first us None"
    using r na by (cases us) auto
  have dom: "dom h = insert cache_ptr (fst ` set (n1 @ ?ys))" "\<forall>x\<in>dom h. x < i_fresh i"
    using h(2) r na by (auto split: if_splits)
  have rest: "\<forall>e\<in>set (n1 @ n2). is_notified (snd e)" "\<forall>e\<in>set us. \<not> is_notified (snd e)"
    "l_notified (i_list i) - 1 = length (n1 @ n2)" "length (n1 @ n2 @ us) \<le> usize_max"
    "(a \<noteq> cache_ptr \<and> l_cache_used (i_list i)) \<longleftrightarrow> cache_ptr \<in> fst ` set (n1 @ ?ys)"
    using r na by (auto simp: image_Un)
  show ?thesis
    unfolding ex head tail start using dom rest h(1) d(2) c(3) by (simp add: list_rep_def)
qed

lemma list_remove_rep_waiting:
  assumes rep: "list_rep i ns (u1 @ (a, s) # u2)"
  shows "\<exists>i'. list_remove i a = Inr (i', s) \<and> list_rep i' ns (u1 @ u2)"
proof -
  note r = rep [unfolded list_rep_def]
  let ?xs = "ns @ u1"
  have d: "dll (i_heap i) None (?xs @ (a, s) # u2) None" "distinct (map fst (?xs @ (a, s) # u2))"
    using r by simp_all
  have na: "a \<notin> fst ` set (?xs @ u2)" using d(2) by auto
  have c: "l_len (i_list i) = length (?xs @ (a, s) # u2)" "is_notified s \<Longrightarrow> 0 < l_notified (i_list i)" "\<not> is_notified s"
    using r by simp_all
  obtain h where ex: "list_remove i a = Inr (i\<lparr>i_heap := h, i_list := (i_list i)\<lparr>
        l_head := (if ?xs = [] then first u2 None else l_head (i_list i)),
        l_tail := (if u2 = [] then lastp None ?xs else l_tail (i_list i)),
        l_start := (if l_start (i_list i) = Some a then first u2 None else l_start (i_list i)),
        l_cache_used := (a \<noteq> cache_ptr \<and> l_cache_used (i_list i)),
        l_notified := (if is_notified s then l_notified (i_list i) - 1 else l_notified (i_list i)),
        l_len := length (?xs @ u2)\<rparr>\<rparr>, s)"
    and h: "dll h None (?xs @ u2) None" "dom h = (if a = cache_ptr then dom (i_heap i) else dom (i_heap i) - {a})"
    using list_remove_exec [OF d c(1,2)] by blast
  have head: "(if ?xs = [] then first u2 None else l_head (i_list i)) = first (?xs @ u2) None"
    using r first_ne [of ?xs "Some a" "first u2 None"] by (cases "?xs = []") simp_all
  have tail: "(if u2 = [] then lastp None ?xs else l_tail (i_list i)) = lastp None (?xs @ u2)"
    using r lastp_ne [of u2 "Some a" "lastp None ?xs"] by (cases "u2 = []") simp_all
  have start: "(if l_start (i_list i) = Some a then first u2 None else l_start (i_list i)) = first (u1 @ u2) None"
    using r na by (cases u1) auto
  have dom: "dom h = insert cache_ptr (fst ` set (?xs @ u2))" "\<forall>x\<in>dom h. x < i_fresh i"
    using h(2) r na by (auto split: if_splits)
  have rest: "\<forall>e\<in>set ns. is_notified (snd e)" "\<forall>e\<in>set (u1 @ u2). \<not> is_notified (snd e)"
    "l_notified (i_list i) = length ns" "length (ns @ u1 @ u2) \<le> usize_max"
    "(a \<noteq> cache_ptr \<and> l_cache_used (i_list i)) \<longleftrightarrow> cache_ptr \<in> fst ` set (?xs @ u2)"
    using r na by (auto simp: image_Un)
  show ?thesis
    unfolding ex head tail start using dom rest h(1) d(2) c(3) by (simp add: list_rep_def)
qed

lemma list_remove_rep:
  assumes "list_rep i ns us" "(a, s) \<in> set (ns @ us)"
  shows "\<exists>i'. list_remove i a = Inr (i', s) \<and> list_rep i' (spec_remove a ns) (spec_remove a us)"
proof (cases "(a, s) \<in> set ns")
  case True
  then obtain n1 n2 where ns: "ns = n1 @ (a, s) # n2" by (meson split_list)
  have "distinct (map fst (ns @ us))" using assms(1) by (simp add: list_rep_def)
  then have "a \<notin> fst ` set n1" "a \<notin> fst ` set n2" "a \<notin> fst ` set us" by (auto simp: ns)
  with list_remove_rep_notified [OF assms(1) [unfolded ns]] show ?thesis by (simp add: ns)
next
  case False
  with assms(2) obtain u1 u2 where us: "us = u1 @ (a, s) # u2" by (auto dest: split_list)
  have "distinct (map fst (ns @ us))" using assms(1) by (simp add: list_rep_def)
  then have "a \<notin> fst ` set u1" "a \<notin> fst ` set u2" "a \<notin> fst ` set ns" by (auto simp: us)
  with list_remove_rep_waiting [OF assms(1) [unfolded us]] show ?thesis by (simp add: us)
qed

text \<open>Changing the state of an entry without crossing the border between the two groups.\<close>

lemma spec_set_id [simp]: "a \<notin> fst ` set es \<Longrightarrow> spec_set a s es = es"
  unfolding spec_set_def by (rule map_idI) auto

lemma spec_set_append [simp]: "spec_set a s (xs @ ys) = spec_set a s xs @ spec_set a s ys"
  by (simp add: spec_set_def)

lemma spec_set_Cons [simp]: "spec_set a s ((b, t) # es) = (if a = b then (a, s) else (b, t)) # spec_set a s es"
  by (simp add: spec_set_def)

lemma dll_state_set:
  assumes "dll h p es n" "distinct (map fst es)" "a \<in> fst ` set es"
  shows "dll (h(a \<mapsto> (the (h a))\<lparr>e_state := s\<rparr>)) p (spec_set a s es) n"
proof -
  obtain xs t ys where es: "es = xs @ (a, t) # ys" using assms(3) by (auto dest!: split_list)
  then have "a \<notin> fst ` set xs" "a \<notin> fst ` set ys" using assms(2) by auto
  with dll_set_state [of h p xs a t ys n s] assms(1) show ?thesis by (simp add: es image_Un)
qed

lemma fst_spec_set [simp]: "map fst (spec_set a s es) = map fst es"
  by (auto simp: spec_set_def)

lemma set_spec_set [simp]: "fst ` set (spec_set a s es) = fst ` set es"
  by (metis fst_spec_set set_map)

lemma first_spec_set [simp]: "first (spec_set a s es) n = first es n"
  by (cases es) (auto simp: spec_set_def)

lemma lastp_spec_set [simp]: "lastp p (spec_set a s es) = lastp p es"
  by (induction p es rule: lastp.induct) (auto simp: spec_set_def)

lemma length_spec_set [simp]: "length (spec_set a s es) = length es"
  by (simp add: spec_set_def)

lemma notified_spec_set:
  "\<forall>e\<in>set es. P (snd e) \<Longrightarrow> a \<in> fst ` set es \<longrightarrow> P s \<Longrightarrow> \<forall>e\<in>set (spec_set a s es). P (snd e)"
  by (auto simp: spec_set_def image_iff)

lemma list_rep_state_set:
  assumes "list_rep i ns us" "a \<in> fst ` set (ns @ us)" "is_notified s \<longleftrightarrow> a \<in> fst ` set ns"
  shows "list_rep (i\<lparr>i_heap := (i_heap i)(a \<mapsto> (the (i_heap i a))\<lparr>e_state := s\<rparr>)\<rparr>) (spec_set a s ns) (spec_set a s us)"
proof -
  note r = assms(1) [unfolded list_rep_def]
  have dis: "distinct (map fst (ns @ us))" using r by blast
  have d: "dll ((i_heap i)(a \<mapsto> (the (i_heap i a))\<lparr>e_state := s\<rparr>)) None (spec_set a s (ns @ us)) None"
    by (rule dll_state_set) (use r assms(2) in blast)+
  have dom: "a \<in> dom (i_heap i)" using r assms(2) by simp
  have n: "\<forall>e\<in>set (spec_set a s ns). is_notified (snd e)"
    by (rule notified_spec_set) (use r assms(3) in auto)
  have "a \<in> fst ` set us \<Longrightarrow> a \<notin> fst ` set ns" using dis by auto
  then have u: "\<forall>e\<in>set (spec_set a s us). \<not> is_notified (snd e)"
    by (intro notified_spec_set) (use r assms(3) in auto)
  have x: "fst ` set (spec_set a s (ns @ us)) = fst ` set (ns @ us)"
    "map fst (spec_set a s (ns @ us)) = map fst (ns @ us)" by (rule set_spec_set fst_spec_set)+
  show ?thesis unfolding list_rep_def
    unfolding spec_set_append [symmetric] x using d n u dom r by (simp add: insert_absorb)
qed

lemma state_set_live: "a \<in> dom (i_heap i) \<Longrightarrow>
    state_set i a s = Inr (i\<lparr>i_heap := (i_heap i)(a \<mapsto> (the (i_heap i a))\<lparr>e_state := s\<rparr>)\<rparr>)"
  by (simp add: state_set_def with_entry_live)

lemma dll_state_get: "dll h p es n \<Longrightarrow> (a, s) \<in> set es \<Longrightarrow> \<exists>e. h a = Some e \<and> e_state e = s"
  by (induction h p es n rule: dll.induct) auto

lemma state_replace_rep:
  assumes "list_rep i ns us" "(a, s) \<in> set (ns @ us)"
  shows "state_replace i a s' = Inr (i\<lparr>i_heap := (i_heap i)(a \<mapsto> (the (i_heap i a))\<lparr>e_state := s'\<rparr>)\<rparr>, s)"
proof -
  obtain e where "i_heap i a = Some e" "e_state e = s"
    using dll_state_get [of "i_heap i" None "ns @ us" None a s] assms unfolding list_rep_def by blast
  then show ?thesis by (simp add: state_replace_def get_entry_def state_set_def with_entry_def)
qed

text \<open>The notification loop marks from \<open>start\<close> on.\<close>

lemma notify_loop_rep:
  assumes "list_rep i ns us"
  shows "\<exists>i' ns' us'. notify_loop b n i = Inr (i', concat (map (wakeup_of \<circ> snd) (take n us))) \<and> list_rep i' ns' us' \<and>
     ns' = ns @ map (\<lambda>(a, s). (a, Notified b)) (take n us) \<and> us' = drop n us"
  using assms
proof (induction n arbitrary: i ns us)
  case 0
  then show ?case by simp
next
  case (Suc n)
  note r = Suc.prems [unfolded list_rep_def]
  show ?case
  proof (cases us)
    case Nil
    with Suc.prems show ?thesis by (simp add: list_rep_def)
  next
    case (Cons e us')
    obtain a s where e: "e = (a, s)" by (cases e)
    let ?h = "(i_heap i)(a \<mapsto> (the (i_heap i a))\<lparr>e_state := Notified b\<rparr>)"
    let ?i = "i\<lparr>i_heap := ?h, i_list := (i_list i)\<lparr>l_start := first us' None, l_notified := length ns + 1\<rparr>\<rparr>"
    have ia: "i_heap i a = Some \<lparr>e_state = s, e_prev = lastp None ns, e_next = first us' None\<rparr>"
      using r by (simp add: Cons e)
    have "distinct (map fst (ns @ (a, s) # us'))" using r by (simp add: Cons e)
    then have na: "a \<notin> fst ` set (ns @ us')" by auto
    have "dll ?h None (ns @ (a, Notified b) # us') None"
      by (rule dll_set_state) (use r na in \<open>simp_all add: Cons e\<close>)
    moreover have "dom ?h = dom (i_heap i)" using ia by auto
    ultimately have rep: "list_rep ?i (ns @ [(a, Notified b)]) us'"
      using r unfolding list_rep_def by (simp add: Cons e)
    have step: "notify_loop b (Suc n) i = bind_fallible (notify_loop b n ?i) (\<lambda>(i2, ws). Inr (i2, wakeup_of s @ ws))"
      using r ia by (simp add: Cons e get_entry_def with_entry_def set_start_def)
    show ?thesis using Suc.IH [OF rep] unfolding step by (auto simp: Cons e)
  qed
qed

lemma spec_mark_split:
  assumes "\<forall>e\<in>set ns. is_notified (snd e)" "\<forall>e\<in>set us. \<not> is_notified (snd e)"
  shows "spec_mark b m (ns @ us) = ns @ map (\<lambda>(a, s). (a, Notified b)) (take m us) @ drop m us"
    "spec_wakeups m (ns @ us) = concat (map (wakeup_of \<circ> snd) (take m us))"
proof -
  have 1: "spec_mark b m us = map (\<lambda>(a, s). (a, Notified b)) (take m us) @ drop m us" "spec_wakeups m us = concat (map (wakeup_of \<circ> snd) (take m us))" for b
    using assms(2) by (induction us arbitrary: m) (auto split: nat.splits)
  show "spec_mark b m (ns @ us) = ns @ map (\<lambda>(a, s). (a, Notified b)) (take m us) @ drop m us"
    "spec_wakeups m (ns @ us) = concat (map (wakeup_of \<circ> snd) (take m us))"
    using assms(1) by (induction ns) (auto simp: 1)
qed

lemma notify_loop_spec:
  assumes "list_rep i ns us"
  shows "\<exists>i' ns' us'. notify_loop b n i = Inr (i', spec_wakeups n (ns @ us)) \<and> list_rep i' ns' us' \<and> ns' @ us' = spec_mark b n (ns @ us)"
proof -
  have "\<forall>e\<in>set ns. is_notified (snd e)" "\<forall>e\<in>set us. \<not> is_notified (snd e)" using assms by (auto simp: list_rep_def)
  note split = spec_mark_split [OF this]
  obtain i' where i': "notify_loop b n i = Inr (i', spec_wakeups n (ns @ us))"
    "list_rep i' (ns @ map (\<lambda>(a, s). (a, Notified b)) (take n us)) (drop n us)"
    using notify_loop_rep [OF assms, of b n] unfolding split by blast
  have "(ns @ map (\<lambda>(a, s). (a, Notified b)) (take n us)) @ drop n us = spec_mark b n (ns @ us)"
    by (simp add: split(1))
  with i' show ?thesis by blast
qed

lemma list_notify_spec:
  assumes "list_rep i ns us" "es = ns @ us"
  shows "\<exists>i' ns' us'. list_notify i n = Inr (i', spec_wakeups (n - notified_count es) es) \<and> list_rep i' ns' us' \<and>
    ns' @ us' = spec_mark False (n - notified_count es) es"
proof (cases "n \<le> length ns")
  case True
  have nu: "\<forall>e\<in>set ns. is_notified (snd e)" "\<forall>e\<in>set us. \<not> is_notified (snd e)" "l_notified (i_list i) = length ns"
    using assms(1) by (auto simp: list_rep_def)
  show ?thesis
    using True nu(3) assms(1) unfolding assms(2) notified_count_split [OF nu(1,2)] spec_mark_split [OF nu(1,2)]
    by (simp add: list_notify_def) blast
next
  case False
  have "l_notified (i_list i) = length ns" using assms(1) by (auto simp: list_rep_def)
  with False notify_loop_spec [OF assms(1), of False "n - length ns"] show ?thesis
    by (simp add: list_notify_def assms(2) list_rep_count [OF assms(1)])
qed

section \<open>The operations of events and listeners\<close>

lemma event_listen_spec:
  assumes "event_rep ev es" "length es < usize_max"
  shows "\<exists>ev' a. event_listen ev = Inr (ev', \<lparr>lis_entry = Some a\<rparr>) \<and> a \<notin> fst ` set es \<and> event_rep ev' (es @ [(a, Created)])"
proof -
  obtain ns us where rep: "es = ns @ us" "list_rep (event_inner_of ev) ns us"
    using event_inner_of_rep [OF assms(1)] by blast
  with list_insert_rep [OF rep(2)] assms(2) obtain i' a where
    "list_insert (event_inner_of ev) = Inr (i', a)" "a \<notin> fst ` set es" "list_rep i' ns (us @ [(a, Created)])" by blast
  with guard_drop_rep [OF this(3)] show ?thesis by (simp add: event_listen_def event_rep_def rep(1))
qed

lemma event_notify_spec:
  assumes "event_rep ev es"
  shows "\<exists>ev'. event_notify ev n = Inr (ev', spec_wakeups (n - notified_count es) es) \<and>
    event_rep ev' (spec_mark False (n - notified_count es) es)"
proof (cases ev)
  case None
  with assms show ?thesis by (simp add: event_notify_def event_rep_def)
next
  case (Some i)
  with assms have "inner_rep i es" by (simp add: event_rep_def)
  then obtain ns us where rep: "es = ns @ us" "list_rep i ns us"
    "i_notified i = (if us \<noteq> [] then length ns else usize_max)" by (rule inner_repE)
  have nu: "\<forall>e\<in>set ns. is_notified (snd e)" "\<forall>e\<in>set us. \<not> is_notified (snd e)"
    using rep(2) by (auto simp: list_rep_def)
  show ?thesis
  proof (cases "i_notified i < n")
    case True
    from list_notify_spec [OF rep(2,1), of n] obtain i' ns' us' where
      "list_notify i n = Inr (i', spec_wakeups (n - notified_count es) es)" "list_rep i' ns' us'"
      "ns' @ us' = spec_mark False (n - notified_count es) es" by blast
    with True guard_drop_rep [OF this(2)] show ?thesis by (simp add: event_notify_def Some event_rep_def)
  next
    case False
    with rep(3) have "n - length ns = 0 \<or> us = []" by (auto split: if_splits)
    then have "spec_mark False (n - notified_count es) es = es" "spec_wakeups (n - notified_count es) es = []"
      unfolding rep(1) notified_count_split [OF nu] spec_mark_split [OF nu] by auto
    with False assms show ?thesis by (simp add: event_notify_def Some)
  qed
qed

lemma event_notify_additional_spec:
  assumes "event_rep ev es"
  shows "\<exists>ev'. event_notify_additional ev n = Inr (ev', spec_wakeups n es) \<and> event_rep ev' (spec_mark True n es)"
proof (cases ev)
  case None
  with assms show ?thesis by (simp add: event_notify_additional_def event_rep_def)
next
  case (Some i)
  with assms have "inner_rep i es" by (simp add: event_rep_def)
  then obtain ns us where rep: "es = ns @ us" "list_rep i ns us"
    "i_notified i = (if us \<noteq> [] then length ns else usize_max)" by (rule inner_repE)
  have nu: "\<forall>e\<in>set ns. is_notified (snd e)" "\<forall>e\<in>set us. \<not> is_notified (snd e)" "length (ns @ us) \<le> usize_max"
    using rep(2) by (auto simp: list_rep_def)
  show ?thesis
  proof (cases "i_notified i < usize_max")
    case True
    from notify_loop_spec [OF rep(2), of True n] obtain i' ns' us' where
      "notify_loop True n i = Inr (i', spec_wakeups n es)" "list_rep i' ns' us'"
      "ns' @ us' = spec_mark True n es" unfolding rep(1) by blast
    with True guard_drop_rep [OF this(2)] show ?thesis
      by (simp add: event_notify_additional_def list_notify_additional_def Some event_rep_def)
  next
    case False
    have "us = []"
    proof (rule ccontr)
      assume "us \<noteq> []"
      then have "length ns < length (ns @ us)" by simp
      with False rep(3) nu(3) \<open>us \<noteq> []\<close> show False by simp
    qed
    then have "spec_mark True n es = es" "spec_wakeups n es = []"
      unfolding rep(1) spec_mark_split [OF nu(1,2)] by auto
    with False assms show ?thesis by (simp add: event_notify_additional_def Some)
  qed
qed

lemma listener_discard_spec:
  assumes "inner_rep i es" "lis_entry l = Some a" "(a, s) \<in> set es"
  shows "\<exists>i'. listener_discard i l = Inr (i', l\<lparr>lis_entry := None\<rparr>, is_notified s) \<and> inner_rep i' (spec_remove a es)"
proof -
  obtain ns us where rep: "es = ns @ us" "list_rep i ns us" using assms(1) by (rule inner_repE)
  from list_remove_rep [OF rep(2) assms(3) [unfolded rep(1)]] obtain i' where
    "list_remove i a = Inr (i', s)" "list_rep i' (spec_remove a ns) (spec_remove a us)" by blast
  with guard_drop_rep [OF this(2)] show ?thesis by (simp add: listener_discard_def assms(2) rep(1))
qed

text \<open>
  A dropped listener hands an unused notification to the next one; a plain notification
  only when no other listener is notified.
\<close>

fun spec_drop :: "event_state \<Rightarrow> listeners \<Rightarrow> listeners \<times> wakeup list" where
  "spec_drop (Notified True) es = (spec_mark True 1 es, spec_wakeups 1 es)"
| "spec_drop (Notified False) es = (spec_mark False (1 - notified_count es) es, spec_wakeups (1 - notified_count es) es)"
| "spec_drop _ es = (es, [])"

lemma list_pass_on_spec:
  assumes "list_rep i ns us" "es = ns @ us"
  shows "\<exists>i'. bind_fallible (case s of
              Notified additional \<Rightarrow> if additional then list_notify_additional i 1 else list_notify i 1
            | _ \<Rightarrow> Inr (i, [])) (\<lambda>(i'', ws). Inr (guard_drop i'', ws)) = Inr (i', snd (spec_drop s es)) \<and>
     inner_rep i' (fst (spec_drop s es))"
proof (cases "is_notified s")
  case False
  then show ?thesis using guard_drop_rep [OF assms(1)] assms(2) by (cases s) auto
next
  case True
  then obtain b where s: "s = Notified b" by (cases s) auto
  show ?thesis
  proof (cases b)
    case True
    from notify_loop_spec [OF assms(1), of True 1] obtain i' ns' us' where
      "notify_loop True 1 i = Inr (i', spec_wakeups 1 es)" "list_rep i' ns' us'" "ns' @ us' = spec_mark True 1 es"
      unfolding assms(2) by blast
    with guard_drop_rep [OF this(2)] show ?thesis by (simp add: s True list_notify_additional_def del: One_nat_def)
  next
    case False
    from list_notify_spec [OF assms, of 1] obtain i' ns' us' where
      "list_notify i 1 = Inr (i', spec_wakeups (1 - notified_count es) es)" "list_rep i' ns' us'"
      "ns' @ us' = spec_mark False (1 - notified_count es) es" by blast
    with guard_drop_rep [OF this(2)] show ?thesis by (simp add: s False del: One_nat_def)
  qed
qed

lemma listener_drop_spec:
  assumes "inner_rep i es" "lis_entry l = Some a" "(a, s) \<in> set es"
  shows "\<exists>i'. listener_drop i l = Inr (i', snd (spec_drop s (spec_remove a es))) \<and>
    inner_rep i' (fst (spec_drop s (spec_remove a es)))"
proof -
  obtain ns us where rep: "es = ns @ us" "list_rep i ns us" using assms(1) by (rule inner_repE)
  from list_remove_rep [OF rep(2) assms(3) [unfolded rep(1)]] obtain i' where
    i': "list_remove i a = Inr (i', s)" "list_rep i' (spec_remove a ns) (spec_remove a us)" by blast
  show ?thesis using list_pass_on_spec [OF i'(2), of "spec_remove a es" s] i'(1)
    by (simp add: listener_drop_def assms(2) rep(1))
qed

text \<open>\<open>poll\<close> and \<open>wait\<close> share their treatment of the entry.\<close>

lemma in_prefix:
  assumes "list_rep i ns us" "(a, s) \<in> set (ns @ us)"
  shows "is_notified s \<longleftrightarrow> a \<in> fst ` set ns" "a \<in> dom (i_heap i)"
proof -
  have r: "distinct (map fst (ns @ us))" "\<forall>e\<in>set ns. is_notified (snd e)" "\<forall>e\<in>set us. \<not> is_notified (snd e)"
    "dom (i_heap i) = insert cache_ptr (fst ` set (ns @ us))"
    using assms(1) by (auto simp: list_rep_def)
  have a: "a \<in> fst ` set (ns @ us)" using assms(2) by force
  then show "a \<in> dom (i_heap i)" using r(4) by blast
  show "is_notified s \<longleftrightarrow> a \<in> fst ` set ns"
  proof
    assume "is_notified s"
    with r(3) assms(2) have "(a, s) \<in> set ns" by auto
    then show "a \<in> fst ` set ns" by force
  next
    assume a: "a \<in> fst ` set ns"
    then have "a \<notin> fst ` set us" using r(1) by auto
    with assms(2) have "(a, s) \<in> set ns" by force
    with r(2) show "is_notified s" by force
  qed
qed

lemma take_notified:
  assumes "inner_rep i es" "(a, s) \<in> set es" "is_notified s"
  shows "\<exists>i1 i2. state_replace i a (Notified False) = Inr (i1, s) \<and> list_remove i1 a = Inr (i2, Notified False) \<and>
    inner_rep (guard_drop i2) (spec_remove a es)"
proof -
  obtain ns us where rep: "es = ns @ us" "list_rep i ns us" using assms(1) by (rule inner_repE)
  have mem: "(a, s) \<in> set (ns @ us)" using assms(2) rep(1) by simp
  let ?i = "i\<lparr>i_heap := (i_heap i)(a \<mapsto> (the (i_heap i a))\<lparr>e_state := Notified False\<rparr>)\<rparr>"
  have r1: "list_rep ?i (spec_set a (Notified False) ns) (spec_set a (Notified False) us)"
    by (rule list_rep_state_set [OF rep(2)]) (use in_prefix [OF rep(2) mem] assms(3) in auto)
  have "a \<in> fst ` set (ns @ us)" using mem by force
  then have "(a, Notified False) \<in> set (spec_set a (Notified False) (ns @ us))"
    by (auto simp: spec_set_def image_iff)
  then have "(a, Notified False) \<in> set (spec_set a (Notified False) ns @ spec_set a (Notified False) us)" by simp
  from list_remove_rep [OF r1 this] obtain i2 where i2: "list_remove ?i a = Inr (i2, Notified False)"
    "list_rep i2 (spec_remove a (spec_set a (Notified False) ns)) (spec_remove a (spec_set a (Notified False) us))" by blast
  have x: "spec_remove a (spec_set a s' xs) = spec_remove a xs" for s' xs
    by (induction xs) (auto simp: spec_remove_def spec_set_def)
  show ?thesis using state_replace_rep [OF rep(2) mem] i2 guard_drop_rep [OF i2(2)] by (simp add: x rep(1))
qed

lemma restore_state:
  assumes "inner_rep i es" "(a, s) \<in> set es" "\<not> is_notified s" "\<not> is_notified s'"
  shows "\<exists>i1 i2. state_replace i a (Notified False) = Inr (i1, s) \<and> state_set i1 a s' = Inr i2 \<and>
    inner_rep (guard_drop i2) (spec_set a s' es)"
proof -
  obtain ns us where rep: "es = ns @ us" "list_rep i ns us" using assms(1) by (rule inner_repE)
  have mem: "(a, s) \<in> set (ns @ us)" using assms(2) rep(1) by simp
  note pre = in_prefix [OF rep(2) mem]
  let ?i1 = "i\<lparr>i_heap := (i_heap i)(a \<mapsto> (the (i_heap i a))\<lparr>e_state := Notified False\<rparr>)\<rparr>"
  let ?i2 = "i\<lparr>i_heap := (i_heap i)(a \<mapsto> (the (i_heap i a))\<lparr>e_state := s'\<rparr>)\<rparr>"
  have "list_rep ?i2 (spec_set a s' ns) (spec_set a s' us)"
    by (rule list_rep_state_set [OF rep(2)]) (use pre mem assms(3,4) in force)+
  from guard_drop_rep [OF this] have "inner_rep (guard_drop ?i2) (spec_set a s' es)" by (simp add: rep(1))
  moreover have "state_set ?i1 a s' = Inr ?i2" by (simp add: state_set_live)
  ultimately show ?thesis using state_replace_rep [OF rep(2) mem] by blast
qed

lemma listener_poll_ready:
  assumes "inner_rep i es" "lis_entry l = Some a" "(a, s) \<in> set es" "is_notified s"
  shows "\<exists>i'. listener_poll ww i l cx = Inr (i', l\<lparr>lis_entry := None\<rparr>, True) \<and> inner_rep i' (spec_remove a es)"
proof -
  from take_notified [OF assms(1,3,4)] obtain i1 i2 where
    "state_replace i a (Notified False) = Inr (i1, s)" "list_remove i1 a = Inr (i2, Notified False)"
    "inner_rep (guard_drop i2) (spec_remove a es)" by blast
  with assms(2,4) show ?thesis by (cases s) (simp_all add: listener_poll_def)
qed

definition poll_state :: "(waker \<Rightarrow> waker \<Rightarrow> bool) \<Rightarrow> event_state \<Rightarrow> waker \<Rightarrow> event_state" where
  "poll_state ww s cx = (case s of Polling w \<Rightarrow> Polling (if ww w cx then w else cx) | _ \<Rightarrow> Polling cx)"

lemma listener_poll_pending:
  assumes "inner_rep i es" "lis_entry l = Some a" "(a, s) \<in> set es" "\<not> is_notified s" "\<nexists>t. s = Waiting t"
  shows "\<exists>i'. listener_poll ww i l cx = Inr (i', l, False) \<and> inner_rep i' (spec_set a (poll_state ww s cx) es)"
proof -
  have "\<not> is_notified (poll_state ww s cx)" by (cases s) (simp_all add: poll_state_def)
  from restore_state [OF assms(1,3,4) this] obtain i1 i2 where
    "state_replace i a (Notified False) = Inr (i1, s)" "state_set i1 a (poll_state ww s cx) = Inr i2"
    "inner_rep (guard_drop i2) (spec_set a (poll_state ww s cx) es)" by blast
  with assms(2,4,5) show ?thesis by (cases s) (simp_all add: listener_poll_def poll_state_def)
qed

lemma wait_sections_spec:
  assumes "inner_rep i es" "(a, s) \<in> set es"
  shows "is_notified s \<Longrightarrow> \<exists>i'. wait_begin t i a = Inr (i', True) \<and> inner_rep i' (spec_remove a es)"
    "\<not> is_notified s \<Longrightarrow> \<exists>i'. wait_begin t i a = Inr (i', False) \<and> inner_rep i' (spec_set a (Waiting t) es)"
    "is_notified s \<Longrightarrow> \<exists>i'. wait_check i a = Inr (i', True) \<and> inner_rep i' (spec_remove a es)"
    "\<not> is_notified s \<Longrightarrow> \<exists>i'. wait_check i a = Inr (i', False) \<and> inner_rep i' (spec_set a s es)"
    "\<exists>i'. wait_expired i a = Inr (i', is_notified s) \<and> inner_rep i' (spec_remove a es)"
proof -
  show "\<exists>i'. wait_begin t i a = Inr (i', True) \<and> inner_rep i' (spec_remove a es)"
    "\<exists>i'. wait_check i a = Inr (i', True) \<and> inner_rep i' (spec_remove a es)" if n: "is_notified s"
  proof -
    from take_notified [OF assms n] obtain i1 i2 where
      "state_replace i a (Notified False) = Inr (i1, s)" "list_remove i1 a = Inr (i2, Notified False)"
      "inner_rep (guard_drop i2) (spec_remove a es)" by blast
    with n show "\<exists>i'. wait_begin t i a = Inr (i', True) \<and> inner_rep i' (spec_remove a es)"
      "\<exists>i'. wait_check i a = Inr (i', True) \<and> inner_rep i' (spec_remove a es)"
      by (simp_all add: wait_begin_def wait_check_def)
  qed
  have re: "\<exists>i'. bind_fallible (state_replace i a (Notified False)) (\<lambda>(i1, old).
     if is_notified old
     then bind_fallible (list_remove i1 a) (\<lambda>(i2, _). Inr (guard_drop i2, True))
     else bind_fallible (state_set i1 a (f old)) (\<lambda>i2. Inr (guard_drop i2, False))) = Inr (i', False) \<and>
     inner_rep i' (spec_set a (f s) es)" if "\<not> is_notified s" "\<not> is_notified (f s)" for f
  proof -
    from restore_state [OF assms that] obtain i1 i2 where
      "state_replace i a (Notified False) = Inr (i1, s)" "state_set i1 a (f s) = Inr i2"
      "inner_rep (guard_drop i2) (spec_set a (f s) es)" by blast
    with that(1) show ?thesis by simp
  qed
  show "\<exists>i'. wait_begin t i a = Inr (i', False) \<and> inner_rep i' (spec_set a (Waiting t) es)" if "\<not> is_notified s"
    unfolding wait_begin_def using re [of "\<lambda>_. Waiting t", OF that] by simp
  show "\<exists>i'. wait_check i a = Inr (i', False) \<and> inner_rep i' (spec_set a s es)" if "\<not> is_notified s"
    unfolding wait_check_def using re [of "\<lambda>old. old", OF that] that by simp
  show "\<exists>i'. wait_expired i a = Inr (i', is_notified s) \<and> inner_rep i' (spec_remove a es)"
    using listener_discard_spec [OF assms(1) _ assms(2), of "\<lparr>lis_entry = Some a\<rparr>"]
    by (auto simp: wait_expired_def listener_discard_def)
qed

definition owned :: "nat \<Rightarrow> event_inner \<Rightarrow> bool" where
  "owned a i \<longleftrightarrow> (\<exists>es s. inner_rep i es \<and> (a, s) \<in> set es)"

definition released :: "nat \<Rightarrow> event_inner \<Rightarrow> bool" where
  "released a i \<longleftrightarrow> (\<exists>es. inner_rep i es \<and> a \<notin> fst ` set es)"

lemma released_remove: "inner_rep i (spec_remove a es) \<Longrightarrow> released a i"
  by (auto simp: released_def spec_remove_def)

lemma owned_set: "inner_rep i (spec_set a s' es) \<Longrightarrow> (a, s) \<in> set es \<Longrightarrow> owned a i"
  unfolding owned_def spec_set_def by (rule exI [of _ "map (\<lambda>e. if fst e = a then (a, s') else e) es"]) force

lemma wait_check_owned:
  assumes "owned a i"
  shows "\<exists>i' b. wait_check i a = Inr (i', b) \<and> (b \<longrightarrow> released a i') \<and> (\<not> b \<longrightarrow> owned a i')"
    "\<exists>i' b. wait_expired i a = Inr (i', b) \<and> released a i'"
    "\<exists>i' b. wait_begin t i a = Inr (i', b) \<and> (b \<longrightarrow> released a i') \<and> (\<not> b \<longrightarrow> owned a i')"
proof -
  obtain es s where o: "inner_rep i es" "(a, s) \<in> set es" using assms by (auto simp: owned_def)
  note w = wait_sections_spec [OF o]
  show "\<exists>i' b. wait_check i a = Inr (i', b) \<and> (b \<longrightarrow> released a i') \<and> (\<not> b \<longrightarrow> owned a i')"
    using w(3,4) o(2) released_remove owned_set by (cases "is_notified s") blast+
  show "\<exists>i' b. wait_expired i a = Inr (i', b) \<and> released a i'" using w(5) released_remove by blast
  show "\<exists>i' b. wait_begin t i a = Inr (i', b) \<and> (b \<longrightarrow> released a i') \<and> (\<not> b \<longrightarrow> owned a i')"
    using w(1,2) [of t] o(2) released_remove owned_set by (cases "is_notified s") blast+
qed

lemma wait_loop_safe:
  assumes "owned a i" and "\<And>x f i. (x, f) \<in> set turns \<Longrightarrow> owned a i \<Longrightarrow> owned a (f i)"
  shows "\<exists>i' r. wait_loop turns i a = Inr (i', r) \<and> (if r = None then owned a i' else released a i') \<and>
    ((\<forall>(x, f)\<in>set turns. \<not> x) \<longrightarrow> r \<noteq> Some False)"
  using assms
proof (induction turns arbitrary: i)
  case Nil
  then show ?case by simp
next
  case (Cons xf turns)
  obtain x f where xf: "xf = (x, f)" by (cases xf)
  show ?case
  proof (cases x)
    case True
    obtain i' b where "wait_expired i a = Inr (i', b)" "released a i'"
      using wait_check_owned(2) [OF Cons.prems(1)] by blast
    with True show ?thesis by (simp add: xf)
  next
    case False
    have "owned a (f i)" by (rule Cons.prems(2) [OF _ Cons.prems(1), of x]) (simp add: xf)
    then obtain i' b where i': "wait_check (f i) a = Inr (i', b)" "b \<Longrightarrow> released a i'" "\<not> b \<Longrightarrow> owned a i'"
      using wait_check_owned(1) by blast
    show ?thesis
    proof (cases b)
      case True
      with False i' show ?thesis by (simp add: xf)
    next
      case b: False
      have "\<exists>i'' r. wait_loop turns i' a = Inr (i'', r) \<and> (if r = None then owned a i'' else released a i'') \<and>
        ((\<forall>(x, f)\<in>set turns. \<not> x) \<longrightarrow> r \<noteq> Some False)"
        by (rule Cons.IH [OF i'(3) [OF b]]) (use Cons.prems(2) in force)
      with False b i'(1) show ?thesis by (simp add: xf)
    qed
  qed
qed

section \<open>The interface of events\<close>

lemma length_spec_mark [simp]: "length (spec_mark b m es) = length es"
  by (induction b m es rule: spec_mark.induct) (auto split: nat.splits)

lemma fst_spec_mark [simp]: "map fst (spec_mark b m es) = map fst es"
  by (induction b m es rule: spec_mark.induct) (auto split: nat.splits)

lemma notified_count_simps [simp]:
  "notified_count [] = 0"
  "notified_count ((a, s) # es) = (if is_notified s then Suc (notified_count es) else notified_count es)"
  "notified_count (xs @ ys) = notified_count xs + notified_count ys"
  by (simp_all add: notified_count_def)

lemma notified_count_le: "notified_count es \<le> length es"
  by (simp add: notified_count_def)

lemma notified_count_mark: "notified_count (spec_mark b m es) = min (notified_count es + m) (length es)"
  by (induction b m es rule: spec_mark.induct)
    (auto split: nat.splits simp: min_def notified_count_le le_Suc_eq intro: antisym notified_count_le)

lemma spec_mark_keeps: "(a, s) \<in> set es \<Longrightarrow> is_notified s \<Longrightarrow> (a, s) \<in> set (spec_mark b m es)"
  by (induction b m es rule: spec_mark.induct) (auto split: nat.splits)

lemma spec_mark_cases: "(a, s) \<in> set (spec_mark b m es) \<Longrightarrow> (a, s) \<in> set es \<or> s = Notified b"
  by (induction b m es rule: spec_mark.induct) (auto split: nat.splits if_splits)

lemma all_notified: "notified_count es = length es \<longleftrightarrow> (\<forall>e\<in>set es. is_notified (snd e))"
proof (induction es)
  case (Cons e es)
  obtain a s where "e = (a, s)" by (cases e)
  with Cons notified_count_le [of es] show ?case by auto
qed simp

locale event_source =
  fixes rep :: "'e \<Rightarrow> listeners \<Rightarrow> bool"
    and listen :: "'e \<Rightarrow> ('e \<times> event_listener) fallible"
    and notify :: "'e \<Rightarrow> nat \<Rightarrow> ('e \<times> wakeup list) fallible"
    and notify_additional :: "'e \<Rightarrow> nat \<Rightarrow> ('e \<times> wakeup list) fallible"
  assumes listen_spec: "rep ev es \<Longrightarrow> length es < usize_max \<Longrightarrow>
      \<exists>ev' a. listen ev = Inr (ev', \<lparr>lis_entry = Some a\<rparr>) \<and> a \<notin> fst ` set es \<and> rep ev' (es @ [(a, Created)])"
    and notify_spec: "rep ev es \<Longrightarrow> \<exists>ev'. notify ev n = Inr (ev', spec_wakeups (n - notified_count es) es) \<and>
      rep ev' (spec_mark False (n - notified_count es) es)"
    and notify_additional_spec: "rep ev es \<Longrightarrow> \<exists>ev'. notify_additional ev n = Inr (ev', spec_wakeups n es) \<and>
      rep ev' (spec_mark True n es)"
    and rep_ok: "rep ev es \<Longrightarrow> listeners_ok es"
begin

lemma notify_count:
  assumes "rep ev es"
  shows "\<exists>ev' es'. notify ev n = Inr (ev', spec_wakeups (n - notified_count es) es) \<and> rep ev' es' \<and>
    map fst es' = map fst es \<and> notified_count es' = max (notified_count es) (min n (length es))"
proof -
  have "min (notified_count es + (n - notified_count es)) (length es) = max (notified_count es) (min n (length es))"
    using notified_count_le [of es] by (cases "n \<le> notified_count es") (simp_all add: min_def max_def)
  with notify_spec [OF assms, of n] fst_spec_mark notified_count_mark show ?thesis by metis
qed

lemma notify_all:
  assumes "rep ev es"
  shows "\<exists>ev' es'. notify ev usize_max = Inr (ev', spec_wakeups (usize_max - notified_count es) es) \<and> rep ev' es' \<and>
    map fst es' = map fst es \<and> (\<forall>e\<in>set es'. is_notified (snd e))"
proof -
  obtain ev' es' where *: "notify ev usize_max = Inr (ev', spec_wakeups (usize_max - notified_count es) es)" "rep ev' es'"
    "map fst es' = map fst es" "notified_count es' = max (notified_count es) (min usize_max (length es))"
    using notify_count [OF assms, of usize_max] by blast
  have "length es \<le> usize_max" using rep_ok [OF assms] by (simp add: listeners_ok_def)
  moreover have "length es' = length es" using *(3) by (metis length_map)
  ultimately have "notified_count es' = length es'" using *(4) notified_count_le [of es] by simp
  with * all_notified show ?thesis by metis
qed

lemma notify_returns: "rep ev es \<Longrightarrow> \<exists>ev' ws es'. notify ev n = Inr (ev', ws) \<and> rep ev' es' \<and> map fst es' = map fst es"
  using notify_count by blast

lemma listen_returns: "rep ev es \<Longrightarrow> length es < usize_max \<Longrightarrow>
    \<exists>ev' l a es'. listen ev = Inr (ev', l) \<and> lis_entry l = Some a \<and> rep ev' es' \<and> (a, Created) \<in> set es' \<and> length es' = Suc (length es)"
  using listen_spec by fastforce

end

lemma event_rep_ok: "event_rep ev es \<Longrightarrow> listeners_ok es"
  by (cases ev) (simp_all add: event_rep_def inner_rep_ok, simp add: listeners_ok_def)

interpretation event: event_source event_rep event_listen event_notify event_notify_additional
  by unfold_locales (rule event_listen_spec event_notify_spec event_notify_additional_spec event_rep_ok; assumption)+

section \<open>Histories\<close>

text \<open>
  One call on an event or on one of its live listeners, named by the entry it owns. The
  abstract system lets a new listener have any entry that no live listener owns.
\<close>

datatype event_op =
    OpListen
  | OpNotify nat
  | OpNotifyAdditional nat
  | OpPoll nat waker
  | OpDropListener nat
  | OpDiscard nat

datatype event_res = ResListener nat | ResWoken "wakeup list" | ResPolled bool | ResDiscarded bool

fun event_call :: "(waker \<Rightarrow> waker \<Rightarrow> bool) \<Rightarrow> event \<Rightarrow> event_op \<Rightarrow> (event \<times> event_res) fallible" where
  "event_call ww ev OpListen =
     bind_fallible (event_listen ev) (\<lambda>(ev', l). case lis_entry l of None \<Rightarrow> Inl ExpectNone | Some a \<Rightarrow> Inr (ev', ResListener a))"
| "event_call ww ev (OpNotify n) = bind_fallible (event_notify ev n) (\<lambda>(ev', ws). Inr (ev', ResWoken ws))"
| "event_call ww ev (OpNotifyAdditional n) = bind_fallible (event_notify_additional ev n) (\<lambda>(ev', ws). Inr (ev', ResWoken ws))"
| "event_call ww ev (OpPoll a cx) =
     bind_fallible (listener_poll ww (event_inner_of ev) \<lparr>lis_entry = Some a\<rparr> cx) (\<lambda>(i, l, b). Inr (Some i, ResPolled b))"
| "event_call ww ev (OpDropListener a) =
     bind_fallible (listener_drop (event_inner_of ev) \<lparr>lis_entry = Some a\<rparr>) (\<lambda>(i, ws). Inr (Some i, ResWoken ws))"
| "event_call ww ev (OpDiscard a) =
     bind_fallible (listener_discard (event_inner_of ev) \<lparr>lis_entry = Some a\<rparr>) (\<lambda>(i, l, b). Inr (Some i, ResDiscarded b))"

inductive spec_event :: "(waker \<Rightarrow> waker \<Rightarrow> bool) \<Rightarrow> listeners \<Rightarrow> event_op \<Rightarrow> event_res \<Rightarrow> listeners \<Rightarrow> bool"
  for ww where
  listen: "a \<notin> fst ` set es \<Longrightarrow> spec_event ww es OpListen (ResListener a) (es @ [(a, Created)])"
| notify: "m = n - notified_count es \<Longrightarrow>
    spec_event ww es (OpNotify n) (ResWoken (spec_wakeups m es)) (spec_mark False m es)"
| notify_additional: "spec_event ww es (OpNotifyAdditional n) (ResWoken (spec_wakeups n es)) (spec_mark True n es)"
| poll_ready: "(a, s) \<in> set es \<Longrightarrow> is_notified s \<Longrightarrow>
    spec_event ww es (OpPoll a cx) (ResPolled True) (spec_remove a es)"
| poll_pending: "(a, s) \<in> set es \<Longrightarrow> \<not> is_notified s \<Longrightarrow>
    spec_event ww es (OpPoll a cx) (ResPolled False) (spec_set a (poll_state ww s cx) es)"
| drop: "(a, s) \<in> set es \<Longrightarrow> spec_drop s (spec_remove a es) = (es', ws) \<Longrightarrow>
    spec_event ww es (OpDropListener a) (ResWoken ws) es'"
| discard: "(a, s) \<in> set es \<Longrightarrow> spec_event ww es (OpDiscard a) (ResDiscarded (is_notified s)) (spec_remove a es)"

inductive_cases spec_event_dropE: "spec_event ww es (OpDropListener a) r es'"
inductive_cases spec_event_pollE: "spec_event ww es (OpPoll a cx) r es'"

text \<open>A call is possible when its listener is live, is not blocked in \<open>wait\<close>, and the entries fit in memory.\<close>

fun event_op_ok :: "listeners \<Rightarrow> event_op \<Rightarrow> bool" where
  "event_op_ok es OpListen = (length es < usize_max)"
| "event_op_ok es (OpPoll a cx) = (\<exists>s. (a, s) \<in> set es \<and> (\<forall>t. s \<noteq> Waiting t))"
| "event_op_ok es (OpDropListener a) = (a \<in> fst ` set es)"
| "event_op_ok es (OpDiscard a) = (a \<in> fst ` set es)"
| "event_op_ok es _ = True"

lemma live_inner:
  assumes "event_rep ev es" "e \<in> set es"
  shows "\<exists>i. ev = Some i \<and> inner_rep i es"
  using assms by (cases ev) (auto simp: event_rep_def)

lemma event_call_refines:
  assumes rep: "event_rep ev es" and ok: "event_op_ok es p"
  shows "\<exists>ev' r es'. event_call ww ev p = Inr (ev', r) \<and> spec_event ww es p r es' \<and> event_rep ev' es'"
proof (cases p)
  case OpListen
  with event.listen_spec [OF rep] ok show ?thesis by (force intro: spec_event.listen)
next
  case (OpNotify n)
  with event.notify_spec [OF rep, of n] show ?thesis by (force intro: spec_event.notify)
next
  case (OpNotifyAdditional n)
  with event.notify_additional_spec [OF rep, of n] show ?thesis by (force intro: spec_event.notify_additional)
next
  case (OpPoll a cx)
  with ok obtain s where s: "(a, s) \<in> set es" "\<nexists>t. s = Waiting t" by auto
  obtain i where i: "ev = Some i" "inner_rep i es" using live_inner [OF rep s(1)] by blast
  show ?thesis
  proof (cases "is_notified s")
    case True
    from listener_poll_ready [OF i(2) _ s(1) True, of "\<lparr>lis_entry = Some a\<rparr>" ww cx] obtain i' where
      "listener_poll ww i \<lparr>lis_entry = Some a\<rparr> cx = Inr (i', \<lparr>lis_entry = None\<rparr>, True)" "inner_rep i' (spec_remove a es)" by auto
    with spec_event.poll_ready [OF s(1) True, of ww cx] show ?thesis
      by (intro exI [of _ "Some i'"] exI [of _ "ResPolled True"] exI [of _ "spec_remove a es"])
        (simp add: OpPoll i(1) event_inner_of_def event_rep_def)
  next
    case False
    from listener_poll_pending [OF i(2) _ s(1) False s(2), of "\<lparr>lis_entry = Some a\<rparr>" ww cx] obtain i' where
      "listener_poll ww i \<lparr>lis_entry = Some a\<rparr> cx = Inr (i', \<lparr>lis_entry = Some a\<rparr>, False)"
      "inner_rep i' (spec_set a (poll_state ww s cx) es)" by auto
    with spec_event.poll_pending [OF s(1) False, of ww cx] show ?thesis
      by (intro exI [of _ "Some i'"] exI [of _ "ResPolled False"] exI [of _ "spec_set a (poll_state ww s cx) es"])
        (simp add: OpPoll i(1) event_inner_of_def event_rep_def)
  qed
next
  case (OpDropListener a)
  with ok obtain s where s: "(a, s) \<in> set es" by auto
  obtain i where i: "ev = Some i" "inner_rep i es" using live_inner [OF rep s(1)] by blast
  obtain es' ws where d: "spec_drop s (spec_remove a es) = (es', ws)" by fastforce
  from listener_drop_spec [OF i(2) _ s, of "\<lparr>lis_entry = Some a\<rparr>"] obtain i' where
    "listener_drop i \<lparr>lis_entry = Some a\<rparr> = Inr (i', ws)" "inner_rep i' es'" by (auto simp: d)
  with spec_event.drop [OF s d, of ww] show ?thesis
    by (intro exI [of _ "Some i'"] exI [of _ "ResWoken ws"] exI [of _ es'])
      (simp add: OpDropListener i(1) event_inner_of_def event_rep_def)
next
  case (OpDiscard a)
  with ok obtain s where s: "(a, s) \<in> set es" by auto
  obtain i where i: "ev = Some i" "inner_rep i es" using live_inner [OF rep s(1)] by blast
  from listener_discard_spec [OF i(2) _ s, of "\<lparr>lis_entry = Some a\<rparr>"] obtain i' where
    "listener_discard i \<lparr>lis_entry = Some a\<rparr> = Inr (i', \<lparr>lis_entry = None\<rparr>, is_notified s)" "inner_rep i' (spec_remove a es)" by auto
  with spec_event.discard [OF s, of ww] show ?thesis
    by (intro exI [of _ "Some i'"] exI [of _ "ResDiscarded (is_notified s)"] exI [of _ "spec_remove a es"])
      (simp add: OpDiscard i(1) event_inner_of_def event_rep_def)
qed

lemma event_new_rep: "event_rep event_new []"
  by (simp add: event_rep_def event_new_def)

lemma fst_spec_remove: "fst ` set (spec_remove a es) = fst ` set es - {a}"
  by (auto simp: spec_remove_def)

lemma count_remove:
  assumes "distinct (map fst es)" "(a, s) \<in> set es"
  shows "notified_count es = notified_count (spec_remove a es) + (if is_notified s then 1 else 0)"
    "length es = Suc (length (spec_remove a es))"
proof -
  obtain xs ys where es: "es = xs @ (a, s) # ys" using assms(2) by (meson split_list)
  then have "a \<notin> fst ` set xs" "a \<notin> fst ` set ys" using assms(1) by auto
  then show "notified_count es = notified_count (spec_remove a es) + (if is_notified s then 1 else 0)"
    "length es = Suc (length (spec_remove a es))" by (simp_all add: es)
qed

lemma spec_drop_count:
  assumes "is_notified s"
  shows "min 1 (length es) \<le> notified_count (fst (spec_drop s es))"
    "s = Notified True \<Longrightarrow> notified_count (fst (spec_drop s es)) = min (notified_count es + 1) (length es)"
proof -
  obtain b where s: "s = Notified b" using assms by (cases s) auto
  show "min 1 (length es) \<le> notified_count (fst (spec_drop s es))"
    by (cases b; cases "notified_count es") (simp_all add: s notified_count_mark min_def)
  show "s = Notified True \<Longrightarrow> notified_count (fst (spec_drop s es)) = min (notified_count es + 1) (length es)"
    by (simp add: notified_count_mark)
qed

section \<open>Properties\<close>

text \<open>
  (C16) Every call on a reachable event or on one of its live listeners returns: it follows
  no dangling pointer, underflows no counter and panics nowhere, and what it answers, whom
  it wakes and which listeners remain is what the abstract list of listeners prescribes.
\<close>

theorem event_calls_correct:
  assumes "event_rep ev es" and "event_op_ok es p"
  shows "\<exists>ev' r es'. event_call ww ev p = Inr (ev', r) \<and> spec_event ww es p r es' \<and> event_rep ev' es' \<and> listeners_ok es'"
  using event_call_refines [OF assms] event_rep_ok by blast

theorem event_calls_correct_witness:
  "\<exists>ev' r. event_call (=) event_new OpListen = Inr (ev', r) \<and> event_rep ev' [(0, Created)]"
proof -
  have "event_call (=) event_new OpListen = Inr (fst (the_elem {case event_call (=) event_new OpListen of Inr x \<Rightarrow> x}), ResListener 0)"
    by (simp add: event_new_def event_listen_def list_insert_def list_insert_alloc_def event_inner_of_def inner_new_def Let_def
        set_tail_def set_head_def set_start_def cache_ptr_def usize_max_def)
  then show ?thesis
    using event_calls_correct [OF event_new_rep, of OpListen "(=)"]
    by (auto simp: usize_max_def elim!: spec_event.cases)
qed

text \<open>
  (C17) \<open>notify(n)\<close> leaves at least \<open>n\<close> listeners notified, or all of them, and never takes a
  notification back; it notifies the oldest listeners and wakes exactly the wakers and
  threads of those it newly notified.
\<close>

theorem event_notify_correct:
  assumes "event_rep ev es"
  shows "\<exists>ev' es'. event_notify ev n = Inr (ev', concat (map (wakeup_of \<circ> snd)
       (take (n - notified_count es) (filter (\<lambda>e. \<not> is_notified (snd e)) es)))) \<and> event_rep ev' es' \<and>
     map fst es' = map fst es \<and> notified_count es' = max (notified_count es) (min n (length es)) \<and>
     (\<forall>k < length es. is_notified (snd (es' ! k)) \<longleftrightarrow> k < notified_count es')"
proof -
  obtain ev' es' where *: "event_notify ev n = Inr (ev', spec_wakeups (n - notified_count es) es)" "event_rep ev' es'"
    "map fst es' = map fst es" "notified_count es' = max (notified_count es) (min n (length es))"
    using event.notify_count [OF assms, of n] by blast
  have prefix: "is_notified (snd (es' ! k)) \<longleftrightarrow> k < notified_count es'" if "k < length es" for k
  proof -
    obtain ns us where "es' = ns @ us" "\<forall>e\<in>set ns. is_notified (snd e)" "\<forall>e\<in>set us. \<not> is_notified (snd e)"
      using event_rep_ok [OF *(2)] by (auto simp: listeners_ok_def)
    moreover have "k < length es'" using that *(3) by (metis length_map)
    ultimately show ?thesis using notified_count_split [of ns us] by (auto simp: nth_append)
  qed
  have "spec_wakeups m es = concat (map (wakeup_of \<circ> snd) (take m (filter (\<lambda>e. \<not> is_notified (snd e)) es)))" for m
    by (induction m es rule: spec_wakeups.induct) (auto split: nat.splits)
  with * prefix show ?thesis by auto
qed

theorem event_notify_correct_witness:
  "\<exists>ev'. event_notify event_new 3 = Inr (ev', []) \<and> event_rep ev' []"
  using event_notify_correct [OF event_new_rep, of 3] by auto

text \<open>
  (C18) No notification is lost with its listener: when a notified listener is dropped
  while others remain, one of them is notified afterwards; an additional notification
  moves to a listener that had none as long as there is one.
\<close>

theorem event_drop_passes_on:
  assumes "event_rep ev es" and "(a, s) \<in> set es" and "is_notified s"
  shows "\<exists>ev' ws es'. event_call ww ev (OpDropListener a) = Inr (ev', ResWoken ws) \<and> event_rep ev' es' \<and>
     fst ` set es' = fst ` set es - {a} \<and> (es' \<noteq> [] \<longrightarrow> 1 \<le> notified_count es') \<and>
     (s = Notified True \<longrightarrow> notified_count es' = min (notified_count es) (length es - 1))"
proof -
  have dis: "distinct (map fst es)" using event_rep_ok [OF assms(1)] by (simp add: listeners_ok_def)
  have "event_op_ok es (OpDropListener a)" using assms(2) by force
  from event_call_refines [OF assms(1) this, of ww] obtain ev' r es' where
    c: "event_call ww ev (OpDropListener a) = Inr (ev', r)" "spec_event ww es (OpDropListener a) r es'" "event_rep ev' es'" by blast
  from c(2) obtain s' ws where d: "(a, s') \<in> set es" "spec_drop s' (spec_remove a es) = (es', ws)" "r = ResWoken ws"
    by (rule spec_event_dropE)
  have s': "s' = s" using dis d(1) assms(2) by (meson eq_key_imp_eq_value)
  have e: "es' = fst (spec_drop s (spec_remove a es))" using d(2) s' by simp
  have fs: "map fst es' = map fst (spec_remove a es)"
    using assms(3) unfolding e by (cases "(s, spec_remove a es)" rule: spec_drop.cases) auto
  note cnt = count_remove [OF dis assms(2)]
  have "length es' = length (spec_remove a es)" using fs by (metis length_map)
  moreover have "fst ` set es' = fst ` set es - {a}"
    using fs fst_spec_remove [of a es] by (metis set_map)
  moreover have "es' \<noteq> [] \<longrightarrow> 1 \<le> notified_count es'"
    using spec_drop_count(1) [OF assms(3), of "spec_remove a es"] calculation(1) unfolding e [symmetric]
    by (cases es') (simp_all add: min_def split: if_splits)
  moreover have "s = Notified True \<longrightarrow> notified_count es' = min (notified_count es) (length es - 1)"
    using spec_drop_count(2) [OF assms(3), of "spec_remove a es"] cnt assms(3) unfolding e [symmetric] by simp
  ultimately show ?thesis using c(1,3) d(3) by blast
qed

theorem event_drop_passes_on_witness:
  "\<exists>ev es. event_rep ev es \<and> es = [(0, Notified False), (1, Created)] \<and>
    (\<exists>ev' ws. event_call (=) ev (OpDropListener 0) = Inr (ev', ResWoken ws) \<and> event_rep ev' [(1, Notified False)])"
proof -
  define i where "i = \<lparr>i_notified = 1,
     i_list = \<lparr>l_head = Some 0, l_tail = Some 1, l_start = Some 1, l_len = 2, l_notified = 1, l_cache_used = True\<rparr>,
     i_heap = [0 \<mapsto> \<lparr>e_state = Notified False, e_prev = None, e_next = Some 1\<rparr>,
               Suc 0 \<mapsto> \<lparr>e_state = Created, e_prev = Some 0, e_next = None\<rparr>], i_fresh = 2\<rparr>"
  have "list_rep i [(0, Notified False)] [(1, Created)]"
    by (auto simp: list_rep_def i_def cache_ptr_def usize_max_def)
  from guard_drop_rep [OF this] have rep: "event_rep (Some (guard_drop i)) [(0, Notified False), (1, Created)]"
    by (simp add: event_rep_def)
  obtain ev' ws es' where *: "event_call (=) (Some (guard_drop i)) (OpDropListener 0) = Inr (ev', ResWoken ws)" "event_rep ev' es'"
      "fst ` set es' = {1}" "es' \<noteq> [] \<longrightarrow> 1 \<le> notified_count es'"
    using event_drop_passes_on [OF rep, of 0 "Notified False" "(=)"] by auto
  obtain ev'' r es'' where **: "event_call (=) (Some (guard_drop i)) (OpDropListener 0) = Inr (ev'', r)"
      "spec_event (=) [(0, Notified False), (1, Created)] (OpDropListener 0) r es''" "event_rep ev'' es''"
    using event_call_refines [OF rep, of "OpDropListener 0" "(=)"] by auto
  from **(2) have "es'' = [(1, Notified False)]" by (rule spec_event_dropE) (auto simp: spec_remove_def)
  with rep * ** show ?thesis by auto
qed

text \<open> A thread blocked in \<open>wait\<close>, whatever the other threads do to the event meanwhile,
  never panics; it leaves the list exactly when it returns, and without a deadline it
  returns only because it was notified.
\<close>

lemma event_wait_safe:
  assumes "owned a i" and "\<forall>(x, f)\<in>set turns. \<forall>i. owned a i \<longrightarrow> owned a (f i)"
  shows "\<exists>i' r. wait_internal t turns i \<lparr>lis_entry = Some a\<rparr> = Inr (i', r) \<and>
    (if r = None then owned a i' else released a i') \<and> ((\<forall>(x, f)\<in>set turns. \<not> x) \<longrightarrow> r \<noteq> Some False)"
proof -
  obtain i' b where i': "wait_begin t i a = Inr (i', b)" "b \<Longrightarrow> released a i'" "\<not> b \<Longrightarrow> owned a i'"
    using wait_check_owned(3) [OF assms(1)] by blast
  have l: "\<exists>i'' r. wait_loop turns i' a = Inr (i'', r) \<and> (if r = None then owned a i'' else released a i'') \<and>
    ((\<forall>(x, f)\<in>set turns. \<not> x) \<longrightarrow> r \<noteq> Some False)" if "\<not> b"
    by (rule wait_loop_safe [OF i'(3) [OF that]]) (use assms(2) in blast)
  show ?thesis
  proof (cases b)
    case True
    with i' show ?thesis by (simp add: wait_internal_def)
  next
    case False
    with i'(1) l show ?thesis by (simp add: wait_internal_def)
  qed
qed

lemma event_wait_safe_witness:
  "\<exists>i i' r. wait_internal 7 [(False, \<lambda>i. i), (True, \<lambda>i. i)] i \<lparr>lis_entry = Some 0\<rparr> = Inr (i', r)"
proof -
  obtain ev' a where "event_listen event_new = Inr (ev', \<lparr>lis_entry = Some a\<rparr>)" "event_rep ev' ([] @ [(a, Created)])"
    using event_listen_spec [OF event_new_rep] by (auto simp: usize_max_def)
  moreover have "lis_entry (snd (case event_listen event_new of Inr x \<Rightarrow> x)) = Some 0"
    by (simp add: event_new_def event_listen_def list_insert_def list_insert_alloc_def event_inner_of_def inner_new_def Let_def
        set_tail_def set_head_def set_start_def cache_ptr_def usize_max_def)
  ultimately obtain i where "inner_rep i [(0, Created)]" by (cases ev') (auto simp: event_rep_def)
  then have "owned 0 i" by (auto simp: owned_def)
  from event_wait_safe [OF this, of "[(False, \<lambda>i. i), (True, \<lambda>i. i)]" 7] show ?thesis by auto
qed

end
