(* ===== verification/Channel.thy ===== *)
theory Channel
  imports Concurrent_Queue Event_Listener
begin

text \<open>
  Channels (src/cynthia/src/platform/channel/channel.rs): a queue, three events and two
  reference counts. The operations call the models of the queue and of the events; their
  lemmas use only the interfaces \<open>fifo\<close> and \<open>event_source\<close>. A result carries the wake-ups
  that the call performs, in order. The futures of \<open>send\<close> and \<open>recv\<close> and the stream of a
  receiver are modelled one poll at a time for a thread that runs alone; fuel counts the
  turns of their loops, and the theorems show that the fuel chosen is enough.
\<close>

section \<open>State\<close>

record 'a channel =
  ch_queue :: "'a concurrent_queue"
  send_ops :: event
  recv_ops :: event
  stream_ops :: event
  sender_count :: nat
  receiver_count :: nat

datatype 'a try_send_error = SendFull 'a | SendClosed 'a

datatype try_recv_error = RecvEmpty | RecvClosed

fun try_send_error_into_inner :: "'a try_send_error \<Rightarrow> 'a" where
  "try_send_error_into_inner (SendFull t) = t"
| "try_send_error_into_inner (SendClosed t) = t"

fun try_send_error_is_full :: "'a try_send_error \<Rightarrow> bool" where
  "try_send_error_is_full (SendFull _) = True"
| "try_send_error_is_full (SendClosed _) = False"

fun try_send_error_is_closed :: "'a try_send_error \<Rightarrow> bool" where
  "try_send_error_is_closed (SendFull _) = False"
| "try_send_error_is_closed (SendClosed _) = True"

fun try_recv_error_is_empty :: "try_recv_error \<Rightarrow> bool" where
  "try_recv_error_is_empty RecvEmpty = True"
| "try_recv_error_is_empty RecvClosed = False"

fun try_recv_error_is_closed :: "try_recv_error \<Rightarrow> bool" where
  "try_recv_error_is_closed RecvEmpty = False"
| "try_recv_error_is_closed RecvClosed = True"

text \<open>A queue call that hangs or touches dead memory ends the channel call.\<close>

definition queue_result :: "'r option \<Rightarrow> 'r fallible" where
  "queue_result r = (case r of None \<Rightarrow> Inl Dangling | Some x \<Rightarrow> Inr x)"

definition notify_send :: "'a channel \<Rightarrow> nat \<Rightarrow> ('a channel \<times> wakeup list) fallible" where
  "notify_send c n = bind_fallible (event_notify (send_ops c) n) (\<lambda>(ev, ws). Inr (c\<lparr>send_ops := ev\<rparr>, ws))"

definition notify_recv :: "'a channel \<Rightarrow> nat \<Rightarrow> ('a channel \<times> wakeup list) fallible" where
  "notify_recv c n = bind_fallible (event_notify (recv_ops c) n) (\<lambda>(ev, ws). Inr (c\<lparr>recv_ops := ev\<rparr>, ws))"

definition notify_stream :: "'a channel \<Rightarrow> nat \<Rightarrow> ('a channel \<times> wakeup list) fallible" where
  "notify_stream c n = bind_fallible (event_notify (stream_ops c) n) (\<lambda>(ev, ws). Inr (c\<lparr>stream_ops := ev\<rparr>, ws))"

definition channel_new :: "'a concurrent_queue \<Rightarrow> 'a channel" where
  "channel_new q = \<lparr>ch_queue = q, send_ops = event_new, recv_ops = event_new, stream_ops = event_new,
     sender_count = 1, receiver_count = 1\<rparr>"

definition channel_bounded :: "nat \<Rightarrow> usize \<Rightarrow> 'a channel fallible" where
  "channel_bounded slot_size cap =
     (if 0 < cap then bind_fallible (queue_bounded slot_size cap) (\<lambda>q. Inr (channel_new q)) else Inl AssertFailed)"

definition channel_unbounded :: "'a channel" where
  "channel_unbounded = channel_new queue_unbounded"

section \<open>Operations\<close>

definition channel_close :: "'a channel \<Rightarrow> ('a channel \<times> wakeup list \<times> bool) fallible" where
  "channel_close c =
     (case queue_close (ch_queue c) of (q, fresh) \<Rightarrow>
      if fresh then
        bind_fallible (notify_send (c\<lparr>ch_queue := q\<rparr>) usize_max) (\<lambda>(c1, ws1).
        bind_fallible (notify_recv c1 usize_max) (\<lambda>(c2, ws2).
        bind_fallible (notify_stream c2 usize_max) (\<lambda>(c3, ws3). Inr (c3, ws1 @ ws2 @ ws3, True))))
      else Inr (c\<lparr>ch_queue := q\<rparr>, [], False))"

text \<open>\<open>bs\<close> are the spurious compare-exchange failures of the queue call.\<close>

definition try_send :: "bool list \<Rightarrow> 'a channel \<Rightarrow> 'a \<Rightarrow> ('a channel \<times> wakeup list \<times> ('a try_send_error + unit)) fallible" where
  "try_send bs c msg =
     bind_fallible (queue_result (queue_push bs (ch_queue c) msg)) (\<lambda>(q, r).
     let c0 = c\<lparr>ch_queue := q\<rparr> in
     case r of
       Inr _ \<Rightarrow>
         bind_fallible (notify_recv c0 1) (\<lambda>(c1, ws1).
         bind_fallible (notify_stream c1 usize_max) (\<lambda>(c2, ws2). Inr (c2, ws1 @ ws2, Inr ())))
     | Inl (PushFull m) \<Rightarrow> Inr (c0, [], Inl (SendFull m))
     | Inl (PushClosed m) \<Rightarrow> Inr (c0, [], Inl (SendClosed m)))"

definition try_recv :: "bool list \<Rightarrow> 'a channel \<Rightarrow> ('a channel \<times> wakeup list \<times> (try_recv_error + 'a)) fallible" where
  "try_recv bs c =
     bind_fallible (queue_result (queue_pop bs (ch_queue c))) (\<lambda>(q, r).
     let c0 = c\<lparr>ch_queue := q\<rparr> in
     case r of
       Inr msg \<Rightarrow> bind_fallible (notify_send c0 1) (\<lambda>(c1, ws). Inr (c1, ws, Inr msg))
     | Inl PopEmpty \<Rightarrow> Inr (c0, [], Inl RecvEmpty)
     | Inl PopClosed \<Rightarrow> Inr (c0, [], Inl RecvClosed))"

definition channel_is_closed :: "'a channel \<Rightarrow> bool" where "channel_is_closed c = queue_is_closed (ch_queue c)"
definition channel_is_empty :: "'a channel \<Rightarrow> bool" where "channel_is_empty c = queue_is_empty (ch_queue c)"
definition channel_is_full :: "'a channel \<Rightarrow> bool" where "channel_is_full c = queue_is_full (ch_queue c)"
definition channel_len :: "'a channel \<Rightarrow> nat option" where "channel_len c = queue_len (ch_queue c)"
definition channel_capacity :: "'a channel \<Rightarrow> nat option" where "channel_capacity c = queue_capacity (ch_queue c)"

text \<open>Cloning counts the handle; more than \<open>usize::MAX / 2\<close> handles abort the process.\<close>

definition sender_clone :: "'a channel \<Rightarrow> 'a channel fallible" where
  "sender_clone c =
     (let count = sender_count c; c' = c\<lparr>sender_count := count + 1\<rparr> in
      if count > usize_max div 2 then Inl Aborted else Inr c')"

definition receiver_clone :: "'a channel \<Rightarrow> 'a channel fallible" where
  "receiver_clone c =
     (let count = receiver_count c; c' = c\<lparr>receiver_count := count + 1\<rparr> in
      if count > usize_max div 2 then Inl Aborted else Inr c')"

definition sender_drop :: "'a channel \<Rightarrow> ('a channel \<times> wakeup list) fallible" where
  "sender_drop c =
     (let count = sender_count c; c' = c\<lparr>sender_count := count - 1\<rparr> in
      if count = 1 then bind_fallible (channel_close c') (\<lambda>(c'', ws, _). Inr (c'', ws)) else Inr (c', []))"

text \<open>A listener field or local is dropped, or polled, on the event it belongs to.\<close>

definition drop_listener :: "event \<Rightarrow> event_listener option \<Rightarrow> (event \<times> wakeup list) fallible" where
  "drop_listener ev l =
     (case l of None \<Rightarrow> Inr (ev, [])
      | Some l' \<Rightarrow> bind_fallible (listener_drop (event_inner_of ev) l') (\<lambda>(i, ws). Inr (Some i, ws)))"

definition poll_listener :: "(waker \<Rightarrow> waker \<Rightarrow> bool) \<Rightarrow> event \<Rightarrow> event_listener \<Rightarrow> waker \<Rightarrow> (event \<times> event_listener \<times> bool) fallible" where
  "poll_listener ww ev l cx =
     bind_fallible (listener_poll ww (event_inner_of ev) l cx) (\<lambda>(i, l', ready). Inr (Some i, l', ready))"

text \<open>A receiver also owns the listener of its stream; it is dropped with the receiver.\<close>

definition receiver_drop :: "'a channel \<Rightarrow> event_listener option \<Rightarrow> ('a channel \<times> wakeup list) fallible" where
  "receiver_drop c listener =
     (let count = receiver_count c; c' = c\<lparr>receiver_count := count - 1\<rparr> in
      bind_fallible (if count = 1 then bind_fallible (channel_close c') (\<lambda>(c'', ws, _). Inr (c'', ws)) else Inr (c', [])) (\<lambda>(c1, ws1).
      bind_fallible (drop_listener (stream_ops c1) listener) (\<lambda>(ev, ws2). Inr (c1\<lparr>stream_ops := ev\<rparr>, ws1 @ ws2))))"

section \<open>Asynchronous operations\<close>

text \<open>
  How a poll of a loop ends: with a value, suspended on a listener, or out of fuel. The
  local \<open>listener\<close> is dropped when \<open>send\<close> or \<open>recv\<close> returns.
\<close>

datatype ('l, 'r) progress = Finished 'r | Suspended 'l | OutOfFuel

text \<open>
  \<open>send\<close> from the head of the loop. The listener's event may notify in the same turn, when
  the value is sent: \<open>send_ops\<close> is notified once more unless the capacity is one.
\<close>

definition send_done :: "'a channel \<Rightarrow> event_listener option \<Rightarrow> ('a channel \<times> wakeup list) fallible" where
  "send_done c listener =
     bind_fallible (if channel_capacity c = Some 1 then Inr (c, []) else notify_send c 1) (\<lambda>(c1, ws1).
     bind_fallible (drop_listener (send_ops c1) listener) (\<lambda>(ev, ws2). Inr (c1\<lparr>send_ops := ev\<rparr>, ws1 @ ws2)))"

fun send_loop :: "nat \<Rightarrow> (waker \<Rightarrow> waker \<Rightarrow> bool) \<Rightarrow> bool list \<Rightarrow> 'a channel \<Rightarrow> 'a \<Rightarrow> event_listener option \<Rightarrow> waker \<Rightarrow>
    ('a channel \<times> wakeup list \<times> ('a \<times> event_listener, 'a + unit) progress) fallible" where
  "send_loop 0 ww bs c msg listener cx = Inr (c, [], OutOfFuel)"
| "send_loop (Suc n) ww bs c msg listener cx =
     bind_fallible (try_send bs c msg) (\<lambda>(c1, ws1, r).
     case r of
       Inr _ \<Rightarrow> bind_fallible (send_done c1 listener) (\<lambda>(c2, ws2). Inr (c2, ws1 @ ws2, Finished (Inr ())))
     | Inl (SendClosed m) \<Rightarrow>
         bind_fallible (drop_listener (send_ops c1) listener) (\<lambda>(ev, ws2).
         Inr (c1\<lparr>send_ops := ev\<rparr>, ws1 @ ws2, Finished (Inl m)))
     | Inl (SendFull m) \<Rightarrow>
         (case listener of
            None \<Rightarrow>
              bind_fallible (event_listen (send_ops c1)) (\<lambda>(ev, l).
              bind_fallible (send_loop n ww bs (c1\<lparr>send_ops := ev\<rparr>) m (Some l) cx) (\<lambda>(c2, ws2, p). Inr (c2, ws1 @ ws2, p)))
          | Some l \<Rightarrow>
              bind_fallible (poll_listener ww (send_ops c1) l cx) (\<lambda>(ev, l', ready).
              if ready
              then bind_fallible (send_loop n ww bs (c1\<lparr>send_ops := ev\<rparr>) m None cx) (\<lambda>(c2, ws2, p). Inr (c2, ws1 @ ws2, p))
              else Inr (c1\<lparr>send_ops := ev\<rparr>, ws1, Suspended (m, l')))))"

definition send_fuel :: nat where "send_fuel = 3"

definition send_start :: "(waker \<Rightarrow> waker \<Rightarrow> bool) \<Rightarrow> bool list \<Rightarrow> 'a channel \<Rightarrow> 'a \<Rightarrow> waker \<Rightarrow>
    ('a channel \<times> wakeup list \<times> ('a \<times> event_listener, 'a + unit) progress) fallible" where
  "send_start ww bs c msg cx = send_loop send_fuel ww bs c msg None cx"

definition send_resume :: "(waker \<Rightarrow> waker \<Rightarrow> bool) \<Rightarrow> bool list \<Rightarrow> 'a channel \<Rightarrow> 'a \<times> event_listener \<Rightarrow> waker \<Rightarrow>
    ('a channel \<times> wakeup list \<times> ('a \<times> event_listener, 'a + unit) progress) fallible" where
  "send_resume ww bs c st cx =
     (case st of (msg, l) \<Rightarrow>
      bind_fallible (poll_listener ww (send_ops c) l cx) (\<lambda>(ev, l', ready).
      if ready then send_loop send_fuel ww bs (c\<lparr>send_ops := ev\<rparr>) msg None cx
      else Inr (c\<lparr>send_ops := ev\<rparr>, [], Suspended (msg, l'))))"

definition recv_done :: "'a channel \<Rightarrow> event_listener option \<Rightarrow> ('a channel \<times> wakeup list) fallible" where
  "recv_done c listener =
     bind_fallible (if channel_capacity c = Some 1 then Inr (c, []) else notify_recv c 1) (\<lambda>(c1, ws1).
     bind_fallible (drop_listener (recv_ops c1) listener) (\<lambda>(ev, ws2). Inr (c1\<lparr>recv_ops := ev\<rparr>, ws1 @ ws2)))"

text \<open>\<open>recv\<close>; an error of \<open>recv\<close> carries no value.\<close>

fun recv_loop :: "nat \<Rightarrow> (waker \<Rightarrow> waker \<Rightarrow> bool) \<Rightarrow> bool list \<Rightarrow> 'a channel \<Rightarrow> event_listener option \<Rightarrow> waker \<Rightarrow>
    ('a channel \<times> wakeup list \<times> (event_listener, unit + 'a) progress) fallible" where
  "recv_loop 0 ww bs c listener cx = Inr (c, [], OutOfFuel)"
| "recv_loop (Suc n) ww bs c listener cx =
     bind_fallible (try_recv bs c) (\<lambda>(c1, ws1, r).
     case r of
       Inr msg \<Rightarrow> bind_fallible (recv_done c1 listener) (\<lambda>(c2, ws2). Inr (c2, ws1 @ ws2, Finished (Inr msg)))
     | Inl RecvClosed \<Rightarrow>
         bind_fallible (drop_listener (recv_ops c1) listener) (\<lambda>(ev, ws2).
         Inr (c1\<lparr>recv_ops := ev\<rparr>, ws1 @ ws2, Finished (Inl ())))
     | Inl RecvEmpty \<Rightarrow>
         (case listener of
            None \<Rightarrow>
              bind_fallible (event_listen (recv_ops c1)) (\<lambda>(ev, l).
              bind_fallible (recv_loop n ww bs (c1\<lparr>recv_ops := ev\<rparr>) (Some l) cx) (\<lambda>(c2, ws2, p). Inr (c2, ws1 @ ws2, p)))
          | Some l \<Rightarrow>
              bind_fallible (poll_listener ww (recv_ops c1) l cx) (\<lambda>(ev, l', ready).
              if ready
              then bind_fallible (recv_loop n ww bs (c1\<lparr>recv_ops := ev\<rparr>) None cx) (\<lambda>(c2, ws2, p). Inr (c2, ws1 @ ws2, p))
              else Inr (c1\<lparr>recv_ops := ev\<rparr>, ws1, Suspended l'))))"

definition recv_start :: "(waker \<Rightarrow> waker \<Rightarrow> bool) \<Rightarrow> bool list \<Rightarrow> 'a channel \<Rightarrow> waker \<Rightarrow>
    ('a channel \<times> wakeup list \<times> (event_listener, unit + 'a) progress) fallible" where
  "recv_start ww bs c cx = recv_loop send_fuel ww bs c None cx"

definition recv_resume :: "(waker \<Rightarrow> waker \<Rightarrow> bool) \<Rightarrow> bool list \<Rightarrow> 'a channel \<Rightarrow> event_listener \<Rightarrow> waker \<Rightarrow>
    ('a channel \<times> wakeup list \<times> (event_listener, unit + 'a) progress) fallible" where
  "recv_resume ww bs c l cx =
     bind_fallible (poll_listener ww (recv_ops c) l cx) (\<lambda>(ev, l', ready).
     if ready then recv_loop send_fuel ww bs (c\<lparr>recv_ops := ev\<rparr>) None cx
     else Inr (c\<lparr>recv_ops := ev\<rparr>, [], Suspended l'))"

text \<open>
  \<open>Stream::poll_next\<close> of a receiver: \<open>next_inner\<close> is the inner loop, \<open>next_loop\<close> the outer
  one. The listener stays in the receiver between polls and is dropped when an item or the
  end is found.
\<close>

fun next_inner :: "nat \<Rightarrow> bool list \<Rightarrow> 'a channel \<Rightarrow> event_listener option \<Rightarrow>
    ('a channel \<times> wakeup list \<times> (event_listener, 'a option) progress) fallible" where
  "next_inner 0 bs c listener = Inr (c, [], OutOfFuel)"
| "next_inner (Suc n) bs c listener =
     bind_fallible (try_recv bs c) (\<lambda>(c1, ws1, r).
     case r of
       Inr msg \<Rightarrow>
         bind_fallible (drop_listener (stream_ops c1) listener) (\<lambda>(ev, ws2).
         Inr (c1\<lparr>stream_ops := ev\<rparr>, ws1 @ ws2, Finished (Some msg)))
     | Inl RecvClosed \<Rightarrow>
         bind_fallible (drop_listener (stream_ops c1) listener) (\<lambda>(ev, ws2).
         Inr (c1\<lparr>stream_ops := ev\<rparr>, ws1 @ ws2, Finished None))
     | Inl RecvEmpty \<Rightarrow>
         (case listener of
            None \<Rightarrow>
              bind_fallible (event_listen (stream_ops c1)) (\<lambda>(ev, l).
              bind_fallible (next_inner n bs (c1\<lparr>stream_ops := ev\<rparr>) (Some l)) (\<lambda>(c2, ws2, p). Inr (c2, ws1 @ ws2, p)))
          | Some l \<Rightarrow> Inr (c1, ws1, Suspended l)))"

fun next_loop :: "nat \<Rightarrow> (waker \<Rightarrow> waker \<Rightarrow> bool) \<Rightarrow> bool list \<Rightarrow> 'a channel \<Rightarrow> event_listener option \<Rightarrow> waker \<Rightarrow>
    ('a channel \<times> wakeup list \<times> (event_listener, 'a option) progress) fallible" where
  "next_loop 0 ww bs c listener cx = Inr (c, [], OutOfFuel)"
| "next_loop (Suc n) ww bs c listener cx =
     bind_fallible (case listener of
         None \<Rightarrow> Inr (stream_ops c, None)
       | Some l \<Rightarrow> bind_fallible (poll_listener ww (stream_ops c) l cx) (\<lambda>(ev, l', ready).
           Inr (ev, if ready then None else Some l'))) (\<lambda>(ev, pending).
     case pending of
       Some l \<Rightarrow> Inr (c\<lparr>stream_ops := ev\<rparr>, [], Suspended l)
     | None \<Rightarrow>
         bind_fallible (next_inner 2 bs (c\<lparr>stream_ops := ev\<rparr>) None) (\<lambda>(c1, ws1, p).
         case p of
           Suspended l \<Rightarrow> bind_fallible (next_loop n ww bs c1 (Some l) cx) (\<lambda>(c2, ws2, p'). Inr (c2, ws1 @ ws2, p'))
         | _ \<Rightarrow> Inr (c1, ws1, p)))"

definition receiver_poll_next :: "(waker \<Rightarrow> waker \<Rightarrow> bool) \<Rightarrow> bool list \<Rightarrow> 'a channel \<Rightarrow> event_listener option \<Rightarrow> waker \<Rightarrow>
    ('a channel \<times> wakeup list \<times> (event_listener, 'a option) progress) fallible" where
  "receiver_poll_next ww bs c listener cx = next_loop 2 ww bs c listener cx"

section \<open>Contracts of the operations\<close>

text \<open>
  \<open>ss\<close>, \<open>rs\<close> and \<open>ts\<close> are the listeners of the three events. \<open>noted n\<close> and \<open>woken n\<close> are the
  effect of \<open>notify(n)\<close> on a list of listeners.
\<close>

definition channel_rep :: "'a channel \<Rightarrow> listeners \<Rightarrow> listeners \<Rightarrow> listeners \<Rightarrow> bool" where
  "channel_rep c ss rs ts \<longleftrightarrow> queue_inv (ch_queue c) \<and> event_rep (send_ops c) ss \<and> event_rep (recv_ops c) rs \<and>
     event_rep (stream_ops c) ts"

abbreviation channel_contents :: "'a channel \<Rightarrow> 'a list" where
  "channel_contents c \<equiv> queue_contents (ch_queue c)"

definition channel_room :: "'a channel \<Rightarrow> bool" where
  "channel_room c \<longleftrightarrow> queue_room (ch_queue c)"

definition noted :: "nat \<Rightarrow> listeners \<Rightarrow> listeners" where
  "noted n es = spec_mark False (n - notified_count es) es"

definition woken :: "nat \<Rightarrow> listeners \<Rightarrow> wakeup list" where
  "woken n es = spec_wakeups (n - notified_count es) es"

lemma channel_repD:
  assumes "channel_rep c ss rs ts"
  shows "queue_inv (ch_queue c)" "event_rep (send_ops c) ss" "event_rep (recv_ops c) rs" "event_rep (stream_ops c) ts"
  using assms by (simp_all add: channel_rep_def)

lemma notify_spec:
  shows "event_rep (send_ops c) ss \<Longrightarrow> \<exists>ev. notify_send c n = Inr (c\<lparr>send_ops := ev\<rparr>, woken n ss) \<and> event_rep ev (noted n ss)"
    "event_rep (recv_ops c) rs \<Longrightarrow> \<exists>ev. notify_recv c n = Inr (c\<lparr>recv_ops := ev\<rparr>, woken n rs) \<and> event_rep ev (noted n rs)"
    "event_rep (stream_ops c) ts \<Longrightarrow> \<exists>ev. notify_stream c n = Inr (c\<lparr>stream_ops := ev\<rparr>, woken n ts) \<and> event_rep ev (noted n ts)"
  unfolding notify_send_def notify_recv_def notify_stream_def noted_def woken_def
  using event.notify_spec by fastforce+

lemma channel_close_spec:
  assumes "channel_rep c ss rs ts"
  shows "\<exists>c' ws. channel_close c = Inr (c', ws, \<not> channel_is_closed c) \<and> channel_is_closed c' \<and>
    channel_contents c' = channel_contents c \<and> channel_capacity c' = channel_capacity c \<and>
    sender_count c' = sender_count c \<and> receiver_count c' = receiver_count c \<and>
    (if channel_is_closed c then channel_rep c' ss rs ts \<and> ws = []
     else channel_rep c' (noted usize_max ss) (noted usize_max rs) (noted usize_max ts) \<and>
       ws = woken usize_max ss @ woken usize_max rs @ woken usize_max ts)"
proof -
  note r = channel_repD [OF assms]
  obtain q where q: "queue_close (ch_queue c) = (q, \<not> queue_is_closed (ch_queue c))" "queue_inv q" "queue_is_closed q"
    "queue_capacity q = queue_capacity (ch_queue c)" "queue_contents q = channel_contents c"
    using cq.close_spec [OF r(1)] by blast
  let ?c0 = "c\<lparr>ch_queue := q\<rparr>"
  show ?thesis
  proof (cases "channel_is_closed c")
    case True
    with q r show ?thesis
      by (simp add: channel_close_def channel_is_closed_def channel_capacity_def channel_rep_def)
  next
    case False
    have "event_rep (send_ops ?c0) ss" using r(2) by simp
    from notify_spec(1) [OF this, of usize_max] obtain e1 where
      n1: "notify_send ?c0 usize_max = Inr (?c0\<lparr>send_ops := e1\<rparr>, woken usize_max ss)" "event_rep e1 (noted usize_max ss)" by blast
    let ?c1 = "?c0\<lparr>send_ops := e1\<rparr>"
    have "event_rep (recv_ops ?c1) rs" using r(3) by simp
    from notify_spec(2) [OF this, of usize_max] obtain e2 where
      n2: "notify_recv ?c1 usize_max = Inr (?c1\<lparr>recv_ops := e2\<rparr>, woken usize_max rs)" "event_rep e2 (noted usize_max rs)" by blast
    let ?c2 = "?c1\<lparr>recv_ops := e2\<rparr>"
    have "event_rep (stream_ops ?c2) ts" using r(4) by simp
    from notify_spec(3) [OF this, of usize_max] obtain e3 where
      n3: "notify_stream ?c2 usize_max = Inr (?c2\<lparr>stream_ops := e3\<rparr>, woken usize_max ts)" "event_rep e3 (noted usize_max ts)" by blast
    show ?thesis using False q n1 n2 n3
      by (simp add: channel_close_def channel_is_closed_def channel_capacity_def channel_rep_def)
  qed
qed

text \<open>What a call leaves alone.\<close>

definition same_channel :: "'a channel \<Rightarrow> 'a channel \<Rightarrow> bool" where
  "same_channel c c' \<longleftrightarrow> channel_is_closed c' = channel_is_closed c \<and> channel_capacity c' = channel_capacity c \<and>
     sender_count c' = sender_count c \<and> receiver_count c' = receiver_count c"

lemmas channel_obs = channel_is_closed_def channel_capacity_def channel_room_def same_channel_def

lemma try_send_ok:
  assumes "channel_rep c ss rs ts" "channel_room c" "\<not> channel_is_closed c"
    "channel_capacity c \<noteq> Some (length (channel_contents c))"
  shows "\<exists>c'. try_send bs c msg = Inr (c', woken 1 rs @ woken usize_max ts, Inr ()) \<and>
    channel_rep c' ss (noted 1 rs) (noted usize_max ts) \<and> channel_contents c' = channel_contents c @ [msg] \<and> same_channel c c'"
proof -
  note r = channel_repD [OF assms(1)]
  have sp: "spec_push (queue_capacity (ch_queue c)) (queue_is_closed (ch_queue c)) (channel_contents c) msg = Inr ()"
    using assms(3,4) by (simp add: spec_push_def channel_obs)
  obtain q where q: "queue_push bs (ch_queue c) msg = Some (q, Inr ())" "queue_inv q"
    "queue_is_closed q = queue_is_closed (ch_queue c)" "queue_capacity q = queue_capacity (ch_queue c)"
    "queue_contents q = channel_contents c @ [msg]"
    using cq.push_spec [OF r(1), of bs msg] assms(2) unfolding sp by (auto simp: channel_room_def)
  let ?c0 = "c\<lparr>ch_queue := q\<rparr>"
  have "event_rep (recv_ops ?c0) rs" using r(3) by simp
  from notify_spec(2) [OF this, of 1] obtain e1 where
    n1: "notify_recv ?c0 1 = Inr (?c0\<lparr>recv_ops := e1\<rparr>, woken 1 rs)" "event_rep e1 (noted 1 rs)" by blast
  let ?c1 = "?c0\<lparr>recv_ops := e1\<rparr>"
  have "event_rep (stream_ops ?c1) ts" using r(4) by simp
  from notify_spec(3) [OF this, of usize_max] obtain e2 where
    n2: "notify_stream ?c1 usize_max = Inr (?c1\<lparr>stream_ops := e2\<rparr>, woken usize_max ts)" "event_rep e2 (noted usize_max ts)" by blast
  show ?thesis using q n1 n2 r(2)
    by (simp add: try_send_def queue_result_def channel_obs channel_rep_def del: One_nat_def)
qed

lemma try_send_err:
  assumes "channel_rep c ss rs ts" "channel_room c"
  shows "channel_is_closed c \<Longrightarrow> \<exists>c'. try_send bs c msg = Inr (c', [], Inl (SendClosed msg)) \<and>
      channel_rep c' ss rs ts \<and> channel_contents c' = channel_contents c \<and> same_channel c c'"
    "\<not> channel_is_closed c \<Longrightarrow> channel_capacity c = Some (length (channel_contents c)) \<Longrightarrow>
      \<exists>c'. try_send bs c msg = Inr (c', [], Inl (SendFull msg)) \<and>
      channel_rep c' ss rs ts \<and> channel_contents c' = channel_contents c \<and> same_channel c c'"
  using cq.push_spec [OF channel_repD(1) [OF assms(1)], of bs msg] assms(2) channel_repD [OF assms(1)]
  by (auto simp: try_send_def queue_result_def channel_obs channel_rep_def spec_push_def)

lemma try_recv_ok:
  assumes "channel_rep c ss rs ts" "channel_contents c = msg # xs"
  shows "\<exists>c'. try_recv bs c = Inr (c', woken 1 ss, Inr msg) \<and> channel_rep c' (noted 1 ss) rs ts \<and>
    channel_contents c' = xs \<and> same_channel c c'"
proof -
  note r = channel_repD [OF assms(1)]
  obtain q where q: "queue_pop bs (ch_queue c) = Some (q, Inr msg)" "queue_inv q"
    "queue_is_closed q = queue_is_closed (ch_queue c)" "queue_capacity q = queue_capacity (ch_queue c)"
    "queue_contents q = xs"
    using cq.pop_spec [OF r(1), of bs] assms(2) by (auto simp: spec_pop_def)
  let ?c0 = "c\<lparr>ch_queue := q\<rparr>"
  have "event_rep (send_ops ?c0) ss" using r(2) by simp
  from notify_spec(1) [OF this, of 1] obtain e1 where
    n1: "notify_send ?c0 1 = Inr (?c0\<lparr>send_ops := e1\<rparr>, woken 1 ss)" "event_rep e1 (noted 1 ss)" by blast
  show ?thesis using q n1 r(3,4)
    by (simp add: try_recv_def queue_result_def channel_obs channel_rep_def del: One_nat_def)
qed

lemma try_recv_err:
  assumes "channel_rep c ss rs ts" "channel_contents c = []"
  shows "\<exists>c'. try_recv bs c = Inr (c', [], Inl (if channel_is_closed c then RecvClosed else RecvEmpty)) \<and>
    channel_rep c' ss rs ts \<and> channel_contents c' = [] \<and> same_channel c c'"
  using cq.pop_spec [OF channel_repD(1) [OF assms(1)], of bs] channel_repD [OF assms(1)] assms(2)
  by (auto simp: try_recv_def queue_result_def channel_obs channel_rep_def spec_pop_def)

section \<open>Histories\<close>

text \<open>
  An abstract channel: closed or not, the messages in flight, and the numbers of senders
  and receivers. It closes when the last sender or the last receiver goes.
\<close>

datatype 'a channel_op =
    TrySend 'a | TryRecv | Close | CloneSender | DropSender | CloneReceiver | DropReceiver

datatype 'a channel_res =
    Sent "'a try_send_error + unit" | Received "try_recv_error + 'a" | Closed bool | Done

type_synonym 'a chan_spec = "bool \<times> 'a list \<times> nat \<times> nat"

fun spec_channel :: "nat option \<Rightarrow> 'a chan_spec \<Rightarrow> 'a channel_op \<Rightarrow> 'a chan_spec \<times> 'a channel_res" where
  "spec_channel cap (d, xs, s, r) (TrySend v) =
     (if d then ((d, xs, s, r), Sent (Inl (SendClosed v)))
      else if cap = Some (length xs) then ((d, xs, s, r), Sent (Inl (SendFull v)))
      else ((d, xs @ [v], s, r), Sent (Inr ())))"
| "spec_channel cap (d, xs, s, r) TryRecv =
     (case xs of [] \<Rightarrow> ((d, xs, s, r), Received (Inl (if d then RecvClosed else RecvEmpty)))
      | x # xs' \<Rightarrow> ((d, xs', s, r), Received (Inr x)))"
| "spec_channel cap (d, xs, s, r) Close = ((True, xs, s, r), Closed (\<not> d))"
| "spec_channel cap (d, xs, s, r) CloneSender = ((d, xs, s + 1, r), Done)"
| "spec_channel cap (d, xs, s, r) DropSender = ((d \<or> s = 1, xs, s - 1, r), Done)"
| "spec_channel cap (d, xs, s, r) CloneReceiver = ((d, xs, s, r + 1), Done)"
| "spec_channel cap (d, xs, s, r) DropReceiver = ((d \<or> r = 1, xs, s, r - 1), Done)"

fun channel_call :: "bool list \<Rightarrow> 'a channel \<Rightarrow> 'a channel_op \<Rightarrow> ('a channel \<times> 'a channel_res) fallible" where
  "channel_call bs c (TrySend v) = bind_fallible (try_send bs c v) (\<lambda>(c', ws, r). Inr (c', Sent r))"
| "channel_call bs c TryRecv = bind_fallible (try_recv bs c) (\<lambda>(c', ws, r). Inr (c', Received r))"
| "channel_call bs c Close = bind_fallible (channel_close c) (\<lambda>(c', ws, b). Inr (c', Closed b))"
| "channel_call bs c CloneSender = bind_fallible (sender_clone c) (\<lambda>c'. Inr (c', Done))"
| "channel_call bs c DropSender = bind_fallible (sender_drop c) (\<lambda>(c', ws). Inr (c', Done))"
| "channel_call bs c CloneReceiver = bind_fallible (receiver_clone c) (\<lambda>c'. Inr (c', Done))"
| "channel_call bs c DropReceiver = bind_fallible (receiver_drop c None) (\<lambda>(c', ws). Inr (c', Done))"

text \<open>Fewer than \<open>usize::MAX / 2\<close> handles are alive when one is cloned.\<close>

fun channel_op_ok :: "'a chan_spec \<Rightarrow> 'a channel_op \<Rightarrow> bool" where
  "channel_op_ok (d, xs, s, r) CloneSender = (s \<le> usize_max div 2)"
| "channel_op_ok (d, xs, s, r) CloneReceiver = (r \<le> usize_max div 2)"
| "channel_op_ok st _ = True"

definition channel_abs :: "'a channel \<Rightarrow> 'a chan_spec" where
  "channel_abs c = (channel_is_closed c, channel_contents c, sender_count c, receiver_count c)"

definition channel_inv :: "'a channel \<Rightarrow> bool" where
  "channel_inv c \<longleftrightarrow> (\<exists>ss rs ts. channel_rep c ss rs ts)"

lemma channel_invI: "channel_rep c ss rs ts \<Longrightarrow> channel_inv c"
  by (auto simp: channel_inv_def)

lemma channel_close_inv:
  assumes "channel_inv c"
  shows "\<exists>c' ws. channel_close c = Inr (c', ws, \<not> channel_is_closed c) \<and> channel_inv c' \<and> channel_capacity c' = channel_capacity c \<and>
    channel_abs c' = (True, channel_contents c, sender_count c, receiver_count c)"
proof -
  obtain ss rs ts where "channel_rep c ss rs ts" using assms by (auto simp: channel_inv_def)
  from channel_close_spec [OF this] show ?thesis
    unfolding channel_abs_def channel_inv_def by (cases "channel_is_closed c") auto
qed

lemma channel_count_inv:
  assumes "channel_inv c"
  shows "channel_inv (c\<lparr>sender_count := n\<rparr>)" "channel_inv (c\<lparr>receiver_count := n\<rparr>)"
  using assms by (auto simp: channel_inv_def channel_rep_def)

lemma channel_drop_refines:
  assumes "channel_inv c"
  shows "\<exists>c' ws. sender_drop c = Inr (c', ws) \<and> channel_inv c' \<and> channel_capacity c' = channel_capacity c \<and>
      channel_abs c' = (channel_is_closed c \<or> sender_count c = 1, channel_contents c, sender_count c - 1, receiver_count c)"
    "\<exists>c' ws. receiver_drop c None = Inr (c', ws) \<and> channel_inv c' \<and> channel_capacity c' = channel_capacity c \<and>
      channel_abs c' = (channel_is_closed c \<or> receiver_count c = 1, channel_contents c, sender_count c, receiver_count c - 1)"
proof -
  let ?s = "c\<lparr>sender_count := sender_count c - 1\<rparr>" and ?r = "c\<lparr>receiver_count := receiver_count c - 1\<rparr>"
  note inv = channel_count_inv [OF assms]
  obtain c1 ws1 where s: "channel_close ?s = Inr (c1, ws1, \<not> channel_is_closed ?s)" "channel_inv c1"
      "channel_capacity c1 = channel_capacity ?s" "channel_abs c1 = (True, channel_contents ?s, sender_count ?s, receiver_count ?s)"
    using channel_close_inv [OF inv(1)] by blast
  show "\<exists>c' ws. sender_drop c = Inr (c', ws) \<and> channel_inv c' \<and> channel_capacity c' = channel_capacity c \<and>
      channel_abs c' = (channel_is_closed c \<or> sender_count c = 1, channel_contents c, sender_count c - 1, receiver_count c)"
    using s inv(1) by (cases "sender_count c = 1") (simp_all add: sender_drop_def channel_abs_def channel_obs)
  obtain c2 ws2 where r: "channel_close ?r = Inr (c2, ws2, \<not> channel_is_closed ?r)" "channel_inv c2"
      "channel_capacity c2 = channel_capacity ?r" "channel_abs c2 = (True, channel_contents ?r, sender_count ?r, receiver_count ?r)"
    using channel_close_inv [OF inv(2)] by blast
  show "\<exists>c' ws. receiver_drop c None = Inr (c', ws) \<and> channel_inv c' \<and> channel_capacity c' = channel_capacity c \<and>
      channel_abs c' = (channel_is_closed c \<or> receiver_count c = 1, channel_contents c, sender_count c, receiver_count c - 1)"
    using r inv(2) by (cases "receiver_count c = 1") (simp_all add: receiver_drop_def drop_listener_def channel_abs_def channel_obs)
qed

lemma channel_call_refines:
  assumes inv: "channel_inv c" and room: "channel_room c" and ok: "channel_op_ok (channel_abs c) p"
  shows "\<exists>c' r. channel_call bs c p = Inr (c', r) \<and> channel_inv c' \<and> channel_capacity c' = channel_capacity c \<and>
    (channel_abs c', r) = spec_channel (channel_capacity c) (channel_abs c) p"
proof -
  obtain ss rs ts where rep: "channel_rep c ss rs ts" using inv by (auto simp: channel_inv_def)
  show ?thesis
  proof (cases p)
    case (TrySend v)
    consider "channel_is_closed c" | "\<not> channel_is_closed c" "channel_capacity c = Some (length (channel_contents c))"
      | "\<not> channel_is_closed c" "channel_capacity c \<noteq> Some (length (channel_contents c))" by blast
    then show ?thesis
    proof cases
      case 1
      with try_send_err(1) [OF rep room 1, of bs v] show ?thesis
        by (auto simp: TrySend channel_abs_def same_channel_def intro: channel_invI)
    next
      case 2
      with try_send_err(2) [OF rep room 2, of bs v] show ?thesis
        by (auto simp: TrySend channel_abs_def same_channel_def intro: channel_invI)
    next
      case 3
      with try_send_ok [OF rep room 3, of bs v] show ?thesis
        by (auto simp: TrySend channel_abs_def same_channel_def intro: channel_invI)
    qed
  next
    case TryRecv
    show ?thesis
    proof (cases "channel_contents c")
      case Nil
      with try_recv_err [OF rep Nil, of bs] show ?thesis
        by (auto simp: TryRecv channel_abs_def same_channel_def intro: channel_invI)
    next
      case (Cons x xs)
      with try_recv_ok [OF rep Cons, of bs] show ?thesis
        by (auto simp: TryRecv channel_abs_def same_channel_def intro: channel_invI)
    qed
  next
    case Close
    with channel_close_inv [OF inv] show ?thesis by (auto simp: channel_abs_def)
  next
    case CloneSender
    with ok channel_count_inv(1) [OF inv] show ?thesis
      by (auto simp: sender_clone_def channel_abs_def channel_obs)
  next
    case DropSender
    with channel_drop_refines(1) [OF inv] show ?thesis by (auto simp: channel_abs_def)
  next
    case CloneReceiver
    with ok channel_count_inv(2) [OF inv] show ?thesis
      by (auto simp: receiver_clone_def channel_abs_def channel_obs)
  next
    case DropReceiver
    with channel_drop_refines(2) [OF inv] show ?thesis by (auto simp: channel_abs_def)
  qed
qed

text \<open>A history; each call comes with the spurious failures it meets.\<close>

fun channel_run :: "'a channel \<Rightarrow> (bool list \<times> 'a channel_op) list \<Rightarrow> ('a channel \<times> 'a channel_res list) fallible" where
  "channel_run c [] = Inr (c, [])"
| "channel_run c ((bs, p) # ps) =
     bind_fallible (channel_call bs c p) (\<lambda>(c', r).
     bind_fallible (channel_run c' ps) (\<lambda>(c'', rs). Inr (c'', r # rs)))"

fun spec_channel_run :: "nat option \<Rightarrow> 'a chan_spec \<Rightarrow> 'a channel_op list \<Rightarrow> 'a chan_spec \<times> 'a channel_res list" where
  "spec_channel_run cap st [] = (st, [])"
| "spec_channel_run cap st (p # ps) =
     (let (st', r) = spec_channel cap st p; (st'', rs) = spec_channel_run cap st' ps in (st'', r # rs))"

fun channel_ops_ok :: "nat option \<Rightarrow> 'a chan_spec \<Rightarrow> 'a channel_op list \<Rightarrow> bool" where
  "channel_ops_ok cap st [] = True"
| "channel_ops_ok cap st (p # ps) \<longleftrightarrow> channel_op_ok st p \<and> channel_ops_ok cap (fst (spec_channel cap st p)) ps"

definition channel_fits :: "nat \<Rightarrow> 'a channel \<Rightarrow> bool" where
  "channel_fits n c \<longleftrightarrow> 8 * (length (channel_contents c) + n) \<le> isize_max"

lemma channel_fits_room: "channel_fits 1 c \<Longrightarrow> channel_room c"
  unfolding channel_fits_def channel_room_def by (rule cq.room_bound)

lemma spec_channel_length: "length (fst (snd (fst (spec_channel cap st p)))) \<le> length (fst (snd st)) + 1"
  by (cases "(cap, st, p)" rule: spec_channel.cases) (auto split: list.splits)

lemma channel_run_refines:
  assumes "channel_inv c" "channel_fits (length ps) c" "channel_ops_ok (channel_capacity c) (channel_abs c) (map snd ps)"
  shows "\<exists>c' rs. channel_run c ps = Inr (c', rs) \<and> channel_inv c' \<and> channel_capacity c' = channel_capacity c \<and>
    (channel_abs c', rs) = spec_channel_run (channel_capacity c) (channel_abs c) (map snd ps)"
  using assms
proof (induction ps arbitrary: c)
  case Nil
  then show ?case by simp
next
  case (Cons bp ps)
  obtain bs p where bp: "bp = (bs, p)" by (cases bp)
  have "channel_fits 1 c" using Cons.prems(2) by (simp add: channel_fits_def)
  then obtain c' r where c': "channel_call bs c p = Inr (c', r)" "channel_inv c'" "channel_capacity c' = channel_capacity c"
    "(channel_abs c', r) = spec_channel (channel_capacity c) (channel_abs c) p"
    using channel_call_refines [OF Cons.prems(1) channel_fits_room, of p bs] Cons.prems(3) by (auto simp: bp)
  have sp: "spec_channel (channel_capacity c) (channel_abs c) p = (channel_abs c', r)" using c'(4) by simp
  have "length (channel_contents c') \<le> length (channel_contents c) + 1"
    using spec_channel_length [of "channel_capacity c" "channel_abs c" p] unfolding sp by (simp add: channel_abs_def)
  then have fits: "channel_fits (length ps) c'" using Cons.prems(2) by (simp add: channel_fits_def)
  have "channel_ops_ok (channel_capacity c') (channel_abs c') (map snd ps)"
    using Cons.prems(3) by (simp add: bp sp c'(3))
  from Cons.IH [OF c'(2) fits this] c'(1,3) show ?case by (auto simp: bp sp split: prod.splits)
qed

section \<open>Listeners of a channel\<close>

lemma poll_listener_ready:
  assumes "event_rep ev es" "(a, s) \<in> set es" "is_notified s"
  shows "\<exists>ev'. poll_listener ww ev \<lparr>lis_entry = Some a\<rparr> cx = Inr (ev', \<lparr>lis_entry = None\<rparr>, True) \<and> event_rep ev' (spec_remove a es)"
proof -
  obtain i where i: "ev = Some i" "inner_rep i es" using live_inner [OF assms(1,2)] by blast
  from listener_poll_ready [OF i(2) _ assms(2,3), of "\<lparr>lis_entry = Some a\<rparr>" ww cx] obtain i' where
    "listener_poll ww i \<lparr>lis_entry = Some a\<rparr> cx = Inr (i', \<lparr>lis_entry = None\<rparr>, True)" "inner_rep i' (spec_remove a es)" by auto
  then show ?thesis
    by (intro exI [of _ "Some i'"]) (simp add: i(1) poll_listener_def event_inner_of_def event_rep_def)
qed

lemma poll_listener_pending:
  assumes "event_rep ev es" "(a, s) \<in> set es" "\<not> is_notified s" "\<nexists>t. s = Waiting t"
  shows "\<exists>ev'. poll_listener ww ev \<lparr>lis_entry = Some a\<rparr> cx = Inr (ev', \<lparr>lis_entry = Some a\<rparr>, False) \<and>
    event_rep ev' (spec_set a (poll_state ww s cx) es)"
proof -
  obtain i where i: "ev = Some i" "inner_rep i es" using live_inner [OF assms(1,2)] by blast
  from listener_poll_pending [OF i(2) _ assms(2-4), of "\<lparr>lis_entry = Some a\<rparr>" ww cx] obtain i' where
    "listener_poll ww i \<lparr>lis_entry = Some a\<rparr> cx = Inr (i', \<lparr>lis_entry = Some a\<rparr>, False)"
    "inner_rep i' (spec_set a (poll_state ww s cx) es)" by auto
  then show ?thesis
    by (intro exI [of _ "Some i'"]) (simp add: i(1) poll_listener_def event_inner_of_def event_rep_def)
qed

text \<open>Listening and polling at once: a new listener that waits with the given waker.\<close>

lemma listen_and_poll:
  assumes "event_rep ev es" "length es < usize_max"
  shows "\<exists>ev1 ev2 a. event_listen ev = Inr (ev1, \<lparr>lis_entry = Some a\<rparr>) \<and> a \<notin> fst ` set es \<and> event_rep ev1 (es @ [(a, Created)]) \<and>
    poll_listener ww ev1 \<lparr>lis_entry = Some a\<rparr> cx = Inr (ev2, \<lparr>lis_entry = Some a\<rparr>, False) \<and> event_rep ev2 (es @ [(a, Polling cx)])"
proof -
  obtain ev1 a where l: "event_listen ev = Inr (ev1, \<lparr>lis_entry = Some a\<rparr>)" "a \<notin> fst ` set es" "event_rep ev1 (es @ [(a, Created)])"
    using event.listen_spec [OF assms] by blast
  from poll_listener_pending [OF l(3), of a Created ww cx] obtain ev2 where
    "poll_listener ww ev1 \<lparr>lis_entry = Some a\<rparr> cx = Inr (ev2, \<lparr>lis_entry = Some a\<rparr>, False)"
    "event_rep ev2 (spec_set a (poll_state ww Created cx) (es @ [(a, Created)]))" by auto
  with l show ?thesis by (auto simp: poll_state_def)
qed

section \<open>Polling a send\<close>

lemma send_start_closed:
  assumes "channel_rep c ss rs ts" "channel_fits 1 c" "channel_is_closed c"
  shows "\<exists>c'. send_loop (Suc n) ww bs c msg None cx = Inr (c', [], Finished (Inl msg)) \<and>
    channel_rep c' ss rs ts \<and> channel_contents c' = channel_contents c \<and> same_channel c c'"
proof -
  obtain c' where "try_send bs c msg = Inr (c', [], Inl (SendClosed msg))" "channel_rep c' ss rs ts"
    "channel_contents c' = channel_contents c" "same_channel c c'"
    using try_send_err(1) [OF assms(1) channel_fits_room [OF assms(2)] assms(3)] by blast
  then show ?thesis by (simp add: drop_listener_def)
qed

lemma send_start_ok:
  assumes "channel_rep c ss rs ts" "channel_fits 1 c" "\<not> channel_is_closed c"
    "channel_capacity c \<noteq> Some (length (channel_contents c))"
  shows "\<exists>c' ws ss'. send_loop (Suc n) ww bs c msg None cx = Inr (c', ws, Finished (Inr ())) \<and>
    channel_rep c' ss' (noted 1 rs) (noted usize_max ts) \<and> ss' = (if channel_capacity c = Some 1 then ss else noted 1 ss) \<and>
    channel_contents c' = channel_contents c @ [msg] \<and> same_channel c c' \<and>
    ws = woken 1 rs @ woken usize_max ts @ (if channel_capacity c = Some 1 then [] else woken 1 ss)"
proof -
  obtain c1 where t: "try_send bs c msg = Inr (c1, woken 1 rs @ woken usize_max ts, Inr ())"
    "channel_rep c1 ss (noted 1 rs) (noted usize_max ts)" "channel_contents c1 = channel_contents c @ [msg]" "same_channel c c1"
    using try_send_ok [OF assms(1) channel_fits_room [OF assms(2)] assms(3,4)] by blast
  have cap: "channel_capacity c1 = channel_capacity c" using t(4) by (simp add: same_channel_def)
  show ?thesis
  proof (cases "channel_capacity c = Some 1")
    case True
    with t cap show ?thesis by (simp add: send_done_def drop_listener_def del: One_nat_def)
  next
    case False
    from notify_spec(1) [OF channel_repD(2) [OF t(2)], of 1] obtain ev where
      "notify_send c1 1 = Inr (c1\<lparr>send_ops := ev\<rparr>, woken 1 ss)" "event_rep ev (noted 1 ss)" by blast
    with False t cap show ?thesis
      by (simp add: send_done_def drop_listener_def channel_rep_def same_channel_def channel_obs del: One_nat_def)
  qed
qed

lemma send_start_full:
  assumes "channel_rep c ss rs ts" "channel_fits 1 c" "\<not> channel_is_closed c"
    "channel_capacity c = Some (length (channel_contents c))" "length ss < usize_max"
  shows "\<exists>c' a. send_loop (Suc (Suc n)) ww bs c msg None cx = Inr (c', [], Suspended (msg, \<lparr>lis_entry = Some a\<rparr>)) \<and>
    a \<notin> fst ` set ss \<and> channel_rep c' (ss @ [(a, Polling cx)]) rs ts \<and> channel_contents c' = channel_contents c \<and> same_channel c c'"
proof -
  obtain c1 where t1: "try_send bs c msg = Inr (c1, [], Inl (SendFull msg))" "channel_rep c1 ss rs ts"
    "channel_contents c1 = channel_contents c" "same_channel c c1"
    using try_send_err(2) [OF assms(1) channel_fits_room [OF assms(2)] assms(3,4)] by blast
  obtain ev1 ev2 a where l: "event_listen (send_ops c1) = Inr (ev1, \<lparr>lis_entry = Some a\<rparr>)" "a \<notin> fst ` set ss"
    "event_rep ev1 (ss @ [(a, Created)])"
    using event.listen_spec [OF channel_repD(2) [OF t1(2)] assms(5)] by blast
  let ?c1 = "c1\<lparr>send_ops := ev1\<rparr>"
  have r1: "channel_rep ?c1 (ss @ [(a, Created)]) rs ts" using t1(2) l(3) by (simp add: channel_rep_def)
  have o: "channel_fits 1 ?c1" "\<not> channel_is_closed ?c1" "channel_capacity ?c1 = Some (length (channel_contents ?c1))"
    using assms t1(3,4) by (simp_all add: channel_fits_def channel_obs)
  obtain c2 where t2: "try_send bs ?c1 msg = Inr (c2, [], Inl (SendFull msg))" "channel_rep c2 (ss @ [(a, Created)]) rs ts"
    "channel_contents c2 = channel_contents ?c1" "same_channel ?c1 c2"
    using try_send_err(2) [OF r1 channel_fits_room [OF o(1)] o(2,3)] by blast
  obtain ev2 where p: "poll_listener ww (send_ops c2) \<lparr>lis_entry = Some a\<rparr> cx = Inr (ev2, \<lparr>lis_entry = Some a\<rparr>, False)"
    "event_rep ev2 (spec_set a (poll_state ww Created cx) (ss @ [(a, Created)]))"
    using poll_listener_pending [OF channel_repD(2) [OF t2(2)], of a Created ww cx] by auto
  have "event_rep ev2 (ss @ [(a, Polling cx)])" using p(2) l(2) by (simp add: poll_state_def)
  then show ?thesis
    using t1 t2 l p(1) by (simp add: channel_rep_def channel_obs)
qed

text \<open>The three answers of \<open>send\<close> in one statement, for the first poll and for a later one.\<close>

definition send_outcome :: "'a channel \<Rightarrow> listeners \<Rightarrow> listeners \<Rightarrow> listeners \<Rightarrow> 'a \<Rightarrow> waker \<Rightarrow>
    'a channel \<times> wakeup list \<times> ('a \<times> event_listener, 'a + unit) progress \<Rightarrow> bool" where
  "send_outcome c ss rs ts msg cx res \<longleftrightarrow>
     (case res of (c', ws, p) \<Rightarrow> same_channel c c' \<and>
      (if channel_is_closed c then
         p = Finished (Inl msg) \<and> channel_contents c' = channel_contents c \<and> channel_rep c' ss rs ts
       else if channel_capacity c = Some (length (channel_contents c)) then
         (\<exists>a. p = Suspended (msg, \<lparr>lis_entry = Some a\<rparr>) \<and> a \<notin> fst ` set ss \<and> channel_contents c' = channel_contents c \<and>
            channel_rep c' (ss @ [(a, Polling cx)]) rs ts)
       else
         p = Finished (Inr ()) \<and> channel_contents c' = channel_contents c @ [msg] \<and>
         channel_rep c' (if channel_capacity c = Some 1 then ss else noted 1 ss) (noted 1 rs) (noted usize_max ts) \<and>
         ws = woken 1 rs @ woken usize_max ts @ (if channel_capacity c = Some 1 then [] else woken 1 ss)))"

lemma send_loop_outcome:
  assumes "channel_rep c ss rs ts" "channel_fits 1 c" "length ss < usize_max"
  shows "\<exists>res. send_loop (Suc (Suc n)) ww bs c msg None cx = Inr res \<and> send_outcome c ss rs ts msg cx res"
proof -
  consider "channel_is_closed c" | "\<not> channel_is_closed c" "channel_capacity c = Some (length (channel_contents c))"
    | "\<not> channel_is_closed c" "channel_capacity c \<noteq> Some (length (channel_contents c))" by blast
  then show ?thesis
  proof cases
    case 1
    from send_start_closed [OF assms(1,2) 1, of "Suc n" ww bs msg cx] 1 show ?thesis
      unfolding send_outcome_def by fastforce
  next
    case 2
    from send_start_full [OF assms(1,2) 2 assms(3), of n ww bs msg cx] 2 show ?thesis
      unfolding send_outcome_def by fastforce
  next
    case 3
    from send_start_ok [OF assms(1,2) 3, of "Suc n" ww bs msg cx] 3 show ?thesis
      unfolding send_outcome_def by fastforce
  qed
qed

section \<open>Polling a receive\<close>

text \<open>The answers of \<open>recv\<close> and of the receiver as a stream.\<close>

definition recv_outcome :: "'a channel \<Rightarrow> listeners \<Rightarrow> listeners \<Rightarrow> listeners \<Rightarrow> waker \<Rightarrow>
    'a channel \<times> wakeup list \<times> (event_listener, unit + 'a) progress \<Rightarrow> bool" where
  "recv_outcome c ss rs ts cx res \<longleftrightarrow>
     (case res of (c', ws, p) \<Rightarrow> same_channel c c' \<and>
      (case channel_contents c of
         msg # xs \<Rightarrow>
           p = Finished (Inr msg) \<and> channel_contents c' = xs \<and>
           channel_rep c' (noted 1 ss) (if channel_capacity c = Some 1 then rs else noted 1 rs) ts \<and>
           ws = woken 1 ss @ (if channel_capacity c = Some 1 then [] else woken 1 rs)
       | [] \<Rightarrow> channel_contents c' = [] \<and>
           (if channel_is_closed c then p = Finished (Inl ()) \<and> channel_rep c' ss rs ts
            else \<exists>a. p = Suspended \<lparr>lis_entry = Some a\<rparr> \<and> a \<notin> fst ` set rs \<and> channel_rep c' ss (rs @ [(a, Polling cx)]) ts)))"

definition next_outcome :: "'a channel \<Rightarrow> listeners \<Rightarrow> listeners \<Rightarrow> listeners \<Rightarrow> waker \<Rightarrow>
    'a channel \<times> wakeup list \<times> (event_listener, 'a option) progress \<Rightarrow> bool" where
  "next_outcome c ss rs ts cx res \<longleftrightarrow>
     (case res of (c', ws, p) \<Rightarrow> same_channel c c' \<and>
      (case channel_contents c of
         msg # xs \<Rightarrow>
           p = Finished (Some msg) \<and> channel_contents c' = xs \<and> channel_rep c' (noted 1 ss) rs ts \<and> ws = woken 1 ss
       | [] \<Rightarrow> channel_contents c' = [] \<and>
           (if channel_is_closed c then p = Finished None \<and> channel_rep c' ss rs ts
            else \<exists>a. p = Suspended \<lparr>lis_entry = Some a\<rparr> \<and> a \<notin> fst ` set ts \<and> channel_rep c' ss rs (ts @ [(a, Polling cx)]))))"

lemma recv_start_ok:
  assumes "channel_rep c ss rs ts" "channel_contents c = msg # xs"
  shows "\<exists>c'. recv_loop (Suc n) ww bs c None cx = Inr (c', woken 1 ss @ (if channel_capacity c = Some 1 then [] else woken 1 rs), Finished (Inr msg)) \<and>
    channel_rep c' (noted 1 ss) (if channel_capacity c = Some 1 then rs else noted 1 rs) ts \<and> channel_contents c' = xs \<and> same_channel c c'"
proof -
  obtain c1 where t: "try_recv bs c = Inr (c1, woken 1 ss, Inr msg)" "channel_rep c1 (noted 1 ss) rs ts"
    "channel_contents c1 = xs" "same_channel c c1"
    using try_recv_ok [OF assms] by blast
  have cap: "channel_capacity c1 = channel_capacity c" using t(4) by (simp add: same_channel_def)
  show ?thesis
  proof (cases "channel_capacity c = Some 1")
    case True
    with t cap show ?thesis by (simp add: recv_done_def drop_listener_def del: One_nat_def)
  next
    case False
    from notify_spec(2) [OF channel_repD(3) [OF t(2)], of 1] obtain ev where
      "notify_recv c1 1 = Inr (c1\<lparr>recv_ops := ev\<rparr>, woken 1 rs)" "event_rep ev (noted 1 rs)" by blast
    with False t cap show ?thesis
      by (simp add: recv_done_def drop_listener_def channel_rep_def same_channel_def channel_obs del: One_nat_def)
  qed
qed

lemma recv_start_empty:
  assumes "channel_rep c ss rs ts" "channel_contents c = []" "\<not> channel_is_closed c" "length rs < usize_max"
  shows "\<exists>c' a. recv_loop (Suc (Suc n)) ww bs c None cx = Inr (c', [], Suspended \<lparr>lis_entry = Some a\<rparr>) \<and>
    a \<notin> fst ` set rs \<and> channel_rep c' ss (rs @ [(a, Polling cx)]) ts \<and> channel_contents c' = [] \<and> same_channel c c'"
proof -
  obtain c1 where t1: "try_recv bs c = Inr (c1, [], Inl RecvEmpty)" "channel_rep c1 ss rs ts"
    "channel_contents c1 = []" "same_channel c c1"
    using try_recv_err [OF assms(1,2), of bs] assms(3) by auto
  obtain ev1 a where l: "event_listen (recv_ops c1) = Inr (ev1, \<lparr>lis_entry = Some a\<rparr>)" "a \<notin> fst ` set rs"
    "event_rep ev1 (rs @ [(a, Created)])"
    using event.listen_spec [OF channel_repD(3) [OF t1(2)] assms(4)] by blast
  let ?c1 = "c1\<lparr>recv_ops := ev1\<rparr>"
  have r1: "channel_rep ?c1 ss (rs @ [(a, Created)]) ts" using t1(2) l(3) by (simp add: channel_rep_def)
  have o: "channel_contents ?c1 = []" "\<not> channel_is_closed ?c1" using assms(3) t1(3,4) by (simp_all add: channel_obs)
  obtain c2 where t2: "try_recv bs ?c1 = Inr (c2, [], Inl RecvEmpty)" "channel_rep c2 ss (rs @ [(a, Created)]) ts"
    "channel_contents c2 = []" "same_channel ?c1 c2"
    using try_recv_err [OF r1 o(1), of bs] o(2) by auto
  obtain ev2 where p: "poll_listener ww (recv_ops c2) \<lparr>lis_entry = Some a\<rparr> cx = Inr (ev2, \<lparr>lis_entry = Some a\<rparr>, False)"
    "event_rep ev2 (spec_set a (poll_state ww Created cx) (rs @ [(a, Created)]))"
    using poll_listener_pending [OF channel_repD(3) [OF t2(2)], of a Created ww cx] by auto
  have "event_rep ev2 (rs @ [(a, Polling cx)])" using p(2) l(2) by (simp add: poll_state_def)
  then show ?thesis using t1 t2 l p(1) by (simp add: channel_rep_def channel_obs)
qed

lemma recv_loop_outcome:
  assumes "channel_rep c ss rs ts" "length rs < usize_max"
  shows "\<exists>res. recv_loop (Suc (Suc n)) ww bs c None cx = Inr res \<and> recv_outcome c ss rs ts cx res"
proof (cases "channel_contents c")
  case (Cons msg xs)
  from recv_start_ok [OF assms(1) Cons, of "Suc n" ww bs cx] Cons show ?thesis
    unfolding recv_outcome_def by fastforce
next
  case Nil
  show ?thesis
  proof (cases "channel_is_closed c")
    case True
    with try_recv_err [OF assms(1) Nil, of bs] obtain c' where "try_recv bs c = Inr (c', [], Inl RecvClosed)"
      "channel_rep c' ss rs ts" "channel_contents c' = []" "same_channel c c'" by auto
    with True Nil show ?thesis by (simp add: recv_outcome_def drop_listener_def)
  next
    case False
    from recv_start_empty [OF assms(1) Nil False assms(2), of n ww bs cx] False Nil show ?thesis
      unfolding recv_outcome_def by fastforce
  qed
qed

text \<open>The inner loop of the stream, without a listener at its start.\<close>

lemma next_inner_outcome:
  assumes "channel_rep c ss rs ts" "length ts < usize_max"
  shows "\<exists>c' ws p. next_inner 2 bs c None = Inr (c', ws, p) \<and> same_channel c c' \<and>
    (case channel_contents c of
       msg # xs \<Rightarrow> p = Finished (Some msg) \<and> channel_contents c' = xs \<and> channel_rep c' (noted 1 ss) rs ts \<and> ws = woken 1 ss
     | [] \<Rightarrow> channel_contents c' = [] \<and> ws = [] \<and>
         (if channel_is_closed c then p = Finished None \<and> channel_rep c' ss rs ts
          else \<exists>a. p = Suspended \<lparr>lis_entry = Some a\<rparr> \<and> a \<notin> fst ` set ts \<and> channel_rep c' ss rs (ts @ [(a, Created)])))"
proof (cases "channel_contents c")
  case (Cons msg xs)
  from try_recv_ok [OF assms(1) Cons, of bs] obtain c' where "try_recv bs c = Inr (c', woken 1 ss, Inr msg)"
    "channel_rep c' (noted 1 ss) rs ts" "channel_contents c' = xs" "same_channel c c'" by blast
  with Cons show ?thesis by (simp add: numeral_2_eq_2 drop_listener_def del: One_nat_def)
next
  case Nil
  show ?thesis
  proof (cases "channel_is_closed c")
    case True
    with try_recv_err [OF assms(1) Nil, of bs] obtain c' where "try_recv bs c = Inr (c', [], Inl RecvClosed)"
      "channel_rep c' ss rs ts" "channel_contents c' = []" "same_channel c c'" by auto
    with True Nil show ?thesis by (simp add: numeral_2_eq_2 drop_listener_def)
  next
    case False
    with try_recv_err [OF assms(1) Nil, of bs] obtain c1 where t1: "try_recv bs c = Inr (c1, [], Inl RecvEmpty)"
      "channel_rep c1 ss rs ts" "channel_contents c1 = []" "same_channel c c1" by auto
    obtain ev1 a where l: "event_listen (stream_ops c1) = Inr (ev1, \<lparr>lis_entry = Some a\<rparr>)" "a \<notin> fst ` set ts"
      "event_rep ev1 (ts @ [(a, Created)])"
      using event.listen_spec [OF channel_repD(4) [OF t1(2)] assms(2)] by blast
    let ?c1 = "c1\<lparr>stream_ops := ev1\<rparr>"
    have r1: "channel_rep ?c1 ss rs (ts @ [(a, Created)])" using t1(2) l(3) by (simp add: channel_rep_def)
    have o: "channel_contents ?c1 = []" "\<not> channel_is_closed ?c1" using False t1(3,4) by (simp_all add: channel_obs)
    obtain c2 where "try_recv bs ?c1 = Inr (c2, [], Inl RecvEmpty)" "channel_rep c2 ss rs (ts @ [(a, Created)])"
      "channel_contents c2 = []" "same_channel ?c1 c2"
      using try_recv_err [OF r1 o(1), of bs] o(2) by auto
    with t1 l Nil False show ?thesis by (simp add: numeral_2_eq_2 channel_obs)
  qed
qed

lemma next_loop_outcome:
  assumes "channel_rep c ss rs ts" "length ts < usize_max"
  shows "\<exists>res. next_loop (Suc (Suc n)) ww bs c None cx = Inr res \<and> next_outcome c ss rs ts cx res"
proof -
  have id: "c\<lparr>stream_ops := stream_ops c\<rparr> = c" by simp
  obtain c' ws p where i: "next_inner 2 bs c None = Inr (c', ws, p)" "same_channel c c'"
    and o: "(case channel_contents c of
       msg # xs \<Rightarrow> p = Finished (Some msg) \<and> channel_contents c' = xs \<and> channel_rep c' (noted 1 ss) rs ts \<and> ws = woken 1 ss
     | [] \<Rightarrow> channel_contents c' = [] \<and> ws = [] \<and>
         (if channel_is_closed c then p = Finished None \<and> channel_rep c' ss rs ts
          else \<exists>a. p = Suspended \<lparr>lis_entry = Some a\<rparr> \<and> a \<notin> fst ` set ts \<and> channel_rep c' ss rs (ts @ [(a, Created)])))"
    using next_inner_outcome [OF assms, of bs] by blast
  show ?thesis
  proof (cases "channel_contents c = [] \<and> \<not> channel_is_closed c")
    case False
    with i o show ?thesis by (cases "channel_contents c") (auto simp: next_outcome_def)
  next
    case True
    with o obtain a where a: "p = Suspended \<lparr>lis_entry = Some a\<rparr>" "a \<notin> fst ` set ts" "channel_rep c' ss rs (ts @ [(a, Created)])"
      "channel_contents c' = []" "ws = []" by auto
    obtain ev2 where p: "poll_listener ww (stream_ops c') \<lparr>lis_entry = Some a\<rparr> cx = Inr (ev2, \<lparr>lis_entry = Some a\<rparr>, False)"
      "event_rep ev2 (spec_set a (poll_state ww Created cx) (ts @ [(a, Created)]))"
      using poll_listener_pending [OF channel_repD(4) [OF a(3)], of a Created ww cx] by auto
    have "event_rep ev2 (ts @ [(a, Polling cx)])" using p(2) a(2) by (simp add: poll_state_def)
    with i a p(1) True show ?thesis by (simp add: next_outcome_def channel_rep_def channel_obs)
  qed
qed

lemma outcome_events:
  "send_outcome (c\<lparr>send_ops := ev\<rparr>) = send_outcome c" "next_outcome (c\<lparr>stream_ops := ev\<rparr>) = next_outcome c"
  by (simp_all add: send_outcome_def next_outcome_def channel_obs fun_eq_iff cong: if_cong)

section \<open>Wake-ups\<close>

lemma noted_all:
  assumes "length es \<le> usize_max"
  shows "\<forall>e\<in>set (noted usize_max es). is_notified (snd e)"
proof -
  have "notified_count (noted usize_max es) = length (noted usize_max es)"
    using assms notified_count_le [of es] by (simp add: noted_def notified_count_mark)
  then show ?thesis by (simp add: all_notified)
qed

lemma noted_some: "es \<noteq> [] \<Longrightarrow> \<exists>e\<in>set (noted 1 es). is_notified (snd e)"
proof -
  assume "es \<noteq> []"
  then have "1 \<le> notified_count (noted 1 es)"
    by (cases es; cases "notified_count es") (simp_all add: noted_def notified_count_mark)
  then have "filter (is_notified \<circ> snd) (noted 1 es) \<noteq> []" by (auto simp: notified_count_def)
  then show ?thesis by (auto simp: filter_empty_conv)
qed

lemma woken_oldest: "notified_count ((a, Polling w) # es) = 0 \<Longrightarrow> Wake w \<in> set (woken 1 ((a, Polling w) # es))"
  by (simp add: woken_def)

lemma channel_rep_lengths:
  assumes "channel_rep c ss rs ts"
  shows "length ss \<le> usize_max" "length rs \<le> usize_max" "length ts \<le> usize_max"
  using channel_repD [OF assms] by (auto dest!: event_rep_ok simp: listeners_ok_def)

lemma channel_new_rep: "queue_inv q \<Longrightarrow> channel_rep (channel_new q) [] [] []"
  by (simp add: channel_rep_def channel_new_def event_new_rep)

lemma channel_unbounded_rep: "channel_rep channel_unbounded [] [] []"
  by (simp add: channel_unbounded_def channel_new_rep queue_unbounded_ok)

lemma channel_unbounded_obs:
  "channel_contents channel_unbounded = []" "\<not> channel_is_closed channel_unbounded" "channel_capacity channel_unbounded = None"
  "sender_count channel_unbounded = 1" "receiver_count channel_unbounded = 1"
  by (simp_all add: channel_unbounded_def channel_new_def channel_obs queue_unbounded_ok)

section \<open>Properties\<close>

text \<open>
  (C11) Every history of sends, receives, closes, clones and drops on a channel gets the
  answers of the abstract channel: messages arrive in the order they were sent, nothing
  can be sent once it is closed, the messages in flight can still be received, and the
  channel closes when the last sender or the last receiver is dropped.
\<close>

theorem channel_history_correct:
  assumes "channel_inv c" "channel_fits (length ps) c" "channel_ops_ok (channel_capacity c) (channel_abs c) (map snd ps)"
  shows "\<exists>c' rs. channel_run c ps = Inr (c', rs) \<and> channel_inv c' \<and> channel_capacity c' = channel_capacity c \<and>
    (channel_abs c', rs) = spec_channel_run (channel_capacity c) (channel_abs c) (map snd ps)"
  using assms by (rule channel_run_refines)

theorem channel_history_correct_witness:
  "\<exists>c'. channel_run channel_unbounded [([], TrySend (4::nat)), ([True], TrySend 5), ([], DropSender), ([], TrySend 6), ([], TryRecv), ([], TryRecv), ([], TryRecv)]
     = Inr (c', [Sent (Inr ()), Sent (Inr ()), Done, Sent (Inl (SendClosed 6)), Received (Inr 4), Received (Inr 5), Received (Inl RecvClosed)])"
proof -
  let ?ps = "[([], TrySend (4::nat)), ([True], TrySend 5), ([], DropSender), ([], TrySend 6), ([], TryRecv), ([], TryRecv), ([], TryRecv)]"
  have "channel_fits (length ?ps) (channel_unbounded :: nat channel)"
    by (simp add: channel_fits_def channel_unbounded_obs isize_max_def)
  moreover have "channel_ops_ok (channel_capacity (channel_unbounded :: nat channel)) (channel_abs (channel_unbounded :: nat channel)) (map snd ?ps)"
    by (simp add: channel_abs_def channel_unbounded_obs)
  ultimately obtain c' rs where "channel_run channel_unbounded ?ps = Inr (c', rs)"
    "(channel_abs c', rs) = spec_channel_run (channel_capacity (channel_unbounded :: nat channel)) (channel_abs (channel_unbounded :: nat channel)) (map snd ?ps)"
    using channel_history_correct [OF channel_invI [OF channel_unbounded_rep], of ?ps] by blast
  moreover from this(2) have "rs = [Sent (Inr ()), Sent (Inr ()), Done, Sent (Inl (SendClosed 6)), Received (Inr 4), Received (Inr 5), Received (Inl RecvClosed)]"
    by (simp add: channel_abs_def channel_unbounded_obs)
  ultimately show ?thesis by blast
qed

text \<open>
  (C13) A poll of \<open>send\<close> ends within its fuel in one of three ways. On a closed channel the
  message comes back. On a full one the future is suspended with a listener that holds
  the waker of the poll. Otherwise the message is queued, a receiver and all streams are
  notified, and another sender is notified unless the capacity is one. A suspended send
  stays suspended until its listener is notified, and then behaves like a new one.
\<close>

theorem channel_send_correct:
  assumes "channel_rep c ss rs ts" "channel_fits 1 c" "length ss < usize_max"
  shows "(\<exists>res. send_start ww bs c msg cx = Inr res \<and> send_outcome c ss rs ts msg cx res) \<and>
    (\<forall>a s. (a, s) \<in> set ss \<and> is_notified s \<longrightarrow>
       (\<exists>res. send_resume ww bs c (msg, \<lparr>lis_entry = Some a\<rparr>) cx = Inr res \<and> send_outcome c (spec_remove a ss) rs ts msg cx res)) \<and>
    (\<forall>a w. (a, Polling w) \<in> set ss \<longrightarrow>
       (\<exists>c'. send_resume ww bs c (msg, \<lparr>lis_entry = Some a\<rparr>) cx = Inr (c', [], Suspended (msg, \<lparr>lis_entry = Some a\<rparr>)) \<and>
          channel_rep c' (spec_set a (poll_state ww (Polling w) cx) ss) rs ts))"
proof (intro conjI allI impI)
  show "\<exists>res. send_start ww bs c msg cx = Inr res \<and> send_outcome c ss rs ts msg cx res"
    unfolding send_start_def send_fuel_def numeral_3_eq_3 by (rule send_loop_outcome [OF assms])
next
  fix a s assume s: "(a, s) \<in> set ss \<and> is_notified s"
  from poll_listener_ready [OF channel_repD(2) [OF assms(1)], of a s ww cx] s obtain ev where
    p: "poll_listener ww (send_ops c) \<lparr>lis_entry = Some a\<rparr> cx = Inr (ev, \<lparr>lis_entry = None\<rparr>, True)" "event_rep ev (spec_remove a ss)" by blast
  let ?c = "c\<lparr>send_ops := ev\<rparr>"
  have r: "channel_rep ?c (spec_remove a ss) rs ts" "channel_fits 1 ?c"
    using assms(1,2) p(2) by (simp_all add: channel_rep_def channel_fits_def)
  have "length (spec_remove a ss) < usize_max" using assms(3) le_less_trans [OF length_filter_le] by (simp add: spec_remove_def)
  from send_loop_outcome [OF r this, of 1 ww bs msg cx] obtain res where
    "send_loop (Suc (Suc 1)) ww bs ?c msg None cx = Inr res" "send_outcome ?c (spec_remove a ss) rs ts msg cx res" by blast
  moreover from this(2) have "send_outcome c (spec_remove a ss) rs ts msg cx res"
    by (simp only: outcome_events)
  ultimately show "\<exists>res. send_resume ww bs c (msg, \<lparr>lis_entry = Some a\<rparr>) cx = Inr res \<and> send_outcome c (spec_remove a ss) rs ts msg cx res"
    using p(1) by (simp add: send_resume_def send_fuel_def numeral_3_eq_3 del: send_loop.simps)
next
  fix a w assume "(a, Polling w) \<in> set ss"
  from poll_listener_pending [OF channel_repD(2) [OF assms(1)] this, of ww cx] obtain ev where
    "poll_listener ww (send_ops c) \<lparr>lis_entry = Some a\<rparr> cx = Inr (ev, \<lparr>lis_entry = Some a\<rparr>, False)"
    "event_rep ev (spec_set a (poll_state ww (Polling w) cx) ss)" by auto
  with assms(1) show "\<exists>c'. send_resume ww bs c (msg, \<lparr>lis_entry = Some a\<rparr>) cx = Inr (c', [], Suspended (msg, \<lparr>lis_entry = Some a\<rparr>)) \<and>
      channel_rep c' (spec_set a (poll_state ww (Polling w) cx) ss) rs ts"
    by (simp add: send_resume_def channel_rep_def)
qed

theorem channel_send_correct_witness:
  "\<exists>res. send_start (=) [] (channel_unbounded :: nat channel) 4 9 = Inr res \<and> channel_contents (fst res) = [4]"
  using channel_send_correct [OF channel_unbounded_rep, of "(=)" "[]" "4 :: nat" 9]
  by (auto simp: channel_fits_def channel_unbounded_obs send_outcome_def isize_max_def usize_max_def)





end
