(* ===== verification/Stream_Core.thy ===== *)
theory Stream_Core
  imports Cynthia_Prelude
begin

text \<open>
  Polling (\<open>core::task::Poll\<close>, \<open>core::future::Future\<close> and the \<open>Stream\<close> trait) as the code
  of src/cynthia/src/future uses it. A future or stream is a state together with a poll
  function; the state also holds whatever the outside world will do, so that a poll may be
  pending now and ready later. A poll function returns \<open>None\<close> when the call never returns.
  The relations below say what a stream produces and what a future resolves to when it is
  polled until it finishes.
\<close>

datatype 'a poll = Ready 'a | Pending | Panicked
  for map: poll_map

type_synonym ('s, 'a) future = "'s \<Rightarrow> ('s \<times> 'a poll) option"

type_synonym ('s, 'a) stream = "('s, 'a option) future"

text \<open>\<open>FnMut\<close> closures carry a state of their own.\<close>

type_synonym ('f, 'a, 'b) fn_mut = "'f \<Rightarrow> 'a \<Rightarrow> 'b \<times> 'f"

text \<open>
  The \<open>ready!\<close> macro (src/cynthia/src/macros/ready.rs): go on with the value, or return
  \<open>Pending\<close> at once. \<open>w\<close> puts the polled component back into its owner.
\<close>

definition ready ::
  "('s \<times> 'a poll) option \<Rightarrow> ('s \<Rightarrow> 't) \<Rightarrow> ('s \<Rightarrow> 'a \<Rightarrow> ('t \<times> 'b poll) option) \<Rightarrow> ('t \<times> 'b poll) option" where
  "ready m w f =
     (case m of
        None \<Rightarrow> None
      | Some (s, Ready x) \<Rightarrow> f s x
      | Some (s, Pending) \<Rightarrow> Some (w s, Pending)
      | Some (s, Panicked) \<Rightarrow> Some (w s, Panicked))"

lemma ready_simps [simp]:
  "ready (Some (s, Ready x)) w f = f s x"
  "ready (Some (s, Pending)) w f = Some (w s, Pending)"
  "ready (Some (s, Panicked)) w f = Some (w s, Panicked)"
  "ready None w f = None"
  by (simp_all add: ready_def)

lemma ready_mono [partial_function_mono]:
  assumes "\<And>s x. mono_option (\<lambda>g. F g s x)"
  shows "mono_option (\<lambda>g. ready m w (\<lambda>s x. F g s x))"
  using assms
  by (cases m) (auto simp: ready_def monotone_def flat_ord_def split: poll.splits, blast)

section \<open>What a stream produces\<close>

text \<open>
  \<open>emits p s xs s'\<close>: polling from \<open>s\<close> on, with finitely many \<open>Pending\<close> answers, gives the
  items \<open>xs\<close> and leads to \<open>s'\<close>. \<open>yields p s xs\<close>: the stream gives \<open>xs\<close> and then ends.
  \<open>resolves p s r\<close>: the future gives \<open>r\<close>.
\<close>

inductive emits :: "('s, 'a) stream \<Rightarrow> 's \<Rightarrow> 'a list \<Rightarrow> 's \<Rightarrow> bool" for p where
  emits_nil: "emits p s [] s"
| emits_item: "p s = Some (s1, Ready (Some x)) \<Longrightarrow> emits p s1 xs s2 \<Longrightarrow> emits p s (x # xs) s2"
| emits_pend: "p s = Some (s1, Pending) \<Longrightarrow> emits p s1 xs s2 \<Longrightarrow> emits p s xs s2"

inductive yields :: "('s, 'a) stream \<Rightarrow> 's \<Rightarrow> 'a list \<Rightarrow> bool" for p where
  yields_end: "p s = Some (s1, Ready None) \<Longrightarrow> yields p s []"
| yields_item: "p s = Some (s1, Ready (Some x)) \<Longrightarrow> yields p s1 xs \<Longrightarrow> yields p s (x # xs)"
| yields_pend: "p s = Some (s1, Pending) \<Longrightarrow> yields p s1 xs \<Longrightarrow> yields p s xs"

inductive resolves :: "('s, 'a) future \<Rightarrow> 's \<Rightarrow> 'a \<Rightarrow> bool" for p where
  resolves_now: "p s = Some (s1, Ready r) \<Longrightarrow> resolves p s r"
| resolves_pend: "p s = Some (s1, Pending) \<Longrightarrow> resolves p s1 r \<Longrightarrow> resolves p s r"

inductive_cases yields_NilE: "yields p s []"
inductive_cases yields_ConsE: "yields p s (x # xs)"

lemma yields_same: "p s = p s' \<Longrightarrow> yields p s' xs \<Longrightarrow> yields p s xs"
  by (erule yields.cases) (auto intro: yields.intros)

lemma emits_same: "p s = p s' \<Longrightarrow> p s' = Some (s1, Ready (Some x)) \<Longrightarrow> emits p s1 xs s2 \<Longrightarrow> emits p s (x # xs) s2"
  by (auto intro: emits_item)

lemma resolves_same: "p s = p s' \<Longrightarrow> resolves p s' r \<Longrightarrow> resolves p s r"
  by (erule resolves.cases) (auto intro: resolves.intros)

text \<open>The answers are determined: a stream yields at most one list, a future at most one value.\<close>

lemma yields_unique: "yields p s xs \<Longrightarrow> yields p s ys \<Longrightarrow> xs = ys"
proof (induction arbitrary: ys rule: yields.induct)
  case (yields_end s s1)
  from yields_end.prems show ?case
    by cases (use yields_end.hyps in simp_all)
next
  case (yields_item s s1 x xs)
  from yields_item.prems show ?case
  proof cases
    case (yields_item s2 y ys')
    with yields_item.hyps show ?thesis using yields_item.IH [of ys'] by simp
  qed (use yields_item.hyps in simp_all)
next
  case (yields_pend s s1 xs)
  from yields_pend.prems show ?case
  proof cases
    case (yields_pend s2)
    with yields_pend.hyps show ?thesis using yields_pend.IH [of ys] by simp
  qed (use yields_pend.hyps in simp_all)
qed

lemma resolves_unique: "resolves p s r \<Longrightarrow> resolves p s r' \<Longrightarrow> r = r'"
proof (induction rule: resolves.induct)
  case (resolves_now s s1 r)
  from resolves_now.prems show ?case
    by cases (use resolves_now.hyps in simp_all)
next
  case (resolves_pend s s1 r)
  from resolves_pend.prems show ?case
    by cases (use resolves_pend.hyps resolves_pend.IH in simp_all)
qed

lemma emits_yields: "emits p s xs s' \<Longrightarrow> yields p s' ys \<Longrightarrow> yields p s (xs @ ys)"
  by (induction rule: emits.induct) (auto intro: yields.intros)

lemma emits_trans: "emits p s xs s' \<Longrightarrow> emits p s' ys s'' \<Longrightarrow> emits p s (xs @ ys) s''"
  by (induction rule: emits.induct) (auto intro: emits.intros)

lemma yields_emits:
  assumes "yields p s xs"
  obtains s' s'' where "emits p s xs s'" "p s' = Some (s'', Ready None)"
  using assms by (induction arbitrary: thesis rule: yields.induct) (blast intro: emits.intros)+

text \<open>
  An adapter \<open>q\<close> over a stream \<open>p\<close>: \<open>W s c\<close> is its state when the inner stream is in state
  \<open>s\<close> and its own data is \<open>c\<close>; \<open>out c xs\<close> is what it makes of the items \<open>xs\<close>. It is enough
  to look at one answer of the inner stream.
\<close>

lemma yields_sim:
  assumes "yields p s xs" and "P c xs"
    and "\<And>s s1 c. p s = Some (s1, Ready None) \<Longrightarrow> P c [] \<Longrightarrow> yields q (W s c) (out c [])"
    and "\<And>s s1 x xs c. p s = Some (s1, Ready (Some x)) \<Longrightarrow> P c (x # xs) \<Longrightarrow>
       (\<And>c'. P c' xs \<Longrightarrow> yields q (W s1 c') (out c' xs)) \<Longrightarrow> yields q (W s c) (out c (x # xs))"
    and "\<And>s s1 xs c. p s = Some (s1, Pending) \<Longrightarrow> P c xs \<Longrightarrow> q (W s c) = Some (W s1 c, Pending)"
  shows "yields q (W s c) (out c xs)"
  using assms(1,2)
proof (induction arbitrary: c rule: yields.induct)
  case (yields_end s s1)
  then show ?case by (rule assms(3))
next
  case (yields_item s s1 x xs)
  from yields_item.hyps(1) yields_item.prems yields_item.IH show ?case by (rule assms(4))
next
  case (yields_pend s s1 xs)
  from assms(5) [OF yields_pend.hyps(1) yields_pend.prems] yields_pend.IH [OF yields_pend.prems]
  show ?case by (rule yields.yields_pend)
qed

text \<open>The same for a future that consumes a stream.\<close>

lemma resolves_sim:
  assumes "yields p s xs" and "P c xs"
    and "\<And>s s1 c. p s = Some (s1, Ready None) \<Longrightarrow> P c [] \<Longrightarrow> resolves q (W s c) (out c [])"
    and "\<And>s s1 x xs c. p s = Some (s1, Ready (Some x)) \<Longrightarrow> P c (x # xs) \<Longrightarrow>
       (\<And>c'. P c' xs \<Longrightarrow> resolves q (W s1 c') (out c' xs)) \<Longrightarrow> resolves q (W s c) (out c (x # xs))"
    and "\<And>s s1 xs c. p s = Some (s1, Pending) \<Longrightarrow> P c xs \<Longrightarrow> q (W s c) = Some (W s1 c, Pending)"
  shows "resolves q (W s c) (out c xs)"
  using assms(1,2)
proof (induction arbitrary: c rule: yields.induct)
  case (yields_end s s1)
  then show ?case by (rule assms(3))
next
  case (yields_item s s1 x xs)
  from yields_item.hyps(1) yields_item.prems yields_item.IH show ?case by (rule assms(4))
next
  case (yields_pend s s1 xs)
  from assms(5) [OF yields_pend.hyps(1) yields_pend.prems] yields_pend.IH [OF yields_pend.prems]
  show ?case by (rule resolves.resolves_pend)
qed

section \<open>Closures with state over lists\<close>

primrec map_mut :: "('f, 'a, 'b) fn_mut \<Rightarrow> 'f \<Rightarrow> 'a list \<Rightarrow> 'b list" where
  "map_mut f st [] = []"
| "map_mut f st (x # xs) = fst (f st x) # map_mut f (snd (f st x)) xs"

primrec filter_map_mut :: "('f, 'a, 'b option) fn_mut \<Rightarrow> 'f \<Rightarrow> 'a list \<Rightarrow> 'b list" where
  "filter_map_mut f st [] = []"
| "filter_map_mut f st (x # xs) =
     (case f st x of (None, st') \<Rightarrow> filter_map_mut f st' xs | (Some y, st') \<Rightarrow> y # filter_map_mut f st' xs)"

primrec fold_mut :: "('f \<Rightarrow> 't \<Rightarrow> 'a \<Rightarrow> 't \<times> 'f) \<Rightarrow> 'f \<Rightarrow> 't \<Rightarrow> 'a list \<Rightarrow> 't" where
  "fold_mut f st acc [] = acc"
| "fold_mut f st acc (x # xs) = (case f st acc x of (acc', st') \<Rightarrow> fold_mut f st' acc' xs)"

primrec filter_mut :: "('f, 'a, bool) fn_mut \<Rightarrow> 'f \<Rightarrow> 'a list \<Rightarrow> 'a list" where
  "filter_mut f st [] = []"
| "filter_mut f st (x # xs) =
     (if fst (f st x) then x # filter_mut f (snd (f st x)) xs else filter_mut f (snd (f st x)) xs)"

primrec take_while_mut :: "('f, 'a, bool) fn_mut \<Rightarrow> 'f \<Rightarrow> 'a list \<Rightarrow> 'a list" where
  "take_while_mut f st [] = []"
| "take_while_mut f st (x # xs) = (if fst (f st x) then x # take_while_mut f (snd (f st x)) xs else [])"

primrec drop_while_mut :: "('f, 'a, bool) fn_mut \<Rightarrow> 'f \<Rightarrow> 'a list \<Rightarrow> 'a list" where
  "drop_while_mut f st [] = []"
| "drop_while_mut f st (x # xs) = (if fst (f st x) then drop_while_mut f (snd (f st x)) xs else x # xs)"

primrec scan_mut :: "('f, 'a, 'b option) fn_mut \<Rightarrow> 'f \<Rightarrow> 'a list \<Rightarrow> 'b list" where
  "scan_mut f st [] = []"
| "scan_mut f st (x # xs) =
     (case fst (f st x) of None \<Rightarrow> [] | Some y \<Rightarrow> y # scan_mut f (snd (f st x)) xs)"

text \<open>Every \<open>step\<close>-th element, after dropping the first \<open>i\<close>.\<close>

fun every_nth :: "nat \<Rightarrow> nat \<Rightarrow> 'a list \<Rightarrow> 'a list" where
  "every_nth step i [] = []"
| "every_nth step 0 (x # xs) = x # every_nth step (step - 1) xs"
| "every_nth step (Suc i) (x # xs) = every_nth step i xs"

text \<open>A closure without state.\<close>

definition pure_fn :: "('a \<Rightarrow> 'b) \<Rightarrow> (unit, 'a, 'b) fn_mut" where
  "pure_fn g st x = (g x, ())"

lemma map_mut_pure [simp]: "map_mut (pure_fn g) st xs = map g xs"
  by (induction xs arbitrary: st) (simp_all add: pure_fn_def)

lemma filter_map_mut_pure [simp]: "filter_map_mut (pure_fn g) st xs = List.map_filter g xs"
  by (induction xs arbitrary: st) (simp_all add: pure_fn_def map_filter_simps split: option.splits)

lemma pure_simps [simp]:
  "filter_mut (pure_fn g) st xs = filter g xs"
  "take_while_mut (pure_fn g) st xs = takeWhile g xs"
  "drop_while_mut (pure_fn g) st xs = dropWhile g xs"
  by (induction xs arbitrary: st) (simp_all add: pure_fn_def)

lemma every_nth_length:
  "0 < step \<Longrightarrow> length (every_nth step i xs) = (length xs + (step - 1) - i) div step"
proof (induction step i xs rule: every_nth.induct)
  case (2 step x xs)
  then obtain k where k: "step = Suc k" by (cases step) auto
  have "(Suc k + length xs) div Suc k = Suc (length xs div Suc k)" by (simp add: div_add_self1 del: add_Suc)
  with 2 k show ?case by (simp add: ac_simps)
qed (auto simp: div_less)

lemma every_nth_nth:
  "0 < step \<Longrightarrow> k < length (every_nth step i xs) \<Longrightarrow> every_nth step i xs ! k = xs ! (i + k * step)"
proof (induction step i xs arbitrary: k rule: every_nth.induct)
  case (2 step x xs)
  show ?case
  proof (cases k)
    case (Suc j)
    with 2 have "every_nth step (step - 1) xs ! j = xs ! (step - 1 + j * step)" by simp
    with Suc "2.prems"(1) show ?thesis by (cases step) (simp_all add: ac_simps)
  qed simp
qed auto

lemma map_mut_length [simp]: "length (map_mut f st xs) = length xs"
  by (induction xs arbitrary: st) simp_all

end
