(* ===== verification/Stream_Adapters.thy ===== *)
theory Stream_Adapters
  imports Stream_Core
begin

text \<open>
  The stream constructors and the adapters of src/cynthia/src/future/stream.rs. A struct is a
  record; \<open>p\<close> is the poll function of the wrapped stream, \<open>f\<close> the body of a closure whose
  state is a field. A \<open>loop\<close> inside one poll is a \<open>partial_function\<close>: it does not return
  when the wrapped stream keeps answering without end.
\<close>

section \<open>Constructors\<close>

definition repeat_poll :: "('a, 'a) stream" where
  "repeat_poll item = Some (item, Ready (Some item))"

definition repeat_with_poll :: "('f \<Rightarrow> 'a \<times> 'f) \<Rightarrow> ('f, 'a) stream" where
  "repeat_with_poll f st = (case f st of (item, st') \<Rightarrow> Some (st', Ready (Some item)))"

definition empty_poll :: "(unit, 'a) stream" where
  "empty_poll s = Some (s, Ready None)"

text \<open>\<open>next\<close> is the \<open>Iterator::next\<close> of the wrapped iterator.\<close>

definition iter_poll :: "('i \<Rightarrow> 'a option \<times> 'i) \<Rightarrow> ('i, 'a) stream" where
  "iter_poll next iter = (case next iter of (item, iter') \<Rightarrow> Some (iter', Ready item))"

definition once_poll :: "('a option, 'a) stream" where
  "once_poll value = Some (None, Ready value)"

definition pending_poll :: "(unit, 'a) stream" where
  "pending_poll s = Some (s, Pending)"

definition poll_fn_poll :: "('f \<Rightarrow> ('f \<times> 'a option poll) option) \<Rightarrow> ('f, 'a) stream" where
  "poll_fn_poll f st = f st"

record ('f, 't, 'u) unfold =
  uf_f :: 'f
  uf_state :: "'t option"
  uf_fut :: "'u option"

definition unfold_new :: "'t \<Rightarrow> 'f \<Rightarrow> ('f, 't, 'u) unfold" where
  "unfold_new seed f = \<lparr>uf_f = f, uf_state = Some seed, uf_fut = None\<rparr>"

text \<open>Taking the state out starts the next future.\<close>

definition unfold_start :: "('f, 't, 'u) fn_mut \<Rightarrow> ('f, 't, 'u) unfold \<Rightarrow> ('f, 't, 'u) unfold" where
  "unfold_start f this =
     (case uf_state this of
        None \<Rightarrow> this
      | Some state \<Rightarrow> (case f (uf_f this) state of (fut, f') \<Rightarrow>
          this\<lparr>uf_f := f', uf_state := None, uf_fut := Some fut\<rparr>))"

definition unfold_poll ::
  "('f, 't, 'u) fn_mut \<Rightarrow> ('u, ('a \<times> 't) option) future \<Rightarrow> (('f, 't, 'u) unfold, 'a) stream" where
  "unfold_poll f pf this =
     (let this1 = unfold_start f this in
      case uf_fut this1 of
        None \<Rightarrow> Some (this1, Panicked)
      | Some fut \<Rightarrow>
          ready (pf fut) (\<lambda>u. this1\<lparr>uf_fut := Some u\<rparr>) (\<lambda>u step.
            case step of
              Some (item, next_state) \<Rightarrow> Some (this1\<lparr>uf_fut := None, uf_state := Some next_state\<rparr>, Ready (Some item))
            | None \<Rightarrow> Some (this1\<lparr>uf_fut := None\<rparr>, Ready None)))"

definition try_unfold_poll ::
  "('f, 't, 'u) fn_mut \<Rightarrow> ('u, 'e + ('a \<times> 't) option) future \<Rightarrow> (('f, 't, 'u) unfold, 'e + 'a) stream" where
  "try_unfold_poll f pf this =
     (let this1 = unfold_start f this in
      case uf_fut this1 of
        None \<Rightarrow> Some (this1, Ready None)
      | Some fut \<Rightarrow>
          ready (pf fut) (\<lambda>u. this1\<lparr>uf_fut := Some u\<rparr>) (\<lambda>u step.
            case step of
              Inr (Some (item, next_state)) \<Rightarrow>
                Some (this1\<lparr>uf_fut := None, uf_state := Some next_state\<rparr>, Ready (Some (Inr item)))
            | Inr None \<Rightarrow> Some (this1\<lparr>uf_fut := None\<rparr>, Ready None)
            | Inl e \<Rightarrow> Some (this1\<lparr>uf_fut := None\<rparr>, Ready (Some (Inl e)))))"

section \<open>One answer per poll\<close>

record 's enumerate =
  en_stream :: 's
  en_i :: nat

definition enumerate_poll :: "('s, 'a) stream \<Rightarrow> ('s enumerate, nat \<times> 'a) stream" where
  "enumerate_poll p this =
     ready (p (en_stream this)) (\<lambda>s. this\<lparr>en_stream := s\<rparr>) (\<lambda>s next.
       case next of
         Some v \<Rightarrow>
           if en_i this = usize_max then Some (this\<lparr>en_stream := s\<rparr>, Panicked)
           else Some (this\<lparr>en_stream := s, en_i := en_i this + 1\<rparr>, Ready (Some (en_i this, v)))
       | None \<Rightarrow> Some (this\<lparr>en_stream := s\<rparr>, Ready None))"

record ('s, 'f) fn_stream =
  fs_stream :: 's
  fs_f :: 'f

definition map_poll :: "('s, 'a) stream \<Rightarrow> ('f, 'a, 'b) fn_mut \<Rightarrow> (('s, 'f) fn_stream, 'b) stream" where
  "map_poll p f this =
     ready (p (fs_stream this)) (\<lambda>s. this\<lparr>fs_stream := s\<rparr>) (\<lambda>s next.
       case next of
         None \<Rightarrow> Some (this\<lparr>fs_stream := s\<rparr>, Ready None)
       | Some v \<Rightarrow> (case f (fs_f this) v of (r, f') \<Rightarrow>
           Some (this\<lparr>fs_stream := s, fs_f := f'\<rparr>, Ready (Some r))))"

text \<open>\<open>Cloned\<close> and \<open>Copied\<close> turn a reference into a value; values are the same in the model.\<close>

definition cloned_poll :: "('s, 'a) stream \<Rightarrow> ('s, 'a) stream" where
  "cloned_poll p s = ready (p s) id (\<lambda>s' next. Some (s', Ready next))"

definition inspect_poll :: "('s, 'a) stream \<Rightarrow> ('f, 'a, unit) fn_mut \<Rightarrow> (('s, 'f) fn_stream, 'a) stream" where
  "inspect_poll p f this =
     ready (p (fs_stream this)) (\<lambda>s. this\<lparr>fs_stream := s\<rparr>) (\<lambda>s next.
       case next of
         None \<Rightarrow> Some (this\<lparr>fs_stream := s\<rparr>, Ready None)
       | Some x \<Rightarrow> Some (this\<lparr>fs_stream := s, fs_f := snd (f (fs_f this) x)\<rparr>, Ready (Some x)))"

definition take_while_poll :: "('s, 'a) stream \<Rightarrow> ('f, 'a, bool) fn_mut \<Rightarrow> (('s, 'f) fn_stream, 'a) stream" where
  "take_while_poll p f this =
     ready (p (fs_stream this)) (\<lambda>s. this\<lparr>fs_stream := s\<rparr>) (\<lambda>s next.
       case next of
         None \<Rightarrow> Some (this\<lparr>fs_stream := s\<rparr>, Ready None)
       | Some v \<Rightarrow> (case f (fs_f this) v of (b, f') \<Rightarrow>
           Some (this\<lparr>fs_stream := s, fs_f := f'\<rparr>, Ready (if b then Some v else None))))"

text \<open>\<open>Scan\<close>: the closure also updates a state variable; both are the state \<open>'f\<close> here.\<close>

definition scan_poll :: "('s, 'a) stream \<Rightarrow> ('f, 'a, 'b option) fn_mut \<Rightarrow> (('s, 'f) fn_stream, 'b) stream" where
  "scan_poll p f this =
     ready (p (fs_stream this)) (\<lambda>s. this\<lparr>fs_stream := s\<rparr>) (\<lambda>s next.
       case next of
         None \<Rightarrow> Some (this\<lparr>fs_stream := s\<rparr>, Ready None)
       | Some v \<Rightarrow> (case f (fs_f this) v of (r, f') \<Rightarrow>
           Some (this\<lparr>fs_stream := s, fs_f := f'\<rparr>, Ready r)))"

record 's take =
  tk_stream :: 's
  tk_n :: nat

definition take_poll :: "('s, 'a) stream \<Rightarrow> ('s take, 'a) stream" where
  "take_poll p this =
     (if tk_n this = 0 then Some (this, Ready None)
      else ready (p (tk_stream this)) (\<lambda>s. this\<lparr>tk_stream := s\<rparr>) (\<lambda>s next.
        Some (this\<lparr>tk_stream := s, tk_n := (case next of Some _ \<Rightarrow> tk_n this - 1 | None \<Rightarrow> 0)\<rparr>, Ready next)))"

record 's fuse =
  fu_stream :: 's
  fu_done :: bool

definition fuse_new :: "'s \<Rightarrow> 's fuse" where
  "fuse_new s = \<lparr>fu_stream = s, fu_done = False\<rparr>"

definition fuse_poll :: "('s, 'a) stream \<Rightarrow> ('s fuse, 'a) stream" where
  "fuse_poll p this =
     (if fu_done this then Some (this, Ready None)
      else ready (p (fu_stream this)) (\<lambda>s. this\<lparr>fu_stream := s\<rparr>) (\<lambda>s next.
        Some (this\<lparr>fu_stream := s, fu_done := (next = None)\<rparr>, Ready next)))"

record ('s, 't) chain =
  ch_first :: "'s fuse"
  ch_second :: "'t fuse"

definition chain_new :: "'s \<Rightarrow> 't \<Rightarrow> ('s, 't) chain" where
  "chain_new s t = \<lparr>ch_first = fuse_new s, ch_second = fuse_new t\<rparr>"

definition chain_tail :: "('s, 't) chain \<Rightarrow> (('s, 't) chain \<times> 'a option poll) option" where
  "chain_tail this =
     (if fu_done (ch_first this) \<and> fu_done (ch_second this) then Some (this, Ready None)
      else Some (this, Pending))"

definition chain_second :: "('t, 'a) stream \<Rightarrow> (('s, 't) chain, 'a) stream" where
  "chain_second q this =
     (if fu_done (ch_second this) then chain_tail this
      else ready (fuse_poll q (ch_second this)) (\<lambda>t. this\<lparr>ch_second := t\<rparr>) (\<lambda>t next.
        case next of
          Some x \<Rightarrow> Some (this\<lparr>ch_second := t\<rparr>, Ready (Some x))
        | None \<Rightarrow> chain_tail (this\<lparr>ch_second := t\<rparr>)))"

definition chain_poll :: "('s, 'a) stream \<Rightarrow> ('t, 'a) stream \<Rightarrow> (('s, 't) chain, 'a) stream" where
  "chain_poll p q this =
     (if fu_done (ch_first this) then chain_second q this
      else ready (fuse_poll p (ch_first this)) (\<lambda>s. this\<lparr>ch_first := s\<rparr>) (\<lambda>s next.
        case next of
          Some x \<Rightarrow> Some (this\<lparr>ch_first := s\<rparr>, Ready (Some x))
        | None \<Rightarrow> chain_second q (this\<lparr>ch_first := s\<rparr>)))"

record 's cycle =
  cy_orig :: 's
  cy_stream :: 's

definition cycle_poll :: "('s, 'a) stream \<Rightarrow> ('s cycle, 'a) stream" where
  "cycle_poll p this =
     ready (p (cy_stream this)) (\<lambda>s. this\<lparr>cy_stream := s\<rparr>) (\<lambda>s next.
       case next of
         Some item \<Rightarrow> Some (this\<lparr>cy_stream := s\<rparr>, Ready (Some item))
       | None \<Rightarrow> ready (p (cy_orig this)) (\<lambda>s'. this\<lparr>cy_stream := s'\<rparr>) (\<lambda>s' next'.
           Some (this\<lparr>cy_stream := s'\<rparr>, Ready next')))"

record ('s, 't, 'a) zip =
  zp_item_slot :: "'a option"
  zp_first :: 's
  zp_second :: 't

definition zip_second :: "('t, 'b) stream \<Rightarrow> ('s, 't, 'a) zip \<Rightarrow> 'a \<Rightarrow> (('s, 't, 'a) zip \<times> ('a \<times> 'b) option poll) option" where
  "zip_second q this first_item =
     ready (q (zp_second this)) (\<lambda>t. this\<lparr>zp_second := t\<rparr>) (\<lambda>t second_item.
       Some (this\<lparr>zp_second := t, zp_item_slot := None\<rparr>,
             Ready (map_option (\<lambda>b. (first_item, b)) second_item)))"

definition zip_poll :: "('s, 'a) stream \<Rightarrow> ('t, 'b) stream \<Rightarrow> (('s, 't, 'a) zip, 'a \<times> 'b) stream" where
  "zip_poll p q this =
     (case zp_item_slot this of
        Some first_item \<Rightarrow> zip_second q this first_item
      | None \<Rightarrow>
          ready (p (zp_first this)) (\<lambda>s. this\<lparr>zp_first := s\<rparr>) (\<lambda>s next.
            case next of
              None \<Rightarrow> Some (this\<lparr>zp_first := s\<rparr>, Ready None)
            | Some item \<Rightarrow> zip_second q (this\<lparr>zp_first := s, zp_item_slot := Some item\<rparr>) item))"

record ('s, 't) pair_stream =
  ps_stream1 :: 's
  ps_stream2 :: 't

text \<open>\<open>Or\<close> prefers the first stream; \<open>Race\<close> asks both in an order \<open>b\<close> drawn at random.\<close>

definition or_poll :: "('s, 'a) stream \<Rightarrow> ('t, 'a) stream \<Rightarrow> (('s, 't) pair_stream, 'a) stream" where
  "or_poll p q this =
     (case p (ps_stream1 this) of
        None \<Rightarrow> None
      | Some (s, Ready (Some t)) \<Rightarrow> Some (this\<lparr>ps_stream1 := s\<rparr>, Ready (Some t))
      | Some (s, Panicked) \<Rightarrow> Some (this\<lparr>ps_stream1 := s\<rparr>, Panicked)
      | Some (s, _) \<Rightarrow>
          (case q (ps_stream2 this) of
             None \<Rightarrow> None
           | Some (u, r) \<Rightarrow> Some (this\<lparr>ps_stream1 := s, ps_stream2 := u\<rparr>, r)))"

fun race_pair :: "('s \<times> 'a option poll) option \<Rightarrow> ('s \<Rightarrow> 'c) \<Rightarrow> ('s \<Rightarrow> ('c \<times> 'a option poll) option) \<Rightarrow> ('c \<times> 'a option poll) option" where
  "race_pair None w k = None"
| "race_pair (Some (s, Ready (Some t))) w k = Some (w s, Ready (Some t))"
| "race_pair (Some (s, Panicked)) w k = Some (w s, Panicked)"
| "race_pair (Some (s, Ready None)) w k = k s"
| "race_pair (Some (s, Pending)) w k = k s"

definition race_poll :: "bool \<Rightarrow> ('s, 'a) stream \<Rightarrow> ('t, 'a) stream \<Rightarrow> (('s, 't) pair_stream, 'a) stream" where
  "race_poll b p q this =
     (if b then
        race_pair (p (ps_stream1 this)) (\<lambda>s. this\<lparr>ps_stream1 := s\<rparr>) (\<lambda>s.
          race_pair (q (ps_stream2 this)) (\<lambda>t. this\<lparr>ps_stream1 := s, ps_stream2 := t\<rparr>) (\<lambda>t.
            Some (this\<lparr>ps_stream1 := s, ps_stream2 := t\<rparr>, Pending)))
      else
        race_pair (q (ps_stream2 this)) (\<lambda>t. this\<lparr>ps_stream2 := t\<rparr>) (\<lambda>t.
          race_pair (p (ps_stream1 this)) (\<lambda>s. this\<lparr>ps_stream1 := s, ps_stream2 := t\<rparr>) (\<lambda>s.
            Some (this\<lparr>ps_stream1 := s, ps_stream2 := t\<rparr>, Pending))))"

section \<open>Loops inside one poll\<close>

partial_function (option) filter_poll ::
  "('s, 'a) stream \<Rightarrow> ('f, 'a, bool) fn_mut \<Rightarrow> (('s, 'f) fn_stream, 'a) stream" where
  "filter_poll p f this =
     ready (p (fs_stream this)) (\<lambda>s. this\<lparr>fs_stream := s\<rparr>) (\<lambda>s next.
       case next of
         None \<Rightarrow> Some (this\<lparr>fs_stream := s\<rparr>, Ready None)
       | Some v \<Rightarrow> (case f (fs_f this) v of (b, f') \<Rightarrow>
           if b then Some (this\<lparr>fs_stream := s, fs_f := f'\<rparr>, Ready (Some v))
           else filter_poll p f (this\<lparr>fs_stream := s, fs_f := f'\<rparr>)))"

partial_function (option) filter_map_poll ::
  "('s, 'a) stream \<Rightarrow> ('f, 'a, 'b option) fn_mut \<Rightarrow> (('s, 'f) fn_stream, 'b) stream" where
  "filter_map_poll p f this =
     ready (p (fs_stream this)) (\<lambda>s. this\<lparr>fs_stream := s\<rparr>) (\<lambda>s next.
       case next of
         None \<Rightarrow> Some (this\<lparr>fs_stream := s\<rparr>, Ready None)
       | Some v \<Rightarrow> (case f (fs_f this) v of (r, f') \<Rightarrow>
           (case r of
              Some t \<Rightarrow> Some (this\<lparr>fs_stream := s, fs_f := f'\<rparr>, Ready (Some t))
            | None \<Rightarrow> filter_map_poll p f (this\<lparr>fs_stream := s, fs_f := f'\<rparr>))))"

partial_function (option) skip_poll :: "('s, 'a) stream \<Rightarrow> ('s take, 'a) stream" where
  "skip_poll p this =
     ready (p (tk_stream this)) (\<lambda>s. this\<lparr>tk_stream := s\<rparr>) (\<lambda>s next.
       case next of
         None \<Rightarrow> Some (this\<lparr>tk_stream := s\<rparr>, Ready None)
       | Some v \<Rightarrow>
           if tk_n this = 0 then Some (this\<lparr>tk_stream := s\<rparr>, Ready (Some v))
           else skip_poll p (this\<lparr>tk_stream := s, tk_n := tk_n this - 1\<rparr>))"

text \<open>The predicate of \<open>SkipWhile\<close> is dropped when it first fails.\<close>

partial_function (option) skip_while_poll ::
  "('s, 'a) stream \<Rightarrow> ('f, 'a, bool) fn_mut \<Rightarrow> (('s, 'f option) fn_stream, 'a) stream" where
  "skip_while_poll p f this =
     ready (p (fs_stream this)) (\<lambda>s. this\<lparr>fs_stream := s\<rparr>) (\<lambda>s next.
       case next of
         None \<Rightarrow> Some (this\<lparr>fs_stream := s\<rparr>, Ready None)
       | Some v \<Rightarrow>
           (case fs_f this of
              None \<Rightarrow> Some (this\<lparr>fs_stream := s\<rparr>, Ready (Some v))
            | Some st \<Rightarrow> (case f st v of (b, st') \<Rightarrow>
                if b then skip_while_poll p f (this\<lparr>fs_stream := s, fs_f := Some st'\<rparr>)
                else Some (this\<lparr>fs_stream := s, fs_f := None\<rparr>, Ready (Some v)))))"

record 's step_by =
  sb_stream :: 's
  sb_step :: nat
  sb_i :: nat

definition step_by_new :: "'s \<Rightarrow> nat \<Rightarrow> 's step_by fallible" where
  "step_by_new s step = (if step > 0 then Inr \<lparr>sb_stream = s, sb_step = step, sb_i = 0\<rparr> else Inl AssertFailed)"

partial_function (option) step_by_poll :: "('s, 'a) stream \<Rightarrow> ('s step_by, 'a) stream" where
  "step_by_poll p this =
     ready (p (sb_stream this)) (\<lambda>s. this\<lparr>sb_stream := s\<rparr>) (\<lambda>s next.
       case next of
         None \<Rightarrow> Some (this\<lparr>sb_stream := s\<rparr>, Ready None)
       | Some v \<Rightarrow>
           if sb_i this = 0 then Some (this\<lparr>sb_stream := s, sb_i := sb_step this - 1\<rparr>, Ready (Some v))
           else step_by_poll p (this\<lparr>sb_stream := s, sb_i := sb_i this - 1\<rparr>))"

record ('s, 'u) flatten =
  fl_stream :: 's
  fl_inner :: "'u option"

text \<open>
  One turn of the loop of \<open>Flatten\<close> and \<open>FlatMap\<close>: first the inner stream, if there is
  one, then the outer stream for the next inner one.
\<close>

partial_function (option) flatten_poll ::
  "('s, 'u) stream \<Rightarrow> ('u, 'a) stream \<Rightarrow> (('s, 'u) flatten, 'a) stream" where
  "flatten_poll p q this =
     (case fl_inner this of
        Some inner \<Rightarrow>
          ready (q inner) (\<lambda>u. this\<lparr>fl_inner := Some u\<rparr>) (\<lambda>u next.
            case next of
              Some item \<Rightarrow> Some (this\<lparr>fl_inner := Some u\<rparr>, Ready (Some item))
            | None \<Rightarrow>
                ready (p (fl_stream this)) (\<lambda>s. this\<lparr>fl_stream := s, fl_inner := None\<rparr>) (\<lambda>s next'.
                  case next' of
                    Some inner' \<Rightarrow> flatten_poll p q (this\<lparr>fl_stream := s, fl_inner := Some inner'\<rparr>)
                  | None \<Rightarrow> Some (this\<lparr>fl_stream := s, fl_inner := None\<rparr>, Ready None)))
      | None \<Rightarrow>
          ready (p (fl_stream this)) (\<lambda>s. this\<lparr>fl_stream := s\<rparr>) (\<lambda>s next'.
            case next' of
              Some inner' \<Rightarrow> flatten_poll p q (this\<lparr>fl_stream := s, fl_inner := Some inner'\<rparr>)
            | None \<Rightarrow> Some (this\<lparr>fl_stream := s\<rparr>, Ready None)))"

definition flat_map_poll ::
  "('s, 'b) stream \<Rightarrow> ('f, 'b, 'u) fn_mut \<Rightarrow> ('u, 'a) stream \<Rightarrow> ((('s, 'f) fn_stream, 'u) flatten, 'a) stream" where
  "flat_map_poll p f q = flatten_poll (map_poll p f) q"

record ('s, 'f, 'u) then_stream =
  th_stream :: 's
  th_future :: "'u option"
  th_f :: 'f

partial_function (option) then_poll ::
  "('s, 'b) stream \<Rightarrow> ('f, 'b, 'u) fn_mut \<Rightarrow> ('u, 'a) future \<Rightarrow> (('s, 'f, 'u) then_stream, 'a) stream" where
  "then_poll p f q this =
     (case th_future this of
        Some fut \<Rightarrow>
          ready (q fut) (\<lambda>u. this\<lparr>th_future := Some u\<rparr>) (\<lambda>u item.
            Some (this\<lparr>th_future := None\<rparr>, Ready (Some item)))
      | None \<Rightarrow>
          ready (p (th_stream this)) (\<lambda>s. this\<lparr>th_stream := s\<rparr>) (\<lambda>s next.
            case next of
              Some item \<Rightarrow> (case f (th_f this) item of (fut, f') \<Rightarrow>
                then_poll p f q (this\<lparr>th_stream := s, th_f := f', th_future := Some fut\<rparr>))
            | None \<Rightarrow> Some (this\<lparr>th_stream := s\<rparr>, Ready None)))"

definition then_size_hint :: "nat \<times> nat option \<Rightarrow> ('s, 'f, 'u) then_stream \<Rightarrow> nat \<times> nat option" where
  "then_size_hint hint this =
     (let future_len = (if th_future this \<noteq> None then 1 else 0) in
      (min (fst hint + future_len) usize_max,
       Option.bind (snd hint) (\<lambda>u. if u + future_len \<le> usize_max then Some (u + future_len) else None)))"

section \<open>What the constructors produce\<close>

lemma repeat_emits: "emits repeat_poll x (replicate n x) x"
  by (induction n) (auto intro!: emits_nil emits_item simp: repeat_poll_def)

lemma empty_yields: "yields empty_poll s []"
  by (rule yields_end) (simp add: empty_poll_def)

lemma once_yields: "yields once_poll (Some x) [x]"
  by (rule yields_item [OF _ yields_end]) (simp_all add: once_poll_def)

text \<open>An iterator over a list.\<close>

fun list_next :: "'a list \<Rightarrow> 'a option \<times> 'a list" where
  "list_next [] = (None, [])"
| "list_next (x # xs) = (Some x, xs)"

lemma iter_yields: "yields (iter_poll list_next) xs xs"
proof (induction xs)
  case Nil
  show ?case by (rule yields_end) (simp add: iter_poll_def)
next
  case (Cons x xs)
  show ?case by (rule yields_item [OF _ Cons]) (simp add: iter_poll_def)
qed

lemma pending_never: "\<not> yields pending_poll s xs" "\<not> resolves pending_poll s r"
proof -
  have "yields pending_poll s xs \<Longrightarrow> False" for s :: unit and xs :: "'a list"
    by (induction rule: yields.induct) (auto simp: pending_poll_def)
  then show "\<not> yields pending_poll s xs" by blast
  have "resolves pending_poll s r \<Longrightarrow> False" for s :: unit and r :: "'b option"
    by (induction rule: resolves.induct) (auto simp: pending_poll_def)
  then show "\<not> resolves pending_poll s r" by blast
qed

section \<open>What the adapters produce\<close>

lemma map_yields:
  assumes "yields p s xs"
  shows "yields (map_poll p f) \<lparr>fs_stream = s, fs_f = st\<rparr> (map_mut f st xs)"
  by (rule yields_sim [OF assms(1), where W = "\<lambda>s c. \<lparr>fs_stream = s, fs_f = c\<rparr>" and out = "map_mut f" and P = "\<lambda>_ _. True"])
    (use assms in \<open>auto intro!: yields_end yields_item simp: map_poll_def case_prod_beta\<close>)

lemma cloned_yields:
  assumes "yields p s xs"
  shows "yields (cloned_poll p) s xs"
  by (rule yields_sim [OF assms(1), where W = "\<lambda>s _. s" and out = "\<lambda>_ xs. xs" and P = "\<lambda>_ _. True"])
    (use assms in \<open>auto intro!: yields_end yields_item simp: cloned_poll_def\<close>)

lemma inspect_yields:
  assumes "yields p s xs"
  shows "yields (inspect_poll p f) \<lparr>fs_stream = s, fs_f = st\<rparr> xs"
  by (rule yields_sim [OF assms(1), where W = "\<lambda>s c. \<lparr>fs_stream = s, fs_f = c\<rparr>" and out = "\<lambda>_ xs. xs" and P = "\<lambda>_ _. True"])
    (use assms in \<open>auto intro!: yields_end yields_item simp: inspect_poll_def\<close>)

lemma enumerate_yields:
  assumes "yields p s xs" "i + length xs \<le> usize_max"
  shows "yields (enumerate_poll p) \<lparr>en_stream = s, en_i = i\<rparr> (List.enumerate i xs)"
  by (rule yields_sim [OF assms(1), where W = "\<lambda>s c. \<lparr>en_stream = s, en_i = c\<rparr>" and out = List.enumerate and P = "\<lambda>i xs. i + length xs \<le> usize_max"])
    (use assms in \<open>auto intro!: yields_end yields_item simp: enumerate_poll_def\<close>)

lemma fuse_yields:
  assumes "yields p s xs"
  shows "yields (fuse_poll p) \<lparr>fu_stream = s, fu_done = False\<rparr> xs"
  by (rule yields_sim [OF assms(1), where W = "\<lambda>s c. \<lparr>fu_stream = s, fu_done = c\<rparr>" and out = "\<lambda>_ xs. xs" and P = "\<lambda>c _. \<not> c"])
    (use assms in \<open>auto intro!: yields_end yields_item simp: fuse_poll_def\<close>)

lemma take_while_yields:
  assumes "yields p s xs"
  shows "yields (take_while_poll p f) \<lparr>fs_stream = s, fs_f = st\<rparr> (take_while_mut f st xs)"
  by (rule yields_sim [OF assms(1), where W = "\<lambda>s c. \<lparr>fs_stream = s, fs_f = c\<rparr>" and out = "take_while_mut f" and P = "\<lambda>_ _. True"])
    (use assms in \<open>auto intro!: yields_end yields_item simp: take_while_poll_def case_prod_beta\<close>)

lemma scan_yields:
  assumes "yields p s xs"
  shows "yields (scan_poll p f) \<lparr>fs_stream = s, fs_f = st\<rparr> (scan_mut f st xs)"
  by (rule yields_sim [OF assms(1), where W = "\<lambda>s c. \<lparr>fs_stream = s, fs_f = c\<rparr>" and out = "scan_mut f" and P = "\<lambda>_ _. True"])
    (use assms in \<open>auto intro!: yields_end yields_item simp: scan_poll_def case_prod_beta split: option.split\<close>)

lemma take_zero: "yields (take_poll p) \<lparr>tk_stream = s, tk_n = 0\<rparr> []"
  by (rule yields_end) (simp add: take_poll_def)

lemma take_yields:
  assumes "yields p s xs"
  shows "yields (take_poll p) \<lparr>tk_stream = s, tk_n = n\<rparr> (List.take n xs)"
proof (cases "n = 0")
  case True
  then show ?thesis by (simp add: take_zero)
next
  case False
  show ?thesis
  proof (rule yields_sim [OF assms, where W = "\<lambda>s n. \<lparr>tk_stream = s, tk_n = n\<rparr>" and out = List.take and P = "\<lambda>n _. 0 < n"])
    fix s s1 x xs and n :: nat
    assume "p s = Some (s1, Ready (Some x))" "0 < n"
      and "\<And>n. 0 < n \<Longrightarrow> yields (take_poll p) \<lparr>tk_stream = s1, tk_n = n\<rparr> (List.take n xs)"
    then show "yields (take_poll p) \<lparr>tk_stream = s, tk_n = n\<rparr> (List.take n (x # xs))"
      using take_zero [of p s1] by (cases n; cases "n - 1 = 0") (auto intro!: yields_item simp: take_poll_def)
  qed (use False in \<open>auto intro!: yields_end simp: take_poll_def\<close>)
qed

lemma take_emits:
  "emits p s xs s' \<Longrightarrow> yields (take_poll p) \<lparr>tk_stream = s, tk_n = length xs\<rparr> xs"
proof (induction rule: emits.induct)
  case (emits_nil s)
  show ?case by (simp add: take_zero)
next
  case (emits_item s s1 x xs s2)
  show ?case by (rule yields_item [OF _ emits_item.IH]) (simp add: take_poll_def emits_item.hyps)
next
  case (emits_pend s s1 xs s2)
  show ?case
  proof (cases xs)
    case Nil
    then show ?thesis by (simp add: take_zero)
  next
    case (Cons y ys)
    then show ?thesis by (intro yields_pend [OF _ emits_pend.IH]) (simp add: take_poll_def emits_pend.hyps)
  qed
qed

text \<open>One turn of each loop, by the answer of the inner stream.\<close>

lemma filter_poll_turn:
  "p s = Some (s1, Ready None) \<Longrightarrow> filter_poll p f \<lparr>fs_stream = s, fs_f = st\<rparr> = Some (\<lparr>fs_stream = s1, fs_f = st\<rparr>, Ready None)"
  "p s = Some (s1, Pending) \<Longrightarrow> filter_poll p f \<lparr>fs_stream = s, fs_f = st\<rparr> = Some (\<lparr>fs_stream = s1, fs_f = st\<rparr>, Pending)"
  "p s = Some (s1, Ready (Some x)) \<Longrightarrow> filter_poll p f \<lparr>fs_stream = s, fs_f = st\<rparr> =
     (if fst (f st x) then Some (\<lparr>fs_stream = s1, fs_f = snd (f st x)\<rparr>, Ready (Some x))
      else filter_poll p f \<lparr>fs_stream = s1, fs_f = snd (f st x)\<rparr>)"
  by (subst filter_poll.simps; simp add: case_prod_beta)+

lemma filter_map_poll_turn:
  "p s = Some (s1, Ready None) \<Longrightarrow> filter_map_poll p f \<lparr>fs_stream = s, fs_f = st\<rparr> = Some (\<lparr>fs_stream = s1, fs_f = st\<rparr>, Ready None)"
  "p s = Some (s1, Pending) \<Longrightarrow> filter_map_poll p f \<lparr>fs_stream = s, fs_f = st\<rparr> = Some (\<lparr>fs_stream = s1, fs_f = st\<rparr>, Pending)"
  "p s = Some (s1, Ready (Some x)) \<Longrightarrow> filter_map_poll p f \<lparr>fs_stream = s, fs_f = st\<rparr> =
     (case fst (f st x) of
        Some t \<Rightarrow> Some (\<lparr>fs_stream = s1, fs_f = snd (f st x)\<rparr>, Ready (Some t))
      | None \<Rightarrow> filter_map_poll p f \<lparr>fs_stream = s1, fs_f = snd (f st x)\<rparr>)"
  by (subst filter_map_poll.simps; simp add: case_prod_beta split: option.split)+

lemma skip_poll_turn:
  "p s = Some (s1, Ready None) \<Longrightarrow> skip_poll p \<lparr>tk_stream = s, tk_n = n\<rparr> = Some (\<lparr>tk_stream = s1, tk_n = n\<rparr>, Ready None)"
  "p s = Some (s1, Pending) \<Longrightarrow> skip_poll p \<lparr>tk_stream = s, tk_n = n\<rparr> = Some (\<lparr>tk_stream = s1, tk_n = n\<rparr>, Pending)"
  "p s = Some (s1, Ready (Some x)) \<Longrightarrow> skip_poll p \<lparr>tk_stream = s, tk_n = n\<rparr> =
     (if n = 0 then Some (\<lparr>tk_stream = s1, tk_n = 0\<rparr>, Ready (Some x)) else skip_poll p \<lparr>tk_stream = s1, tk_n = n - 1\<rparr>)"
  by (subst skip_poll.simps; simp)+

lemma skip_while_poll_turn:
  "p s = Some (s1, Ready None) \<Longrightarrow> skip_while_poll p f \<lparr>fs_stream = s, fs_f = st\<rparr> = Some (\<lparr>fs_stream = s1, fs_f = st\<rparr>, Ready None)"
  "p s = Some (s1, Pending) \<Longrightarrow> skip_while_poll p f \<lparr>fs_stream = s, fs_f = st\<rparr> = Some (\<lparr>fs_stream = s1, fs_f = st\<rparr>, Pending)"
  "p s = Some (s1, Ready (Some x)) \<Longrightarrow> skip_while_poll p f \<lparr>fs_stream = s, fs_f = None\<rparr> =
     Some (\<lparr>fs_stream = s1, fs_f = None\<rparr>, Ready (Some x))"
  "p s = Some (s1, Ready (Some x)) \<Longrightarrow> skip_while_poll p f \<lparr>fs_stream = s, fs_f = Some c\<rparr> =
     (if fst (f c x) then skip_while_poll p f \<lparr>fs_stream = s1, fs_f = Some (snd (f c x))\<rparr>
      else Some (\<lparr>fs_stream = s1, fs_f = None\<rparr>, Ready (Some x)))"
  by (subst skip_while_poll.simps; simp add: case_prod_beta)+

lemma step_by_poll_turn:
  "p s = Some (s1, Ready None) \<Longrightarrow> step_by_poll p \<lparr>sb_stream = s, sb_step = n, sb_i = i\<rparr> =
     Some (\<lparr>sb_stream = s1, sb_step = n, sb_i = i\<rparr>, Ready None)"
  "p s = Some (s1, Pending) \<Longrightarrow> step_by_poll p \<lparr>sb_stream = s, sb_step = n, sb_i = i\<rparr> =
     Some (\<lparr>sb_stream = s1, sb_step = n, sb_i = i\<rparr>, Pending)"
  "p s = Some (s1, Ready (Some x)) \<Longrightarrow> step_by_poll p \<lparr>sb_stream = s, sb_step = n, sb_i = i\<rparr> =
     (if i = 0 then Some (\<lparr>sb_stream = s1, sb_step = n, sb_i = n - 1\<rparr>, Ready (Some x))
      else step_by_poll p \<lparr>sb_stream = s1, sb_step = n, sb_i = i - 1\<rparr>)"
  by (subst step_by_poll.simps; simp)+

lemma filter_yields:
  assumes "yields p s xs"
  shows "yields (filter_poll p f) \<lparr>fs_stream = s, fs_f = st\<rparr> (filter_mut f st xs)"
  by (rule yields_sim [OF assms(1), where W = "\<lambda>s c. \<lparr>fs_stream = s, fs_f = c\<rparr>" and out = "filter_mut f" and P = "\<lambda>_ _. True"])
    (use assms in \<open>auto intro!: yields_end intro: yields_item yields_same simp: filter_poll_turn\<close>)

lemma filter_map_yields:
  assumes "yields p s xs"
  shows "yields (filter_map_poll p f) \<lparr>fs_stream = s, fs_f = st\<rparr> (filter_map_mut f st xs)"
  by (rule yields_sim [OF assms(1), where W = "\<lambda>s c. \<lparr>fs_stream = s, fs_f = c\<rparr>" and out = "filter_map_mut f" and P = "\<lambda>_ _. True"])
    (use assms in \<open>auto intro!: yields_end intro: yields_item yields_same simp: filter_map_poll_turn case_prod_beta split: option.split\<close>)

lemma skip_yields:
  assumes "yields p s xs"
  shows "yields (skip_poll p) \<lparr>tk_stream = s, tk_n = n\<rparr> (drop n xs)"
proof (rule yields_sim [OF assms, where W = "\<lambda>s c. \<lparr>tk_stream = s, tk_n = c\<rparr>" and out = drop and P = "\<lambda>_ _. True"])
  fix s s1 x xs and n :: nat
  assume x: "p s = Some (s1, Ready (Some x))"
    and IH: "\<And>n. True \<Longrightarrow> yields (skip_poll p) \<lparr>tk_stream = s1, tk_n = n\<rparr> (drop n xs)"
  show "yields (skip_poll p) \<lparr>tk_stream = s, tk_n = n\<rparr> (drop n (x # xs))"
  proof (cases n)
    case 0
    with yields_item [OF _ IH [of 0]] x show ?thesis by (simp add: skip_poll_turn)
  next
    case (Suc m)
    with yields_same [OF _ IH [of m]] x show ?thesis by (simp add: skip_poll_turn)
  qed
qed (auto intro!: yields_end simp: skip_poll_turn)

lemma step_by_yields:
  assumes "yields p s xs"
  shows "yields (step_by_poll p) \<lparr>sb_stream = s, sb_step = n, sb_i = i\<rparr> (every_nth n i xs)"
proof (rule yields_sim [OF assms, where W = "\<lambda>s c. \<lparr>sb_stream = s, sb_step = n, sb_i = c\<rparr>" and out = "every_nth n" and P = "\<lambda>_ _. True"])
  fix s s1 x xs i
  assume x: "p s = Some (s1, Ready (Some x))"
    and IH: "\<And>i. True \<Longrightarrow> yields (step_by_poll p) \<lparr>sb_stream = s1, sb_step = n, sb_i = i\<rparr> (every_nth n i xs)"
  show "yields (step_by_poll p) \<lparr>sb_stream = s, sb_step = n, sb_i = i\<rparr> (every_nth n i (x # xs))"
  proof (cases i)
    case 0
    with yields_item [OF _ IH [of "n - 1"]] x show ?thesis by (simp add: step_by_poll_turn)
  next
    case (Suc m)
    with yields_same [OF _ IH [of m]] x show ?thesis by (simp add: step_by_poll_turn)
  qed
qed (auto intro!: yields_end simp: step_by_poll_turn)

lemma skip_while_off:
  assumes "yields p s xs"
  shows "yields (skip_while_poll p f) \<lparr>fs_stream = s, fs_f = None\<rparr> xs"
  by (rule yields_sim [OF assms(1), where W = "\<lambda>s _. \<lparr>fs_stream = s, fs_f = None\<rparr>" and out = "\<lambda>_ xs. xs" and P = "\<lambda>_ _. True"])
    (use assms in \<open>auto intro!: yields_end intro: yields_item yields_same simp: skip_while_poll_turn\<close>)

lemma skip_while_yields:
  assumes "yields p s xs"
  shows "yields (skip_while_poll p f) \<lparr>fs_stream = s, fs_f = Some st\<rparr> (drop_while_mut f st xs)"
  using assms
proof (induction arbitrary: st rule: yields.induct)
  case (yields_end s s1)
  then show ?case by (auto intro!: yields.yields_end simp: skip_while_poll_turn)
next
  case (yields_item s s1 x xs)
  show ?case
  proof (cases "fst (f st x)")
    case True
    with yields_same [OF _ yields_item.IH] yields_item.hyps(1) show ?thesis
      by (simp add: skip_while_poll_turn)
  next
    case False
    then have "skip_while_poll p f \<lparr>fs_stream = s, fs_f = Some st\<rparr> =
        Some (\<lparr>fs_stream = s1, fs_f = None\<rparr>, Ready (Some x))"
      using yields_item.hyps(1) by (simp add: skip_while_poll_turn)
    from yields.yields_item [OF this skip_while_off [OF yields_item.hyps(2)]] False show ?thesis by simp
  qed
next
  case (yields_pend s s1 xs)
  show ?case by (rule yields.yields_pend [OF _ yields_pend.IH]) (simp add: skip_while_poll_turn yields_pend.hyps)
qed

subsection \<open>Several streams\<close>

lemma chain_second_yields:
  assumes "yields q t ys"
  shows "yields (chain_poll p q) \<lparr>ch_first = \<lparr>fu_stream = s, fu_done = True\<rparr>, ch_second = fuse_new t\<rparr> ys"
  by (rule yields_sim [OF assms, where W = "\<lambda>t _. \<lparr>ch_first = \<lparr>fu_stream = s, fu_done = True\<rparr>, ch_second = fuse_new t\<rparr>"
        and out = "\<lambda>_ ys. ys" and P = "\<lambda>_ _. True"])
    (auto intro!: yields_end yields_item simp: chain_poll_def chain_second_def chain_tail_def fuse_poll_def fuse_new_def)

lemma chain_yields:
  assumes "yields p s xs" and ys: "yields q t ys"
  shows "yields (chain_poll p q) (chain_new s t) (xs @ ys)"
proof (rule yields_sim [OF assms(1), where W = "\<lambda>s _. chain_new s t" and out = "\<lambda>_ xs. xs @ ys" and P = "\<lambda>_ _. True"])
  fix s s1
  assume "p s = Some (s1, Ready None)"
  then have "chain_poll p q (chain_new s t) =
      chain_poll p q \<lparr>ch_first = \<lparr>fu_stream = s1, fu_done = True\<rparr>, ch_second = fuse_new t\<rparr>"
    by (simp add: chain_poll_def chain_new_def fuse_poll_def fuse_new_def)
  from yields_same [OF this chain_second_yields [OF ys]]
  show "yields (chain_poll p q) (chain_new s t) ([] @ ys)" by simp
qed (auto intro!: yields_item simp: chain_poll_def chain_new_def fuse_poll_def fuse_new_def)

lemma zip_slot_yields:
  assumes "yields q t ys"
    and "\<And>b t' ys'. ys = b # ys' \<Longrightarrow> yields q t' ys' \<Longrightarrow>
       yields (zip_poll p q) \<lparr>zp_item_slot = None, zp_first = s, zp_second = t'\<rparr> (List.zip xs ys')"
  shows "yields (zip_poll p q) \<lparr>zp_item_slot = Some a, zp_first = s, zp_second = t\<rparr> (List.zip (a # xs) ys)"
  using assms
proof (induction rule: yields.induct)
  case (yields_end t t1)
  then show ?case by (auto intro!: yields.yields_end simp: zip_poll_def zip_second_def)
next
  case (yields_item t t1 b ys)
  from yields_item.prems [OF refl yields_item.hyps(2)] show ?case
    using yields_item.hyps(1) by (auto intro!: yields.yields_item simp: zip_poll_def zip_second_def)
next
  case (yields_pend t t1 ys)
  show ?case
    by (rule yields.yields_pend [OF _ yields_pend.IH [OF yields_pend.prems]])
      (simp_all add: zip_poll_def zip_second_def yields_pend.hyps)
qed

lemma zip_yields:
  assumes "yields p s xs" and "yields q t ys"
  shows "yields (zip_poll p q) \<lparr>zp_item_slot = None, zp_first = s, zp_second = t\<rparr> (List.zip xs ys)"
  using assms
proof (induction arbitrary: t ys rule: yields.induct)
  case (yields_end s s1)
  then show ?case by (auto intro!: yields.yields_end simp: zip_poll_def)
next
  case (yields_item s s1 x xs)
  have "zip_poll p q \<lparr>zp_item_slot = None, zp_first = s, zp_second = t\<rparr> =
      zip_poll p q \<lparr>zp_item_slot = Some x, zp_first = s1, zp_second = t\<rparr>"
    using yields_item.hyps(1) by (simp add: zip_poll_def)
  from yields_same [OF this zip_slot_yields [OF yields_item.prems yields_item.IH]] show ?case .
next
  case (yields_pend s s1 xs)
  show ?case
    by (rule yields.yields_pend [OF _ yields_pend.IH [OF yields_pend.prems]])
      (simp add: zip_poll_def yields_pend.hyps)
qed

lemma flatten_poll_turn:
  "p s = Some (s1, Ready None) \<Longrightarrow> flatten_poll p q \<lparr>fl_stream = s, fl_inner = None\<rparr> = Some (\<lparr>fl_stream = s1, fl_inner = None\<rparr>, Ready None)"
  "p s = Some (s1, Pending) \<Longrightarrow> flatten_poll p q \<lparr>fl_stream = s, fl_inner = None\<rparr> = Some (\<lparr>fl_stream = s1, fl_inner = None\<rparr>, Pending)"
  "p s = Some (s1, Ready (Some u)) \<Longrightarrow> flatten_poll p q \<lparr>fl_stream = s, fl_inner = None\<rparr> = flatten_poll p q \<lparr>fl_stream = s1, fl_inner = Some u\<rparr>"
  "q u = Some (u1, Ready (Some x)) \<Longrightarrow> flatten_poll p q \<lparr>fl_stream = s, fl_inner = Some u\<rparr> = Some (\<lparr>fl_stream = s, fl_inner = Some u1\<rparr>, Ready (Some x))"
  "q u = Some (u1, Pending) \<Longrightarrow> flatten_poll p q \<lparr>fl_stream = s, fl_inner = Some u\<rparr> = Some (\<lparr>fl_stream = s, fl_inner = Some u1\<rparr>, Pending)"
  by (subst flatten_poll.simps; simp)+

lemma flatten_inner_end:
  assumes "q u = Some (u1, Ready None)"
  shows "flatten_poll p q \<lparr>fl_stream = s, fl_inner = Some u\<rparr> = flatten_poll p q \<lparr>fl_stream = s, fl_inner = None\<rparr>"
  using assms
  by (subst (1 2) flatten_poll.simps) simp

lemma flatten_inner_yields:
  assumes "yields q u xs" and rest: "yields (flatten_poll p q) \<lparr>fl_stream = s, fl_inner = None\<rparr> zs"
  shows "yields (flatten_poll p q) \<lparr>fl_stream = s, fl_inner = Some u\<rparr> (xs @ zs)"
  by (rule yields_sim [OF assms(1), where W = "\<lambda>u _. \<lparr>fl_stream = s, fl_inner = Some u\<rparr>" and out = "\<lambda>_ xs. xs @ zs" and P = "\<lambda>_ _. True"])
    (use rest in \<open>auto intro: yields_item yields_same simp: flatten_poll_turn flatten_inner_end\<close>)

lemma flatten_yields:
  assumes "yields p s us" and "list_all2 (yields q) us xss"
  shows "yields (flatten_poll p q) \<lparr>fl_stream = s, fl_inner = None\<rparr> (concat xss)"
  using assms
proof (induction arbitrary: xss rule: yields.induct)
  case (yields_end s s1)
  then show ?case by (auto intro!: yields.yields_end simp: flatten_poll_turn)
next
  case (yields_item s s1 u us)
  then obtain xs xss' where xss: "xss = xs # xss'" "yields q u xs" "list_all2 (yields q) us xss'"
    by (auto simp: list_all2_Cons1)
  from flatten_inner_yields [OF xss(2) yields_item.IH [OF xss(3)]] yields_item.hyps(1) show ?case
    by (auto intro: yields_same simp: xss(1) flatten_poll_turn)
next
  case (yields_pend s s1 us)
  show ?case
    by (rule yields.yields_pend [OF _ yields_pend.IH [OF yields_pend.prems]])
      (simp add: flatten_poll_turn yields_pend.hyps)
qed

lemma flat_map_yields:
  assumes "yields p s bs" and "list_all2 (yields q) (map_mut f st bs) xss"
  shows "yields (flat_map_poll p f q) \<lparr>fl_stream = \<lparr>fs_stream = s, fs_f = st\<rparr>, fl_inner = None\<rparr> (concat xss)"
  unfolding flat_map_poll_def using map_yields [OF assms(1)] assms(2) by (rule flatten_yields)

lemma then_poll_turn:
  "p s = Some (s1, Ready None) \<Longrightarrow> then_poll p f q \<lparr>th_stream = s, th_future = None, th_f = st\<rparr> =
     Some (\<lparr>th_stream = s1, th_future = None, th_f = st\<rparr>, Ready None)"
  "p s = Some (s1, Pending) \<Longrightarrow> then_poll p f q \<lparr>th_stream = s, th_future = None, th_f = st\<rparr> =
     Some (\<lparr>th_stream = s1, th_future = None, th_f = st\<rparr>, Pending)"
  "p s = Some (s1, Ready (Some x)) \<Longrightarrow> then_poll p f q \<lparr>th_stream = s, th_future = None, th_f = st\<rparr> =
     then_poll p f q \<lparr>th_stream = s1, th_future = Some (fst (f st x)), th_f = snd (f st x)\<rparr>"
  "q u = Some (u1, Ready y) \<Longrightarrow> then_poll p f q \<lparr>th_stream = s, th_future = Some u, th_f = st\<rparr> =
     Some (\<lparr>th_stream = s, th_future = None, th_f = st\<rparr>, Ready (Some y))"
  "q u = Some (u1, Pending) \<Longrightarrow> then_poll p f q \<lparr>th_stream = s, th_future = Some u, th_f = st\<rparr> =
     Some (\<lparr>th_stream = s, th_future = Some u1, th_f = st\<rparr>, Pending)"
  by (subst then_poll.simps; simp add: case_prod_beta)+

lemma then_future_yields:
  assumes "resolves q u y" and rest: "yields (then_poll p f q) \<lparr>th_stream = s, th_future = None, th_f = st\<rparr> zs"
  shows "yields (then_poll p f q) \<lparr>th_stream = s, th_future = Some u, th_f = st\<rparr> (y # zs)"
  using assms(1)
proof (induction rule: resolves.induct)
  case (resolves_now u u1 y)
  show ?case by (rule yields_item [OF _ rest]) (simp add: then_poll_turn resolves_now)
next
  case (resolves_pend u u1 y)
  show ?case by (rule yields_pend [OF _ resolves_pend.IH]) (simp add: then_poll_turn resolves_pend.hyps)
qed

lemma then_yields:
  assumes "yields p s xs" and "list_all2 (resolves q) (map_mut f st xs) ys"
  shows "yields (then_poll p f q) \<lparr>th_stream = s, th_future = None, th_f = st\<rparr> ys"
  using assms
proof (induction arbitrary: st ys rule: yields.induct)
  case (yields_end s s1)
  then show ?case by (auto intro!: yields.yields_end simp: then_poll_turn)
next
  case (yields_item s s1 x xs)
  then obtain y ys' where ys: "ys = y # ys'" "resolves q (fst (f st x)) y"
    "list_all2 (resolves q) (map_mut f (snd (f st x)) xs) ys'"
    by (auto simp: list_all2_Cons1)
  from then_future_yields [OF ys(2) yields_item.IH [OF ys(3)]] yields_item.hyps(1) show ?case
    by (auto intro: yields_same simp: ys(1) then_poll_turn)
next
  case (yields_pend s s1 xs)
  show ?case
    by (rule yields.yields_pend [OF _ yields_pend.IH [OF yields_pend.prems]])
      (simp add: then_poll_turn yields_pend.hyps)
qed

text \<open>\<open>unfold\<close>: each step awaits the future that the closure makes of the current state.\<close>

inductive unfolds :: "('f, 't, 'u) fn_mut \<Rightarrow> ('u, ('a \<times> 't) option) future \<Rightarrow> 'f \<Rightarrow> 't \<Rightarrow> 'a list \<Rightarrow> bool"
  for f pf where
  stop: "resolves pf (fst (f st t)) None \<Longrightarrow> unfolds f pf st t []"
| step: "resolves pf (fst (f st t)) (Some (x, t')) \<Longrightarrow> unfolds f pf (snd (f st t)) t' xs \<Longrightarrow> unfolds f pf st t (x # xs)"

lemma unfold_future_end:
  "resolves pf u r \<Longrightarrow> r = None \<Longrightarrow>
     yields (unfold_poll f pf) \<lparr>uf_f = st, uf_state = None, uf_fut = Some u\<rparr> []"
proof (induction rule: resolves.induct)
  case (resolves_now u u1 r)
  then show ?case by (intro yields_end) (simp add: unfold_poll_def unfold_start_def)
next
  case (resolves_pend u u1 r)
  show ?case
    by (rule yields_pend [OF _ resolves_pend.IH [OF resolves_pend.prems]])
      (simp add: unfold_poll_def unfold_start_def resolves_pend.hyps)
qed

lemma unfold_future_item:
  assumes "yields (unfold_poll f pf) \<lparr>uf_f = st, uf_state = Some t, uf_fut = None\<rparr> xs"
  shows "resolves pf u r \<Longrightarrow> r = Some (x, t) \<Longrightarrow>
     yields (unfold_poll f pf) \<lparr>uf_f = st, uf_state = None, uf_fut = Some u\<rparr> (x # xs)"
proof (induction rule: resolves.induct)
  case (resolves_now u u1 r)
  then show ?case by (intro yields_item [OF _ assms]) (simp add: unfold_poll_def unfold_start_def)
next
  case (resolves_pend u u1 r)
  show ?case
    by (rule yields_pend [OF _ resolves_pend.IH [OF resolves_pend.prems]])
      (simp add: unfold_poll_def unfold_start_def resolves_pend.hyps)
qed

lemma unfold_started:
  "unfold_poll f pf \<lparr>uf_f = st, uf_state = Some t, uf_fut = None\<rparr> =
   unfold_poll f pf \<lparr>uf_f = snd (f st t), uf_state = None, uf_fut = Some (fst (f st t))\<rparr>"
  by (simp add: unfold_poll_def unfold_start_def case_prod_beta)

lemma unfold_yields: "unfolds f pf st t xs \<Longrightarrow> yields (unfold_poll f pf) (unfold_new t st) xs"
proof (induction rule: unfolds.induct)
  case (stop st t)
  show ?case unfolding unfold_new_def
    by (rule yields_same [of "unfold_poll f pf", OF unfold_started unfold_future_end [OF stop refl]])
next
  case (step st t x t' xs)
  show ?case unfolding unfold_new_def
    by (rule yields_same [of "unfold_poll f pf", OF unfold_started
          unfold_future_item [OF step.IH [unfolded unfold_new_def] step.hyps(1) refl]])
qed

lemma unfold_after_end_panics:
  "unfold_poll f pf \<lparr>uf_f = st, uf_state = None, uf_fut = None\<rparr> =
     Some (\<lparr>uf_f = st, uf_state = None, uf_fut = None\<rparr>, Panicked)"
  by (simp add: unfold_poll_def unfold_start_def)

text \<open>\<open>cycle\<close> repeats the items of a non-empty stream for ever.\<close>

lemma cycle_pass:
  assumes "yields p s xs"
  shows "\<exists>s' s''. emits (cycle_poll p) \<lparr>cy_orig = o', cy_stream = s\<rparr> xs \<lparr>cy_orig = o', cy_stream = s'\<rparr> \<and>
     p s' = Some (s'', Ready None)"
  using assms
proof (induction rule: yields.induct)
  case (yields_end s s1)
  then show ?case by (blast intro: emits_nil)
next
  case (yields_item s s1 x xs)
  then obtain s' s'' where e: "emits (cycle_poll p) \<lparr>cy_orig = o', cy_stream = s1\<rparr> xs \<lparr>cy_orig = o', cy_stream = s'\<rparr>"
    "p s' = Some (s'', Ready None)" by blast
  have "cycle_poll p \<lparr>cy_orig = o', cy_stream = s\<rparr> = Some (\<lparr>cy_orig = o', cy_stream = s1\<rparr>, Ready (Some x))"
    using yields_item.hyps(1) by (simp add: cycle_poll_def)
  from emits_item [of "cycle_poll p", OF this e(1)] e(2) show ?case by blast
next
  case (yields_pend s s1 xs)
  then obtain s' s'' where e: "emits (cycle_poll p) \<lparr>cy_orig = o', cy_stream = s1\<rparr> xs \<lparr>cy_orig = o', cy_stream = s'\<rparr>"
    "p s' = Some (s'', Ready None)" by blast
  have "cycle_poll p \<lparr>cy_orig = o', cy_stream = s\<rparr> = Some (\<lparr>cy_orig = o', cy_stream = s1\<rparr>, Pending)"
    using yields_pend.hyps(1) by (simp add: cycle_poll_def)
  from emits_pend [of "cycle_poll p", OF this e(1)] e(2) show ?case by blast
qed

lemma cycle_restart:
  assumes "yields p s xs" "xs \<noteq> []" "p s' = Some (s'', Ready None)"
  shows "cycle_poll p \<lparr>cy_orig = s, cy_stream = s'\<rparr> = cycle_poll p \<lparr>cy_orig = s, cy_stream = s\<rparr>"
  using assms(1)
proof cases
  case (yields_end s1)
  with assms(2) show ?thesis by simp
qed (use assms(3) in \<open>simp_all add: cycle_poll_def\<close>)

lemma emits_same_start: "p s = p s' \<Longrightarrow> emits p s' xs s2 \<Longrightarrow> xs \<noteq> [] \<Longrightarrow> emits p s xs s2"
  by (erule emits.cases) (auto intro: emits.intros)

lemma cycle_emits:
  assumes y: "yields p s xs" and ne: "xs \<noteq> []"
  shows "\<exists>s' s''. emits (cycle_poll p) \<lparr>cy_orig = s, cy_stream = s\<rparr> (concat (replicate (Suc n) xs)) \<lparr>cy_orig = s, cy_stream = s'\<rparr> \<and>
     p s' = Some (s'', Ready None)"
proof (induction n)
  case 0
  from cycle_pass [OF y] show ?case by simp
next
  case (Suc n)
  then obtain s' s'' where e: "emits (cycle_poll p) \<lparr>cy_orig = s, cy_stream = s\<rparr> (concat (replicate (Suc n) xs)) \<lparr>cy_orig = s, cy_stream = s'\<rparr>"
    "p s' = Some (s'', Ready None)" by blast
  from cycle_pass [OF y] obtain s2 s3 where e2:
    "emits (cycle_poll p) \<lparr>cy_orig = s, cy_stream = s\<rparr> xs \<lparr>cy_orig = s, cy_stream = s2\<rparr>" "p s2 = Some (s3, Ready None)"
    by blast
  from emits_same_start [OF cycle_restart [OF y ne e(2)] e2(1) ne]
  have "emits (cycle_poll p) \<lparr>cy_orig = s, cy_stream = s\<rparr> (concat (replicate (Suc n) xs) @ xs) \<lparr>cy_orig = s, cy_stream = s2\<rparr>"
    by (rule emits_trans [OF e(1)])
  moreover have "concat (replicate (Suc n) xs) @ xs = concat (replicate (Suc (Suc n)) xs)"
    by (metis concat.simps(1,2) concat_append append_Nil2 replicate_append_same replicate_Suc)
  ultimately show ?case using e2(2) by metis
qed

text \<open>\<open>race\<close> never reports the end: two finished streams leave it pending.\<close>

lemma race_pair_no_end:
  assumes "\<And>s. k s \<noteq> Some (c, Ready None)"
  shows "race_pair m w k \<noteq> Some (c, Ready None)"
  using assms by (cases "(m, w, k)" rule: race_pair.cases) auto

lemma race_never_ends: "race_poll b p q this \<noteq> Some (c, Ready None)"
  unfolding race_poll_def by (auto dest!: race_pair_no_end [THEN notE, rotated])

section \<open>Properties\<close>

text \<open>
  (C23) Each adapter of a finite stream yields the corresponding list, whatever the stream
  answers \<open>Pending\<close> in between and with closures that keep state: map, filter, filter_map,
  take, skip, step_by, take_while, skip_while, scan and inspect.
\<close>

theorem stream_adapters_correct:
  assumes "yields p s xs"
  shows "yields (map_poll p f) \<lparr>fs_stream = s, fs_f = st\<rparr> (map_mut f st xs) \<and>
    yields (filter_poll p b) \<lparr>fs_stream = s, fs_f = st\<rparr> (filter_mut b st xs) \<and>
    yields (filter_map_poll p g) \<lparr>fs_stream = s, fs_f = st\<rparr> (filter_map_mut g st xs) \<and>
    yields (take_poll p) \<lparr>tk_stream = s, tk_n = n\<rparr> (List.take n xs) \<and>
    yields (skip_poll p) \<lparr>tk_stream = s, tk_n = n\<rparr> (drop n xs) \<and>
    yields (step_by_poll p) \<lparr>sb_stream = s, sb_step = n, sb_i = 0\<rparr> (every_nth n 0 xs) \<and>
    yields (take_while_poll p b) \<lparr>fs_stream = s, fs_f = st\<rparr> (take_while_mut b st xs) \<and>
    yields (skip_while_poll p b) \<lparr>fs_stream = s, fs_f = Some st\<rparr> (drop_while_mut b st xs) \<and>
    yields (scan_poll p g) \<lparr>fs_stream = s, fs_f = st\<rparr> (scan_mut g st xs) \<and>
    yields (inspect_poll p h) \<lparr>fs_stream = s, fs_f = st\<rparr> xs"
  by (intro conjI; rule map_yields filter_yields filter_map_yields take_yields skip_yields step_by_yields
      take_while_yields skip_while_yields scan_yields inspect_yields; rule assms)

theorem stream_adapters_correct_witness:
  "yields (step_by_poll (iter_poll list_next)) \<lparr>sb_stream = [1, 2, 3, 4, 5 :: nat], sb_step = 2, sb_i = 0\<rparr> [1, 3, 5] \<and>
   yields (filter_poll (iter_poll list_next) (pure_fn even)) \<lparr>fs_stream = [1, 2, 3, 4, 5 :: nat], fs_f = ()\<rparr> [2, 4]"
proof -
  have "every_nth 2 0 [1, 2, 3, 4, 5 :: nat] = [1, 3, 5]" "filter_mut (pure_fn even) () [1, 2, 3, 4, 5 :: nat] = [2, 4]"
    by code_simp+
  then show ?thesis
    using stream_adapters_correct [OF iter_yields [of "[1, 2, 3, 4, 5 :: nat]"], of "pure_fn id" "()" "pure_fn even" "pure_fn Some" 2 "pure_fn (\<lambda>_. ())"]
    by (simp only: simp_thms)
qed

text \<open> \<open>chain\<close> yields the items of the first stream and then those of the second, and \<open>zip\<close>
  pairs the items of two streams up to the shorter one, for all patterns of pending answers.
\<close>

lemma stream_chain_zip_correct:
  assumes "yields p s xs" and "yields q t ys" and "yields r u zs"
  shows "yields (chain_poll p q) (chain_new s t) (xs @ ys) \<and>
    yields (zip_poll p r) \<lparr>zp_item_slot = None, zp_first = s, zp_second = u\<rparr> (List.zip xs zs)"
  using chain_yields [OF assms(1,2)] zip_yields [OF assms(1,3)] by blast

lemma stream_chain_zip_correct_witness:
  "yields (chain_poll once_poll (iter_poll list_next)) (chain_new (Some 1) [2, 3 :: nat]) [1, 2, 3]"
  using stream_chain_zip_correct [OF once_yields iter_yields [of "[2, 3 :: nat]"] iter_yields [of "[True]"], of 1] by simp

text \<open> \<open>flatten\<close> and \<open>flat_map\<close> yield the items of the inner streams one stream after the
  other, and \<open>then\<close> yields the results of the futures made from the items, in order.
\<close>

lemma stream_flatten_then_correct:
  assumes "yields p s us" and "list_all2 (yields q) us xss"
    and "yields p' s' bs" and "list_all2 (yields q) (map_mut f st bs) yss"
    and "list_all2 (resolves r) (map_mut g st' bs) zs"
  shows "yields (flatten_poll p q) \<lparr>fl_stream = s, fl_inner = None\<rparr> (concat xss) \<and>
    yields (flat_map_poll p' f q) \<lparr>fl_stream = \<lparr>fs_stream = s', fs_f = st\<rparr>, fl_inner = None\<rparr> (concat yss) \<and>
    yields (then_poll p' g r) \<lparr>th_stream = s', th_future = None, th_f = st'\<rparr> zs"
  using flatten_yields [OF assms(1,2)] flat_map_yields [OF assms(3,4)] then_yields [OF assms(3,5)] by blast

lemma stream_flatten_then_correct_witness:
  "yields (flatten_poll (iter_poll list_next) (iter_poll list_next)) \<lparr>fl_stream = [[1, 2], [3 :: nat]], fl_inner = None\<rparr> [1, 2, 3]"
proof -
  have 1: "list_all2 (yields (iter_poll list_next)) [[1, 2], [3 :: nat]] [[1, 2], [3]]"
    by (simp add: iter_yields)
  have 2: "list_all2 (yields (iter_poll list_next)) (map_mut (pure_fn (\<lambda>b. [b])) () [4 :: nat]) [[4]]"
    by (simp add: iter_yields pure_fn_def)
  have 3: "list_all2 (resolves (\<lambda>u. Some (u, Ready u))) (map_mut (pure_fn (\<lambda>b. b)) () [4 :: nat]) [4]"
    by (simp add: resolves_now pure_fn_def)
  show ?thesis
    using stream_flatten_then_correct [OF iter_yields [of "[[1, 2], [3 :: nat]]"] 1 iter_yields [of "[4 :: nat]"] 2 3] by simp
qed

text \<open> \<open>cycle\<close> over a finite stream that is not empty repeats its items any number of times,
  and the first \<open>n\<close> of them can be taken.
\<close>

lemma stream_cycle_correct:
  assumes "yields p s xs" and "xs \<noteq> []"
  shows "yields (take_poll (cycle_poll p)) \<lparr>tk_stream = \<lparr>cy_orig = s, cy_stream = s\<rparr>, tk_n = Suc n * length xs\<rparr>
     (concat (replicate (Suc n) xs))"
proof -
  have "length (concat (replicate (Suc n) xs)) = Suc n * length xs"
    by (simp add: length_concat sum_list_replicate)
  with cycle_emits [OF assms, of n] take_emits show ?thesis by metis
qed

lemma stream_cycle_correct_witness:
  "yields (take_poll (cycle_poll (iter_poll list_next))) \<lparr>tk_stream = \<lparr>cy_orig = [1, 2 :: nat], cy_stream = [1, 2]\<rparr>, tk_n = 4\<rparr> [1, 2, 1, 2]"
  using stream_cycle_correct [OF iter_yields [of "[1, 2 :: nat]"], of 1] by (simp add: eval_nat_numeral)

text \<open>
  \<open>unfold\<close> yields one item per future that resolves to an item, threading the state,
  ends when one resolves to nothing, and panics if it is polled after that.
\<close>

lemma stream_unfold_correct:
  assumes "unfolds f pf st t xs"
  shows "yields (unfold_poll f pf) (unfold_new t st) xs \<and>
    (\<forall>st'. unfold_poll f pf \<lparr>uf_f = st', uf_state = None, uf_fut = None\<rparr> =
       Some (\<lparr>uf_f = st', uf_state = None, uf_fut = None\<rparr>, Panicked))"
  by (simp add: unfold_yields [OF assms] unfold_after_end_panics)

lemma stream_unfold_correct_witness:
  "yields (unfold_poll (pure_fn (\<lambda>t. if t < 2 then Some (t, t + 1) else None)) (\<lambda>u. Some (u, Ready u))) (unfold_new (1 :: nat) ()) [1]"
proof -
  let ?f = "pure_fn (\<lambda>t. if t < 2 then Some (t, t + 1) else None)" and ?p = "\<lambda>u. Some (u, Ready u)"
  have "unfolds ?f ?p () (2 :: nat) []" by (rule unfolds.stop, rule resolves_now) (simp add: pure_fn_def)
  then have "unfolds ?f ?p () (1 :: nat) [1]"
    by (intro unfolds.step [where t' = 2]) (auto intro: resolves_now simp: pure_fn_def numeral_2_eq_2)
  from stream_unfold_correct [OF this] show ?thesis by blast
qed

text \<open> A race of two streams never reports its end: when both streams are over, every
  further poll is pending.
\<close>

lemma stream_race_never_ends: "race_poll b p q this \<noteq> Some (c, Ready None)"
  by (rule race_never_ends)

end
