(* ===== verification/Stream_Consumers.thy ===== *)
theory Stream_Consumers
  imports Stream_Adapters
begin

text \<open>
  The futures of src/cynthia/src/future/stream.rs that consume a stream. Their polls share
  one shape, \<open>loop { match ready!(stream.poll_next(cx)) { Some(v) => .., None => .. } }\<close>,
  which is \<open>poll_loop\<close>; a consumer is its two arms over its own fields. The arm of an item
  goes on with the loop, returns, or panics; the arm of the end returns or panics.
\<close>

datatype ('c, 'r) arm = Continue 'c | Break 'c 'r | Abort

record ('s, 'c) consumer =
  cn_stream :: 's
  cn_data :: 'c

partial_function (option) poll_loop ::
  "('s, 'a) stream \<Rightarrow> ('c \<Rightarrow> 'a \<Rightarrow> ('c, 'r) arm) \<Rightarrow> ('c \<Rightarrow> ('c \<times> 'r) option) \<Rightarrow> (('s, 'c) consumer, 'r) future" where
  "poll_loop p item fin this =
     ready (p (cn_stream this)) (\<lambda>s. this\<lparr>cn_stream := s\<rparr>) (\<lambda>s next.
       case next of
         None \<Rightarrow>
           (case fin (cn_data this) of
              None \<Rightarrow> Some (this\<lparr>cn_stream := s\<rparr>, Panicked)
            | Some (c, r) \<Rightarrow> Some (\<lparr>cn_stream = s, cn_data = c\<rparr>, Ready r))
       | Some v \<Rightarrow>
           (case item (cn_data this) v of
              Continue c \<Rightarrow> poll_loop p item fin \<lparr>cn_stream = s, cn_data = c\<rparr>
            | Break c r \<Rightarrow> Some (\<lparr>cn_stream = s, cn_data = c\<rparr>, Ready r)
            | Abort \<Rightarrow> Some (this\<lparr>cn_stream := s\<rparr>, Panicked)))"

section \<open>The consumers\<close>

definition next_poll :: "('s, 'a) stream \<Rightarrow> ('s, 'a option) future" where
  "next_poll p = p"

fun transpose :: "('e + 'a) option \<Rightarrow> 'e + 'a option" where
  "transpose None = Inr None"
| "transpose (Some (Inr x)) = Inr (Some x)"
| "transpose (Some (Inl e)) = Inl e"

definition try_next_poll :: "('s, 'e + 'a) stream \<Rightarrow> ('s, 'e + 'a option) future" where
  "try_next_poll p s = ready (p s) id (\<lambda>s' res. Some (s', Ready (transpose res)))"

definition count_poll :: "('s, 'a) stream \<Rightarrow> (('s, nat) consumer, nat) future" where
  "count_poll p = poll_loop p
     (\<lambda>count _. if count = usize_max then Abort else Continue (count + 1))
     (\<lambda>count. Some (count, count))"

text \<open>
  \<open>ext\<close> and \<open>dflt\<close> are the \<open>Extend::extend\<close> by one item and the \<open>Default\<close> of the
  collection.
\<close>

definition collect_poll :: "('c \<Rightarrow> 'a \<Rightarrow> 'c) \<Rightarrow> 'c \<Rightarrow> ('s, 'a) stream \<Rightarrow> (('s, 'c) consumer, 'c) future" where
  "collect_poll ext dflt p = poll_loop p (\<lambda>collection e. Continue (ext collection e)) (\<lambda>collection. Some (dflt, collection))"

definition try_collect_poll :: "('c \<Rightarrow> 'a \<Rightarrow> 'c) \<Rightarrow> 'c \<Rightarrow> ('s, 'e + 'a) stream \<Rightarrow> (('s, 'c) consumer, 'e + 'c) future" where
  "try_collect_poll ext dflt p = poll_loop p
     (\<lambda>items res. case res of Inl e \<Rightarrow> Break items (Inl e) | Inr x \<Rightarrow> Continue (ext items x))
     (\<lambda>items. Some (dflt, Inr items))"

definition partition_poll ::
  "('c \<Rightarrow> 'a \<Rightarrow> 'c) \<Rightarrow> ('f, 'a, bool) fn_mut \<Rightarrow> ('s, 'a) stream \<Rightarrow> (('s, 'f \<times> ('c \<times> 'c) option) consumer, 'c \<times> 'c) future" where
  "partition_poll ext f p = poll_loop p
     (\<lambda>(st, res) v. case res of
        None \<Rightarrow> Abort
      | Some (a, b) \<Rightarrow> (case f st v of (yes, st') \<Rightarrow>
          Continue (st', Some (if yes then (ext a v, b) else (a, ext b v)))))
     (\<lambda>(st, res). map_option (\<lambda>r. ((st, None), r)) res)"

definition fold_poll ::
  "('f \<Rightarrow> 't \<Rightarrow> 'a \<Rightarrow> 't \<times> 'f) \<Rightarrow> ('s, 'a) stream \<Rightarrow> (('s, 'f \<times> 't option) consumer, 't) future" where
  "fold_poll f p = poll_loop p
     (\<lambda>(st, acc) v. case acc of
        None \<Rightarrow> Abort
      | Some old \<Rightarrow> (case f st old v of (new, st') \<Rightarrow> Continue (st', Some new)))
     (\<lambda>(st, acc). map_option (\<lambda>r. ((st, None), r)) acc)"

definition try_fold_poll ::
  "('f \<Rightarrow> 't \<Rightarrow> 'a \<Rightarrow> ('e + 't) \<times> 'f) \<Rightarrow> ('s, 'e + 'a) stream \<Rightarrow> (('s, 'f \<times> 't option) consumer, 'e + 't) future" where
  "try_fold_poll f p = poll_loop p
     (\<lambda>(st, acc) res. case res of
        Inl e \<Rightarrow> Break (st, acc) (Inl e)
      | Inr t \<Rightarrow> (case acc of
            None \<Rightarrow> Abort
          | Some old \<Rightarrow> (case f st old t of
                (Inr new, st') \<Rightarrow> Continue (st', Some new)
              | (Inl e, st') \<Rightarrow> Break (st', None) (Inl e))))
     (\<lambda>(st, acc). map_option (\<lambda>r. ((st, None), Inr r)) acc)"

definition nth_poll :: "('s, 'a) stream \<Rightarrow> (('s, nat) consumer, 'a option) future" where
  "nth_poll p = poll_loop p
     (\<lambda>n v. if n = 0 then Break n (Some v) else Continue (n - 1)) (\<lambda>n. Some (n, None))"

definition last_poll :: "('s, 'a) stream \<Rightarrow> (('s, 'a option) consumer, 'a option) future" where
  "last_poll p = poll_loop p (\<lambda>last new. Continue (Some new)) (\<lambda>last. Some (None, last))"

definition find_poll :: "('f, 'a, bool) fn_mut \<Rightarrow> ('s, 'a) stream \<Rightarrow> (('s, 'f) consumer, 'a option) future" where
  "find_poll f p = poll_loop p
     (\<lambda>st v. case f st v of (yes, st') \<Rightarrow> if yes then Break st' (Some v) else Continue st')
     (\<lambda>st. Some (st, None))"

definition find_map_poll :: "('f, 'a, 'b option) fn_mut \<Rightarrow> ('s, 'a) stream \<Rightarrow> (('s, 'f) consumer, 'b option) future" where
  "find_map_poll f p = poll_loop p
     (\<lambda>st v. case f st v of (Some b, st') \<Rightarrow> Break st' (Some b) | (None, st') \<Rightarrow> Continue st')
     (\<lambda>st. Some (st, None))"

definition position_poll :: "('f, 'a, bool) fn_mut \<Rightarrow> ('s, 'a) stream \<Rightarrow> (('s, 'f \<times> nat) consumer, nat option) future" where
  "position_poll f p = poll_loop p
     (\<lambda>(st, index) v. case f st v of (yes, st') \<Rightarrow>
        if yes then Break (st', index) (Some index)
        else if index = usize_max then Abort else Continue (st', index + 1))
     (\<lambda>c. Some (c, None))"

definition all_poll :: "('f, 'a, bool) fn_mut \<Rightarrow> ('s, 'a) stream \<Rightarrow> (('s, 'f) consumer, bool) future" where
  "all_poll f p = poll_loop p
     (\<lambda>st v. case f st v of (yes, st') \<Rightarrow> if \<not> yes then Break st' False else Continue st')
     (\<lambda>st. Some (st, True))"

definition any_poll :: "('f, 'a, bool) fn_mut \<Rightarrow> ('s, 'a) stream \<Rightarrow> (('s, 'f) consumer, bool) future" where
  "any_poll f p = poll_loop p
     (\<lambda>st v. case f st v of (yes, st') \<Rightarrow> if yes then Break st' True else Continue st')
     (\<lambda>st. Some (st, False))"

definition for_each_poll :: "('f, 'a, unit) fn_mut \<Rightarrow> ('s, 'a) stream \<Rightarrow> (('s, 'f) consumer, unit) future" where
  "for_each_poll f p = poll_loop p (\<lambda>st v. Continue (snd (f st v))) (\<lambda>st. Some (st, ()))"

definition try_for_each_poll :: "('f, 'a, 'e + unit) fn_mut \<Rightarrow> ('s, 'a) stream \<Rightarrow> (('s, 'f) consumer, 'e + unit) future" where
  "try_for_each_poll f p = poll_loop p
     (\<lambda>st v. case f st v of (Inr _, st') \<Rightarrow> Continue st' | (Inl e, st') \<Rightarrow> Break st' (Inl e))
     (\<lambda>st. Some (st, Inr ()))"

definition unzip_poll ::
  "('c \<Rightarrow> 'a \<Rightarrow> 'c) \<Rightarrow> ('d \<Rightarrow> 'b \<Rightarrow> 'd) \<Rightarrow> ('s, 'a \<times> 'b) stream \<Rightarrow> (('s, ('c \<times> 'd) option) consumer, 'c \<times> 'd) future" where
  "unzip_poll exta extb p = poll_loop p
     (\<lambda>res (a, b). case res of None \<Rightarrow> Abort | Some (ca, cb) \<Rightarrow> Continue (Some (exta ca a, extb cb b)))
     (\<lambda>res. map_option (\<lambda>r. (None, r)) res)"

section \<open>What the loop computes\<close>

text \<open>
  The loop over the list of items: the result, the consumer's fields afterwards, and the
  items left when it returns before the end of the stream.
\<close>

fun loop_run :: "('c \<Rightarrow> 'a \<Rightarrow> ('c, 'r) arm) \<Rightarrow> ('c \<Rightarrow> ('c \<times> 'r) option) \<Rightarrow> 'c \<Rightarrow> 'a list \<Rightarrow> ('r \<times> 'c \<times> 'a list option) option" where
  "loop_run item fin c [] = map_option (\<lambda>(c', r). (r, c', None)) (fin c)"
| "loop_run item fin c (x # xs) =
     (case item c x of
        Continue c' \<Rightarrow> loop_run item fin c' xs
      | Break c' r \<Rightarrow> Some (r, c', Some xs)
      | Abort \<Rightarrow> None)"

inductive completes :: "('s, 'r) future \<Rightarrow> 's \<Rightarrow> 'r \<Rightarrow> 's \<Rightarrow> bool" for p where
  completes_now: "p s = Some (s1, Ready r) \<Longrightarrow> completes p s r s1"
| completes_pend: "p s = Some (s1, Pending) \<Longrightarrow> completes p s1 r s2 \<Longrightarrow> completes p s r s2"

lemma completes_resolves: "completes p s r s' \<Longrightarrow> resolves p s r"
  by (induction rule: completes.induct) (auto intro: resolves.intros)

lemma completes_same: "p s = p s' \<Longrightarrow> completes p s' r s2 \<Longrightarrow> completes p s r s2"
  by (erule completes.cases) (auto intro: completes.intros)

lemma poll_loop_turn:
  "p s = Some (s1, Ready None) \<Longrightarrow> fin c = Some (c', r) \<Longrightarrow>
     poll_loop p item fin \<lparr>cn_stream = s, cn_data = c\<rparr> = Some (\<lparr>cn_stream = s1, cn_data = c'\<rparr>, Ready r)"
  "p s = Some (s1, Pending) \<Longrightarrow>
     poll_loop p item fin \<lparr>cn_stream = s, cn_data = c\<rparr> = Some (\<lparr>cn_stream = s1, cn_data = c\<rparr>, Pending)"
  "p s = Some (s1, Ready (Some x)) \<Longrightarrow> item c x = Continue c' \<Longrightarrow>
     poll_loop p item fin \<lparr>cn_stream = s, cn_data = c\<rparr> = poll_loop p item fin \<lparr>cn_stream = s1, cn_data = c'\<rparr>"
  "p s = Some (s1, Ready (Some x)) \<Longrightarrow> item c x = Break c' r \<Longrightarrow>
     poll_loop p item fin \<lparr>cn_stream = s, cn_data = c\<rparr> = Some (\<lparr>cn_stream = s1, cn_data = c'\<rparr>, Ready r)"
  by (subst poll_loop.simps; simp)+

lemma poll_loop_completes:
  assumes "yields p s xs" and "loop_run item fin c xs = Some (r, c', rest)"
  shows "\<exists>s'. completes (poll_loop p item fin) \<lparr>cn_stream = s, cn_data = c\<rparr> r \<lparr>cn_stream = s', cn_data = c'\<rparr> \<and>
     (\<forall>ys. rest = Some ys \<longrightarrow> yields p s' ys)"
  using assms
proof (induction arbitrary: c rule: yields.induct)
  case (yields_end s s1)
  then show ?case by (auto intro!: exI [of _ s1] completes_now simp: poll_loop_turn)
next
  case (yields_item s s1 x xs)
  show ?case
  proof (cases "item c x")
    case (Continue c1)
    with yields_item.IH [of c1] yields_item.prems obtain s' where
      "completes (poll_loop p item fin) \<lparr>cn_stream = s1, cn_data = c1\<rparr> r \<lparr>cn_stream = s', cn_data = c'\<rparr>"
      "\<forall>ys. rest = Some ys \<longrightarrow> yields p s' ys" by auto
    moreover have "poll_loop p item fin \<lparr>cn_stream = s, cn_data = c\<rparr> = poll_loop p item fin \<lparr>cn_stream = s1, cn_data = c1\<rparr>"
      using yields_item.hyps(1) Continue by (rule poll_loop_turn)
    ultimately show ?thesis using completes_same [of "poll_loop p item fin"] by blast
  next
    case (Break c1 r1)
    with yields_item.prems yields_item.hyps show ?thesis
      by (auto intro!: exI [of _ s1] completes_now simp: poll_loop_turn)
  next
    case Abort
    with yields_item.prems show ?thesis by simp
  qed
next
  case (yields_pend s s1 xs)
  have "poll_loop p item fin \<lparr>cn_stream = s, cn_data = c\<rparr> = Some (\<lparr>cn_stream = s1, cn_data = c\<rparr>, Pending)"
    using yields_pend.hyps(1) by (rule poll_loop_turn)
  with yields_pend.IH [OF yields_pend.prems] completes_pend [of "poll_loop p item fin"] show ?case by blast
qed

lemma poll_loop_resolves:
  assumes "yields p s xs" and "loop_run item fin c xs = Some (r, c', rest)"
  shows "resolves (poll_loop p item fin) \<lparr>cn_stream = s, cn_data = c\<rparr> r"
  using poll_loop_completes [OF assms] by (auto dest: completes_resolves)

lemma poll_loop_resolves_ex:
  assumes "yields p s xs" and "\<exists>c' rest. loop_run item fin c xs = Some (r, c', rest)"
  shows "resolves (poll_loop p item fin) \<lparr>cn_stream = s, cn_data = c\<rparr> r"
  using assms(2) by (elim exE) (rule poll_loop_resolves [OF assms(1)])

section \<open>What each consumer computes\<close>

lemma count_resolves:
  assumes "yields p s xs" "c + length xs \<le> usize_max"
  shows "resolves (count_poll p) \<lparr>cn_stream = s, cn_data = c\<rparr> (c + length xs)"
proof -
  have "loop_run (\<lambda>count _. if count = usize_max then Abort else Continue (count + 1)) (\<lambda>count. Some (count, count)) c xs =
      Some (c + length xs, c + length xs, None)"
    using assms(2) by (induction xs arbitrary: c) auto
  from poll_loop_resolves [OF assms(1) this] show ?thesis by (simp add: count_poll_def)
qed

lemma collect_resolves:
  assumes "yields p s xs"
  shows "resolves (collect_poll ext dflt p) \<lparr>cn_stream = s, cn_data = c\<rparr> (foldl ext c xs)"
proof -
  have "loop_run (\<lambda>c e. Continue (ext c e)) (\<lambda>c. Some (dflt, c)) c xs = Some (foldl ext c xs, dflt, None)"
    by (induction xs arbitrary: c) auto
  from poll_loop_resolves [OF assms this] show ?thesis by (simp add: collect_poll_def)
qed

text \<open>The first error ends \<open>try_collect\<close>; the stream then goes on after it.\<close>

lemma try_collect_resolves:
  assumes "yields p s (map Inr xs)"
  shows "resolves (try_collect_poll ext dflt p) \<lparr>cn_stream = s, cn_data = c\<rparr> (Inr (foldl ext c xs))"
proof -
  have "loop_run (\<lambda>items res. case res of Inl e \<Rightarrow> Break items (Inl e) | Inr x \<Rightarrow> Continue (ext items x))
      (\<lambda>items. Some (dflt, Inr items)) c (map Inr xs) = Some (Inr (foldl ext c xs), dflt, None)"
    by (induction xs arbitrary: c) auto
  from poll_loop_resolves [OF assms this] show ?thesis by (simp add: try_collect_poll_def)
qed

lemma try_collect_error:
  assumes "yields p s (map Inr xs @ Inl e # ys)"
  shows "\<exists>s'. completes (try_collect_poll ext dflt p) \<lparr>cn_stream = s, cn_data = c\<rparr> (Inl e) \<lparr>cn_stream = s', cn_data = foldl ext c xs\<rparr> \<and>
     yields p s' ys"
proof -
  have "loop_run (\<lambda>items res. case res of Inl e \<Rightarrow> Break items (Inl e) | Inr x \<Rightarrow> Continue (ext items x))
      (\<lambda>items. Some (dflt, Inr items)) c (map Inr xs @ Inl e # ys) = Some (Inl e, foldl ext c xs, Some ys)"
    by (induction xs arbitrary: c) auto
  from poll_loop_completes [OF assms this] show ?thesis by (simp add: try_collect_poll_def)
qed

lemma partition_resolves:
  assumes "yields p s xs"
  shows "resolves (partition_poll ext (pure_fn P) p) \<lparr>cn_stream = s, cn_data = ((), Some (a, b))\<rparr>
     (foldl ext a (filter P xs), foldl ext b (filter (\<lambda>x. \<not> P x) xs))"
proof -
  have "loop_run (\<lambda>(st, res) v. case res of None \<Rightarrow> Abort | Some (a, b) \<Rightarrow> (case pure_fn P st v of (yes, st') \<Rightarrow>
          Continue (st', Some (if yes then (ext a v, b) else (a, ext b v)))))
      (\<lambda>(st, res). map_option (\<lambda>r. ((st, None), r)) res) ((), Some (a, b)) xs =
      Some ((foldl ext a (filter P xs), foldl ext b (filter (\<lambda>x. \<not> P x) xs)), ((), None), None)"
    by (induction xs arbitrary: a b) (auto simp: pure_fn_def)
  from poll_loop_resolves [OF assms this] show ?thesis by (simp add: partition_poll_def)
qed

lemma fold_resolves:
  assumes "yields p s xs"
  shows "resolves (fold_poll f p) \<lparr>cn_stream = s, cn_data = (st, Some acc)\<rparr> (fold_mut f st acc xs)"
proof -
  have "\<exists>c rest. loop_run (\<lambda>(st, acc) v. case acc of None \<Rightarrow> Abort | Some old \<Rightarrow> (case f st old v of (new, st') \<Rightarrow> Continue (st', Some new)))
      (\<lambda>(st, acc). map_option (\<lambda>r. ((st, None), r)) acc) (st, Some acc) xs = Some (fold_mut f st acc xs, c, rest)"
    by (induction xs arbitrary: st acc) (auto split: prod.splits)
  from poll_loop_resolves_ex [OF assms this] show ?thesis unfolding fold_poll_def .
qed

lemma nth_completes:
  assumes "yields p s xs" "n < length xs"
  shows "\<exists>s'. completes (nth_poll p) \<lparr>cn_stream = s, cn_data = n\<rparr> (Some (xs ! n)) \<lparr>cn_stream = s', cn_data = 0\<rparr> \<and>
     yields p s' (drop (Suc n) xs)"
proof -
  have "loop_run (\<lambda>n v. if n = 0 then Break n (Some v) else Continue (n - 1)) (\<lambda>n. Some (n, None)) n xs =
      Some (Some (xs ! n), 0, Some (drop (Suc n) xs))"
    using assms(2) by (induction xs arbitrary: n) (auto simp: nth_Cons')
  from poll_loop_completes [OF assms(1) this] show ?thesis by (simp add: nth_poll_def)
qed

lemma nth_past_end:
  assumes "yields p s xs" "length xs \<le> n"
  shows "resolves (nth_poll p) \<lparr>cn_stream = s, cn_data = n\<rparr> None"
proof -
  have "loop_run (\<lambda>n v. if n = 0 then Break n (Some v) else Continue (n - 1)) (\<lambda>n. Some (n, None)) n xs =
      Some (None, n - length xs, None)"
    using assms(2) by (induction xs arbitrary: n) auto
  from poll_loop_resolves [OF assms(1) this] show ?thesis by (simp add: nth_poll_def)
qed

lemma last_resolves:
  assumes "yields p s xs"
  shows "resolves (last_poll p) \<lparr>cn_stream = s, cn_data = None\<rparr> (if xs = [] then None else Some (last xs))"
proof -
  have "loop_run (\<lambda>last new. Continue (Some new)) (\<lambda>last. Some (None, last)) c xs =
      Some (if xs = [] then c else Some (last xs), None, None)" for c
    by (induction xs arbitrary: c) auto
  from poll_loop_resolves [OF assms this] show ?thesis by (simp add: last_poll_def)
qed

lemma find_completes:
  assumes "yields p s (xs @ x # ys)" "\<And>z. z \<in> set xs \<Longrightarrow> \<not> P z" "P x"
  shows "\<exists>s'. completes (find_poll (pure_fn P) p) \<lparr>cn_stream = s, cn_data = ()\<rparr> (Some x) \<lparr>cn_stream = s', cn_data = ()\<rparr> \<and>
     yields p s' ys"
proof -
  have "loop_run (\<lambda>st v. case pure_fn P st v of (yes, st') \<Rightarrow> if yes then Break st' (Some v) else Continue st')
      (\<lambda>st. Some (st, None)) () (xs @ x # ys) = Some (Some x, (), Some ys)"
    using assms(2,3) by (induction xs) (auto simp: pure_fn_def)
  from poll_loop_completes [OF assms(1) this] show ?thesis by (simp add: find_poll_def)
qed

lemma find_none:
  assumes "yields p s xs" "\<And>z. z \<in> set xs \<Longrightarrow> \<not> P z"
  shows "resolves (find_poll (pure_fn P) p) \<lparr>cn_stream = s, cn_data = ()\<rparr> None"
proof -
  have "loop_run (\<lambda>st v. case pure_fn P st v of (yes, st') \<Rightarrow> if yes then Break st' (Some v) else Continue st')
      (\<lambda>st. Some (st, None)) () xs = Some (None, (), None)"
    using assms(2) by (induction xs) (auto simp: pure_fn_def)
  from poll_loop_resolves [OF assms(1) this] show ?thesis by (simp add: find_poll_def)
qed

lemma find_map_resolves:
  assumes "yields p s xs"
  shows "resolves (find_map_poll (pure_fn g) p) \<lparr>cn_stream = s, cn_data = ()\<rparr>
     (case List.map_filter g xs of [] \<Rightarrow> None | y # _ \<Rightarrow> Some y)"
proof -
  have "\<exists>c rest. loop_run (\<lambda>st v. case pure_fn g st v of (Some b, st') \<Rightarrow> Break st' (Some b) | (None, st') \<Rightarrow> Continue st')
      (\<lambda>st. Some (st, None)) () xs = Some (case List.map_filter g xs of [] \<Rightarrow> None | y # _ \<Rightarrow> Some y, c, rest)"
    by (induction xs) (auto simp: pure_fn_def map_filter_simps split: option.splits)
  from poll_loop_resolves_ex [OF assms this] show ?thesis unfolding find_map_poll_def .
qed

lemma position_resolves:
  assumes "yields p s xs" "i + length xs \<le> usize_max"
  shows "resolves (position_poll (pure_fn P) p) \<lparr>cn_stream = s, cn_data = ((), i)\<rparr>
     (if \<exists>x\<in>set xs. P x then Some (i + length (takeWhile (\<lambda>x. \<not> P x) xs)) else None)"
proof -
  have "\<exists>c rest. loop_run (\<lambda>(st, index) v. case pure_fn P st v of (yes, st') \<Rightarrow>
        if yes then Break (st', index) (Some index) else if index = usize_max then Abort else Continue (st', index + 1))
      (\<lambda>c. Some (c, None)) ((), i) xs =
      Some (if \<exists>x\<in>set xs. P x then Some (i + length (takeWhile (\<lambda>x. \<not> P x) xs)) else None, c, rest)"
    using assms(2)
  proof (induction xs arbitrary: i)
    case (Cons x xs)
    from Cons.IH [of "Suc i"] Cons.prems show ?case
      by (cases "\<exists>x\<in>set xs. P x") (auto simp: pure_fn_def)
  qed simp
  from poll_loop_resolves_ex [OF assms(1) this] show ?thesis unfolding position_poll_def .
qed

lemma all_resolves:
  assumes "yields p s xs"
  shows "resolves (all_poll (pure_fn P) p) \<lparr>cn_stream = s, cn_data = ()\<rparr> (\<forall>x\<in>set xs. P x)"
proof -
  have "\<exists>c rest. loop_run (\<lambda>st v. case pure_fn P st v of (yes, st') \<Rightarrow> if \<not> yes then Break st' False else Continue st')
      (\<lambda>st. Some (st, True)) () xs = Some (\<forall>x\<in>set xs. P x, c, rest)"
    by (induction xs) (auto simp: pure_fn_def)
  from poll_loop_resolves_ex [OF assms this] show ?thesis unfolding all_poll_def .
qed

lemma any_resolves:
  assumes "yields p s xs"
  shows "resolves (any_poll (pure_fn P) p) \<lparr>cn_stream = s, cn_data = ()\<rparr> (\<exists>x\<in>set xs. P x)"
proof -
  have "\<exists>c rest. loop_run (\<lambda>st v. case pure_fn P st v of (yes, st') \<Rightarrow> if yes then Break st' True else Continue st')
      (\<lambda>st. Some (st, False)) () xs = Some (\<exists>x\<in>set xs. P x, c, rest)"
    by (induction xs) (auto simp: pure_fn_def)
  from poll_loop_resolves_ex [OF assms this] show ?thesis unfolding any_poll_def .
qed

lemma for_each_completes:
  assumes "yields p s xs"
  shows "\<exists>s'. completes (for_each_poll f p) \<lparr>cn_stream = s, cn_data = st\<rparr> ()
     \<lparr>cn_stream = s', cn_data = foldl (\<lambda>st x. snd (f st x)) st xs\<rparr>"
proof -
  have "loop_run (\<lambda>st v. Continue (snd (f st v))) (\<lambda>st. Some (st, ())) st xs =
      Some ((), foldl (\<lambda>st x. snd (f st x)) st xs, None)"
    by (induction xs arbitrary: st) auto
  from poll_loop_completes [OF assms this] show ?thesis by (auto simp: for_each_poll_def)
qed

lemma unzip_resolves:
  assumes "yields p s xs"
  shows "resolves (unzip_poll exta extb p) \<lparr>cn_stream = s, cn_data = Some (ca, cb)\<rparr>
     (foldl exta ca (map fst xs), foldl extb cb (map snd xs))"
proof -
  have "loop_run (\<lambda>res (a, b). case res of None \<Rightarrow> Abort | Some (ca, cb) \<Rightarrow> Continue (Some (exta ca a, extb cb b)))
      (\<lambda>res. map_option (\<lambda>r. (None, r)) res) (Some (ca, cb)) xs =
      Some ((foldl exta ca (map fst xs), foldl extb cb (map snd xs)), None, None)"
    by (induction xs arbitrary: ca cb) auto
  from poll_loop_resolves [OF assms this] show ?thesis by (simp add: unzip_poll_def)
qed

fun try_foldl :: "('t \<Rightarrow> 'a \<Rightarrow> 'e + 't) \<Rightarrow> 't \<Rightarrow> ('e + 'a) list \<Rightarrow> 'e + 't" where
  "try_foldl g acc [] = Inr acc"
| "try_foldl g acc (Inl e # xs) = Inl e"
| "try_foldl g acc (Inr x # xs) = (case g acc x of Inl e \<Rightarrow> Inl e | Inr acc' \<Rightarrow> try_foldl g acc' xs)"

lemma try_fold_resolves:
  assumes "yields p s xs"
  shows "resolves (try_fold_poll (\<lambda>st acc x. (g acc x, st)) p) \<lparr>cn_stream = s, cn_data = (st, Some acc)\<rparr> (try_foldl g acc xs)"
proof -
  have "\<exists>c rest. loop_run (\<lambda>(st, acc) res. case res of
        Inl e \<Rightarrow> Break (st, acc) (Inl e)
      | Inr t \<Rightarrow> (case acc of
            None \<Rightarrow> Abort
          | Some old \<Rightarrow> (case (g old t, st) of
                (Inr new, st') \<Rightarrow> Continue (st', Some new)
              | (Inl e, st') \<Rightarrow> Break (st', None) (Inl e))))
     (\<lambda>(st, acc). map_option (\<lambda>r. ((st, None), Inr r)) acc) (st, Some acc) xs = Some (try_foldl g acc xs, c, rest)"
    by (induction g acc xs arbitrary: st rule: try_foldl.induct) (auto split: sum.splits)
  from poll_loop_resolves_ex [OF assms this] show ?thesis unfolding try_fold_poll_def .
qed

lemma try_for_each_resolves:
  assumes "yields p s xs"
  shows "resolves (try_for_each_poll (pure_fn g) p) \<lparr>cn_stream = s, cn_data = ()\<rparr>
     (try_foldl (\<lambda>_. g) () (map Inr xs))"
proof -
  have "\<exists>c rest. loop_run (\<lambda>st v. case pure_fn g st v of (Inr _, st') \<Rightarrow> Continue st' | (Inl e, st') \<Rightarrow> Break st' (Inl e))
     (\<lambda>st. Some (st, Inr ())) () xs = Some (try_foldl (\<lambda>_. g) () (map Inr xs), c, rest)"
    by (induction xs) (auto simp: pure_fn_def split: sum.splits)
  from poll_loop_resolves_ex [OF assms this] show ?thesis unfolding try_for_each_poll_def .
qed

section \<open>Properties\<close>

text \<open>
  (C24) The consumers of a finite stream, however often it is pending in between, resolve to
  the corresponding list functions: count, collect (any \<open>Extend\<close>), partition, fold with a
  closure that keeps state, last, all, any, position, find_map and unzip.
\<close>

theorem stream_consumers_correct:
  assumes "yields p s xs" "length xs \<le> usize_max"
  shows "resolves (count_poll p) \<lparr>cn_stream = s, cn_data = 0\<rparr> (length xs) \<and>
    resolves (collect_poll ext dflt p) \<lparr>cn_stream = s, cn_data = dflt\<rparr> (foldl ext dflt xs) \<and>
    resolves (partition_poll ext (pure_fn P) p) \<lparr>cn_stream = s, cn_data = ((), Some (dflt, dflt))\<rparr>
      (foldl ext dflt (filter P xs), foldl ext dflt (filter (\<lambda>x. \<not> P x) xs)) \<and>
    resolves (fold_poll f p) \<lparr>cn_stream = s, cn_data = (st, Some acc)\<rparr> (fold_mut f st acc xs) \<and>
    resolves (last_poll p) \<lparr>cn_stream = s, cn_data = None\<rparr> (if xs = [] then None else Some (last xs)) \<and>
    resolves (all_poll (pure_fn P) p) \<lparr>cn_stream = s, cn_data = ()\<rparr> (\<forall>x\<in>set xs. P x) \<and>
    resolves (any_poll (pure_fn P) p) \<lparr>cn_stream = s, cn_data = ()\<rparr> (\<exists>x\<in>set xs. P x) \<and>
    resolves (position_poll (pure_fn P) p) \<lparr>cn_stream = s, cn_data = ((), 0)\<rparr>
      (if \<exists>x\<in>set xs. P x then Some (length (takeWhile (\<lambda>x. \<not> P x) xs)) else None) \<and>
    resolves (find_map_poll (pure_fn g) p) \<lparr>cn_stream = s, cn_data = ()\<rparr>
      (case List.map_filter g xs of [] \<Rightarrow> None | y # _ \<Rightarrow> Some y)"
proof (intro conjI)
  show "resolves (count_poll p) \<lparr>cn_stream = s, cn_data = 0\<rparr> (length xs)"
    using count_resolves [OF assms(1), of 0] assms(2) by simp
  show "resolves (position_poll (pure_fn P) p) \<lparr>cn_stream = s, cn_data = ((), 0)\<rparr>
      (if \<exists>x\<in>set xs. P x then Some (length (takeWhile (\<lambda>x. \<not> P x) xs)) else None)"
    using position_resolves [OF assms(1), of 0 P, unfolded add_0, OF assms(2)] .
qed (rule collect_resolves partition_resolves fold_resolves last_resolves all_resolves any_resolves
      find_map_resolves, rule assms(1))+

theorem stream_consumers_correct_witness:
  "resolves (count_poll (iter_poll list_next)) \<lparr>cn_stream = [False, False, True], cn_data = 0\<rparr> 3 \<and>
   resolves (position_poll (pure_fn (\<lambda>b. b)) (iter_poll list_next)) \<lparr>cn_stream = [False, False, True], cn_data = ((), 0)\<rparr> (Some 2)"
proof -
  have l: "length [False, False, True] \<le> usize_max" by (simp add: usize_max_def)
  show ?thesis
    using stream_consumers_correct [OF iter_yields l, of "\<lambda>c _. c" "()" "\<lambda>b. b" "\<lambda>st a _. (a, st)" "()" "()" Some]
    by (simp add: numeral_3_eq_3 numeral_2_eq_2)
qed

text \<open>
  (C25) The futures that only borrow a stream stop right after the item that decides them:
  \<open>nth\<close> and \<open>find\<close> leave a stream that still yields exactly the later items, and an error
  item ends \<open>try_collect\<close> with that error.
\<close>

theorem stream_borrowers_correct:
  assumes "yields p s (xs @ x # ys)" and "\<And>z. z \<in> set xs \<Longrightarrow> \<not> P z" and "P x"
    and "yields q t (map Inr zs @ Inl e # us)"
  shows "(\<exists>s'. completes (nth_poll p) \<lparr>cn_stream = s, cn_data = length xs\<rparr> (Some x) \<lparr>cn_stream = s', cn_data = 0\<rparr> \<and> yields p s' ys) \<and>
    (\<exists>s'. completes (find_poll (pure_fn P) p) \<lparr>cn_stream = s, cn_data = ()\<rparr> (Some x) \<lparr>cn_stream = s', cn_data = ()\<rparr> \<and> yields p s' ys) \<and>
    (\<exists>t'. completes (try_collect_poll ext dflt q) \<lparr>cn_stream = t, cn_data = c\<rparr> (Inl e) \<lparr>cn_stream = t', cn_data = foldl ext c zs\<rparr> \<and> yields q t' us)"
proof (intro conjI)
  show "\<exists>s'. completes (nth_poll p) \<lparr>cn_stream = s, cn_data = length xs\<rparr> (Some x) \<lparr>cn_stream = s', cn_data = 0\<rparr> \<and> yields p s' ys"
    using nth_completes [OF assms(1), of "length xs"] by simp
qed (rule find_completes [OF assms(1)] try_collect_error [OF assms(4)]; simp add: assms(2,3))+

theorem stream_borrowers_correct_witness:
  "\<exists>s'. completes (nth_poll (iter_poll list_next)) \<lparr>cn_stream = [1, 2, 3 :: nat], cn_data = 1\<rparr> (Some 2) \<lparr>cn_stream = s', cn_data = 0\<rparr> \<and>
     yields (iter_poll list_next) s' [3]"
  using stream_borrowers_correct [of "iter_poll list_next" "[1, 2, 3 :: nat]" "[1]" 2 "[3]" even
      "iter_poll list_next" "[Inr 0, Inl True] :: (bool + nat) list" "[0]" True "[]" "\<lambda>c _. c" "()" "()"]
    iter_yields [of "[1, 2, 3 :: nat]"] iter_yields [of "[Inr 0, Inl True] :: (bool + nat) list"]
  by auto

end
