(* ===== verification/Io_Read.thy ===== *)
theory Io_Read
  imports Stream_Core
begin

text \<open>
  Asynchronous reading (src/cynthia/src/future/swap.rs). A reader is a state with a poll
  function that is given the length of the caller's buffer and answers with the bytes it
  put at the front of it; what lies behind a reader (a socket, a file, another adapter) is
  a parameter. The adapters \<open>BufferReader\<close>, \<open>Take\<close>, \<open>Chain\<close> and \<open>Cursor\<close> are readers
  themselves, and the futures (\<open>read_exact\<close>, \<open>read_until\<close>, \<open>read_line\<close>, \<open>read_to_end\<close>, ..) run
  over any reader. A \<open>String\<close> is the list of its UTF-8 bytes. A loop that may never end is a
  \<open>partial_function\<close>; \<open>None\<close> is then a poll that does not return.
\<close>

section \<open>Errors and interfaces\<close>

datatype io_error = Interrupted | WriteZero | UnexpectedEof | InvalidData | InvalidInput | OtherError nat

type_synonym 'a io_result = "io_error + 'a"

type_synonym 'r reader = "nat \<Rightarrow> ('r, u8 list io_result) future"

text \<open>\<open>Poll::Ready\<close> of the error is what the operator \<open>?\<close> returns.\<close>

definition ready_ok ::
  "('s \<times> 'a io_result poll) option \<Rightarrow> ('s \<Rightarrow> 't) \<Rightarrow> ('s \<Rightarrow> 'a \<Rightarrow> ('t \<times> 'b io_result poll) option) \<Rightarrow> ('t \<times> 'b io_result poll) option" where
  "ready_ok m w f = ready m w (\<lambda>s res. case res of Inl e \<Rightarrow> Some (w s, Ready (Inl e)) | Inr x \<Rightarrow> f s x)"

lemma ready_ok_simps [simp]:
  "ready_ok (Some (s, Ready (Inr x))) w f = f s x"
  "ready_ok (Some (s, Ready (Inl e))) w f = Some (w s, Ready (Inl e))"
  "ready_ok (Some (s, Pending)) w f = Some (w s, Pending)"
  "ready_ok (Some (s, Panicked)) w f = Some (w s, Panicked)"
  "ready_ok None w f = None"
  by (simp_all add: ready_ok_def)

lemma ready_ok_mono [partial_function_mono]:
  assumes "\<And>s x. mono_option (\<lambda>g. F g s x)"
  shows "mono_option (\<lambda>g. ready_ok m w (\<lambda>s x. F g s x))"
  unfolding ready_ok_def
proof (rule ready_mono)
  fix s x
  show "mono_option (\<lambda>g. case x of Inl e \<Rightarrow> Some (w s, Ready (Inl e)) | Inr x \<Rightarrow> F g s x)"
    using assms by (cases x) (auto simp: monotone_def flat_ord_def)
qed

datatype seek_from = SeekStart nat | SeekEnd int | SeekCurrent int

section \<open>Sources\<close>

definition repeat_read :: "u8 reader" where
  "repeat_read n byte = Some (byte, Ready (Inr (replicate n byte)))"

definition empty_read :: "unit reader" where
  "empty_read n this = Some (this, Ready (Inr []))"

definition empty_fill_buf :: "(unit, u8 list io_result) future" where
  "empty_fill_buf this = Some (this, Ready (Inr []))"

definition empty_consume :: "nat \<Rightarrow> unit \<Rightarrow> unit" where
  "empty_consume n this = this"

text \<open>\<open>Cursor\<close> forwards to \<open>std::io::Cursor\<close>: the data and a position that may be past its end.\<close>

record cursor =
  cu_data :: "u8 list"
  cu_pos :: nat

definition cursor_new :: "u8 list \<Rightarrow> cursor" where
  "cursor_new data = \<lparr>cu_data = data, cu_pos = 0\<rparr>"

definition cursor_rest :: "cursor \<Rightarrow> u8 list" where
  "cursor_rest c = drop (cu_pos c) (cu_data c)"

definition cursor_read :: "cursor reader" where
  "cursor_read n c = (let xs = take n (cursor_rest c) in Some (c\<lparr>cu_pos := cu_pos c + length xs\<rparr>, Ready (Inr xs)))"

text \<open>A vectored read fills the buffers one after the other and stops at the first short one.\<close>

fun cursor_fill_bufs :: "nat list \<Rightarrow> cursor \<Rightarrow> cursor \<times> u8 list" where
  "cursor_fill_bufs [] c = (c, [])"
| "cursor_fill_bufs (n # ns) c =
     (let xs = take n (cursor_rest c); c' = c\<lparr>cu_pos := cu_pos c + length xs\<rparr> in
      if length xs < n then (c', xs)
      else case cursor_fill_bufs ns c' of (c'', ys) \<Rightarrow> (c'', xs @ ys))"

definition cursor_read_vectored :: "nat list \<Rightarrow> (cursor, u8 list io_result) future" where
  "cursor_read_vectored ns c = (case cursor_fill_bufs ns c of (c', xs) \<Rightarrow> Some (c', Ready (Inr xs)))"

definition cursor_fill_buf :: "(cursor, u8 list io_result) future" where
  "cursor_fill_buf c = Some (c, Ready (Inr (cursor_rest c)))"

definition cursor_consume :: "nat \<Rightarrow> cursor \<Rightarrow> cursor" where
  "cursor_consume n c = c\<lparr>cu_pos := cu_pos c + n\<rparr>"

definition seek_target :: "nat \<Rightarrow> nat \<Rightarrow> seek_from \<Rightarrow> int" where
  "seek_target len pos s = (case s of SeekStart n \<Rightarrow> int n | SeekEnd n \<Rightarrow> int len + n | SeekCurrent n \<Rightarrow> int pos + n)"

definition cursor_seek :: "seek_from \<Rightarrow> (cursor, nat io_result) future" where
  "cursor_seek s c =
     (let t = seek_target (length (cu_data c)) (cu_pos c) s in
      if 0 \<le> t \<and> t < 2 ^ 64 then Some (c\<lparr>cu_pos := nat t\<rparr>, Ready (Inr (nat t)))
      else Some (c, Ready (Inl InvalidInput)))"

section \<open>BufferReader\<close>

definition DEFAULT_BUFSZ :: nat where "DEFAULT_BUFSZ = 8 * 1024"

record 'r buffer_reader =
  br_inner :: 'r
  br_buf :: "u8 list"
  br_headroom :: nat
  br_pos :: nat
  br_cap :: nat

definition buffer_reader_with_capacity :: "nat \<Rightarrow> 'r \<Rightarrow> 'r buffer_reader" where
  "buffer_reader_with_capacity capacity inner =
     \<lparr>br_inner = inner, br_buf = replicate capacity 0, br_headroom = 0, br_pos = 0, br_cap = 0\<rparr>"

definition buffer_reader_new :: "'r \<Rightarrow> 'r buffer_reader" where
  "buffer_reader_new inner = buffer_reader_with_capacity DEFAULT_BUFSZ inner"

definition buffer_reader_buffer :: "'r buffer_reader \<Rightarrow> u8 list" where
  "buffer_reader_buffer b = take (br_cap b - br_pos b) (drop (br_pos b) (br_buf b))"

definition discard_buffer :: "'r buffer_reader \<Rightarrow> 'r buffer_reader" where
  "discard_buffer b = b\<lparr>br_pos := 0, br_cap := 0\<rparr>"

text \<open>Filling the buffer; more bytes than it holds would be a slice out of range.\<close>

definition buffer_fill_buf :: "'r reader \<Rightarrow> ('r buffer_reader, u8 list io_result) future" where
  "buffer_fill_buf rd b =
     (if br_pos b \<ge> br_cap b then
        ready_ok (rd (length (br_buf b)) (br_inner b)) (\<lambda>r. b\<lparr>br_inner := r\<rparr>) (\<lambda>r xs.
          if length xs > length (br_buf b) then Some (b\<lparr>br_inner := r\<rparr>, Panicked)
          else let b' = b\<lparr>br_inner := r, br_buf := xs @ drop (length xs) (br_buf b), br_cap := length xs, br_pos := 0\<rparr> in
            Some (b', Ready (Inr (buffer_reader_buffer b'))))
      else Some (b, Ready (Inr (buffer_reader_buffer b))))"

definition buffer_consume :: "nat \<Rightarrow> 'r buffer_reader \<Rightarrow> 'r buffer_reader" where
  "buffer_consume n b = b\<lparr>br_pos := min (br_pos b + n) (br_cap b)\<rparr>"

text \<open>A read that is at least as large as the empty buffer bypasses it.\<close>

definition buffer_read :: "'r reader \<Rightarrow> 'r buffer_reader reader" where
  "buffer_read rd n b =
     (if br_pos b = br_cap b \<and> n \<ge> length (br_buf b) then
        ready (rd n (br_inner b)) (\<lambda>r. b\<lparr>br_inner := r\<rparr>) (\<lambda>r res. Some (discard_buffer (b\<lparr>br_inner := r\<rparr>), Ready res))
      else
        ready_ok (buffer_fill_buf rd b) id (\<lambda>b' rem.
          let nread = min n (length rem) in
          Some (buffer_consume nread b', Ready (Inr (take nread rem)))))"

definition buffer_read_vectored :: "'r reader \<Rightarrow> (nat list \<Rightarrow> ('r, u8 list io_result) future) \<Rightarrow> nat list \<Rightarrow>
    ('r buffer_reader, u8 list io_result) future" where
  "buffer_read_vectored rd rdv ns b =
     (let total_len = sum_list ns in
      if br_pos b = br_cap b \<and> total_len \<ge> length (br_buf b) then
        ready (rdv ns (br_inner b)) (\<lambda>r. b\<lparr>br_inner := r\<rparr>) (\<lambda>r res. Some (discard_buffer (b\<lparr>br_inner := r\<rparr>), Ready res))
      else
        ready_ok (buffer_fill_buf rd b) id (\<lambda>b' rem.
          let nread = min total_len (length rem) in
          Some (buffer_consume nread b', Ready (Inr (take nread rem)))))"

text \<open>
  Seeking. A relative position counts from what the caller has read, not from where the
  inner reader is; \<open>i64::checked_sub\<close> fails below \<open>i64::MIN\<close>, and then it takes two steps.
\<close>

definition i64_min :: int where "i64_min = - (2 ^ 63)"

definition buffer_seek :: "(seek_from \<Rightarrow> ('r, nat io_result) future) \<Rightarrow> seek_from \<Rightarrow> ('r buffer_reader, nat io_result) future" where
  "buffer_seek sk pos b =
     (let w = (\<lambda>r. b\<lparr>br_inner := r\<rparr>); fin = (\<lambda>r res. Some (discard_buffer (b\<lparr>br_inner := r\<rparr>), Ready (Inr res))) in
      case pos of
        SeekCurrent n \<Rightarrow>
          let remainder = int (br_cap b) - int (br_pos b) in
          if i64_min \<le> n - remainder then ready_ok (sk (SeekCurrent (n - remainder)) (br_inner b)) w fin
          else ready_ok (sk (SeekCurrent (- remainder)) (br_inner b)) w (\<lambda>r _.
            let b' = discard_buffer (b\<lparr>br_inner := r\<rparr>) in
            ready_ok (sk (SeekCurrent n) r) (\<lambda>r'. b'\<lparr>br_inner := r'\<rparr>) fin)
      | _ \<Rightarrow> ready_ok (sk pos (br_inner b)) w fin)"

section \<open>Take, Chain and Bytes\<close>

record 'r take_reader =
  tr_inner :: 'r
  tr_limit :: nat

definition take_read :: "'r reader \<Rightarrow> 'r take_reader reader" where
  "take_read rd n t =
     (if tr_limit t = 0 then Some (t, Ready (Inr []))
      else ready_ok (rd (min n (tr_limit t)) (tr_inner t)) (\<lambda>r. t\<lparr>tr_inner := r\<rparr>) (\<lambda>r xs.
        Some (\<lparr>tr_inner = r, tr_limit = tr_limit t - length xs\<rparr>, Ready (Inr xs))))"

definition take_fill_buf :: "('r, u8 list io_result) future \<Rightarrow> ('r take_reader, u8 list io_result) future" where
  "take_fill_buf fill t =
     (if tr_limit t = 0 then Some (t, Ready (Inr []))
      else ready_ok (fill (tr_inner t)) (\<lambda>r. t\<lparr>tr_inner := r\<rparr>) (\<lambda>r buf.
        Some (t\<lparr>tr_inner := r\<rparr>, Ready (Inr (take (min (length buf) (tr_limit t)) buf)))))"

definition take_consume :: "(nat \<Rightarrow> 'r \<Rightarrow> 'r) \<Rightarrow> nat \<Rightarrow> 'r take_reader \<Rightarrow> 'r take_reader" where
  "take_consume consume n t =
     (let m = min n (tr_limit t) in \<lparr>tr_inner = consume m (tr_inner t), tr_limit = tr_limit t - m\<rparr>)"

record ('r, 'q) chain_reader =
  cr_first :: 'r
  cr_second :: 'q
  cr_done_first :: bool

definition chain_second_read :: "'q reader \<Rightarrow> nat \<Rightarrow> (('r, 'q) chain_reader, u8 list io_result) future" where
  "chain_second_read rd2 n c =
     ready (rd2 n (cr_second c)) (\<lambda>q. c\<lparr>cr_second := q\<rparr>) (\<lambda>q res. Some (c\<lparr>cr_second := q\<rparr>, Ready res))"

definition chain_read :: "'r reader \<Rightarrow> 'q reader \<Rightarrow> ('r, 'q) chain_reader reader" where
  "chain_read rd1 rd2 n c =
     (if \<not> cr_done_first c then
        ready_ok (rd1 n (cr_first c)) (\<lambda>r. c\<lparr>cr_first := r\<rparr>) (\<lambda>r xs.
          if xs = [] \<and> n \<noteq> 0 then chain_second_read rd2 n (c\<lparr>cr_first := r, cr_done_first := True\<rparr>)
          else Some (c\<lparr>cr_first := r\<rparr>, Ready (Inr xs)))
      else chain_second_read rd2 n c)"

definition chain_fill_second :: "('q, u8 list io_result) future \<Rightarrow> (('r, 'q) chain_reader, u8 list io_result) future" where
  "chain_fill_second fill2 c =
     ready (fill2 (cr_second c)) (\<lambda>q. c\<lparr>cr_second := q\<rparr>) (\<lambda>q res. Some (c\<lparr>cr_second := q\<rparr>, Ready res))"

definition chain_fill_buf :: "('r, u8 list io_result) future \<Rightarrow> ('q, u8 list io_result) future \<Rightarrow>
    (('r, 'q) chain_reader, u8 list io_result) future" where
  "chain_fill_buf fill1 fill2 c =
     (if \<not> cr_done_first c then
        ready_ok (fill1 (cr_first c)) (\<lambda>r. c\<lparr>cr_first := r\<rparr>) (\<lambda>r buf.
          if buf = [] then chain_fill_second fill2 (c\<lparr>cr_first := r, cr_done_first := True\<rparr>)
          else Some (c\<lparr>cr_first := r\<rparr>, Ready (Inr buf)))
      else chain_fill_second fill2 c)"

definition chain_consume :: "(nat \<Rightarrow> 'r \<Rightarrow> 'r) \<Rightarrow> (nat \<Rightarrow> 'q \<Rightarrow> 'q) \<Rightarrow> nat \<Rightarrow> ('r, 'q) chain_reader \<Rightarrow> ('r, 'q) chain_reader" where
  "chain_consume consume1 consume2 n c =
     (if \<not> cr_done_first c then c\<lparr>cr_first := consume1 n (cr_first c)\<rparr> else c\<lparr>cr_second := consume2 n (cr_second c)\<rparr>)"

text \<open>\<open>Bytes\<close> as a stream; an interrupted read is answered with \<open>Pending\<close>.\<close>

definition bytes_next :: "'r reader \<Rightarrow> ('r, u8 io_result) stream" where
  "bytes_next rd r =
     ready (rd 1 r) id (\<lambda>r' res.
       case res of
         Inr [] \<Rightarrow> Some (r', Ready None)
       | Inr (byte # _) \<Rightarrow> Some (r', Ready (Some (Inr byte)))
       | Inl e \<Rightarrow> if e = Interrupted then Some (r', Pending) else Some (r', Ready (Some (Inl e))))"

section \<open>Futures over a buffered reader\<close>

text \<open>
  \<open>FillBuf\<close> polls twice, because the first answer borrows the reader: the second poll must
  be ready as well.
\<close>

definition fill_buf_poll :: "('r, u8 list io_result) future \<Rightarrow> ('r option, u8 list io_result) future" where
  "fill_buf_poll fill this =
     (case this of
        None \<Rightarrow> Some (None, Panicked)
      | Some r \<Rightarrow>
          (case fill r of
             None \<Rightarrow> None
           | Some (r1, Ready (Inr _)) \<Rightarrow>
               (case fill r1 of
                  None \<Rightarrow> None
                | Some (r2, Ready (Inr xs)) \<Rightarrow> Some (None, Ready (Inr xs))
                | Some (r2, _) \<Rightarrow> Some (None, Panicked))
           | Some (r1, Ready (Inl e)) \<Rightarrow> Some (None, Ready (Inl e))
           | Some (r1, Pending) \<Rightarrow> Some (Some r1, Pending)
           | Some (r1, Panicked) \<Rightarrow> Some (None, Panicked)))"

text \<open>
  The state of \<open>ReadUntilFuture\<close>, \<open>Split\<close> and, for the bytes of a line, \<open>ReadLineFuture\<close> and
  \<open>Lines\<close>. \<open>memchr\<close> is the function of the crate of that name.
\<close>

record 'r until =
  un_reader :: 'r
  un_buf :: "u8 list"
  un_read :: nat

partial_function (option) read_until_internal ::
  "(u8 \<Rightarrow> u8 list \<Rightarrow> nat option) \<Rightarrow> ('r, u8 list io_result) future \<Rightarrow> (nat \<Rightarrow> 'r \<Rightarrow> 'r) \<Rightarrow> u8 \<Rightarrow> ('r until, nat io_result) future" where
  "read_until_internal memchr fill consume byte this =
     ready_ok (fill (un_reader this)) (\<lambda>r. this\<lparr>un_reader := r\<rparr>) (\<lambda>r available.
       let (done, buf', used) =
         (case memchr byte available of
            Some i \<Rightarrow> (True, un_buf this @ take (i + 1) available, i + 1)
          | None \<Rightarrow> (False, un_buf this @ available, length available));
         r' = consume used r; read' = un_read this + used in
       if done \<or> used = 0 then Some (\<lparr>un_reader = r', un_buf = buf', un_read = 0\<rparr>, Ready (Inr read'))
       else read_until_internal memchr fill consume byte \<lparr>un_reader = r', un_buf = buf', un_read = read'\<rparr>)"

definition read_until_new :: "'r \<Rightarrow> u8 list \<Rightarrow> 'r until" where
  "read_until_new r buf = \<lparr>un_reader = r, un_buf = buf, un_read = 0\<rparr>"

definition read_until_poll where
  "read_until_poll memchr fill consume byte this = read_until_internal memchr fill consume byte this"

definition split_next ::
  "(u8 \<Rightarrow> u8 list \<Rightarrow> nat option) \<Rightarrow> ('r, u8 list io_result) future \<Rightarrow> (nat \<Rightarrow> 'r \<Rightarrow> 'r) \<Rightarrow> u8 \<Rightarrow> ('r until, u8 list io_result) stream" where
  "split_next memchr fill consume delim this =
     ready (read_until_internal memchr fill consume delim this) id (\<lambda>this' res.
       case res of
         Inl e \<Rightarrow> Some (this', Ready (Some (Inl e)))
       | Inr n \<Rightarrow>
           if n = 0 \<and> un_buf this' = [] then Some (this', Ready None)
           else if un_buf this' = [] then Some (this', Panicked)
           else
             let item = (if last (un_buf this') = delim then butlast (un_buf this') else un_buf this') in
             Some (this'\<lparr>un_buf := []\<rparr>, Ready (Some (Inr item))))"

text \<open>UTF-8: the well-formed byte sequences of the Unicode standard, as \<open>String::from_utf8\<close> checks them.\<close>

definition utf8_cont :: "u8 \<Rightarrow> bool" where "utf8_cont b \<longleftrightarrow> 0x80 \<le> b \<and> b \<le> 0xBF"

fun utf8_valid :: "u8 list \<Rightarrow> bool" where
  "utf8_valid [] = True"
| "utf8_valid (a # xs) =
     (if a \<le> 0x7F then utf8_valid xs
      else case xs of
        [] \<Rightarrow> False
      | b # ys \<Rightarrow>
          if 0xC2 \<le> a \<and> a \<le> 0xDF then utf8_cont b \<and> utf8_valid ys
          else (case ys of
            [] \<Rightarrow> False
          | c # zs \<Rightarrow>
              if (a = 0xE0 \<and> 0xA0 \<le> b \<and> b \<le> 0xBF) \<or> (0xE1 \<le> a \<and> a \<le> 0xEC \<and> utf8_cont b) \<or>
                 (a = 0xED \<and> 0x80 \<le> b \<and> b \<le> 0x9F) \<or> (0xEE \<le> a \<and> a \<le> 0xEF \<and> utf8_cont b)
              then utf8_cont c \<and> utf8_valid zs
              else (case zs of
                [] \<Rightarrow> False
              | d # vs \<Rightarrow>
                  ((a = 0xF0 \<and> 0x90 \<le> b \<and> b \<le> 0xBF) \<or> (0xF1 \<le> a \<and> a \<le> 0xF3 \<and> utf8_cont b) \<or>
                   (a = 0xF4 \<and> 0x80 \<le> b \<and> b \<le> 0x8F)) \<and> utf8_cont c \<and> utf8_cont d \<and> utf8_valid vs)))"

definition newline :: u8 where "newline = 10"
definition carriage_return :: u8 where "carriage_return = 13"

text \<open>\<open>read_line_internal\<close>: the bytes of a line are checked when it is complete.\<close>

record 'r line_reader =
  ln_until :: "'r until"
  ln_buf :: "u8 list"

definition read_line_internal ::
  "(u8 \<Rightarrow> u8 list \<Rightarrow> nat option) \<Rightarrow> ('r, u8 list io_result) future \<Rightarrow> (nat \<Rightarrow> 'r \<Rightarrow> 'r) \<Rightarrow> ('r line_reader, nat io_result) future" where
  "read_line_internal memchr fill consume this =
     ready (read_until_internal memchr fill consume newline (ln_until this)) (\<lambda>u. this\<lparr>ln_until := u\<rparr>) (\<lambda>u ret.
       let u' = u\<lparr>un_buf := []\<rparr> in
       if utf8_valid (un_buf u) then
         (if ln_buf this \<noteq> [] then Some (this\<lparr>ln_until := u'\<rparr>, Panicked)
          else Some (\<lparr>ln_until = u', ln_buf = un_buf u\<rparr>, Ready ret))
       else Some (this\<lparr>ln_until := u'\<rparr>, Ready (case ret of Inl e \<Rightarrow> Inl e | Inr _ \<Rightarrow> Inl InvalidData)))"

definition lines_new :: "'r \<Rightarrow> 'r line_reader" where
  "lines_new r = \<lparr>ln_until = read_until_new r [], ln_buf = []\<rparr>"

definition strip_line :: "u8 list \<Rightarrow> u8 list" where
  "strip_line buf =
     (if buf \<noteq> [] \<and> last buf = newline then
        let buf' = butlast buf in if buf' \<noteq> [] \<and> last buf' = carriage_return then butlast buf' else buf'
      else buf)"

definition lines_next ::
  "(u8 \<Rightarrow> u8 list \<Rightarrow> nat option) \<Rightarrow> ('r, u8 list io_result) future \<Rightarrow> (nat \<Rightarrow> 'r \<Rightarrow> 'r) \<Rightarrow> ('r line_reader, u8 list io_result) stream" where
  "lines_next memchr fill consume this =
     ready (read_line_internal memchr fill consume this) id (\<lambda>this' res.
       case res of
         Inl e \<Rightarrow> Some (this', Ready (Some (Inl e)))
       | Inr n \<Rightarrow>
           if n = 0 \<and> ln_buf this' = [] then Some (this', Ready None)
           else Some (this'\<lparr>ln_buf := []\<rparr>, Ready (Some (Inr (strip_line (ln_buf this'))))))"

section \<open>Futures over a reader\<close>

text \<open>\<open>ReadExactFuture\<close>: the bytes read so far and how much of the buffer is left.\<close>

record 'r exact =
  ex_reader :: 'r
  ex_filled :: "u8 list"
  ex_left :: nat

partial_function (option) read_exact_poll :: "'r reader \<Rightarrow> ('r exact, unit io_result) future" where
  "read_exact_poll rd this =
     (if ex_left this = 0 then Some (this, Ready (Inr ()))
      else ready_ok (rd (ex_left this) (ex_reader this)) (\<lambda>r. this\<lparr>ex_reader := r\<rparr>) (\<lambda>r xs.
        let n = length xs in
        if n > ex_left this then Some (this\<lparr>ex_reader := r, ex_left := 0\<rparr>, Panicked)
        else
          let this' = \<lparr>ex_reader = r, ex_filled = ex_filled this @ xs, ex_left = ex_left this - n\<rparr> in
          if n = 0 then Some (this', Ready (Inl UnexpectedEof)) else read_exact_poll rd this'))"

text \<open>
  \<open>read_to_end_internal\<close>. The vector has the bytes read so far, of which \<open>len\<close> are the
  guard's, then zeros up to its length; \<open>reserve\<close> gives the capacity after \<open>Vec::reserve(32)\<close>.
  When the guard is dropped, at every return, the vector is cut back to \<open>len\<close>.
\<close>

record 'r to_end =
  te_reader :: 'r
  te_buf :: "u8 list"
  te_capacity :: nat

partial_function (option) read_to_end_loop ::
  "(nat \<Rightarrow> nat \<Rightarrow> nat) \<Rightarrow> 'r reader \<Rightarrow> nat \<Rightarrow> nat \<Rightarrow> ('r to_end, nat io_result) future" where
  "read_to_end_loop reserve rd start_len buf_len this =
     (let len = length (te_buf this);
          cap' = (if len = buf_len then reserve (te_capacity this) len else te_capacity this);
          buf_len' = (if len = buf_len then cap' else buf_len);
          this' = this\<lparr>te_capacity := cap'\<rparr> in
      ready_ok (rd (buf_len' - len) (te_reader this)) (\<lambda>r. this'\<lparr>te_reader := r\<rparr>) (\<lambda>r xs.
        if xs = [] then Some (this'\<lparr>te_reader := r\<rparr>, Ready (Inr (len - start_len)))
        else read_to_end_loop reserve rd start_len buf_len' (this'\<lparr>te_reader := r, te_buf := te_buf this @ xs\<rparr>)))"

definition read_to_end_internal where
  "read_to_end_internal reserve rd start_len this = read_to_end_loop reserve rd start_len (length (te_buf this)) this"

definition read_to_end_new :: "'r \<Rightarrow> u8 list \<Rightarrow> nat \<Rightarrow> 'r to_end" where
  "read_to_end_new r buf capacity = \<lparr>te_reader = r, te_buf = buf, te_capacity = capacity\<rparr>"

definition read_to_end_poll where
  "read_to_end_poll reserve rd start_len this = read_to_end_internal reserve rd start_len this"

text \<open>\<open>ReadToStringFuture\<close>: the string is set only when all bytes are valid.\<close>

definition read_to_string_poll ::
  "(nat \<Rightarrow> nat \<Rightarrow> nat) \<Rightarrow> 'r reader \<Rightarrow> nat \<Rightarrow> ('r to_end \<times> u8 list, nat io_result) future" where
  "read_to_string_poll reserve rd start_len this =
     (case this of (te, buf) \<Rightarrow>
      ready (read_to_end_internal reserve rd start_len te) (\<lambda>te'. (te', buf)) (\<lambda>te' ret.
        let te'' = te'\<lparr>te_buf := [], te_capacity := 0\<rparr> in
        if utf8_valid (te_buf te') then
          (if buf \<noteq> [] then Some ((te'', buf), Panicked) else Some ((te'', te_buf te'), Ready ret))
        else Some ((te'', buf), Ready (case ret of Inl e \<Rightarrow> Inl e | Inr _ \<Rightarrow> Inl InvalidData))))"

end
