(* ===== verification/Io_Laws.thy ===== *)
theory Io_Laws
  imports Io_Read
begin

text \<open>
  What the readers of src/cynthia/src/future/swap.rs deliver. The locale \<open>byte_source\<close> is
  the contract of \<open>AsyncRead\<close> for a reader that does not fail: a read takes a prefix of the
  bytes that are available, an empty one only at the end, and is pending only finitely
  often in a row. \<open>buf_source\<close> is the contract of \<open>AsyncBufRead\<close>. Cursors satisfy them, and
  \<open>BufferReader\<close>, \<open>Take\<close> and \<open>Chain\<close> satisfy them when the readers inside do. The futures
  are verified once over the contracts.
\<close>

section \<open>Running a future to its end\<close>

text \<open>\<open>runs p v r s\<close>: after the answer \<open>v\<close>, polling on ends with \<open>r\<close> in state \<open>s\<close>.\<close>

inductive runs :: "('s, 'a) future \<Rightarrow> ('s \<times> 'a poll) option \<Rightarrow> 'a \<Rightarrow> 's \<Rightarrow> bool" for p where
  runs_done: "runs p (Some (s, Ready r)) r s"
| runs_pend: "runs p (p s1) r s \<Longrightarrow> runs p (Some (s1, Pending)) r s"

inductive_simps runs_Ready [simp]: "runs p (Some (s, Ready x)) r t"
inductive_simps runs_Pending [simp]: "runs p (Some (s, Pending)) r t"
inductive_simps runs_Panicked [simp]: "runs p (Some (s, Panicked)) r t"
inductive_simps runs_None [simp]: "runs p None r t"

lemma runs_unique: "runs p v r s \<Longrightarrow> runs p v r' s' \<Longrightarrow> r' = r \<and> s' = s"
  by (induction rule: runs.induct) auto

lemma runs_resolves: "runs p v r s \<Longrightarrow> v = p t \<Longrightarrow> resolves p t r"
  by (induction arbitrary: t rule: runs.induct) (auto intro: resolves.intros dest: sym)

text \<open>An adapter that polls another future and goes on with its value.\<close>

lemma runs_ready:
  assumes "runs p v x s" and q: "\<And>s. q (w s) = ready (p s) w f" and "runs q (f s x) r t"
  shows "runs q (ready v w f) r t"
  using assms(1,3) by (induction rule: runs.induct) (auto simp: q)

lemma yields_runs:
  assumes "runs q v x t" "v = q s" "x = None"
  shows "yields q s []"
  using assms by (induction arbitrary: s rule: runs.induct) (auto intro: yields.intros dest: sym)

lemma yields_runs_item:
  assumes "runs q v x t" "v = q s" "x = Some y" "yields q t ys"
  shows "yields q s (y # ys)"
  using assms by (induction arbitrary: s rule: runs.induct) (auto intro: yields.intros dest: sym)

section \<open>The contract of a reader\<close>

definition takes :: "('r \<Rightarrow> bool) \<Rightarrow> ('r \<Rightarrow> u8 list) \<Rightarrow> nat \<Rightarrow> 'r \<Rightarrow> 'r \<Rightarrow> u8 list \<Rightarrow> bool" where
  "takes good avail n r r' xs \<longleftrightarrow>
     good r' \<and> avail r = xs @ avail r' \<and> length xs \<le> n \<and> (0 < n \<longrightarrow> xs = [] \<longrightarrow> avail r = [])"

definition stalls :: "('r \<Rightarrow> bool) \<Rightarrow> ('r \<Rightarrow> u8 list) \<Rightarrow> ('r \<Rightarrow> nat) \<Rightarrow> 'r \<Rightarrow> 'r \<Rightarrow> bool" where
  "stalls good avail delay r r' \<longleftrightarrow> good r' \<and> avail r' = avail r \<and> delay r' < delay r"

text \<open>\<open>Vec::reserve(32)\<close> leaves room for 32 more elements.\<close>

definition grows :: "(nat \<Rightarrow> nat \<Rightarrow> nat) \<Rightarrow> bool" where
  "grows reserve \<longleftrightarrow> (\<forall>cap len. len + 32 \<le> reserve cap len)"

locale byte_source =
  fixes good :: "'r \<Rightarrow> bool" and avail :: "'r \<Rightarrow> u8 list" and delay :: "'r \<Rightarrow> nat" and rd :: "'r reader"
  assumes read_law: "good r \<Longrightarrow>
    (\<exists>r' xs. rd n r = Some (r', Ready (Inr xs)) \<and> takes good avail n r r' xs) \<or>
    (\<exists>r'. rd n r = Some (r', Pending) \<and> stalls good avail delay r r')"
begin

lemma read_cases:
  assumes "good r"
  obtains (bytes) r' xs where "rd n r = Some (r', Ready (Inr xs))" "good r'" "avail r = xs @ avail r'" "length xs \<le> n"
      "0 < n \<Longrightarrow> xs = [] \<Longrightarrow> avail r = []"
    | (pending) r' where "rd n r = Some (r', Pending)" "good r'" "avail r' = avail r" "delay r' < delay r"
  using read_law [OF assms, of n] unfolding takes_def stalls_def by blast

lemma source_induct [consumes 1, case_names step]:
  assumes "good r"
    and step: "\<And>r. good r \<Longrightarrow> (\<And>r'. good r' \<Longrightarrow> length (avail r') < length (avail r) \<or> avail r' = avail r \<and> delay r' < delay r \<Longrightarrow> P r') \<Longrightarrow> P r"
  shows "P r"
  using assms(1)
proof (induction r rule: wf_induct_rule [OF wf_measures [of "[\<lambda>r. length (avail r), delay]"]])
  case (1 r)
  show ?case by (rule step [OF "1.prems"]) (auto intro: "1.IH")
qed

text \<open>\<open>read_exact\<close> fills the buffer, or takes everything and reports the end of the input.\<close>

lemma exact_runs:
  assumes "good r"
  shows "\<exists>r'. runs (read_exact_poll rd) (read_exact_poll rd \<lparr>ex_reader = r, ex_filled = fs, ex_left = n\<rparr>)
      (if n \<le> length (avail r) then Inr () else Inl UnexpectedEof)
      \<lparr>ex_reader = r', ex_filled = fs @ take n (avail r), ex_left = n - length (avail r)\<rparr> \<and> good r' \<and> avail r' = drop n (avail r)"
  using assms
proof (induction r arbitrary: fs n rule: source_induct)
  case (step r)
  show ?case
  proof (cases "n = 0")
    case True
    with step.hyps show ?thesis by (subst read_exact_poll.simps) auto
  next
    case n: False
    from step.hyps show ?thesis
    proof (cases rule: read_cases [where n = n])
      case (bytes r' xs)
      show ?thesis
      proof (cases "xs = []")
        case True
        with bytes n show ?thesis by (subst read_exact_poll.simps) (auto simp: Let_def)
      next
        case False
        let ?n = "n - length xs"
        have u: "read_exact_poll rd \<lparr>ex_reader = r, ex_filled = fs, ex_left = n\<rparr> =
            read_exact_poll rd \<lparr>ex_reader = r', ex_filled = fs @ xs, ex_left = ?n\<rparr>"
          using bytes n False by (subst read_exact_poll.simps) (simp add: Let_def)
        have "length (avail r') < length (avail r)" using bytes(3) False by simp
        with step.IH [OF bytes(2), of "fs @ xs" ?n] bytes(3,4) show ?thesis unfolding u by (auto split: if_splits)
      qed
    next
      case (pending r')
      have u: "read_exact_poll rd \<lparr>ex_reader = r, ex_filled = fs, ex_left = n\<rparr> =
          Some (\<lparr>ex_reader = r', ex_filled = fs, ex_left = n\<rparr>, Pending)"
        using pending(1) n by (subst read_exact_poll.simps) simp
      with step.IH [OF pending(2), of fs n] pending(3,4) show ?thesis by simp
    qed
  qed
qed


lemma to_end_runs:
  assumes "good r" and grow: "grows reserve" and "length buf \<le> bl"
  shows "\<exists>r' cap'. runs (read_to_end_poll reserve rd sl)
      (read_to_end_loop reserve rd sl bl \<lparr>te_reader = r, te_buf = buf, te_capacity = cap\<rparr>)
      (Inr (length buf + length (avail r) - sl)) \<lparr>te_reader = r', te_buf = buf @ avail r, te_capacity = cap'\<rparr> \<and> good r' \<and> avail r' = []"
  using assms(1,3)
proof (induction r arbitrary: buf bl cap rule: source_induct)
  case (step r)
  define cap1 where "cap1 = (if length buf = bl then reserve cap (length buf) else cap)"
  define bl1 where "bl1 = (if length buf = bl then cap1 else bl)"
  have bl1: "length buf < bl1"
    using step.prems grow [unfolded grows_def, rule_format, of "length buf" cap] unfolding bl1_def cap1_def by auto
  have u: "read_to_end_loop reserve rd sl bl \<lparr>te_reader = r, te_buf = buf, te_capacity = cap\<rparr> =
      ready_ok (rd (bl1 - length buf) r) (\<lambda>r. \<lparr>te_reader = r, te_buf = buf, te_capacity = cap1\<rparr>) (\<lambda>r xs.
        if xs = [] then Some (\<lparr>te_reader = r, te_buf = buf, te_capacity = cap1\<rparr>, Ready (Inr (length buf - sl)))
        else read_to_end_loop reserve rd sl bl1 \<lparr>te_reader = r, te_buf = buf @ xs, te_capacity = cap1\<rparr>)"
    by (subst read_to_end_loop.simps) (simp add: Let_def bl1_def cap1_def cong: if_cong)
  from step.hyps show ?case
  proof (cases rule: read_cases [where n = "bl1 - length buf"])
    case (bytes r' xs)
    show ?thesis
    proof (cases "xs = []")
      case True
      with bytes bl1 show ?thesis unfolding u by auto
    next
      case False
      then have "length (avail r') < length (avail r)" using bytes(3) by simp
      moreover have "length (buf @ xs) \<le> bl1" using bytes(4) bl1 by simp
      ultimately show ?thesis using step.IH [OF bytes(2), of "buf @ xs" bl1 cap1] bytes False unfolding u
        by (simp add: add.assoc)
    qed
  next
    case (pending r')
    with step.IH [OF pending(2), of buf "length buf" cap1] show ?thesis unfolding u
      by (simp add: read_to_end_poll_def read_to_end_internal_def)
  qed
qed

text \<open>\<open>Bytes\<close> yields the bytes one by one.\<close>

lemma bytes_yields:
  assumes "good r"
  shows "yields (bytes_next rd) r (map Inr (avail r))"
  using assms
proof (induction r rule: source_induct)
  case (step r)
  from step.hyps show ?case
  proof (cases rule: read_cases [where n = 1])
    case (bytes r' xs)
    show ?thesis
    proof (cases xs)
      case Nil
      with bytes show ?thesis by (auto simp: bytes_next_def intro!: yields_end)
    next
      case (Cons x xs')
      with bytes(4) have x: "xs = [x]" by simp
      with bytes have "bytes_next rd r = Some (r', Ready (Some (Inr x)))" by (simp add: bytes_next_def)
      moreover have "yields (bytes_next rd) r' (map Inr (avail r'))"
        by (rule step.IH [OF bytes(2)]) (simp add: bytes(3) x)
      ultimately show ?thesis using bytes(3) x by (auto intro: yields_item)
    qed
  next
    case (pending r')
    have "bytes_next rd r = Some (r', Pending)" using pending(1) by (simp add: bytes_next_def)
    moreover have "yields (bytes_next rd) r' (map Inr (avail r))"
      using step.IH [OF pending(2)] pending(3,4) by simp
    ultimately show ?thesis by (rule yields_pend)
  qed
qed

end

section \<open>The contract of a buffered reader\<close>

text \<open>\<open>held\<close> are the bytes that the last \<open>poll_fill_buf\<close> showed and that may be consumed.\<close>

locale buf_source =
  fixes good :: "'r \<Rightarrow> bool" and avail :: "'r \<Rightarrow> u8 list" and held :: "'r \<Rightarrow> u8 list" and delay :: "'r \<Rightarrow> nat"
    and fill :: "('r, u8 list io_result) future" and consume :: "nat \<Rightarrow> 'r \<Rightarrow> 'r"
  assumes fill_law: "good r \<Longrightarrow>
      (\<exists>r'. fill r = Some (r', Ready (Inr (held r'))) \<and> good r' \<and> avail r' = avail r \<and> (held r' = [] \<longrightarrow> avail r = [])) \<or>
      (\<exists>r'. fill r = Some (r', Pending) \<and> stalls good avail delay r r')"
    and held_law: "good r \<Longrightarrow> \<exists>ys. avail r = held r @ ys"
    and consume_law: "good r \<Longrightarrow> k \<le> length (held r) \<Longrightarrow> good (consume k r) \<and> avail (consume k r) = drop k (avail r)"
begin

lemma fill_cases:
  assumes "good r"
  obtains (bytes) r' ys where "fill r = Some (r', Ready (Inr (held r')))" "good r'" "avail r' = avail r" "avail r = held r' @ ys"
      "held r' = [] \<Longrightarrow> avail r = []"
    | (pending) r' where "fill r = Some (r', Pending)" "good r'" "avail r' = avail r" "delay r' < delay r"
  using fill_law [OF assms] held_law unfolding stalls_def by metis

lemma source_induct [consumes 1, case_names step]:
  assumes "good r"
    and step: "\<And>r. good r \<Longrightarrow> (\<And>r'. good r' \<Longrightarrow> length (avail r') < length (avail r) \<or> avail r' = avail r \<and> delay r' < delay r \<Longrightarrow> P r') \<Longrightarrow> P r"
  shows "P r"
  using assms(1)
proof (induction r rule: wf_induct_rule [OF wf_measures [of "[\<lambda>r. length (avail r), delay]"]])
  case (1 r)
  show ?case by (rule step [OF "1.prems"]) (auto intro: "1.IH")
qed

end

text \<open>The bytes up to and including the first delimiter.\<close>

fun through :: "u8 \<Rightarrow> u8 list \<Rightarrow> u8 list" where
  "through b [] = []"
| "through b (x # xs) = (if x = b then [x] else x # through b xs)"

definition memchr_spec :: "(u8 \<Rightarrow> u8 list \<Rightarrow> nat option) \<Rightarrow> bool" where
  "memchr_spec memchr \<longleftrightarrow>
     (\<forall>b xs. memchr b xs = (if b \<in> set xs then Some (length (takeWhile (\<lambda>x. x \<noteq> b) xs)) else None))"

lemma takeWhile_found: "b \<in> set xs \<Longrightarrow> length (takeWhile (\<lambda>x. x \<noteq> b) xs) < length xs"
  by (induction xs) auto

lemma through_length: "length (through b xs) \<le> length xs"
  by (induction b xs rule: through.induct) auto

lemma through_append_in: "b \<in> set xs \<Longrightarrow> through b (xs @ ys) = take (length (takeWhile (\<lambda>x. x \<noteq> b) xs) + 1) xs"
  by (induction b xs rule: through.induct) auto

lemma through_append_notin: "b \<notin> set xs \<Longrightarrow> through b (xs @ ys) = xs @ through b ys"
  by (induction b xs rule: through.induct) auto

lemma through_split: "xs = through b xs @ drop (length (through b xs)) xs"
  by (induction b xs rule: through.induct) auto

lemma through_empty [simp]: "through b xs = [] \<longleftrightarrow> xs = []"
  by (cases xs) auto

context buf_source
begin

lemma until_runs:
  assumes "good r" and memchr: "memchr_spec memchr"
  shows "\<exists>r'. runs (read_until_internal memchr fill consume b)
      (read_until_internal memchr fill consume b \<lparr>un_reader = r, un_buf = buf, un_read = k\<rparr>)
      (Inr (k + length (through b (avail r)))) \<lparr>un_reader = r', un_buf = buf @ through b (avail r), un_read = 0\<rparr> \<and>
    good r' \<and> avail r' = drop (length (through b (avail r))) (avail r)"
  using assms(1)
proof (induction r arbitrary: buf k rule: source_induct)
  case (step r)
  have mem: "memchr b xs = (if b \<in> set xs then Some (length (takeWhile (\<lambda>x. x \<noteq> b) xs)) else None)" for xs
    using memchr by (simp add: memchr_spec_def)
  from step.hyps show ?case
  proof (cases rule: fill_cases)
    case (bytes r' ys)
    show ?thesis
    proof (cases "b \<in> set (held r')")
      case True
      define used where "used = length (takeWhile (\<lambda>x. x \<noteq> b) (held r')) + 1"
      have used: "used \<le> length (held r')"
        using takeWhile_found [OF True] unfolding used_def by simp
      have th: "through b (avail r) = take used (held r')" using through_append_in [OF True] bytes(4) by (simp add: used_def)
      have u: "read_until_internal memchr fill consume b \<lparr>un_reader = r, un_buf = buf, un_read = k\<rparr> =
          Some (\<lparr>un_reader = consume used r', un_buf = buf @ take used (held r'), un_read = 0\<rparr>, Ready (Inr (k + used)))"
        using bytes(1) True by (subst read_until_internal.simps) (simp add: mem used_def)
      have len: "length (through b (avail r)) = used" using used by (simp add: th)
      show ?thesis unfolding u using consume_law [OF bytes(2) used] bytes(3) len th by simp
    next
      case False
      let ?n = "length (held r')"
      have th: "through b (avail r) = held r' @ through b ys" using through_append_notin [OF False] bytes(4) by simp
      show ?thesis
      proof (cases "held r' = []")
        case True
        have "read_until_internal memchr fill consume b \<lparr>un_reader = r, un_buf = buf, un_read = k\<rparr> =
            Some (\<lparr>un_reader = consume 0 r', un_buf = buf, un_read = 0\<rparr>, Ready (Inr k))"
          using bytes(1) False True by (subst read_until_internal.simps) (simp add: mem)
        with bytes(5) [OF True] consume_law [OF bytes(2), of 0] bytes(3) show ?thesis by simp
      next
        case ne: False
        have u: "read_until_internal memchr fill consume b \<lparr>un_reader = r, un_buf = buf, un_read = k\<rparr> =
            read_until_internal memchr fill consume b \<lparr>un_reader = consume ?n r', un_buf = buf @ held r', un_read = k + ?n\<rparr>"
          using bytes(1) False ne by (subst read_until_internal.simps) (simp add: mem)
        have c: "good (consume ?n r')" "avail (consume ?n r') = ys"
          using consume_law [OF bytes(2), of ?n] bytes(3,4) by simp_all
        have "length (avail (consume ?n r')) < length (avail r)" using c(2) bytes(4) ne by simp
        with step.IH [OF c(1), of "buf @ held r'" "k + ?n"] show ?thesis unfolding u th c(2)
          using bytes(4) by (simp add: add.assoc)
      qed
    qed
  next
    case (pending r')
    have "read_until_internal memchr fill consume b \<lparr>un_reader = r, un_buf = buf, un_read = k\<rparr> =
        Some (\<lparr>un_reader = r', un_buf = buf, un_read = k\<rparr>, Pending)"
      using pending(1) by (subst read_until_internal.simps) simp
    with step.IH [OF pending(2), of buf k] pending(3,4) show ?thesis by simp
  qed
qed

end

text \<open>The pieces between delimiters, each with its delimiter; the last may have none.\<close>

function pieces :: "u8 \<Rightarrow> u8 list \<Rightarrow> u8 list list" where
  "pieces b xs = (if xs = [] then [] else through b xs # pieces b (drop (length (through b xs)) xs))"
  by auto
termination
  by (relation "measure (\<lambda>(b, xs). length xs)") (auto simp: length_greater_0_conv)

declare pieces.simps [simp del]

lemma pieces_Nil [simp]: "pieces b [] = []"
  by (simp add: pieces.simps)

lemma pieces_step: "xs \<noteq> [] \<Longrightarrow> pieces b xs = through b xs # pieces b (drop (length (through b xs)) xs)"
  by (simp add: pieces.simps [of b xs])

definition strip_delim :: "u8 \<Rightarrow> u8 list \<Rightarrow> u8 list" where
  "strip_delim b p = (if last p = b then butlast p else p)"

definition line_item :: "u8 list \<Rightarrow> u8 list io_result" where
  "line_item p = (if utf8_valid p then Inr (strip_line p) else Inl InvalidData)"

context buf_source
begin

lemma split_yields:
  assumes "good r" and memchr: "memchr_spec memchr"
  shows "yields (split_next memchr fill consume b) \<lparr>un_reader = r, un_buf = [], un_read = 0\<rparr>
    (map (Inr \<circ> strip_delim b) (pieces b (avail r)))"
  using assms(1)
proof (induction "length (avail r)" arbitrary: r rule: less_induct)
  case less
  let ?s = "\<lparr>un_reader = r, un_buf = [], un_read = 0\<rparr>" and ?q = "split_next memchr fill consume b"
  let ?f = "\<lambda>this' res. case res of
         Inl e \<Rightarrow> Some (this', Ready (Some (Inl e)))
       | Inr n \<Rightarrow>
           if n = 0 \<and> un_buf this' = [] then Some (this', Ready None)
           else if un_buf this' = [] then Some (this', Panicked)
           else
             let item = (if last (un_buf this') = b then butlast (un_buf this') else un_buf this') in
             Some (this'\<lparr>un_buf := []\<rparr>, Ready (Some (Inr item)))"
  obtain r' where r': "runs (read_until_internal memchr fill consume b) (read_until_internal memchr fill consume b ?s)
      (Inr (0 + length (through b (avail r)))) \<lparr>un_reader = r', un_buf = [] @ through b (avail r), un_read = 0\<rparr>"
    "good r'" "avail r' = drop (length (through b (avail r))) (avail r)"
    using until_runs [OF less.prems memchr] by blast
  have q: "?q (id t) = ready (read_until_internal memchr fill consume b t) id ?f" for t
    by (simp add: split_next_def)
  show ?case
  proof (cases "avail r = []")
    case True
    have "runs ?q (ready (read_until_internal memchr fill consume b ?s) id ?f) None \<lparr>un_reader = r', un_buf = [], un_read = 0\<rparr>"
      by (rule runs_ready [OF r'(1) q]) (simp add: True)
    from yields_runs [OF this] show ?thesis using True by (simp add: split_next_def)
  next
    case False
    let ?t = "\<lparr>un_reader = r', un_buf = [], un_read = 0\<rparr>" and ?x = "Inr (strip_delim b (through b (avail r)))"
    have run: "runs ?q (ready (read_until_internal memchr fill consume b ?s) id ?f) (Some ?x) ?t"
      by (rule runs_ready [OF r'(1) q]) (simp add: False strip_delim_def)
    have "length (avail r') < length (avail r)" using False r'(3) by (simp add: length_greater_0_conv)
    from less.hyps [OF this r'(2)]
    have "yields ?q ?t (map (Inr \<circ> strip_delim b) (pieces b (avail r')))" .
    from yields_runs_item [OF run _ refl this, of ?s] False show ?thesis
      by (simp add: split_next_def pieces_step r'(3))
  qed
qed

lemma lines_yields:
  assumes "good r" and memchr: "memchr_spec memchr"
  shows "yields (lines_next memchr fill consume) \<lparr>ln_until = \<lparr>un_reader = r, un_buf = [], un_read = 0\<rparr>, ln_buf = []\<rparr>
    (map line_item (pieces newline (avail r)))"
  using assms(1)
proof (induction "length (avail r)" arbitrary: r rule: less_induct)
  case less
  let ?u = "\<lparr>un_reader = r, un_buf = [], un_read = 0\<rparr>" and ?q = "lines_next memchr fill consume"
  let ?s = "\<lparr>ln_until = ?u, ln_buf = []\<rparr>"
  let ?rui = "read_until_internal memchr fill consume newline" and ?rli = "read_line_internal memchr fill consume"
  let ?p = "through newline (avail r)"
  obtain r' where r': "runs ?rui (?rui ?u) (Inr (0 + length ?p)) \<lparr>un_reader = r', un_buf = [] @ ?p, un_read = 0\<rparr>"
    "good r'" "avail r' = drop (length ?p) (avail r)"
    using until_runs [OF less.prems memchr] by blast
  let ?u' = "\<lparr>un_reader = r', un_buf = [], un_read = 0\<rparr>"
  let ?g = "\<lambda>u ret. let u' = u\<lparr>un_buf := []\<rparr> in
       if utf8_valid (un_buf u) then Some (\<lparr>ln_until = u', ln_buf = un_buf u\<rparr>, Ready ret)
       else Some (\<lparr>ln_until = u', ln_buf = []\<rparr>, Ready (case ret of Inl e \<Rightarrow> Inl e | Inr _ \<Rightarrow> Inl InvalidData))"
  have q1: "?rli (\<lparr>ln_until = u, ln_buf = []\<rparr>) = ready (?rui u) (\<lambda>u. \<lparr>ln_until = u, ln_buf = []\<rparr>) ?g" for u
    by (simp add: read_line_internal_def Let_def cong: if_cong)
  let ?res = "if utf8_valid ?p then Inr (length ?p) else Inl InvalidData"
  let ?l' = "\<lparr>ln_until = ?u', ln_buf = (if utf8_valid ?p then ?p else [])\<rparr>"
  have line: "runs ?rli (ready (?rui ?u) (\<lambda>u. \<lparr>ln_until = u, ln_buf = []\<rparr>) ?g) ?res ?l'"
    by (rule runs_ready [OF r'(1) q1]) (simp add: Let_def)
  let ?f = "\<lambda>this' res. case res of
         Inl e \<Rightarrow> Some (this', Ready (Some (Inl e)))
       | Inr n \<Rightarrow>
           if n = 0 \<and> ln_buf this' = [] then Some (this', Ready None)
           else Some (this'\<lparr>ln_buf := []\<rparr>, Ready (Some (Inr (strip_line (ln_buf this')))))"
  have q2: "?q (id t) = ready (?rli t) id ?f" for t by (simp add: lines_next_def)
  have nx: "?q ?s = ready (ready (?rui ?u) (\<lambda>u. \<lparr>ln_until = u, ln_buf = []\<rparr>) ?g) id ?f"
    unfolding lines_next_def q1 ..
  show ?case
  proof (cases "avail r = []")
    case True
    have "runs ?q (ready (ready (?rui ?u) (\<lambda>u. \<lparr>ln_until = u, ln_buf = []\<rparr>) ?g) id ?f) None \<lparr>ln_until = ?u', ln_buf = []\<rparr>"
      by (rule runs_ready [OF line q2]) (simp add: True)
    from yields_runs [OF this nx [symmetric]] show ?thesis using True by simp
  next
    case False
    let ?t = "\<lparr>ln_until = ?u', ln_buf = []\<rparr>"
    have run: "runs ?q (ready (ready (?rui ?u) (\<lambda>u. \<lparr>ln_until = u, ln_buf = []\<rparr>) ?g) id ?f) (Some (line_item ?p)) ?t"
      by (rule runs_ready [OF line q2]) (simp add: False line_item_def)
    have "length (avail r') < length (avail r)" using False r'(3) by (simp add: length_greater_0_conv)
    from less.hyps [OF this r'(2)]
    have "yields ?q ?t (map line_item (pieces newline (avail r')))" .
    from yields_runs_item [OF run nx [symmetric] refl this] False show ?thesis
      by (simp add: pieces_step r'(3))
  qed
qed

end

section \<open>Cursors\<close>

lemma cursor_rest_advance: "cursor_rest (c\<lparr>cu_pos := cu_pos c + k\<rparr>) = drop k (cursor_rest c)"
  by (simp add: cursor_rest_def add.commute)

interpretation cursor: byte_source "\<lambda>_. True" cursor_rest "\<lambda>_. 0" cursor_read
proof
  fix r n
  let ?xs = "take n (cursor_rest r)"
  have "takes (\<lambda>_. True) cursor_rest n r (r\<lparr>cu_pos := cu_pos r + length ?xs\<rparr>) ?xs"
    unfolding takes_def cursor_rest_advance by (simp add: min_def)
  then show "(\<exists>r' xs. cursor_read n r = Some (r', Ready (Inr xs)) \<and> takes (\<lambda>_. True) cursor_rest n r r' xs) \<or>
      (\<exists>r'. cursor_read n r = Some (r', Pending) \<and> stalls (\<lambda>_. True) cursor_rest (\<lambda>_. 0) r r')"
    by (auto simp: cursor_read_def Let_def)
qed

interpretation cursor_buf: buf_source "\<lambda>_. True" cursor_rest cursor_rest "\<lambda>_. 0" cursor_fill_buf cursor_consume
  by unfold_locales (auto simp: cursor_fill_buf_def cursor_consume_def cursor_rest_advance)

text \<open>A vectored read of a cursor is one read of the total length.\<close>

lemma cursor_fill_bufs_total: "cursor_fill_bufs ns c =
    (let xs = take (sum_list ns) (cursor_rest c) in (c\<lparr>cu_pos := cu_pos c + length xs\<rparr>, xs))"
proof (induction ns arbitrary: c)
  case Nil
  then show ?case by simp
next
  case (Cons n ns)
  show ?case
  proof (cases "length (cursor_rest c) < n")
    case True
    then show ?thesis by (simp add: Let_def)
  next
    case False
    have r: "cursor_rest (c\<lparr>cu_pos := cu_pos c + n\<rparr>) = drop n (cursor_rest c)" by (rule cursor_rest_advance)
    have "take (n + sum_list ns) (cursor_rest c) = take n (cursor_rest c) @ take (sum_list ns) (drop n (cursor_rest c))"
      by (rule take_add)
    with False show ?thesis by (simp add: Cons.IH Let_def r min_def)
  qed
qed

lemma cursor_read_vectored_total: "cursor_read_vectored ns c = cursor_read (sum_list ns) c"
  by (simp add: cursor_read_vectored_def cursor_read_def cursor_fill_bufs_total Let_def)

section \<open>BufferReader\<close>

definition buffered_good :: "('r \<Rightarrow> bool) \<Rightarrow> 'r buffer_reader \<Rightarrow> bool" where
  "buffered_good good b \<longleftrightarrow> good (br_inner b) \<and> 0 < length (br_buf b) \<and> br_pos b \<le> br_cap b \<and> br_cap b \<le> length (br_buf b)"

definition buffered_avail :: "('r \<Rightarrow> u8 list) \<Rightarrow> 'r buffer_reader \<Rightarrow> u8 list" where
  "buffered_avail avail b = buffer_reader_buffer b @ avail (br_inner b)"

definition buffered_delay :: "('r \<Rightarrow> nat) \<Rightarrow> 'r buffer_reader \<Rightarrow> nat" where
  "buffered_delay delay b = delay (br_inner b)"

lemmas buffered_defs = buffered_good_def buffered_avail_def buffered_delay_def

lemma buffer_empty_iff: "buffered_good good b \<Longrightarrow> buffer_reader_buffer b = [] \<longleftrightarrow> br_pos b = br_cap b"
  by (auto simp: buffered_good_def buffer_reader_buffer_def)

lemma buffer_length: "buffered_good good b \<Longrightarrow> length (buffer_reader_buffer b) = br_cap b - br_pos b"
  by (auto simp: buffered_good_def buffer_reader_buffer_def)

lemma buffer_consume_ok:
  assumes "buffered_good good b" "k \<le> length (buffer_reader_buffer b)"
  shows "buffered_good good (buffer_consume k b)" "br_inner (buffer_consume k b) = br_inner b"
    "buffer_reader_buffer (buffer_consume k b) = drop k (buffer_reader_buffer b)"
proof -
  have k: "k \<le> br_cap b - br_pos b" using assms buffer_length by metis
  show "buffered_good good (buffer_consume k b)" "br_inner (buffer_consume k b) = br_inner b"
    using assms(1) by (auto simp: buffered_good_def buffer_consume_def)
  show "buffer_reader_buffer (buffer_consume k b) = drop k (buffer_reader_buffer b)"
    using k assms(1) by (auto simp: buffer_consume_def buffer_reader_buffer_def buffered_good_def drop_take min_def add.commute)
qed

context byte_source
begin

lemma buffer_fill_cases:
  assumes "buffered_good good b"
  obtains (bytes) b' where "buffer_fill_buf rd b = Some (b', Ready (Inr (buffer_reader_buffer b')))" "buffered_good good b'"
      "buffered_avail avail b' = buffered_avail avail b" "buffer_reader_buffer b' = [] \<Longrightarrow> buffered_avail avail b = []"
    | (pending) b' where "buffer_fill_buf rd b = Some (b', Pending)"
      "stalls (buffered_good good) (buffered_avail avail) (buffered_delay delay) b b'"
proof (cases "br_pos b < br_cap b")
  case True
  then have "buffer_fill_buf rd b = Some (b, Ready (Inr (buffer_reader_buffer b)))" by (simp add: buffer_fill_buf_def)
  moreover have "buffer_reader_buffer b \<noteq> []" using True buffer_empty_iff [OF assms] by simp
  ultimately show ?thesis using assms bytes by blast
next
  case False
  have g: "good (br_inner b)" and pos: "0 < length (br_buf b)" using assms by (simp_all add: buffered_good_def)
  have empty: "buffer_reader_buffer b = []" using False assms by (auto simp: buffered_good_def buffer_reader_buffer_def)
  from g show ?thesis
  proof (cases rule: read_cases [where n = "length (br_buf b)"])
    case (bytes r' xs)
    let ?b = "b\<lparr>br_inner := r', br_buf := xs @ drop (length xs) (br_buf b), br_cap := length xs, br_pos := 0\<rparr>"
    have buf: "buffer_reader_buffer ?b = xs" by (simp add: buffer_reader_buffer_def)
    have f: "buffer_fill_buf rd b = Some (?b, Ready (Inr (buffer_reader_buffer ?b)))"
      using False bytes(1,4) by (simp add: buffer_fill_buf_def Let_def)
    have g: "buffered_good good ?b"
      using bytes(2,4) pos by (simp add: buffered_good_def)
    have a: "buffered_avail avail ?b = buffered_avail avail b"
      using bytes(3) empty buf by (simp add: buffered_avail_def)
    have e: "buffer_reader_buffer ?b = [] \<Longrightarrow> buffered_avail avail b = []"
      using bytes(5) pos empty buf by (simp add: buffered_avail_def)
    from f g a e show ?thesis by (rule that(1))
  next
    case (pending r')
    have f: "buffer_fill_buf rd b = Some (b\<lparr>br_inner := r'\<rparr>, Pending)" using False pending(1) by (simp add: buffer_fill_buf_def)
    have "stalls (buffered_good good) (buffered_avail avail) (buffered_delay delay) b (b\<lparr>br_inner := r'\<rparr>)"
      using pending assms by (simp add: stalls_def buffered_defs buffer_reader_buffer_def)
    with f show ?thesis by (rule that(2))
  qed
qed

lemma buffer_read_law:
  assumes "buffered_good good b"
  shows "(\<exists>b' xs. buffer_read rd n b = Some (b', Ready (Inr xs)) \<and> takes (buffered_good good) (buffered_avail avail) n b b' xs) \<or>
    (\<exists>b'. buffer_read rd n b = Some (b', Pending) \<and> stalls (buffered_good good) (buffered_avail avail) (buffered_delay delay) b b')"
proof (cases "br_pos b = br_cap b \<and> length (br_buf b) \<le> n")
  case True
  have g: "good (br_inner b)" using assms by (simp add: buffered_good_def)
  have e: "buffer_reader_buffer b = []" using True by (simp add: buffer_reader_buffer_def)
  from g show ?thesis
  proof (cases rule: read_cases [where n = n])
    case (bytes r' xs)
    have "buffer_read rd n b = Some (discard_buffer (b\<lparr>br_inner := r'\<rparr>), Ready (Inr xs))"
      using True bytes(1) by (simp add: buffer_read_def)
    moreover have "takes (buffered_good good) (buffered_avail avail) n b (discard_buffer (b\<lparr>br_inner := r'\<rparr>)) xs"
      using bytes assms e by (auto simp: takes_def buffered_defs discard_buffer_def buffer_reader_buffer_def)
    ultimately show ?thesis by blast
  next
    case (pending r')
    then have "buffer_read rd n b = Some (b\<lparr>br_inner := r'\<rparr>, Pending)" using True by (simp add: buffer_read_def)
    moreover have "stalls (buffered_good good) (buffered_avail avail) (buffered_delay delay) b (b\<lparr>br_inner := r'\<rparr>)"
      using pending assms by (simp add: stalls_def buffered_defs buffer_reader_buffer_def)
    ultimately show ?thesis by blast
  qed
next
  case False
  have eq: "buffer_read rd n b = ready_ok (buffer_fill_buf rd b) id (\<lambda>b' rem.
          let nread = min n (length rem) in
          Some (buffer_consume nread b', Ready (Inr (take nread rem))))" using False by (auto simp: buffer_read_def)
  from assms show ?thesis
  proof (cases rule: buffer_fill_cases)
    case (bytes b')
    let ?rem = "buffer_reader_buffer b'"
    let ?k = "min n (length ?rem)"
    have "buffer_read rd n b = Some (buffer_consume ?k b', Ready (Inr (take ?k ?rem)))" unfolding eq bytes(1) by (simp add: Let_def)
    moreover have "takes (buffered_good good) (buffered_avail avail) n b (buffer_consume ?k b') (take ?k ?rem)"
    proof -
      have c: "buffered_good good (buffer_consume ?k b')" "br_inner (buffer_consume ?k b') = br_inner b'"
        "buffer_reader_buffer (buffer_consume ?k b') = drop ?k ?rem"
        using buffer_consume_ok [OF bytes(2), of ?k] by simp_all
      have "buffered_avail avail b = ?rem @ avail (br_inner b')" using bytes(3) by (simp add: buffered_avail_def)
      also have "\<dots> = take ?k ?rem @ buffered_avail avail (buffer_consume ?k b')"
        unfolding buffered_avail_def c by (simp only: append_assoc [symmetric] append_take_drop_id)
      finally have a: "buffered_avail avail b = take ?k ?rem @ buffered_avail avail (buffer_consume ?k b')" .
      have "take ?k ?rem = [] \<Longrightarrow> 0 < n \<Longrightarrow> ?rem = []" by (auto simp: min_def split: if_splits)
      with c(1) a bytes(4) show ?thesis unfolding takes_def by auto
    qed
    ultimately show ?thesis by blast
  next
    case (pending b')
    then show ?thesis unfolding eq by simp
  qed
qed

end

sublocale byte_source \<subseteq> buffered: buf_source "buffered_good good" "buffered_avail avail" buffer_reader_buffer "buffered_delay delay"
  "buffer_fill_buf rd" buffer_consume
proof
  fix r
  assume g: "buffered_good good r"
  then show "(\<exists>r'. buffer_fill_buf rd r = Some (r', Ready (Inr (buffer_reader_buffer r'))) \<and> buffered_good good r' \<and>
       buffered_avail avail r' = buffered_avail avail r \<and> (buffer_reader_buffer r' = [] \<longrightarrow> buffered_avail avail r = [])) \<or>
      (\<exists>r'. buffer_fill_buf rd r = Some (r', Pending) \<and> stalls (buffered_good good) (buffered_avail avail) (buffered_delay delay) r r')"
    by (rule buffer_fill_cases) blast+
  show "\<exists>ys. buffered_avail avail r = buffer_reader_buffer r @ ys" by (simp add: buffered_avail_def)
next
  fix r k
  assume "buffered_good good r" "k \<le> length (buffer_reader_buffer r)"
  from buffer_consume_ok [OF this] show "buffered_good good (buffer_consume k r) \<and>
      buffered_avail avail (buffer_consume k r) = drop k (buffered_avail avail r)"
    using \<open>k \<le> _\<close> by (simp add: buffered_avail_def)
qed

context byte_source
begin

lemma buffered_buf_source:
  "buf_source (buffered_good good) (buffered_avail avail) buffer_reader_buffer (buffered_delay delay) (buffer_fill_buf rd) buffer_consume"
  by (rule buffered.buf_source_axioms)

end

lemma buffered_source:
  assumes "byte_source good avail delay rd"
  shows "byte_source (buffered_good good) (buffered_avail avail) (buffered_delay delay) (buffer_read rd)"
  by (rule byte_source.intro) (rule byte_source.buffer_read_law [OF assms])

lemma buffer_new_good:
  "0 < cap \<Longrightarrow> good r \<Longrightarrow> buffered_good good (buffer_reader_with_capacity cap r)"
  "buffered_avail avail (buffer_reader_with_capacity cap r) = avail r"
  by (simp_all add: buffered_defs buffer_reader_with_capacity_def buffer_reader_buffer_def)

section \<open>Take and Chain\<close>

definition take_good :: "('r \<Rightarrow> bool) \<Rightarrow> 'r take_reader \<Rightarrow> bool" where
  "take_good good t \<longleftrightarrow> good (tr_inner t)"

definition take_avail :: "('r \<Rightarrow> u8 list) \<Rightarrow> 'r take_reader \<Rightarrow> u8 list" where
  "take_avail avail t = take (tr_limit t) (avail (tr_inner t))"

definition take_held :: "('r \<Rightarrow> u8 list) \<Rightarrow> 'r take_reader \<Rightarrow> u8 list" where
  "take_held held t = take (tr_limit t) (held (tr_inner t))"

definition take_delay :: "('r \<Rightarrow> nat) \<Rightarrow> 'r take_reader \<Rightarrow> nat" where
  "take_delay delay t = delay (tr_inner t)"

lemmas take_defs = take_good_def take_avail_def take_held_def take_delay_def

lemma take_source:
  assumes "byte_source good avail delay rd"
  shows "byte_source (take_good good) (take_avail avail) (take_delay delay) (take_read rd)"
proof (rule byte_source.intro)
  fix t n
  assume g: "take_good good t"
  show "(\<exists>t' xs. take_read rd n t = Some (t', Ready (Inr xs)) \<and> takes (take_good good) (take_avail avail) n t t' xs) \<or>
      (\<exists>t'. take_read rd n t = Some (t', Pending) \<and> stalls (take_good good) (take_avail avail) (take_delay delay) t t')"
  proof (cases "tr_limit t = 0")
    case True
    with g show ?thesis by (simp add: take_read_def takes_def take_defs)
  next
    case False
    have "good (tr_inner t)" using g by (simp add: take_good_def)
    then show ?thesis
    proof (cases rule: byte_source.read_cases [OF assms, where n = "min n (tr_limit t)", consumes 1, case_names bytes pending])
      case (bytes r' xs)
      have "take_read rd n t = Some (\<lparr>tr_inner = r', tr_limit = tr_limit t - length xs\<rparr>, Ready (Inr xs))"
        using False bytes(1) by (simp add: take_read_def)
      moreover have "takes (take_good good) (take_avail avail) n t \<lparr>tr_inner = r', tr_limit = tr_limit t - length xs\<rparr> xs"
        using bytes(2-5) False by (auto simp: takes_def take_defs)
      ultimately show ?thesis by blast
    next
      case (pending r')
      then have "take_read rd n t = Some (t\<lparr>tr_inner := r'\<rparr>, Pending)" using False by (simp add: take_read_def)
      moreover have "stalls (take_good good) (take_avail avail) (take_delay delay) t (t\<lparr>tr_inner := r'\<rparr>)"
        using pending by (simp add: stalls_def take_defs)
      ultimately show ?thesis by blast
    qed
  qed
qed

definition chain_good :: "('r \<Rightarrow> bool) \<Rightarrow> ('q \<Rightarrow> bool) \<Rightarrow> ('r, 'q) chain_reader \<Rightarrow> bool" where
  "chain_good good1 good2 c \<longleftrightarrow> (cr_done_first c \<or> good1 (cr_first c)) \<and> good2 (cr_second c)"

definition chain_avail :: "('r \<Rightarrow> u8 list) \<Rightarrow> ('q \<Rightarrow> u8 list) \<Rightarrow> ('r, 'q) chain_reader \<Rightarrow> u8 list" where
  "chain_avail avail1 avail2 c = (if cr_done_first c then [] else avail1 (cr_first c)) @ avail2 (cr_second c)"

text \<open>The second reader may still be pending when the first has ended: the delays are added.\<close>

definition chain_delay :: "('r \<Rightarrow> nat) \<Rightarrow> ('q \<Rightarrow> nat) \<Rightarrow> ('r, 'q) chain_reader \<Rightarrow> nat" where
  "chain_delay delay1 delay2 c = (if cr_done_first c then 0 else delay1 (cr_first c)) + delay2 (cr_second c)"

lemmas chain_defs = chain_good_def chain_avail_def chain_delay_def

lemma chain_second_source:
  assumes "byte_source good2 avail2 delay2 rd2" and g: "chain_good good1 good2 c" and "cr_done_first c"
  shows "(\<exists>c' xs. chain_second_read rd2 n c = Some (c', Ready (Inr xs)) \<and> takes (chain_good good1 good2) (chain_avail avail1 avail2) n c c' xs) \<or>
      (\<exists>c'. chain_second_read rd2 n c = Some (c', Pending) \<and>
        stalls (chain_good good1 good2) (chain_avail avail1 avail2) (chain_delay delay1 delay2) c c')"
proof -
  have "good2 (cr_second c)" using g by (simp add: chain_good_def)
  then show ?thesis
  proof (cases rule: byte_source.read_cases [OF assms(1), where n = n, consumes 1, case_names bytes pending])
    case (bytes r' xs)
    then have "chain_second_read rd2 n c = Some (c\<lparr>cr_second := r'\<rparr>, Ready (Inr xs))" by (simp add: chain_second_read_def)
    moreover have "takes (chain_good good1 good2) (chain_avail avail1 avail2) n c (c\<lparr>cr_second := r'\<rparr>) xs"
      using bytes(2-5) assms(3) by (simp add: takes_def chain_defs)
    ultimately show ?thesis by blast
  next
    case (pending r')
    then have "chain_second_read rd2 n c = Some (c\<lparr>cr_second := r'\<rparr>, Pending)" by (simp add: chain_second_read_def)
    moreover have "stalls (chain_good good1 good2) (chain_avail avail1 avail2) (chain_delay delay1 delay2) c (c\<lparr>cr_second := r'\<rparr>)"
      using pending assms(3) by (simp add: stalls_def chain_defs)
    ultimately show ?thesis by blast
  qed
qed

lemma chain_source:
  assumes s1: "byte_source good1 avail1 delay1 rd1" and s2: "byte_source good2 avail2 delay2 rd2"
  shows "byte_source (chain_good good1 good2) (chain_avail avail1 avail2) (chain_delay delay1 delay2) (chain_read rd1 rd2)"
proof (rule byte_source.intro)
  fix c n
  assume g: "chain_good good1 good2 c"
  show "(\<exists>c' xs. chain_read rd1 rd2 n c = Some (c', Ready (Inr xs)) \<and> takes (chain_good good1 good2) (chain_avail avail1 avail2) n c c' xs) \<or>
      (\<exists>c'. chain_read rd1 rd2 n c = Some (c', Pending) \<and>
        stalls (chain_good good1 good2) (chain_avail avail1 avail2) (chain_delay delay1 delay2) c c')"
  proof (cases "cr_done_first c")
    case True
    with chain_second_source [OF s2 g True, of n avail1 delay1] show ?thesis by (simp add: chain_read_def)
  next
    case nd: False
    have "good1 (cr_first c)" using g nd by (simp add: chain_good_def)
    then show ?thesis
    proof (cases rule: byte_source.read_cases [OF s1, where n = n, consumes 1, case_names bytes pending])
      case (bytes r' xs)
      show ?thesis
      proof (cases "xs = [] \<and> n \<noteq> 0")
        case True
        let ?c = "c\<lparr>cr_first := r', cr_done_first := True\<rparr>"
        have eq: "chain_read rd1 rd2 n c = chain_second_read rd2 n ?c" using nd True bytes(1) by (simp add: chain_read_def)
        have a: "chain_avail avail1 avail2 ?c = chain_avail avail1 avail2 c" using True bytes(3,5) nd by (simp add: chain_avail_def)
        have g': "chain_good good1 good2 ?c" "cr_done_first ?c" using g by (simp_all add: chain_good_def)
        have d: "chain_delay delay1 delay2 ?c \<le> chain_delay delay1 delay2 c" by (simp add: chain_delay_def)
        show ?thesis unfolding eq using chain_second_source [OF s2 g', of n avail1 delay1] a d
          unfolding takes_def stalls_def by (auto intro: less_le_trans)
      next
        case False
        then have "chain_read rd1 rd2 n c = Some (c\<lparr>cr_first := r'\<rparr>, Ready (Inr xs))"
          using nd bytes(1) by (auto simp: chain_read_def)
        moreover have "takes (chain_good good1 good2) (chain_avail avail1 avail2) n c (c\<lparr>cr_first := r'\<rparr>) xs"
          using bytes(2-4) g nd False by (auto simp: takes_def chain_defs)
        ultimately show ?thesis by blast
      qed
    next
      case (pending r')
      then have "chain_read rd1 rd2 n c = Some (c\<lparr>cr_first := r'\<rparr>, Pending)" using nd by (simp add: chain_read_def)
      moreover have "stalls (chain_good good1 good2) (chain_avail avail1 avail2) (chain_delay delay1 delay2) c (c\<lparr>cr_first := r'\<rparr>)"
        using pending nd g by (simp add: stalls_def chain_defs)
      ultimately show ?thesis by blast
    qed
  qed
qed

text \<open>\<open>Take\<close> and \<open>Chain\<close> over buffered readers.\<close>

lemma take_buf_source:
  assumes "buf_source good avail held delay fill consume"
  shows "buf_source (take_good good) (take_avail avail) (take_held held) (take_delay delay) (take_fill_buf fill) (take_consume consume)"
proof (rule buf_source.intro)
  fix t
  assume g: "take_good good t"
  then have gi: "good (tr_inner t)" by (simp add: take_good_def)
  show "(\<exists>t'. take_fill_buf fill t = Some (t', Ready (Inr (take_held held t'))) \<and> take_good good t' \<and>
       take_avail avail t' = take_avail avail t \<and> (take_held held t' = [] \<longrightarrow> take_avail avail t = [])) \<or>
      (\<exists>t'. take_fill_buf fill t = Some (t', Pending) \<and> stalls (take_good good) (take_avail avail) (take_delay delay) t t')"
  proof (cases "tr_limit t = 0")
    case True
    with g show ?thesis by (simp add: take_fill_buf_def take_defs)
  next
    case False
    from gi show ?thesis
    proof (cases rule: buf_source.fill_cases [OF assms, consumes 1, case_names bytes pending])
      case (bytes r' ys)
      then have "take_fill_buf fill t = Some (t\<lparr>tr_inner := r'\<rparr>, Ready (Inr (take_held held (t\<lparr>tr_inner := r'\<rparr>))))"
        using False by (simp add: take_fill_buf_def take_held_def min_def)
      moreover have "take_held held (t\<lparr>tr_inner := r'\<rparr>) = [] \<longrightarrow> take_avail avail t = []"
        using bytes(5) False by (auto simp: take_defs)
      ultimately show ?thesis using bytes(2,3) by (intro disjI1 exI [of _ "t\<lparr>tr_inner := r'\<rparr>"]) (simp add: take_defs)
    next
      case (pending r')
      then have "take_fill_buf fill t = Some (t\<lparr>tr_inner := r'\<rparr>, Pending)" using False by (simp add: take_fill_buf_def)
      moreover have "stalls (take_good good) (take_avail avail) (take_delay delay) t (t\<lparr>tr_inner := r'\<rparr>)"
        using pending by (simp add: stalls_def take_defs)
      ultimately show ?thesis by blast
    qed
  qed
  obtain ys where "avail (tr_inner t) = held (tr_inner t) @ ys" using buf_source.held_law [OF assms gi] by blast
  then show "\<exists>ys. take_avail avail t = take_held held t @ ys" by (simp add: take_defs)
next
  fix t k
  assume "take_good good t" and k: "k \<le> length (take_held held t)"
  then have "good (consume k (tr_inner t)) \<and> avail (consume k (tr_inner t)) = drop k (avail (tr_inner t))"
    by (intro buf_source.consume_law [OF assms]) (simp_all add: take_defs)
  moreover have "min k (tr_limit t) = k" using k by (simp add: take_held_def)
  ultimately show "take_good good (take_consume consume k t) \<and> take_avail avail (take_consume consume k t) = drop k (take_avail avail t)"
    by (simp add: take_consume_def take_defs drop_take Let_def)
qed

definition chain_held :: "('r \<Rightarrow> u8 list) \<Rightarrow> ('q \<Rightarrow> u8 list) \<Rightarrow> ('r, 'q) chain_reader \<Rightarrow> u8 list" where
  "chain_held held1 held2 c = (if cr_done_first c then held2 (cr_second c) else held1 (cr_first c))"

lemma chain_fill_second_source:
  assumes "buf_source good2 avail2 held2 delay2 fill2 consume2" and g: "chain_good good1 good2 c" and d: "cr_done_first c"
  shows "(\<exists>c'. chain_fill_second fill2 c = Some (c', Ready (Inr (chain_held held1 held2 c'))) \<and> chain_good good1 good2 c' \<and>
       chain_avail avail1 avail2 c' = chain_avail avail1 avail2 c \<and> (chain_held held1 held2 c' = [] \<longrightarrow> chain_avail avail1 avail2 c = [])) \<or>
      (\<exists>c'. chain_fill_second fill2 c = Some (c', Pending) \<and>
        stalls (chain_good good1 good2) (chain_avail avail1 avail2) (chain_delay delay1 delay2) c c')"
proof -
  have "good2 (cr_second c)" using g by (simp add: chain_good_def)
  then show ?thesis
  proof (cases rule: buf_source.fill_cases [OF assms(1), consumes 1, case_names bytes pending])
    case (bytes r' ys)
    with d g show ?thesis
      by (intro disjI1 exI [of _ "c\<lparr>cr_second := r'\<rparr>"]) (simp add: chain_fill_second_def chain_held_def chain_defs)
  next
    case (pending r')
    with d g show ?thesis
      by (intro disjI2 exI [of _ "c\<lparr>cr_second := r'\<rparr>"]) (simp add: chain_fill_second_def stalls_def chain_defs)
  qed
qed

lemma chain_buf_source:
  assumes s1: "buf_source good1 avail1 held1 delay1 fill1 consume1" and s2: "buf_source good2 avail2 held2 delay2 fill2 consume2"
  shows "buf_source (chain_good good1 good2) (chain_avail avail1 avail2) (chain_held held1 held2) (chain_delay delay1 delay2)
    (chain_fill_buf fill1 fill2) (chain_consume consume1 consume2)"
proof (rule buf_source.intro)
  fix c
  assume g: "chain_good good1 good2 c"
  show "(\<exists>c'. chain_fill_buf fill1 fill2 c = Some (c', Ready (Inr (chain_held held1 held2 c'))) \<and> chain_good good1 good2 c' \<and>
       chain_avail avail1 avail2 c' = chain_avail avail1 avail2 c \<and> (chain_held held1 held2 c' = [] \<longrightarrow> chain_avail avail1 avail2 c = [])) \<or>
      (\<exists>c'. chain_fill_buf fill1 fill2 c = Some (c', Pending) \<and>
        stalls (chain_good good1 good2) (chain_avail avail1 avail2) (chain_delay delay1 delay2) c c')"
  proof (cases "cr_done_first c")
    case True
    with chain_fill_second_source [OF s2 g True, of held1 avail1 delay1] show ?thesis by (simp add: chain_fill_buf_def)
  next
    case nd: False
    have "good1 (cr_first c)" using g nd by (simp add: chain_good_def)
    then show ?thesis
    proof (cases rule: buf_source.fill_cases [OF s1, consumes 1, case_names bytes pending])
      case (bytes r' ys)
      show ?thesis
      proof (cases "held1 r' = []")
        case True
        let ?c = "c\<lparr>cr_first := r', cr_done_first := True\<rparr>"
        have eq: "chain_fill_buf fill1 fill2 c = chain_fill_second fill2 ?c" using nd True bytes(1) by (simp add: chain_fill_buf_def)
        have a: "chain_avail avail1 avail2 ?c = chain_avail avail1 avail2 c" using True bytes(5) nd by (simp add: chain_avail_def)
        have g': "chain_good good1 good2 ?c" "cr_done_first ?c" using g by (simp_all add: chain_good_def)
        have d: "chain_delay delay1 delay2 ?c \<le> chain_delay delay1 delay2 c" by (simp add: chain_delay_def)
        show ?thesis unfolding eq using chain_fill_second_source [OF s2 g', of held1 avail1 delay1] a d
          unfolding stalls_def by (auto intro: less_le_trans)
      next
        case False
        with bytes nd g show ?thesis
          by (intro disjI1 exI [of _ "c\<lparr>cr_first := r'\<rparr>"]) (simp add: chain_fill_buf_def chain_held_def chain_defs)
      qed
    next
      case (pending r')
      with nd g show ?thesis
        by (intro disjI2 exI [of _ "c\<lparr>cr_first := r'\<rparr>"]) (simp add: chain_fill_buf_def stalls_def chain_defs)
    qed
  qed
  show "\<exists>ys. chain_avail avail1 avail2 c = chain_held held1 held2 c @ ys"
    using g buf_source.held_law [OF s1, of "cr_first c"] buf_source.held_law [OF s2, of "cr_second c"]
    by (cases "cr_done_first c") (auto simp: chain_held_def chain_defs)
next
  fix c k
  assume g: "chain_good good1 good2 c" and k: "k \<le> length (chain_held held1 held2 c)"
  show "chain_good good1 good2 (chain_consume consume1 consume2 k c) \<and>
      chain_avail avail1 avail2 (chain_consume consume1 consume2 k c) = drop k (chain_avail avail1 avail2 c)"
  proof (cases "cr_done_first c")
    case True
    with g k buf_source.consume_law [OF s2, of "cr_second c" k] show ?thesis
      by (simp add: chain_consume_def chain_held_def chain_defs)
  next
    case False
    have g1: "good1 (cr_first c)" using g False by (simp add: chain_good_def)
    obtain ys where "avail1 (cr_first c) = held1 (cr_first c) @ ys" using buf_source.held_law [OF s1 g1] by blast
    then have "k \<le> length (avail1 (cr_first c))" using k False by (simp add: chain_held_def)
    with False g g1 k buf_source.consume_law [OF s1 g1, of k] show ?thesis
      by (simp add: chain_consume_def chain_held_def chain_defs)
  qed
qed

section \<open>Seeking\<close>

text \<open>
  A buffered cursor is in step when the buffer holds the bytes just before the position of
  the cursor inside. \<open>buffered_pos\<close> is where its user is.
\<close>

definition buffered_pos :: "cursor buffer_reader \<Rightarrow> nat" where
  "buffered_pos b = cu_pos (br_inner b) - (br_cap b - br_pos b)"

definition in_step :: "cursor buffer_reader \<Rightarrow> bool" where
  "in_step b \<longleftrightarrow> buffered_good (\<lambda>_. True) b \<and> br_cap b - br_pos b \<le> cu_pos (br_inner b) \<and> cu_pos (br_inner b) < 2 ^ 63 \<and>
     buffer_reader_buffer b = take (br_cap b - br_pos b) (drop (buffered_pos b) (cu_data (br_inner b)))"

lemma in_step_avail:
  assumes "in_step b"
  shows "buffered_avail cursor_rest b = drop (buffered_pos b) (cu_data (br_inner b))"
proof -
  let ?k = "br_cap b - br_pos b"
  have "cu_pos (br_inner b) = ?k + buffered_pos b" using assms by (auto simp: in_step_def buffered_pos_def)
  then have "cursor_rest (br_inner b) = drop ?k (drop (buffered_pos b) (cu_data (br_inner b)))"
    by (simp add: cursor_rest_def)
  moreover have "buffer_reader_buffer b = take ?k (drop (buffered_pos b) (cu_data (br_inner b)))"
    using assms by (simp add: in_step_def)
  ultimately show ?thesis by (simp add: buffered_avail_def del: drop_drop)
qed

lemma cursor_seek_ok:
  "0 \<le> seek_target (length (cu_data c)) (cu_pos c) s \<Longrightarrow> seek_target (length (cu_data c)) (cu_pos c) s < 2 ^ 64 \<Longrightarrow>
    cursor_seek s c = Some (c\<lparr>cu_pos := nat (seek_target (length (cu_data c)) (cu_pos c) s)\<rparr>,
      Ready (Inr (nat (seek_target (length (cu_data c)) (cu_pos c) s))))"
  by (simp add: cursor_seek_def Let_def)

lemma buffer_seek_ok:
  assumes st: "in_step b" and target: "t = seek_target (length (cu_data (br_inner b))) (buffered_pos b) s"
    and range: "0 \<le> t" "t < 2 ^ 64" and i64: "\<And>n. s = SeekCurrent n \<Longrightarrow> i64_min \<le> n"
  shows "buffer_seek cursor_seek s b =
    Some (discard_buffer (b\<lparr>br_inner := (br_inner b)\<lparr>cu_pos := nat t\<rparr>\<rparr>), Ready (Inr (nat t)))"
proof (cases s)
  case (SeekCurrent n)
  let ?c = "br_inner b"
  have le: "br_pos b \<le> br_cap b" "br_cap b - br_pos b \<le> cu_pos ?c" "cu_pos ?c < 2 ^ 63"
    using st by (auto simp: in_step_def buffered_good_def)
  then have bp: "int (buffered_pos b) = int (cu_pos ?c) - (int (br_cap b) - int (br_pos b))"
    by (simp add: buffered_pos_def of_nat_diff)
  have t: "t = int (cu_pos ?c) - (int (br_cap b) - int (br_pos b)) + n" using target bp by (simp add: SeekCurrent seek_target_def)
  show ?thesis
  proof (cases "i64_min \<le> n - (int (br_cap b) - int (br_pos b))")
    case True
    have "cursor_seek (SeekCurrent (n - (int (br_cap b) - int (br_pos b)))) ?c = Some (?c\<lparr>cu_pos := nat t\<rparr>, Ready (Inr (nat t)))"
      using cursor_seek_ok [of ?c "SeekCurrent (n - (int (br_cap b) - int (br_pos b)))"] range t by (simp add: seek_target_def algebra_simps)
    with True show ?thesis by (simp add: buffer_seek_def SeekCurrent Let_def)
  next
    case False
    let ?p = "int (cu_pos ?c) - (int (br_cap b) - int (br_pos b))"
    have p: "0 \<le> ?p" "?p < 2 ^ 64" "nat ?p = buffered_pos b" using le bp by auto
    have s1: "cursor_seek (SeekCurrent (- (int (br_cap b) - int (br_pos b)))) ?c = Some (?c\<lparr>cu_pos := nat ?p\<rparr>, Ready (Inr (nat ?p)))"
      using cursor_seek_ok [of ?c "SeekCurrent (- (int (br_cap b) - int (br_pos b)))"] p(1,2) by (simp add: seek_target_def)
    have s2: "cursor_seek (SeekCurrent n) (?c\<lparr>cu_pos := nat ?p\<rparr>) = Some (?c\<lparr>cu_pos := nat t\<rparr>, Ready (Inr (nat t)))"
      using cursor_seek_ok [of "?c\<lparr>cu_pos := nat ?p\<rparr>" "SeekCurrent n"] range t p(1) by (simp add: seek_target_def)
    show ?thesis using False s1 s2 by (simp add: buffer_seek_def SeekCurrent Let_def discard_buffer_def)
  qed
next
  case (SeekStart m)
  with cursor_seek_ok [of "br_inner b" s] target range show ?thesis by (simp add: buffer_seek_def seek_target_def Let_def)
next
  case (SeekEnd m)
  with cursor_seek_ok [of "br_inner b" s] target range show ?thesis by (simp add: buffer_seek_def seek_target_def Let_def)
qed

section \<open>Pieces and delimiters\<close>

lemma concat_pieces: "concat (pieces b xs) = xs"
proof (induction b xs rule: pieces.induct)
  case (1 b xs)
  show ?case
  proof (cases "xs = []")
    case False
    with 1 have "concat (pieces b xs) = through b xs @ drop (length (through b xs)) xs" by (simp add: pieces_step)
    then show ?thesis using through_split [of xs b] by simp
  qed simp
qed

lemma through_last: "b \<in> set xs \<Longrightarrow> last (through b xs) = b \<and> butlast (through b xs) = takeWhile (\<lambda>x. x \<noteq> b) xs"
  by (induction b xs rule: through.induct) auto

lemma through_none: "b \<notin> set xs \<Longrightarrow> through b xs = xs"
  by (induction b xs rule: through.induct) auto

lemma strip_through:
  assumes "xs \<noteq> []"
  shows "b \<notin> set (strip_delim b (through b xs))"
    "b \<in> set xs \<Longrightarrow> strip_delim b (through b xs) @ [b] = through b xs"
    "b \<notin> set xs \<Longrightarrow> strip_delim b (through b xs) = xs"
proof -
  show "b \<notin> set (strip_delim b (through b xs))"
  proof (cases "b \<in> set xs")
    case True
    then show ?thesis using through_last [OF True] by (auto simp: strip_delim_def dest: set_takeWhileD)
  next
    case False
    then show ?thesis using assms last_in_set [of xs] by (auto simp: strip_delim_def through_none)
  qed
  show "strip_delim b (through b xs) @ [b] = through b xs" if "b \<in> set xs"
    using through_last [OF that] assms append_butlast_last_id [of "through b xs"] by (simp add: strip_delim_def)
  show "strip_delim b (through b xs) = xs" if "b \<notin> set xs"
    using that assms last_in_set [of xs] by (auto simp: strip_delim_def through_none)
qed

lemma strip_pieces_join:
  "concat (map (\<lambda>p. p @ [b]) (map (strip_delim b) (pieces b xs))) = (if xs = [] \<or> last xs = b then xs else xs @ [b])"
proof (induction b xs rule: pieces.induct)
  case (1 b xs)
  show ?case
  proof (cases "xs = []")
    case ne: False
    show ?thesis
    proof (cases "b \<in> set xs")
      case True
      let ?rest = "drop (length (through b xs)) xs"
      have x: "xs = through b xs @ ?rest" by (rule through_split)
      have l: "last xs = (if ?rest = [] then b else last ?rest)"
        using through_last [OF True] x by (metis last_append append_Nil2)
      have "concat (map (\<lambda>p. p @ [b]) (map (strip_delim b) (pieces b xs))) =
          (strip_delim b (through b xs) @ [b]) @ concat (map (\<lambda>p. p @ [b]) (map (strip_delim b) (pieces b ?rest)))"
        using ne by (simp add: pieces_step)
      also have "\<dots> = through b xs @ (if ?rest = [] \<or> last ?rest = b then ?rest else ?rest @ [b])"
        unfolding 1 [OF ne] strip_through(2) [OF ne True] ..
      also have "\<dots> = (if xs = [] \<or> last xs = b then through b xs @ ?rest else (through b xs @ ?rest) @ [b])"
        unfolding l using ne by simp
      finally show ?thesis unfolding x [symmetric] .
    next
      case False
      have "last xs \<noteq> b" using False ne last_in_set by auto
      with False ne show ?thesis by (simp add: pieces_step through_none strip_delim_def)
    qed
  qed simp
qed

lemma strip_pieces_clean: "p \<in> set (map (strip_delim b) (pieces b xs)) \<Longrightarrow> b \<notin> set p"
proof (induction b xs rule: pieces.induct)
  case (1 b xs)
  then show ?case using strip_through(1) [of xs b] by (cases "xs = []") (auto simp: pieces_step)
qed

lemma piece_shape: "p \<in> set (pieces b xs) \<Longrightarrow> p \<noteq> [] \<and> b \<notin> set (butlast p)"
proof (induction b xs rule: pieces.induct)
  case (1 b xs)
  have "b \<notin> set (butlast (through b xs))"
  proof (cases "b \<in> set xs")
    case True
    then show ?thesis using through_last [OF True] by (auto dest: set_takeWhileD)
  next
    case False
    then show ?thesis by (auto simp: through_none dest: in_set_butlastD)
  qed
  moreover have ne: "xs \<noteq> []" using "1.prems" by auto
  moreover have "p = through b xs \<or> p \<in> set (pieces b (drop (length (through b xs)) xs))"
    using "1.prems" by (simp add: pieces_step [OF ne])
  ultimately show ?case using "1.IH" [OF ne] through_empty by metis
qed

lemma read_to_end_start: "read_to_end_poll reserve rd sl (read_to_end_new r buf cap) =
    read_to_end_loop reserve rd sl (length buf) \<lparr>te_reader = r, te_buf = buf, te_capacity = cap\<rparr>"
  by (simp add: read_to_end_poll_def read_to_end_internal_def read_to_end_new_def)

section \<open>Properties\<close>

definition memchr_model :: "u8 \<Rightarrow> u8 list \<Rightarrow> nat option" where
  "memchr_model b xs = (if b \<in> set xs then Some (length (takeWhile (\<lambda>x. x \<noteq> b) xs)) else None)"

lemma memchr_model_spec: "memchr_spec memchr_model"
  by (simp add: memchr_spec_def memchr_model_def)

text \<open>
  (C26) A \<open>BufferReader\<close> of any positive capacity is transparent: \<open>read_to_end\<close> through it and
  \<open>read_to_end\<close> on the reader inside both finish, with the same bytes and the same count,
  however the vector grows.
\<close>

theorem io_buffered_equivalent:
  assumes "byte_source good avail delay rd" and "good r" and "0 < cap" and "grows reserve"
  shows "\<exists>s t. runs (read_to_end_poll reserve rd 0) (read_to_end_poll reserve rd 0 (read_to_end_new r [] 0)) (Inr (length (avail r))) s \<and>
    runs (read_to_end_poll reserve (buffer_read rd) 0)
      (read_to_end_poll reserve (buffer_read rd) 0 (read_to_end_new (buffer_reader_with_capacity cap r) [] 0)) (Inr (length (avail r))) t \<and>
    te_buf s = avail r \<and> te_buf t = te_buf s"
proof -
  have "\<exists>r' cap'. runs (read_to_end_poll reserve rd 0) (read_to_end_loop reserve rd 0 0 \<lparr>te_reader = r, te_buf = [], te_capacity = 0\<rparr>)
      (Inr (length (avail r))) \<lparr>te_reader = r', te_buf = avail r, te_capacity = cap'\<rparr>"
    using byte_source.to_end_runs [OF assms(1,2) assms(4), where buf = "[]" and bl = 0 and sl = 0 and cap = 0] by auto
  moreover have "\<exists>r' cap'. runs (read_to_end_poll reserve (buffer_read rd) 0)
      (read_to_end_loop reserve (buffer_read rd) 0 0 \<lparr>te_reader = buffer_reader_with_capacity cap r, te_buf = [], te_capacity = 0\<rparr>)
      (Inr (length (avail r))) \<lparr>te_reader = r', te_buf = avail r, te_capacity = cap'\<rparr>"
    using byte_source.to_end_runs [OF buffered_source [OF assms(1)] buffer_new_good(1) [of cap good, OF assms(3,2)] assms(4), where buf = "[]" and bl = 0 and sl = 0 and cap = 0]
    by (auto simp: buffer_new_good(2))
  ultimately show ?thesis by (fastforce simp: read_to_end_start)
qed

theorem io_buffered_equivalent_witness:
  "\<exists>t. runs (read_to_end_poll (\<lambda>c len. len + 32) (buffer_read cursor_read) 0)
      (read_to_end_poll (\<lambda>c len. len + 32) (buffer_read cursor_read) 0 (read_to_end_new (buffer_reader_with_capacity 2 (cursor_new [1, 2, 3, 4, 5])) [] 0))
      (Inr (length [1, 2, 3, 4, 5 :: u8])) t \<and> te_buf t = [1, 2, 3, 4, 5]"
  using io_buffered_equivalent [OF cursor.byte_source_axioms, of 2 "\<lambda>c len. len + 32" "cursor_new [1, 2, 3, 4, 5]"]
  by (auto simp: cursor_rest_def cursor_new_def grows_def)

text \<open>
  (C30) \<open>read_exact\<close> always finishes. When enough bytes are available it fills the buffer with
  the first of them and leaves the rest; otherwise it fails with \<open>UnexpectedEof\<close>.
\<close>

theorem io_read_exact_correct:
  assumes "byte_source good avail delay rd" and "good r"
  shows "\<exists>s. runs (read_exact_poll rd) (read_exact_poll rd \<lparr>ex_reader = r, ex_filled = [], ex_left = n\<rparr>)
      (if n \<le> length (avail r) then Inr () else Inl UnexpectedEof) s \<and>
    ex_filled s = take n (avail r) \<and> avail (ex_reader s) = drop n (avail r)"
  using byte_source.exact_runs [OF assms, of "[]" n] by fastforce

theorem io_read_exact_correct_witness:
  "\<exists>s. runs (read_exact_poll cursor_read) (read_exact_poll cursor_read \<lparr>ex_reader = cursor_new [1, 2, 3], ex_filled = [], ex_left = 2\<rparr>)
      (Inr ()) s \<and> ex_filled s = [1, 2]"
  using io_read_exact_correct [OF cursor.byte_source_axioms, of "cursor_new [1, 2, 3]" 2]
  by (auto simp: cursor_rest_def cursor_new_def)

text \<open>
  (C27) Splitting a buffered reader at a delimiter loses nothing: every poll returns, the
  items contain no delimiter, and joining them with the delimiter gives the bytes that
  were read, up to a delimiter at the very end.
\<close>

theorem io_split_roundtrip:
  assumes "byte_source good avail delay rd" and "good r" and "0 < cap" and "memchr_spec memchr"
  shows "\<exists>items. yields (split_next memchr (buffer_fill_buf rd) buffer_consume b) (read_until_new (buffer_reader_with_capacity cap r) [])
      (map Inr items) \<and> (\<forall>p\<in>set items. b \<notin> set p) \<and>
    concat (map (\<lambda>p. p @ [b]) items) = (if avail r = [] \<or> last (avail r) = b then avail r else avail r @ [b])"
proof -
  have src: "buf_source (buffered_good good) (buffered_avail avail) buffer_reader_buffer (buffered_delay delay) (buffer_fill_buf rd) buffer_consume"
    by (rule byte_source.buffered_buf_source [OF assms(1)])
  have "yields (split_next memchr (buffer_fill_buf rd) buffer_consume b) (read_until_new (buffer_reader_with_capacity cap r) [])
      (map Inr (map (strip_delim b) (pieces b (avail r))))"
    using buf_source.split_yields [OF src buffer_new_good(1) [of cap good, OF assms(3,2)] assms(4), of b]
    by (simp add: read_until_new_def buffer_new_good(2) comp_def)
  with strip_pieces_join strip_pieces_clean show ?thesis by blast
qed

theorem io_split_roundtrip_witness:
  "\<exists>items. yields (split_next memchr_model (buffer_fill_buf cursor_read) buffer_consume 44)
      (read_until_new (buffer_reader_with_capacity 2 (cursor_new [97, 44, 98])) []) (map Inr items) \<and>
    concat (map (\<lambda>p. p @ [44]) items) = [97, 44, 98, 44 :: u8]"
  using io_split_roundtrip [OF cursor.byte_source_axioms _ _ memchr_model_spec, of 2 44 "cursor_new [97, 44, 98]"]
  by (auto simp: cursor_rest_def cursor_new_def)



text \<open> \<open>take\<close> over \<open>chain\<close>: reading to the end gives the first bytes of the two inputs one
  after the other, and the second reader is asked only when the first has ended.
\<close>

lemma io_take_chain_correct:
  assumes "byte_source good1 avail1 delay1 rd1" and "byte_source good2 avail2 delay2 rd2" and "good1 r1" and "good2 r2"
    and "grows reserve"
  shows "\<exists>s. runs (read_to_end_poll reserve (take_read (chain_read rd1 rd2)) 0)
      (read_to_end_poll reserve (take_read (chain_read rd1 rd2)) 0 (read_to_end_new
        \<lparr>tr_inner = \<lparr>cr_first = r1, cr_second = r2, cr_done_first = False\<rparr>, tr_limit = n\<rparr> [] 0))
      (Inr (length (take n (avail1 r1 @ avail2 r2)))) s \<and> te_buf s = take n (avail1 r1 @ avail2 r2)"
proof -
  have src: "byte_source (take_good (chain_good good1 good2)) (take_avail (chain_avail avail1 avail2))
      (take_delay (chain_delay delay1 delay2)) (take_read (chain_read rd1 rd2))"
    by (rule take_source [OF chain_source [OF assms(1,2)]])
  let ?t = "\<lparr>tr_inner = \<lparr>cr_first = r1, cr_second = r2, cr_done_first = False\<rparr>, tr_limit = n\<rparr>"
  have "take_good (chain_good good1 good2) ?t" using assms(3,4) by (simp add: take_good_def chain_good_def)
  from byte_source.to_end_runs [OF src this assms(5), where buf = "[]" and bl = 0 and sl = 0 and cap = 0]
  obtain r' cap' where "runs (read_to_end_poll reserve (take_read (chain_read rd1 rd2)) 0)
      (read_to_end_loop reserve (take_read (chain_read rd1 rd2)) 0 0 \<lparr>te_reader = ?t, te_buf = [], te_capacity = 0\<rparr>)
      (Inr (length (take_avail (chain_avail avail1 avail2) ?t))) \<lparr>te_reader = r', te_buf = take_avail (chain_avail avail1 avail2) ?t, te_capacity = cap'\<rparr>"
    by auto
  moreover have "take_avail (chain_avail avail1 avail2) ?t = take n (avail1 r1 @ avail2 r2)"
    by (simp add: take_avail_def chain_avail_def)
  ultimately have "runs (read_to_end_poll reserve (take_read (chain_read rd1 rd2)) 0)
      (read_to_end_poll reserve (take_read (chain_read rd1 rd2)) 0 (read_to_end_new ?t [] 0))
      (Inr (length (take n (avail1 r1 @ avail2 r2)))) \<lparr>te_reader = r', te_buf = take n (avail1 r1 @ avail2 r2), te_capacity = cap'\<rparr>"
    by (simp only: read_to_end_start list.size)
  then show ?thesis by (intro exI conjI) (assumption, simp)
qed

lemma io_take_chain_correct_witness:
  "\<exists>s. runs (read_to_end_poll (\<lambda>c len. len + 32) (take_read (chain_read cursor_read cursor_read)) 0)
      (read_to_end_poll (\<lambda>c len. len + 32) (take_read (chain_read cursor_read cursor_read)) 0 (read_to_end_new
        \<lparr>tr_inner = \<lparr>cr_first = cursor_new [1, 2], cr_second = cursor_new [3, 4], cr_done_first = False\<rparr>, tr_limit = 3\<rparr> [] 0))
      (Inr (length [1, 2, 3 :: u8])) s \<and> te_buf s = [1, 2, 3]"
  using io_take_chain_correct [OF cursor.byte_source_axioms cursor.byte_source_axioms,
      where reserve = "\<lambda>c len. len + 32" and ?r1.0 = "cursor_new [1, 2]" and ?r2.0 = "cursor_new [3, 4]" and n = 3]
  by (auto simp: cursor_rest_def cursor_new_def grows_def numeral_3_eq_3)

text \<open> Seeking a buffered cursor moves it to the position asked for, relative positions
  counting from what its user has read and not from how far the buffer has read ahead;
  what is read next are the bytes from there on. This holds as well when the relative
  offset cannot be represented and the seek is done in two steps.
\<close>

lemma io_seek_correct:
  assumes "in_step b" and "t = seek_target (length (cu_data (br_inner b))) (buffered_pos b) s" and "0 \<le> t" and "t < 2 ^ 64"
    and "\<forall>n. s = SeekCurrent n \<longrightarrow> i64_min \<le> n"
  shows "buffered_avail cursor_rest b = drop (buffered_pos b) (cu_data (br_inner b)) \<and>
    (\<exists>b'. buffer_seek cursor_seek s b = Some (b', Ready (Inr (nat t))) \<and> buffered_avail cursor_rest b' = drop (nat t) (cu_data (br_inner b)))"
  using in_step_avail [OF assms(1)] buffer_seek_ok [OF assms(1-4)] assms(5)
  by (simp add: buffered_avail_def discard_buffer_def buffer_reader_buffer_def cursor_rest_def)

lemma io_seek_correct_witness:
  "\<exists>b'. buffer_seek cursor_seek (SeekCurrent 1) \<lparr>br_inner = \<lparr>cu_data = [1, 2, 3], cu_pos = 2\<rparr>, br_buf = [1, 2],
      br_headroom = 0, br_pos = 1, br_cap = 2\<rparr> = Some (b', Ready (Inr (nat 2))) \<and> buffered_avail cursor_rest b' = [3]"
proof -
  let ?b = "\<lparr>br_inner = \<lparr>cu_data = [1, 2, 3], cu_pos = 2\<rparr>, br_buf = [1, 2], br_headroom = 0, br_pos = 1, br_cap = 2\<rparr>"
  have p: "buffered_pos ?b = 1" by (simp add: buffered_pos_def)
  have st: "in_step ?b" unfolding in_step_def p by (simp add: buffered_good_def buffer_reader_buffer_def)
  have "2 = seek_target (length (cu_data (br_inner ?b))) (buffered_pos ?b) (SeekCurrent 1)"
    unfolding p by (simp add: seek_target_def)
  from io_seek_correct [OF st this] show ?thesis by (simp add: i64_min_def)
qed

text \<open> An I/O error in the middle of a line leaves the first part of the line in the string
  of \<open>Lines\<close>. The next poll that completes a line runs into the assertion that the string
  is empty; in a build without debug assertions the first part is overwritten and lost.
\<close>

lemma io_lines_after_error:
  assumes "read_until_internal memchr fill consume newline u = Some (u1, Ready (Inl e))"
    and "un_buf u1 \<noteq> []" and "utf8_valid (un_buf u1)"
    and "read_until_internal memchr fill consume newline (u1\<lparr>un_buf := []\<rparr>) = Some (u2, Ready (Inr n))"
    and "utf8_valid (un_buf u2)"
  shows "\<exists>s s'. lines_next memchr fill consume \<lparr>ln_until = u, ln_buf = []\<rparr> = Some (s, Ready (Some (Inl e))) \<and>
    lines_next memchr fill consume s = Some (s', Panicked)"
  using assms by (simp add: lines_next_def read_line_internal_def Let_def)

definition script_fill :: "(u8 list io_result list, u8 list io_result) future" where
  "script_fill s = (case s of [] \<Rightarrow> Some ([], Ready (Inr [])) | x # xs \<Rightarrow> Some (xs, Ready x))"

lemma io_lines_after_error_witness:
  "\<exists>s s'. lines_next memchr_model script_fill (\<lambda>_ r. r)
      \<lparr>ln_until = \<lparr>un_reader = [Inr [97], Inl (OtherError 5), Inr [98, newline]], un_buf = [], un_read = 0\<rparr>, ln_buf = []\<rparr> =
        Some (s, Ready (Some (Inl (OtherError 5)))) \<and>
    lines_next memchr_model script_fill (\<lambda>_ r. r) s = Some (s', Panicked)"
  by (rule io_lines_after_error [of _ _ _ _ "\<lparr>un_reader = [Inr [98, newline]], un_buf = [97], un_read = 1\<rparr>" _
        "\<lparr>un_reader = [], un_buf = [98, newline], un_read = 0\<rparr>" 3])
    (simp_all add: script_fill_def memchr_model_def newline_def read_until_internal.simps [of _ _ _ _ "\<lparr>un_reader = r, un_buf = b, un_read = k\<rparr>" for r b k])

end
