(* ===== verification/Io_Write.thy ===== *)
theory Io_Write
  imports Io_Laws
begin

text \<open>
  Asynchronous writing and copying (src/cynthia/src/future/swap.rs). A writer is a state
  with three poll functions. \<open>BufferWriter\<close> collects small writes; \<open>bw_written\<close> is how much of
  its buffer the writer inside has already taken during a flush that is pending. A vector
  as a writer appends, as \<open>AsyncWrite for Vec<u8>\<close> does.
\<close>

section \<open>Writers\<close>

type_synonym 'w writer = "u8 list \<Rightarrow> ('w, nat io_result) future"
type_synonym 'w flusher = "('w, unit io_result) future"

definition sink_write :: "unit writer" where
  "sink_write buf this = Some (this, Ready (Inr (length buf)))"

definition sink_flush :: "unit flusher" where
  "sink_flush this = Some (this, Ready (Inr ()))"

text \<open>Writing into the vector or slice of a cursor; a vector is padded with zeros up to the position.\<close>

definition cursor_vec_write :: "cursor writer" where
  "cursor_vec_write buf c =
     (let d = cu_data c; padded = d @ replicate (cu_pos c - length d) 0;
          d' = take (cu_pos c) padded @ buf @ drop (cu_pos c + length buf) padded in
      Some (\<lparr>cu_data = d', cu_pos = cu_pos c + length buf\<rparr>, Ready (Inr (length buf))))"

definition cursor_slice_write :: "cursor writer" where
  "cursor_slice_write buf c =
     (let d = cu_data c; pos = min (cu_pos c) (length d); n = min (length buf) (length d - pos) in
      Some (\<lparr>cu_data = take pos d @ take n buf @ drop (pos + n) d, cu_pos = cu_pos c + n\<rparr>, Ready (Inr n)))"

definition cursor_flush :: "cursor flusher" where
  "cursor_flush c = Some (c, Ready (Inr ()))"

section \<open>BufferWriter\<close>

record 'w buffer_writer =
  bw_inner :: 'w
  bw_buf :: "u8 list"
  bw_capacity :: nat
  bw_written :: nat

definition buffer_writer_with_capacity :: "nat \<Rightarrow> 'w \<Rightarrow> 'w buffer_writer" where
  "buffer_writer_with_capacity capacity inner =
     \<lparr>bw_inner = inner, bw_buf = [], bw_capacity = capacity, bw_written = 0\<rparr>"

definition buffer_writer_new :: "'w \<Rightarrow> 'w buffer_writer" where
  "buffer_writer_new inner = buffer_writer_with_capacity DEFAULT_BUFSZ inner"

text \<open>The end of \<open>poll_flush_buf\<close>: what was written is drained, which panics past the end of the buffer.\<close>

definition flush_done :: "'w buffer_writer \<Rightarrow> unit io_result \<Rightarrow> ('w buffer_writer \<times> unit io_result poll) option" where
  "flush_done b ret =
     (if bw_written b > length (bw_buf b) then Some (b, Panicked)
      else Some (b\<lparr>bw_buf := drop (bw_written b) (bw_buf b), bw_written := 0\<rparr>, Ready ret))"

partial_function (option) poll_flush_buf :: "'w writer \<Rightarrow> ('w buffer_writer, unit io_result) future" where
  "poll_flush_buf wr b =
     (if bw_written b < length (bw_buf b) then
        ready (wr (drop (bw_written b) (bw_buf b)) (bw_inner b)) (\<lambda>w. b\<lparr>bw_inner := w\<rparr>) (\<lambda>w res.
          let b' = b\<lparr>bw_inner := w\<rparr> in
          case res of
            Inr n \<Rightarrow>
              if n = 0 then flush_done b' (Inl WriteZero)
              else poll_flush_buf wr (b'\<lparr>bw_written := bw_written b + n\<rparr>)
          | Inl e \<Rightarrow>
              if e = Interrupted then poll_flush_buf wr b' else flush_done b' (Inl e))
      else flush_done b (Inr ()))"

text \<open>After a flush the write goes into the buffer, or around it when it is large.\<close>

definition buffer_write_through :: "'w writer \<Rightarrow> u8 list \<Rightarrow> ('w buffer_writer, nat io_result) future" where
  "buffer_write_through wr buf b =
     (if length buf \<ge> bw_capacity b then
        ready (wr buf (bw_inner b)) (\<lambda>w. b\<lparr>bw_inner := w\<rparr>) (\<lambda>w res. Some (b\<lparr>bw_inner := w\<rparr>, Ready res))
      else Some (b\<lparr>bw_buf := bw_buf b @ buf\<rparr>, Ready (Inr (length buf))))"

definition buffer_write :: "'w writer \<Rightarrow> 'w buffer_writer writer" where
  "buffer_write wr buf b =
     (if length (bw_buf b) + length buf > bw_capacity b
      then ready_ok (poll_flush_buf wr b) id (\<lambda>b' _. buffer_write_through wr buf b')
      else buffer_write_through wr buf b)"

definition buffer_flush :: "'w writer \<Rightarrow> 'w flusher \<Rightarrow> 'w buffer_writer flusher" where
  "buffer_flush wr fl b =
     ready_ok (poll_flush_buf wr b) id (\<lambda>b' _.
       ready (fl (bw_inner b')) (\<lambda>w. b'\<lparr>bw_inner := w\<rparr>) (\<lambda>w res. Some (b'\<lparr>bw_inner := w\<rparr>, Ready res)))"

definition buffer_close :: "'w writer \<Rightarrow> 'w flusher \<Rightarrow> 'w buffer_writer flusher" where
  "buffer_close wr cl b =
     ready_ok (poll_flush_buf wr b) id (\<lambda>b' _.
       ready (cl (bw_inner b')) (\<lambda>w. b'\<lparr>bw_inner := w\<rparr>) (\<lambda>w res. Some (b'\<lparr>bw_inner := w\<rparr>, Ready res)))"

definition buffer_writer_seek :: "'w writer \<Rightarrow> (seek_from \<Rightarrow> ('w, nat io_result) future) \<Rightarrow> seek_from \<Rightarrow> ('w buffer_writer, nat io_result) future" where
  "buffer_writer_seek wr sk pos b =
     ready_ok (poll_flush_buf wr b) id (\<lambda>b' _.
       ready (sk pos (bw_inner b')) (\<lambda>w. b'\<lparr>bw_inner := w\<rparr>) (\<lambda>w res. Some (b'\<lparr>bw_inner := w\<rparr>, Ready res)))"

section \<open>Futures over a writer\<close>

record 'w write_all =
  wa_writer :: 'w
  wa_buf :: "u8 list"

partial_function (option) write_all_poll :: "'w writer \<Rightarrow> ('w write_all, unit io_result) future" where
  "write_all_poll wr this =
     (if wa_buf this = [] then Some (this, Ready (Inr ()))
      else ready_ok (wr (wa_buf this) (wa_writer this)) (\<lambda>w. this\<lparr>wa_writer := w\<rparr>) (\<lambda>w n.
        if n > length (wa_buf this) then Some (this\<lparr>wa_writer := w, wa_buf := []\<rparr>, Panicked)
        else
          let this' = \<lparr>wa_writer = w, wa_buf = drop n (wa_buf this)\<rparr> in
          if n = 0 then Some (this', Ready (Inl WriteZero)) else write_all_poll wr this'))"

text \<open>\<open>copy\<close>: the future over a buffered reader and a writer.\<close>

record ('r, 'w) copy_future =
  cp_reader :: 'r
  cp_writer :: 'w
  cp_amt :: nat

partial_function (option) copy_poll ::
  "('r, u8 list io_result) future \<Rightarrow> (nat \<Rightarrow> 'r \<Rightarrow> 'r) \<Rightarrow> 'w writer \<Rightarrow> 'w flusher \<Rightarrow> (('r, 'w) copy_future, nat io_result) future" where
  "copy_poll fill consume wr fl this =
     ready_ok (fill (cp_reader this)) (\<lambda>r. this\<lparr>cp_reader := r\<rparr>) (\<lambda>r buffer.
       let this1 = this\<lparr>cp_reader := r\<rparr> in
       if buffer = [] then
         ready_ok (fl (cp_writer this1)) (\<lambda>w. this1\<lparr>cp_writer := w\<rparr>) (\<lambda>w _.
           Some (this1\<lparr>cp_writer := w\<rparr>, Ready (Inr (cp_amt this1))))
       else
         ready_ok (wr buffer (cp_writer this1)) (\<lambda>w. this1\<lparr>cp_writer := w\<rparr>) (\<lambda>w i.
           if i = 0 then Some (this1\<lparr>cp_writer := w\<rparr>, Ready (Inl WriteZero))
           else copy_poll fill consume wr fl \<lparr>cp_reader = consume i r, cp_writer = w, cp_amt = cp_amt this1 + i\<rparr>))"

definition copy_new :: "'r \<Rightarrow> 'w \<Rightarrow> ('r buffer_reader, 'w) copy_future" where
  "copy_new reader writer = \<lparr>cp_reader = buffer_reader_new reader, cp_writer = writer, cp_amt = 0\<rparr>"

text \<open>
  \<open>AssertAsync\<close>: a blocking operation is retried as long as it is interrupted. \<open>assert_async\<close>
  is the loop that its six methods share.
\<close>

partial_function (option) assert_async :: "('s \<Rightarrow> 's \<times> 'a io_result) \<Rightarrow> ('s, 'a io_result) future" where
  "assert_async op s =
     (case op s of (s', res) \<Rightarrow>
      if res = Inl Interrupted then assert_async op s' else Some (s', Ready res))"

section \<open>The contract of a writer\<close>

text \<open>
  \<open>AsyncWrite\<close> for a writer that does not fail: a write takes a nonempty prefix of what it is
  given, and \<open>before\<close> orders the states so that it is pending only finitely often in a row.
\<close>

locale byte_sink =
  fixes good :: "'w \<Rightarrow> bool" and out :: "'w \<Rightarrow> u8 list" and before :: "('w \<times> 'w) set"
    and wr :: "'w writer" and fl :: "'w flusher"
  assumes wf_before: "wf before"
    and write_law: "good w \<Longrightarrow>
      (\<exists>w' k. wr xs w = Some (w', Ready (Inr k)) \<and> good w' \<and> k \<le> length xs \<and> (k = 0 \<longrightarrow> xs = []) \<and> out w' = out w @ take k xs) \<or>
      (\<exists>w'. wr xs w = Some (w', Pending) \<and> good w' \<and> out w' = out w \<and> (w', w) \<in> before)"
    and flush_law: "good w \<Longrightarrow>
      (\<exists>w'. fl w = Some (w', Ready (Inr ())) \<and> good w' \<and> out w' = out w) \<or>
      (\<exists>w'. fl w = Some (w', Pending) \<and> good w' \<and> out w' = out w \<and> (w', w) \<in> before)"
begin

lemma write_cases:
  assumes "good w"
  obtains (wrote) w' k where "wr xs w = Some (w', Ready (Inr k))" "good w'" "k \<le> length xs" "k = 0 \<Longrightarrow> xs = []" "out w' = out w @ take k xs"
    | (pending) w' where "wr xs w = Some (w', Pending)" "good w'" "out w' = out w" "(w', w) \<in> before"
  using write_law [OF assms, of xs] by blast

lemma flush_cases:
  assumes "good w"
  obtains (flushed) w' where "fl w = Some (w', Ready (Inr ()))" "good w'" "out w' = out w"
    | (pending) w' where "fl w = Some (w', Pending)" "good w'" "out w' = out w" "(w', w) \<in> before"
  using flush_law [OF assms] by blast

text \<open>\<open>write_all\<close> writes everything.\<close>

lemma write_all_runs:
  assumes "good w"
  shows "\<exists>w'. runs (write_all_poll wr) (write_all_poll wr \<lparr>wa_writer = w, wa_buf = xs\<rparr>) (Inr ()) \<lparr>wa_writer = w', wa_buf = []\<rparr> \<and>
    good w' \<and> out w' = out w @ xs"
  using assms
proof (induction "(xs, w)" arbitrary: xs w rule: wf_induct_rule [OF wf_lex_prod [OF wf_measure [of length] wf_before]])
  case 1
  show ?case
  proof (cases "xs = []")
    case True
    with 1 show ?thesis by (subst write_all_poll.simps) simp
  next
    case ne: False
    from "1.prems" show ?thesis
    proof (cases rule: write_cases [where xs = xs])
      case (wrote w' k)
      have k: "0 < k" using wrote(4) ne by auto
      have u: "write_all_poll wr \<lparr>wa_writer = w, wa_buf = xs\<rparr> = write_all_poll wr \<lparr>wa_writer = w', wa_buf = drop k xs\<rparr>"
        using wrote(1,3) ne k by (subst write_all_poll.simps) (simp add: Let_def)
      have "((drop k xs, w'), xs, w) \<in> measure length <*lex*> before" using k ne by simp
      from 1(1) [OF this wrote(2)] wrote(5) show ?thesis unfolding u by simp
    next
      case (pending w')
      have u: "write_all_poll wr \<lparr>wa_writer = w, wa_buf = xs\<rparr> = Some (\<lparr>wa_writer = w', wa_buf = xs\<rparr>, Pending)"
        using pending(1) ne by (subst write_all_poll.simps) simp
      have "((xs, w'), xs, w) \<in> measure length <*lex*> before" using pending(4) by simp
      from 1(1) [OF this pending(2)] pending(3) show ?thesis unfolding u by simp
    qed
  qed
qed

end

section \<open>BufferWriter\<close>

definition bw_good :: "('w \<Rightarrow> bool) \<Rightarrow> 'w buffer_writer \<Rightarrow> bool" where
  "bw_good good b \<longleftrightarrow> good (bw_inner b) \<and> bw_written b \<le> length (bw_buf b)"

text \<open>What has been accepted: what the writer inside has, and what is still in the buffer.\<close>

definition bw_out :: "('w \<Rightarrow> u8 list) \<Rightarrow> 'w buffer_writer \<Rightarrow> u8 list" where
  "bw_out out b = out (bw_inner b) @ drop (bw_written b) (bw_buf b)"

definition bw_before :: "('w \<times> 'w) set \<Rightarrow> ('w buffer_writer \<times> 'w buffer_writer) set" where
  "bw_before before = inv_image (less_than <*lex*> before) (\<lambda>b. (length (bw_buf b) - bw_written b, bw_inner b))"

lemmas bw_defs = bw_good_def bw_out_def bw_before_def

context byte_sink
begin

lemma wf_bw_before: "wf (bw_before before)"
  unfolding bw_before_def by (intro wf_inv_image wf_lex_prod wf_less_than wf_before)

lemma flush_buf_step:
  assumes "bw_good good b" "bw_written b < length (bw_buf b)"
  obtains (wrote) b' where "poll_flush_buf wr b = poll_flush_buf wr b'" "bw_good good b'" "bw_out out b' = bw_out out b"
      "length (bw_buf b') - bw_written b' < length (bw_buf b) - bw_written b" "bw_capacity b' = bw_capacity b" "bw_buf b' = bw_buf b"
    | (pending) b' where "poll_flush_buf wr b = Some (b', Pending)" "bw_good good b'" "bw_out out b' = bw_out out b"
      "(b', b) \<in> bw_before before" "bw_capacity b' = bw_capacity b" "bw_buf b' = bw_buf b"
proof -
  let ?xs = "drop (bw_written b) (bw_buf b)"
  have "good (bw_inner b)" using assms(1) by (simp add: bw_good_def)
  then show ?thesis
  proof (cases rule: write_cases [where xs = ?xs])
    case (wrote w' k)
    let ?b = "b\<lparr>bw_inner := w', bw_written := bw_written b + k\<rparr>"
    have k: "0 < k" "k \<le> length (bw_buf b) - bw_written b" using wrote(3,4) assms(2) by auto
    have "poll_flush_buf wr b = poll_flush_buf wr ?b"
      using wrote(1) assms(2) k(1) by (subst poll_flush_buf.simps) (simp add: Let_def)
    moreover have "bw_out out ?b = bw_out out b"
      using wrote(5) by (simp add: bw_out_def add.commute flip: drop_drop)
    ultimately show ?thesis using wrote(2) k assms(2) by (intro that(1) [of ?b]) (auto simp: bw_good_def)
  next
    case (pending w')
    let ?b = "b\<lparr>bw_inner := w'\<rparr>"
    have "poll_flush_buf wr b = Some (?b, Pending)" using pending(1) assms(2) by (subst poll_flush_buf.simps) simp
    with pending(2-4) assms(1) show ?thesis by (intro that(2) [of ?b]) (simp_all add: bw_defs)
  qed
qed

text \<open>One poll of the flush: done, or pending with progress.\<close>

lemma flush_buf_poll:
  assumes "bw_good good b"
  shows "(\<exists>b'. poll_flush_buf wr b = Some (b', Ready (Inr ())) \<and> good (bw_inner b') \<and> bw_buf b' = [] \<and> bw_written b' = 0 \<and>
      out (bw_inner b') = bw_out out b \<and> bw_capacity b' = bw_capacity b \<and> (bw_inner b' = bw_inner b \<or> bw_written b < length (bw_buf b))) \<or>
    (\<exists>b'. poll_flush_buf wr b = Some (b', Pending) \<and> bw_good good b' \<and> bw_out out b' = bw_out out b \<and> (b', b) \<in> bw_before before \<and>
      bw_capacity b' = bw_capacity b \<and> bw_buf b' = bw_buf b)"
  using assms
proof (induction b rule: wf_induct_rule [OF wf_bw_before])
  case (1 b)
  show ?case
  proof (cases "bw_written b < length (bw_buf b)")
    case False
    then have w: "bw_written b = length (bw_buf b)" using "1.prems" by (simp add: bw_good_def)
    have "poll_flush_buf wr b = Some (b\<lparr>bw_buf := [], bw_written := 0\<rparr>, Ready (Inr ()))"
      using False w by (subst poll_flush_buf.simps) (simp add: flush_done_def)
    with "1.prems" w show ?thesis by (simp add: bw_defs)
  next
    case True
    from "1.prems" True show ?thesis
    proof (cases rule: flush_buf_step)
      case (wrote b')
      have lt: "(b', b) \<in> bw_before before" and tr: "(c, b') \<in> bw_before before \<Longrightarrow> (c, b) \<in> bw_before before" for c
        using wrote(4) by (auto simp: bw_before_def)
      show ?thesis using "1.IH" [OF lt wrote(2)] tr True unfolding wrote(1) wrote(3) wrote(5) wrote(6) by blast
    next
      case (pending b')
      then show ?thesis by blast
    qed
  qed
qed

end

context byte_sink
begin

text \<open>The write that follows a flush, or that needs none.\<close>

lemma write_through_law:
  assumes "bw_good good b" "length buf < bw_capacity b \<or> bw_buf b = []"
  shows "(\<exists>b' k. buffer_write_through wr buf b = Some (b', Ready (Inr k)) \<and> bw_good good b' \<and> k \<le> length buf \<and> (k = 0 \<longrightarrow> buf = []) \<and>
      bw_out out b' = bw_out out b @ take k buf) \<or>
    (\<exists>b'. buffer_write_through wr buf b = Some (b', Pending) \<and> bw_good good b' \<and> bw_out out b' = bw_out out b \<and> (b', b) \<in> bw_before before)"
proof (cases "length buf < bw_capacity b")
  case True
  then have "buffer_write_through wr buf b = Some (b\<lparr>bw_buf := bw_buf b @ buf\<rparr>, Ready (Inr (length buf)))"
    by (simp add: buffer_write_through_def)
  with assms(1) show ?thesis by (simp add: bw_defs)
next
  case False
  with assms have e: "bw_buf b = []" "bw_written b = 0" by (auto simp: bw_good_def)
  have "good (bw_inner b)" using assms(1) by (simp add: bw_good_def)
  then show ?thesis
  proof (cases rule: write_cases [where xs = buf])
    case (wrote w' k)
    with False have "buffer_write_through wr buf b = Some (b\<lparr>bw_inner := w'\<rparr>, Ready (Inr k))" by (simp add: buffer_write_through_def)
    with wrote e show ?thesis by (simp add: bw_defs)
  next
    case (pending w')
    with False have "buffer_write_through wr buf b = Some (b\<lparr>bw_inner := w'\<rparr>, Pending)" by (simp add: buffer_write_through_def)
    with pending e show ?thesis by (simp add: bw_defs)
  qed
qed

lemma buffer_write_law:
  assumes "bw_good good b"
  shows "(\<exists>b' k. buffer_write wr buf b = Some (b', Ready (Inr k)) \<and> bw_good good b' \<and> k \<le> length buf \<and> (k = 0 \<longrightarrow> buf = []) \<and>
      bw_out out b' = bw_out out b @ take k buf) \<or>
    (\<exists>b'. buffer_write wr buf b = Some (b', Pending) \<and> bw_good good b' \<and> bw_out out b' = bw_out out b \<and> (b', b) \<in> bw_before before)"
proof (cases "bw_capacity b < length (bw_buf b) + length buf")
  case False
  then have "length buf < bw_capacity b \<or> bw_buf b = []" by (cases "bw_buf b") auto
  from write_through_law [OF assms this] False show ?thesis by (simp add: buffer_write_def)
next
  case True
  consider (flushed) b' where "poll_flush_buf wr b = Some (b', Ready (Inr ()))" "good (bw_inner b')" "bw_buf b' = []" "bw_written b' = 0"
      "out (bw_inner b') = bw_out out b" "bw_inner b' = bw_inner b \<or> bw_written b < length (bw_buf b)"
    | (pending) b' where "poll_flush_buf wr b = Some (b', Pending)" "bw_good good b'" "bw_out out b' = bw_out out b" "(b', b) \<in> bw_before before"
    using flush_buf_poll [OF assms] by blast
  then show ?thesis
  proof cases
    case b': (flushed b')
    have g: "bw_good good b'" "bw_out out b' = bw_out out b" using b' by (simp_all add: bw_defs)
    have lt: "(c, b') \<in> bw_before before \<Longrightarrow> (c, b) \<in> bw_before before" for c
      using b'(3,4,6) by (auto simp: bw_before_def)
    have eq: "buffer_write wr buf b = buffer_write_through wr buf b'" using True b'(1) by (simp add: buffer_write_def)
    from write_through_law [OF g(1), of buf] b'(3) lt show ?thesis unfolding g(2) eq by blast
  next
    case (pending b')
    with True show ?thesis by (simp add: buffer_write_def)
  qed
qed

end

context byte_sink
begin

lemma buffer_flush_law:
  assumes "bw_good good b"
  shows "(\<exists>b'. buffer_flush wr fl b = Some (b', Ready (Inr ())) \<and> bw_good good b' \<and> bw_out out b' = bw_out out b \<and> out (bw_inner b') = bw_out out b) \<or>
    (\<exists>b'. buffer_flush wr fl b = Some (b', Pending) \<and> bw_good good b' \<and> bw_out out b' = bw_out out b \<and> (b', b) \<in> bw_before before)"
proof -
  consider (flushed) b' where "poll_flush_buf wr b = Some (b', Ready (Inr ()))" "good (bw_inner b')" "bw_buf b' = []" "bw_written b' = 0"
      "out (bw_inner b') = bw_out out b" "bw_inner b' = bw_inner b \<or> bw_written b < length (bw_buf b)"
    | (pending) b' where "poll_flush_buf wr b = Some (b', Pending)" "bw_good good b'" "bw_out out b' = bw_out out b" "(b', b) \<in> bw_before before"
    using flush_buf_poll [OF assms] by blast
  then show ?thesis
  proof cases
    case b': (flushed b')
    from b'(2) show ?thesis
    proof (cases rule: flush_cases)
      case (flushed w')
      with b' show ?thesis by (simp add: buffer_flush_def bw_defs)
    next
      case (pending w')
      have "buffer_flush wr fl b = Some (b'\<lparr>bw_inner := w'\<rparr>, Pending)" using b'(1) pending(1) by (simp add: buffer_flush_def)
      moreover have "(b'\<lparr>bw_inner := w'\<rparr>, b) \<in> bw_before before" using b'(3,4,6) pending(4) by (auto simp: bw_before_def)
      ultimately show ?thesis using b' pending by (simp add: bw_defs)
    qed
  next
    case (pending b')
    then show ?thesis by (simp add: buffer_flush_def)
  qed
qed

lemma buffer_writer_sink: "byte_sink (bw_good good) (bw_out out) (bw_before before) (buffer_write wr) (buffer_flush wr fl)"
proof (rule byte_sink.intro)
  show "wf (bw_before before)" by (rule wf_bw_before)
next
  fix w xs assume "bw_good good w"
  from buffer_write_law [OF this, of xs]
  show "(\<exists>w' k. buffer_write wr xs w = Some (w', Ready (Inr k)) \<and> bw_good good w' \<and> k \<le> length xs \<and> (k = 0 \<longrightarrow> xs = []) \<and>
      bw_out out w' = bw_out out w @ take k xs) \<or>
    (\<exists>w'. buffer_write wr xs w = Some (w', Pending) \<and> bw_good good w' \<and> bw_out out w' = bw_out out w \<and> (w', w) \<in> bw_before before)" .
next
  fix w assume "bw_good good w"
  from buffer_flush_law [OF this]
  show "(\<exists>w'. buffer_flush wr fl w = Some (w', Ready (Inr ())) \<and> bw_good good w' \<and> bw_out out w' = bw_out out w) \<or>
    (\<exists>w'. buffer_flush wr fl w = Some (w', Pending) \<and> bw_good good w' \<and> bw_out out w' = bw_out out w \<and> (w', w) \<in> bw_before before)"
    by blast
qed

lemma buffer_flush_runs:
  assumes "bw_good good b"
  shows "\<exists>b'. runs (buffer_flush wr fl) (buffer_flush wr fl b) (Inr ()) b' \<and> out (bw_inner b') = bw_out out b"
  using assms
proof (induction b rule: wf_induct_rule [OF wf_bw_before])
  case (1 b)
  from buffer_flush_law [OF "1.prems"] show ?case
  proof (elim disjE exE conjE)
    fix b' assume "buffer_flush wr fl b = Some (b', Ready (Inr ()))" "out (bw_inner b') = bw_out out b"
    then show ?thesis by auto
  next
    fix b' assume b': "buffer_flush wr fl b = Some (b', Pending)" "bw_good good b'" "bw_out out b' = bw_out out b" "(b', b) \<in> bw_before before"
    from "1.IH" [OF b'(4,2)] b'(1,3) show ?thesis by simp
  qed
qed

end

section \<open>Copying\<close>

locale copier = src: buf_source good avail held delay fill consume + snk: byte_sink good' out before wr fl
  for good :: "'r \<Rightarrow> bool" and avail held delay fill consume
    and good' :: "'w \<Rightarrow> bool" and out before wr fl
begin

lemma copy_runs:
  assumes "good r" "good' w"
  shows "\<exists>r' w'. runs (copy_poll fill consume wr fl) (copy_poll fill consume wr fl \<lparr>cp_reader = r, cp_writer = w, cp_amt = n\<rparr>)
      (Inr (n + length (avail r))) \<lparr>cp_reader = r', cp_writer = w', cp_amt = n + length (avail r)\<rparr> \<and> avail r' = [] \<and> good' w' \<and> out w' = out w @ avail r"
  using assms
proof (induction "(avail r, w, delay r)" arbitrary: r w n
    rule: wf_induct_rule [OF wf_lex_prod [OF wf_measure [of length] wf_lex_prod [OF snk.wf_before wf_less_than]]])
  case 1
  let ?p = "copy_poll fill consume wr fl"
  from "1.prems"(1) show ?case
  proof (cases rule: src.fill_cases)
    case (pending r')
    have u: "?p \<lparr>cp_reader = r, cp_writer = w, cp_amt = n\<rparr> = Some (\<lparr>cp_reader = r', cp_writer = w, cp_amt = n\<rparr>, Pending)"
      using pending(1) by (subst copy_poll.simps) simp
    have "((avail r', w, delay r'), avail r, w, delay r) \<in> measure length <*lex*> before <*lex*> less_than" using pending(3,4) by simp
    from 1(1) [OF this pending(2) "1.prems"(2)] pending(3) show ?thesis unfolding u by simp
  next
    case (bytes r' ys)
    show ?thesis
    proof (cases "held r' = []")
      case True
      have e: "avail r = []" by (rule bytes(5)) fact
      from "1.prems"(2) show ?thesis
      proof (cases rule: snk.flush_cases)
        case (flushed w')
        have "?p \<lparr>cp_reader = r, cp_writer = w, cp_amt = n\<rparr> = Some (\<lparr>cp_reader = r', cp_writer = w', cp_amt = n\<rparr>, Ready (Inr n))"
          using bytes(1) flushed(1) True by (subst copy_poll.simps) (simp add: Let_def)
        with flushed e bytes(3) show ?thesis by auto
      next
        case (pending w')
        have u: "?p \<lparr>cp_reader = r, cp_writer = w, cp_amt = n\<rparr> = Some (\<lparr>cp_reader = r', cp_writer = w', cp_amt = n\<rparr>, Pending)"
          using bytes(1) pending(1) True by (subst copy_poll.simps) (simp add: Let_def)
        have "((avail r', w', delay r'), avail r, w, delay r) \<in> measure length <*lex*> before <*lex*> less_than"
          using bytes(3) pending(4) by simp
        from 1(1) [OF this bytes(2) pending(2)] pending(3) bytes(3) show ?thesis unfolding u by simp
      qed
    next
      case ne: False
      from "1.prems"(2) show ?thesis
      proof (cases rule: snk.write_cases [where xs = "held r'"])
        case (wrote w' k)
        have k: "0 < k" using wrote(4) ne by auto
        have u: "?p \<lparr>cp_reader = r, cp_writer = w, cp_amt = n\<rparr> = ?p \<lparr>cp_reader = consume k r', cp_writer = w', cp_amt = n + k\<rparr>"
          using bytes(1) wrote(1) ne k by (subst copy_poll.simps) (simp add: Let_def)
        have c: "good (consume k r')" "avail (consume k r') = drop k (avail r)"
          using src.consume_law [OF bytes(2) wrote(3)] bytes(3) by simp_all
        have t: "take k (held r') = take k (avail r)" using wrote(3) bytes(4) by simp
        have "k \<le> length (avail r)" using wrote(3) bytes(4) by simp
        moreover have "((avail (consume k r'), w', delay (consume k r')), avail r, w, delay r) \<in> measure length <*lex*> before <*lex*> less_than"
        proof -
          have "0 < length (avail r)" using bytes(4) ne by simp
          then show ?thesis using k by (simp add: c(2))
        qed
        from 1(1) [OF this c(1) wrote(2), of "n + k"]
        obtain r2 w2 where "runs ?p (?p \<lparr>cp_reader = consume k r', cp_writer = w', cp_amt = n + k\<rparr>)
            (Inr (n + k + length (avail (consume k r')))) \<lparr>cp_reader = r2, cp_writer = w2, cp_amt = n + k + length (avail (consume k r'))\<rparr>"
          "avail r2 = []" "good' w2" "out w2 = out w' @ avail (consume k r')" by blast
        ultimately show ?thesis unfolding u using c(2) wrote(5) t by auto
      next
        case (pending w')
        have u: "?p \<lparr>cp_reader = r, cp_writer = w, cp_amt = n\<rparr> = Some (\<lparr>cp_reader = r', cp_writer = w', cp_amt = n\<rparr>, Pending)"
          using bytes(1) pending(1) ne by (subst copy_poll.simps) (simp add: Let_def)
        have "((avail r', w', delay r'), avail r, w, delay r) \<in> measure length <*lex*> before <*lex*> less_than"
          using bytes(3) pending(4) by simp
        from 1(1) [OF this bytes(2) pending(2)] pending(3) bytes(3) show ?thesis unfolding u by simp
      qed
    qed
  qed
qed

end

section \<open>Writing into memory\<close>

definition at_end :: "cursor \<Rightarrow> bool" where
  "at_end c \<longleftrightarrow> cu_pos c = length (cu_data c)"

interpretation vec_sink: byte_sink at_end cu_data "{}" cursor_vec_write cursor_flush
  by unfold_locales (auto simp: at_end_def cursor_vec_write_def cursor_flush_def Let_def)

interpretation cursor_copy: copier "\<lambda>_. True" cursor_rest cursor_rest "\<lambda>_. 0" cursor_fill_buf cursor_consume
  at_end cu_data "{}" cursor_vec_write cursor_flush
  by unfold_locales

text \<open>Retrying interrupted operations.\<close>

fun interrupted_for :: "nat \<Rightarrow> ('s \<Rightarrow> 's \<times> 'a io_result) \<Rightarrow> 's \<Rightarrow> ('s \<times> 'a io_result) option" where
  "interrupted_for 0 op s = (if snd (op s) = Inl Interrupted then None else Some (op s))"
| "interrupted_for (Suc n) op s = (if snd (op s) = Inl Interrupted then interrupted_for n op (fst (op s)) else None)"

lemma assert_async_interrupted:
  "interrupted_for n op s = Some (s', res) \<Longrightarrow> assert_async op s = Some (s', Ready res) \<and> res \<noteq> Inl Interrupted"
proof (induction n arbitrary: s)
  case 0
  then show ?case by (subst assert_async.simps) (auto split: if_splits prod.splits)
next
  case (Suc n)
  then have "snd (op s) = Inl Interrupted" "interrupted_for n op (fst (op s)) = Some (s', res)"
    by (auto split: if_splits)
  with Suc.IH show ?case by (subst assert_async.simps) (auto split: prod.splits)
qed

section \<open>Properties\<close>

text \<open>
  (C29) \<open>BufferWriter\<close> loses, repeats and reorders nothing. From any state, also in the middle
  of a pending flush, \<open>write_all\<close> followed by a flush finishes, and then the writer inside
  has everything that had been accepted before, followed by the new bytes.
\<close>

theorem io_buffer_writer_correct:
  assumes "byte_sink good out before wr fl" and "bw_good good b"
  shows "\<exists>b' b''. runs (write_all_poll (buffer_write wr)) (write_all_poll (buffer_write wr) \<lparr>wa_writer = b, wa_buf = xs\<rparr>)
      (Inr ()) \<lparr>wa_writer = b', wa_buf = []\<rparr> \<and>
    runs (buffer_flush wr fl) (buffer_flush wr fl b') (Inr ()) b'' \<and> out (bw_inner b'') = bw_out out b @ xs"
proof -
  note sink = byte_sink.buffer_writer_sink [OF assms(1)]
  obtain b' where b': "runs (write_all_poll (buffer_write wr)) (write_all_poll (buffer_write wr) \<lparr>wa_writer = b, wa_buf = xs\<rparr>)
      (Inr ()) \<lparr>wa_writer = b', wa_buf = []\<rparr>" "bw_good good b'" "bw_out out b' = bw_out out b @ xs"
    using byte_sink.write_all_runs [OF sink assms(2), of xs] by blast
  obtain b'' where "runs (buffer_flush wr fl) (buffer_flush wr fl b') (Inr ()) b''" "out (bw_inner b'') = bw_out out b'"
    using byte_sink.buffer_flush_runs [OF assms(1) b'(2)] by blast
  with b' show ?thesis by metis
qed

theorem io_buffer_writer_correct_witness:
  "\<exists>b' b''. runs (write_all_poll (buffer_write cursor_vec_write))
      (write_all_poll (buffer_write cursor_vec_write) \<lparr>wa_writer = buffer_writer_with_capacity 2 (cursor_new []), wa_buf = [1, 2, 3]\<rparr>)
      (Inr ()) \<lparr>wa_writer = b', wa_buf = []\<rparr> \<and>
    runs (buffer_flush cursor_vec_write cursor_flush) (buffer_flush cursor_vec_write cursor_flush b') (Inr ()) b'' \<and>
    cu_data (bw_inner b'') = [1, 2, 3]"
  using io_buffer_writer_correct [OF vec_sink.byte_sink_axioms, of "buffer_writer_with_capacity 2 (cursor_new [])" "[1, 2, 3]"]
  by (simp add: bw_defs buffer_writer_with_capacity_def cursor_new_def at_end_def)



text \<open> \<open>AssertAsync\<close> hides interruptions: an operation that is interrupted any finite number
  of times and then answers is ready within one poll with that answer, which is not
  \<open>Interrupted\<close>.
\<close>

lemma io_assert_async_correct:
  assumes "interrupted_for n op s = Some (s', res)"
  shows "assert_async op s = Some (s', Ready res) \<and> res \<noteq> Inl Interrupted"
  using assms by (rule assert_async_interrupted)

lemma io_assert_async_correct_witness:
  "\<exists>s'. assert_async (\<lambda>k. if 0 < k then (k - 1, Inl Interrupted) else (k, Inr True)) (2 :: nat) = Some (s', Ready (Inr True))"
  using io_assert_async_correct [of 2 "\<lambda>k. if 0 < k then (k - 1, Inl Interrupted) else (k, Inr True)" "2 :: nat" 0 "Inr True"]
  by (simp add: numeral_2_eq_2)

end
