(* ===== verification/Task_State.thy ===== *)
theory Task_State
  imports Cynthia_Prelude
begin

text \<open>
  The state word of a task (src/cynthia/src/runtime/task/state.rs): eight flags in the low
  bits and the number of references above them. The lemmas say what each flag operation of
  the task code does to the flags and to the count.
\<close>

definition SCHEDULED :: usize where "SCHEDULED = push_bit 0 1"
definition RUNNING :: usize where "RUNNING = push_bit 1 1"
definition COMPLETED :: usize where "COMPLETED = push_bit 2 1"
definition TASK_CLOSED :: usize where "TASK_CLOSED = push_bit 3 1"
definition TASK :: usize where "TASK = push_bit 4 1"
definition AWAITER :: usize where "AWAITER = push_bit 5 1"
definition REGISTERING :: usize where "REGISTERING = push_bit 6 1"
definition NOTIFYING :: usize where "NOTIFYING = push_bit 7 1"
definition REFERENCE :: usize where "REFERENCE = push_bit 8 1"

lemmas flag_defs = SCHEDULED_def RUNNING_def COMPLETED_def TASK_CLOSED_def TASK_def
  AWAITER_def REGISTERING_def NOTIFYING_def REFERENCE_def

text \<open>The number of references in a state word.\<close>

definition ref_count :: "usize \<Rightarrow> nat" where
  "ref_count s = unat (drop_bit 8 s)"

section \<open>Testing flags\<close>

lemma and_flag_eq_0: "(s::usize) AND push_bit n 1 = 0 \<longleftrightarrow> \<not> bit s n"
  by (simp add: push_bit_eq_mult and_exp_eq_0_iff_not_bit)

lemma flag_test [simp]:
  "s AND SCHEDULED = 0 \<longleftrightarrow> \<not> bit s 0" "s AND RUNNING = 0 \<longleftrightarrow> \<not> bit s 1"
  "s AND COMPLETED = 0 \<longleftrightarrow> \<not> bit s 2" "s AND TASK_CLOSED = 0 \<longleftrightarrow> \<not> bit s 3"
  "s AND TASK = 0 \<longleftrightarrow> \<not> bit s 4" "s AND AWAITER = 0 \<longleftrightarrow> \<not> bit s 5"
  "s AND REGISTERING = 0 \<longleftrightarrow> \<not> bit s 6" "s AND NOTIFYING = 0 \<longleftrightarrow> \<not> bit s 7"
  by (simp_all only: flag_defs and_flag_eq_0)

lemma and_or_eq_0: "(s::usize) AND (a OR b) = 0 \<longleftrightarrow> s AND a = 0 \<and> s AND b = 0"
  by (auto simp: bit_eq_iff bit_simps)

lemma flag_test_or [simp]:
  "s AND (COMPLETED OR TASK_CLOSED) = 0 \<longleftrightarrow> \<not> bit s 2 \<and> \<not> bit s 3"
  "s AND (SCHEDULED OR RUNNING) = 0 \<longleftrightarrow> \<not> bit s 0 \<and> \<not> bit s 1"
  "s AND (NOTIFYING OR REGISTERING) = 0 \<longleftrightarrow> \<not> bit s 7 \<and> \<not> bit s 6"
  by (simp_all add: and_or_eq_0)

section \<open>Flags after an operation\<close>

lemma bit_push_1: "k < 64 \<Longrightarrow> bit (push_bit k 1 :: usize) n \<longleftrightarrow> n = k"
  by (auto simp only: bit_push_bit_iff bit_1_iff possible_bit_word len_bit0 len_num1)

lemma bit_flag:
  "bit SCHEDULED n \<longleftrightarrow> n = 0" "bit RUNNING n \<longleftrightarrow> n = 1" "bit COMPLETED n \<longleftrightarrow> n = 2"
  "bit TASK_CLOSED n \<longleftrightarrow> n = 3" "bit TASK n \<longleftrightarrow> n = 4" "bit AWAITER n \<longleftrightarrow> n = 5"
  "bit REGISTERING n \<longleftrightarrow> n = 6" "bit NOTIFYING n \<longleftrightarrow> n = 7" "bit REFERENCE n \<longleftrightarrow> n = 8"
  unfolding flag_defs by (rule bit_push_1, simp)+

lemma bit_after [simp]:
  "bit ((s::usize) OR m) n \<longleftrightarrow> bit s n \<or> bit m n"
  "n < 64 \<Longrightarrow> bit (s AND NOT m) n \<longleftrightarrow> bit s n \<and> \<not> bit m n"
  by (auto simp: bit_simps)

text \<open>Several flags are cleared one after the other.\<close>

lemma and_left_assoc [simp]: "(s::usize) AND (a AND b) = (s AND a) AND b"
  by (simp add: and.assoc)

declare bit_flag [simp]

lemma bit_numeral_less [simp]: "(2::nat) < 64" "(3::nat) < 64" "(4::nat) < 64"
  "(5::nat) < 64" "(6::nat) < 64" "(7::nat) < 64" "(1::nat) < 64" "(0::nat) < 64"
  by simp_all

section \<open>The count after an operation\<close>

lemma flag_drop: "drop_bit 8 SCHEDULED = 0" "drop_bit 8 RUNNING = 0" "drop_bit 8 COMPLETED = 0"
  "drop_bit 8 TASK_CLOSED = 0" "drop_bit 8 TASK = 0" "drop_bit 8 AWAITER = 0"
  "drop_bit 8 REGISTERING = 0" "drop_bit 8 NOTIFYING = 0"
  by (simp_all add: flag_defs drop_bit_push_bit)

lemma ref_count_or: "drop_bit 8 m = 0 \<Longrightarrow> ref_count (s OR m) = ref_count s"
  by (simp add: ref_count_def)

lemma ref_count_and_not: "drop_bit 8 m = 0 \<Longrightarrow> ref_count (s AND NOT m) = ref_count s"
proof -
  assume m: "drop_bit 8 m = 0"
  have "drop_bit 8 (s AND NOT m) = drop_bit 8 s"
  proof (rule bit_eqI)
    fix n assume "possible_bit TYPE(64 word) n"
    have "\<not> bit m (8 + n)" using m by (metis bit_drop_bit_eq comp_apply bit_0_eq bot_apply bot_bool_def)
    then show "bit (drop_bit 8 (s AND NOT m)) n = bit (drop_bit 8 s) n"
      using bit_imp_possible_bit [of s "8 + n"] by (auto simp: bit_simps possible_bit_word)
  qed
  then show ?thesis by (simp add: ref_count_def)
qed

lemma ref_count_flags [simp]:
  "ref_count (s OR SCHEDULED) = ref_count s" "ref_count (s OR RUNNING) = ref_count s"
  "ref_count (s OR COMPLETED) = ref_count s" "ref_count (s OR TASK_CLOSED) = ref_count s"
  "ref_count (s OR AWAITER) = ref_count s" "ref_count (s OR REGISTERING) = ref_count s"
  "ref_count (s OR NOTIFYING) = ref_count s" "ref_count (s AND NOT SCHEDULED) = ref_count s"
  "ref_count (s AND NOT RUNNING) = ref_count s" "ref_count (s AND NOT TASK) = ref_count s"
  "ref_count (s AND NOT AWAITER) = ref_count s" "ref_count (s AND NOT REGISTERING) = ref_count s"
  "ref_count (s AND NOT NOTIFYING) = ref_count s"
  by (simp_all add: ref_count_or ref_count_and_not flag_drop)

lemma unat_usize_less: "unat (s::usize) < 2 ^ 64"
  using unsigned_less [of s, where ?'a = nat] by simp

lemma ref_count_div: "ref_count s = unat s div 256"
  by (simp only: ref_count_def unsigned_drop_bit_eq) (simp add: drop_bit_eq_div take_bit_nat_eq_self [OF unat_usize_less])

lemma REFERENCE_unat [simp]: "unat REFERENCE = 256"
  by (simp add: REFERENCE_def push_bit_eq_mult)

lemma ref_count_less: "ref_count s < 2 ^ 56"
  using unat_usize_less [of s] by (simp add: ref_count_div less_mult_imp_div_less)

text \<open>Adding and subtracting a reference keeps the flags.\<close>

lemma bit_low: "n < 8 \<Longrightarrow> bit (s::usize) n \<longleftrightarrow> bit (unat s mod 256) n"
  using bit_take_bit_iff [of 8 "unat s" n] by (simp add: take_bit_eq_mod bit_unsigned_iff possible_bit_word)

lemma bit_low_eq: "unat s mod 256 = unat t mod 256 \<Longrightarrow> n < 8 \<Longrightarrow> bit (s::usize) n = bit (t::usize) n"
  by (simp add: bit_low [of n s] bit_low [of n t])

lemma add_reference:
  assumes "unat s + 256 < 2 ^ 64"
  shows "ref_count (s + REFERENCE) = Suc (ref_count s)" "n < 8 \<Longrightarrow> bit (s + REFERENCE) n = bit s n"
proof -
  have u: "unat (s + REFERENCE) = unat s + 256"
    using assms by (simp add: unat_add_lem [THEN iffD1])
  show "ref_count (s + REFERENCE) = Suc (ref_count s)" by (simp add: ref_count_div u)
  show "bit (s + REFERENCE) n = bit s n" if "n < 8" using that by (intro bit_low_eq) (simp_all add: u)
qed

lemma sub_reference:
  assumes "256 \<le> unat s"
  shows "ref_count (s - REFERENCE) = ref_count s - 1" "n < 8 \<Longrightarrow> bit (s - REFERENCE) n = bit s n"
proof -
  have u: "unat (s - REFERENCE) = unat s - 256"
    using assms by (simp add: unat_sub word_le_nat_alt)
  show "ref_count (s - REFERENCE) = ref_count s - 1" using assms by (simp add: ref_count_div u)
  show "bit (s - REFERENCE) n = bit s n" if "n < 8"
    using that assms by (intro bit_low_eq) (simp_all add: u le_mod_geq)
qed

lemma reference_le: "256 \<le> unat s \<longleftrightarrow> 0 < ref_count s"
  by (simp add: ref_count_div div_greater_zero_iff)

text \<open>\<open>state & !(REFERENCE - 1) == 0\<close> tests that no reference is left.\<close>

lemma no_reference [simp]: "s AND NOT (REFERENCE - 1) = 0 \<longleftrightarrow> ref_count s = 0"
proof -
  have m: "REFERENCE - 1 = mask 8" by (simp add: REFERENCE_def push_bit_eq_mult mask_eq_exp_minus_1)
  have "s AND NOT (mask 8) = push_bit 8 (drop_bit 8 s)"
    by (rule bit_eqI) (auto simp: bit_simps)
  moreover have "push_bit 8 (drop_bit 8 s) = 0 \<longleftrightarrow> drop_bit 8 s = 0"
  proof
    assume "push_bit 8 (drop_bit 8 s) = 0"
    then have "drop_bit 8 (push_bit 8 (drop_bit 8 s)) = 0" by simp
    moreover have "drop_bit 8 (push_bit 8 (drop_bit 8 s)) = drop_bit 8 s"
      by (rule bit_eqI) (auto simp: bit_simps dest: bit_imp_possible_bit)
    ultimately show "drop_bit 8 s = 0" by simp
  qed simp
  ultimately show ?thesis by (simp add: m ref_count_def unat_eq_0)
qed

lemma no_reference_closed [simp]:
  "s AND (NOT (REFERENCE - 1) OR TASK_CLOSED) = 0 \<longleftrightarrow> ref_count s = 0 \<and> \<not> bit s 3"
  by (simp add: and_or_eq_0)

end
