(* ===== verification/Task_Machine.thy ===== *)
theory Task_Machine
  imports Task_State Stream_Core
begin

text \<open>
  The task cell and its operations (src/cynthia/src/runtime/task), one atomic access at a
  time. A task is the allocation that \<open>RawTask::allocate\<close> makes: the header with the state
  word and the awaiter, the schedule function, and the union of the future and its output.
  It is shared by wakers, by the \<open>Runnable\<close> and by the \<open>Task\<close> handle.

  A thread is a list of instructions that it still has to execute. An instruction makes one
  access to the shared memory and is replaced by the instructions that follow it. The
  instructions \<open>H_Waker\<close>, \<open>H_Runnable\<close> and \<open>H_Task\<close> are handles at rest; the choice given with
  the step says which method is called on them. The same goes for \<open>Poll_Future\<close>, the user's
  future while it is polled: it may clone or use the waker of its context, and it finishes
  ready, pending or with a panic.

  \<open>sz\<close> is \<open>mem::size_of::<S>() > 0\<close> for the schedule function's type \<open>S\<close>. \<open>ww\<close> is
  \<open>Waker::will_wake\<close>. A step fails with \<open>Dangling\<close> when it touches freed memory or a union
  field that is not initialised, and with \<open>Aborted\<close> where the code aborts the process.
\<close>

section \<open>The cell\<close>

datatype 'a task_union = Future | Output 'a | Uninit

record 'a task_cell =
  t_state :: usize
  t_awaiter :: "waker option"
  t_union :: "'a task_union"
  t_live :: bool

text \<open>The instructions of \<open>Header\<close>, of the wakers, of \<open>run\<close>, of dropping a \<open>Runnable\<close>, and of the \<open>Task\<close> handle.\<close>

datatype header_instr =
    Take "waker option" | Take_Cell "waker option" | Take_Clear "waker option" | Wake_Awaiter
  | Reg_Load waker bool | Reg_Loop waker bool usize | Reg_Store waker bool usize
  | Reg_Fin waker bool usize | Reg_Cas waker bool usize

datatype waker_instr =
    Wake | Wake_Load | Wake_Loop usize | Ref_Load | Ref_Loop usize
  | Clone | Drop_Waker | Revive | Drop_Ref | Destroy
  | Schedule | Schedule_Call | Schedule_Return

datatype 'a run_instr =
    Run_Load | Run_Loop usize | Run_Drop | Run_Clear | Run_Return bool
  | Poll_Future usize
  | Ready_Drop 'a usize | Ready_Write 'a usize | Ready_Loop usize | Ready_Discard usize
  | Pending_Loop usize bool | Pending_Drop usize

datatype guard_instr =
    Guard_Load | Guard_Loop usize | Guard_Drop usize | Guard_Clear usize | Guard_Drop_Last usize
  | Runnable_Load | Runnable_Loop usize | Runnable_Future | Runnable_Clear

datatype 'a handle_instr =
    Cancel_Load | Cancel_Loop usize
  | Detach_First | Detach_Loop usize | Detach_Read usize
  | Task_Load waker | Task_Loop waker usize | Task_Closed waker | Task_Open waker
  | Task_Cas waker usize | Task_Output | Task_Return "'a option poll"

datatype 'a instr =
    H_Waker | H_Runnable | H_Task
  | Hd header_instr | Wk waker_instr | Rn "'a run_instr" | Gd guard_instr | Tk "'a handle_instr"

text \<open>What can be seen from outside.\<close>

datatype 'a task_event =
    Awaiter_Woken waker
  | Future_Dropped
  | Output_Written 'a
  | Output_Taken 'a
  | Output_Dropped 'a
  | Task_Polled "'a option poll"
  | Run_Returned bool
  | Freed

type_synonym 'a thread = "waker option \<times> 'a instr list"

text \<open>
  The result of an instruction: the cell, the local variable that holds a waker taken out of
  the header, the instructions that follow, the handles given away, and the events.
\<close>

type_synonym 'a outcome = "('a task_cell \<times> waker option \<times> 'a instr list \<times> 'a instr list \<times> 'a task_event list) fallible"

definition goes :: "'a task_cell \<Rightarrow> waker option \<Rightarrow> 'a instr list \<Rightarrow> 'a outcome" where
  "goes c ret code = Inr (c, ret, code, [], [])"

text \<open>
  \<open>compare_exchange_weak\<close>: \<open>sp\<close> is a spurious failure.
\<close>

definition cas_weak :: "bool \<Rightarrow> 'a task_cell \<Rightarrow> usize \<Rightarrow> usize \<Rightarrow> ('a task_cell \<Rightarrow> 'a outcome) \<Rightarrow> (usize \<Rightarrow> 'a outcome) \<Rightarrow> 'a outcome" where
  "cas_weak sp c state new ok err =
     (if t_state c = state \<and> \<not> sp then ok (c\<lparr>t_state := new\<rparr>) else err (t_state c))"

text \<open>The checked \<open>+\<close> and \<open>-\<close> of \<open>usize\<close> on the state word.\<close>

definition plus_reference :: "usize \<Rightarrow> usize fallible" where
  "plus_reference s = (if unat s + unat REFERENCE < 2 ^ 64 then Inr (s + REFERENCE) else Inl Overflow)"

definition minus_reference :: "usize \<Rightarrow> usize fallible" where
  "minus_reference s = (if unat REFERENCE \<le> unat s then Inr (s - REFERENCE) else Inl Overflow)"

section \<open>Header\<close>

text \<open>\<open>Header::take\<close> in three accesses; \<open>Header::notify\<close> is \<open>take\<close> and then waking the result.\<close>

definition take_start :: "waker option \<Rightarrow> 'a task_cell \<Rightarrow> 'a outcome" where
  "take_start current c =
     (let state = t_state c; c' = c\<lparr>t_state := state OR NOTIFYING\<rparr> in
      if state AND (NOTIFYING OR REGISTERING) = 0 then goes c' None [Hd (Take_Cell current)]
      else goes c' None [])"

definition take_cell :: "waker option \<Rightarrow> 'a task_cell \<Rightarrow> 'a outcome" where
  "take_cell current c = goes (c\<lparr>t_awaiter := None\<rparr>) (t_awaiter c) [Hd (Take_Clear current)]"

definition take_clear :: "(waker \<Rightarrow> waker \<Rightarrow> bool) \<Rightarrow> waker option \<Rightarrow> waker option \<Rightarrow> 'a task_cell \<Rightarrow> 'a outcome" where
  "take_clear ww current ret c =
     goes (c\<lparr>t_state := t_state c AND NOT NOTIFYING AND NOT AWAITER\<rparr>)
       (case ret of
          None \<Rightarrow> None
        | Some w \<Rightarrow> (case current of None \<Rightarrow> Some w | Some cu \<Rightarrow> if \<not> ww w cu then Some w else None)) []"

definition wake_awaiter :: "waker option \<Rightarrow> 'a task_cell \<Rightarrow> 'a outcome" where
  "wake_awaiter ret c = Inr (c, None, [], [], case ret of None \<Rightarrow> [] | Some w \<Rightarrow> [Awaiter_Woken w])"

definition notify :: "waker option \<Rightarrow> 'a instr list" where
  "notify current = [Hd (Take current), Hd Wake_Awaiter]"

text \<open>
  \<open>Header::register\<close>. The boolean is the place in \<open>poll_task\<close> that called it: after the call
  the state is loaded again.
\<close>

definition register_return :: "waker \<Rightarrow> bool \<Rightarrow> 'a instr" where
  "register_return w closed = (Tk (if closed then Task_Closed w else Task_Open w))"

definition register_load :: "waker \<Rightarrow> bool \<Rightarrow> 'a task_cell \<Rightarrow> 'a outcome" where
  "register_load w b c = goes c None [Hd (Reg_Loop w b (t_state c))]"

definition register_loop :: "bool \<Rightarrow> waker \<Rightarrow> bool \<Rightarrow> usize \<Rightarrow> 'a task_cell \<Rightarrow> 'a outcome" where
  "register_loop sp w b state c =
     (if state AND REGISTERING \<noteq> 0 then Inl AssertFailed
      else if state AND NOTIFYING \<noteq> 0 then Inr (c, None, [register_return w b], [], [Awaiter_Woken w])
      else cas_weak sp c state (state OR REGISTERING)
        (\<lambda>c'. goes c' None [Hd (Reg_Store w b (state OR REGISTERING))])
        (\<lambda>s. goes c None [Hd (Reg_Loop w b s)]))"

definition register_store :: "waker \<Rightarrow> bool \<Rightarrow> usize \<Rightarrow> 'a task_cell \<Rightarrow> 'a outcome" where
  "register_store w b state c = goes (c\<lparr>t_awaiter := Some w\<rparr>) None [Hd (Reg_Fin w b state)]"

definition register_take :: "waker \<Rightarrow> bool \<Rightarrow> usize \<Rightarrow> waker option \<Rightarrow> 'a task_cell \<Rightarrow> 'a outcome" where
  "register_take w b state ret c =
     (if state AND NOTIFYING \<noteq> 0
      then goes (c\<lparr>t_awaiter := None\<rparr>) (case t_awaiter c of Some w' \<Rightarrow> Some w' | None \<Rightarrow> ret) [Hd (Reg_Cas w b state)]
      else goes c ret [Hd (Reg_Cas w b state)])"

definition register_cas :: "bool \<Rightarrow> waker \<Rightarrow> bool \<Rightarrow> usize \<Rightarrow> waker option \<Rightarrow> 'a task_cell \<Rightarrow> 'a outcome" where
  "register_cas sp w b state ret c =
     (let new = (if ret = None then (state AND NOT NOTIFYING AND NOT REGISTERING) OR AWAITER
                 else state AND NOT NOTIFYING AND NOT REGISTERING AND NOT AWAITER) in
      cas_weak sp c state new
        (\<lambda>c'. goes c' ret [Hd Wake_Awaiter, register_return w b])
        (\<lambda>s. goes c ret [Hd (Reg_Fin w b s)]))"

section \<open>RawTask: wakers\<close>

definition raw_wake :: "bool \<Rightarrow> 'a task_cell \<Rightarrow> 'a outcome" where
  "raw_wake sz c = goes c None (if sz then [Wk Ref_Load, Wk Drop_Waker] else [Wk Wake_Load])"

definition wake_loop :: "bool \<Rightarrow> usize \<Rightarrow> 'a task_cell \<Rightarrow> 'a outcome" where
  "wake_loop sp state c =
     (if state AND (COMPLETED OR TASK_CLOSED) \<noteq> 0 then goes c None [Wk Drop_Waker]
      else if state AND SCHEDULED \<noteq> 0 then
        cas_weak sp c state state (\<lambda>c'. goes c' None [Wk Drop_Waker]) (\<lambda>s. goes c None [Wk (Wake_Loop s)])
      else
        cas_weak sp c state (state OR SCHEDULED)
          (\<lambda>c'. if state AND RUNNING = 0 then goes c' None [Wk Schedule] else goes c' None [Wk Drop_Waker])
          (\<lambda>s. goes c None [Wk (Wake_Loop s)]))"

definition wake_by_ref_loop :: "bool \<Rightarrow> usize \<Rightarrow> 'a task_cell \<Rightarrow> 'a outcome" where
  "wake_by_ref_loop sp state c =
     (if state AND (COMPLETED OR TASK_CLOSED) \<noteq> 0 then goes c None []
      else if state AND SCHEDULED \<noteq> 0 then
        cas_weak sp c state state (\<lambda>c'. goes c' None []) (\<lambda>s. goes c None [Wk (Ref_Loop s)])
      else
        bind_fallible (if state AND RUNNING = 0 then plus_reference (state OR SCHEDULED) else Inr (state OR SCHEDULED)) (\<lambda>new.
        cas_weak sp c state new
          (\<lambda>c'. if state AND RUNNING = 0 then
                  (if unat state > isize_max then Inl Aborted else goes c' None [Wk Schedule_Call, Wk Schedule_Return])
                else goes c' None [])
          (\<lambda>s. goes c None [Wk (Ref_Loop s)])))"

text \<open>\<open>fetch_add\<close> wraps around; a count that has reached the sign bit aborts the process.\<close>

definition clone_waker :: "'a task_cell \<Rightarrow> 'a task_cell fallible" where
  "clone_waker c =
     (if unat (t_state c) > isize_max then Inl Aborted else Inr (c\<lparr>t_state := t_state c + REFERENCE\<rparr>))"

definition drop_waker :: "'a task_cell \<Rightarrow> 'a outcome" where
  "drop_waker c =
     bind_fallible (minus_reference (t_state c)) (\<lambda>new.
     let c' = c\<lparr>t_state := t_state c - REFERENCE\<rparr> in
     if new AND NOT (REFERENCE - 1) = 0 \<and> new AND TASK = 0 then
       (if new AND (COMPLETED OR TASK_CLOSED) = 0 then goes c' None [Wk Revive] else goes c' None [Wk Destroy])
     else goes c' None [])"

definition revive :: "'a task_cell \<Rightarrow> 'a outcome" where
  "revive c = goes (c\<lparr>t_state := SCHEDULED OR TASK_CLOSED OR REFERENCE\<rparr>) None [Wk Schedule]"

text \<open>Dropping a reference keeps the local variable that holds the awaiter.\<close>

definition drop_ref :: "waker option \<Rightarrow> 'a task_cell \<Rightarrow> 'a outcome" where
  "drop_ref ret c =
     bind_fallible (minus_reference (t_state c)) (\<lambda>new.
     let c' = c\<lparr>t_state := t_state c - REFERENCE\<rparr> in
     if new AND NOT (REFERENCE - 1) = 0 \<and> new AND TASK = 0 then goes c' ret [Wk Destroy] else goes c' ret [])"

text \<open>
  \<open>RawTask::schedule\<close>. A schedule function with a size lives in the task, so the code holds
  a waker until the call returns.
\<close>

definition raw_schedule :: "bool \<Rightarrow> 'a task_cell \<Rightarrow> 'a outcome" where
  "raw_schedule sz c =
     (if sz then bind_fallible (clone_waker c) (\<lambda>c'. goes c' None [Wk Schedule_Call, Wk Schedule_Return, Wk Drop_Waker])
      else goes c None [Wk Schedule_Call, Wk Schedule_Return])"

definition schedule_call :: "'a task_cell \<Rightarrow> 'a outcome" where
  "schedule_call c = Inr (c, None, [], [H_Runnable], [])"

definition drop_future :: "'a task_cell \<Rightarrow> waker option \<Rightarrow> 'a instr list \<Rightarrow> 'a outcome" where
  "drop_future c ret code =
     (case t_union c of Future \<Rightarrow> Inr (c\<lparr>t_union := Uninit\<rparr>, ret, code, [], [Future_Dropped]) | _ \<Rightarrow> Inl Dangling)"

text \<open>Reading the output moves it out; dropping it in place ends its life as well.\<close>

definition move_output :: "('a \<Rightarrow> 'a task_event list) \<Rightarrow> 'a task_cell \<Rightarrow> 'a instr list \<Rightarrow> 'a outcome" where
  "move_output ev c code =
     (case t_union c of Output v \<Rightarrow> Inr (c\<lparr>t_union := Uninit\<rparr>, None, code, [], ev v) | _ \<Rightarrow> Inl Dangling)"

definition destroy :: "waker option \<Rightarrow> 'a task_cell \<Rightarrow> 'a outcome" where
  "destroy ret c = Inr (c\<lparr>t_live := False\<rparr>, ret, [], [], [Freed])"

section \<open>RawTask::run\<close>

text \<open>What follows the last access of a run: take the awaiter, drop the reference, wake.\<close>

definition finish_run :: "usize \<Rightarrow> 'a instr list" where
  "finish_run state =
     (if state AND AWAITER \<noteq> 0 then [Hd (Take None), Wk Drop_Ref, Hd Wake_Awaiter] else [Wk Drop_Ref])"

definition run_loop :: "bool \<Rightarrow> usize \<Rightarrow> 'a task_cell \<Rightarrow> 'a outcome" where
  "run_loop sp state c =
     (if state AND TASK_CLOSED \<noteq> 0 then goes c None [Rn Run_Drop]
      else cas_weak sp c state ((state AND NOT SCHEDULED) OR RUNNING)
        (\<lambda>c'. goes c' None [Rn (Poll_Future ((state AND NOT SCHEDULED) OR RUNNING))])
        (\<lambda>s. goes c None [Rn (Run_Loop s)]))"

definition run_clear :: "'a task_cell \<Rightarrow> 'a outcome" where
  "run_clear c =
     goes (c\<lparr>t_state := t_state c AND NOT SCHEDULED\<rparr>) None (finish_run (t_state c) @ [Rn (Run_Return False)])"

definition ready_write :: "'a \<Rightarrow> usize \<Rightarrow> 'a task_cell \<Rightarrow> 'a outcome" where
  "ready_write out state c = Inr (c\<lparr>t_union := Output out\<rparr>, None, [Rn (Ready_Loop state)], [], [Output_Written out])"

definition ready_loop :: "bool \<Rightarrow> usize \<Rightarrow> 'a task_cell \<Rightarrow> 'a outcome" where
  "ready_loop sp state c =
     (let new = (if state AND TASK = 0 then (state AND NOT RUNNING AND NOT SCHEDULED) OR COMPLETED OR TASK_CLOSED
                 else (state AND NOT RUNNING AND NOT SCHEDULED) OR COMPLETED) in
      cas_weak sp c state new
        (\<lambda>c'. if state AND TASK = 0 \<or> state AND TASK_CLOSED \<noteq> 0 then goes c' None [Rn (Ready_Discard state)]
               else goes c' None (finish_run state @ [Rn (Run_Return False)]))
        (\<lambda>s. goes c None [Rn (Ready_Loop s)]))"

definition ready_discard :: "usize \<Rightarrow> 'a task_cell \<Rightarrow> 'a outcome" where
  "ready_discard state c = move_output (\<lambda>v. [Output_Dropped v]) c (finish_run state @ [Rn (Run_Return False)])"

definition pending_loop :: "bool \<Rightarrow> usize \<Rightarrow> bool \<Rightarrow> 'a task_cell \<Rightarrow> 'a outcome" where
  "pending_loop sp state future_dropped c =
     (let new = (if state AND TASK_CLOSED \<noteq> 0 then state AND NOT RUNNING AND NOT SCHEDULED else state AND NOT RUNNING) in
      if state AND TASK_CLOSED \<noteq> 0 \<and> \<not> future_dropped then goes c None [Rn (Pending_Drop state)]
      else cas_weak sp c state new
        (\<lambda>c'. if state AND TASK_CLOSED \<noteq> 0 then goes c' None (finish_run state @ [Rn (Run_Return False)])
               else if state AND SCHEDULED \<noteq> 0 then goes c' None [Wk Schedule, Rn (Run_Return True)]
               else goes c' None [Wk Drop_Ref, Rn (Run_Return False)])
        (\<lambda>s. goes c None [Rn (Pending_Loop s future_dropped)]))"

text \<open>\<open>Guard::drop\<close>: the future has panicked while it was polled.\<close>

definition guard_loop :: "bool \<Rightarrow> usize \<Rightarrow> 'a task_cell \<Rightarrow> 'a outcome" where
  "guard_loop sp state c =
     (if state AND TASK_CLOSED \<noteq> 0 then goes c None [Gd (Guard_Drop state)]
      else cas_weak sp c state ((state AND NOT RUNNING AND NOT SCHEDULED) OR TASK_CLOSED)
        (\<lambda>c'. goes c' None [Gd (Guard_Drop_Last state)])
        (\<lambda>s. goes c None [Gd (Guard_Loop s)]))"

definition guard_clear :: "usize \<Rightarrow> 'a task_cell \<Rightarrow> 'a outcome" where
  "guard_clear state c = goes (c\<lparr>t_state := t_state c AND NOT RUNNING AND NOT SCHEDULED\<rparr>) None (finish_run state)"

section \<open>Dropping a Runnable\<close>

definition runnable_loop :: "bool \<Rightarrow> usize \<Rightarrow> 'a task_cell \<Rightarrow> 'a outcome" where
  "runnable_loop sp state c =
     (if state AND (COMPLETED OR TASK_CLOSED) \<noteq> 0 then goes c None [Gd Runnable_Future]
      else cas_weak sp c state (state OR TASK_CLOSED)
        (\<lambda>c'. goes c' None [Gd Runnable_Future])
        (\<lambda>s. goes c None [Gd (Runnable_Loop s)]))"

definition runnable_clear :: "'a task_cell \<Rightarrow> 'a outcome" where
  "runnable_clear c =
     goes (c\<lparr>t_state := t_state c AND NOT SCHEDULED\<rparr>) None
       (if t_state c AND AWAITER \<noteq> 0 then notify None @ [Wk Drop_Ref] else [Wk Drop_Ref])"

section \<open>The Task handle\<close>

definition cancel_loop :: "bool \<Rightarrow> usize \<Rightarrow> 'a task_cell \<Rightarrow> 'a outcome" where
  "cancel_loop sp state c =
     (if state AND (COMPLETED OR TASK_CLOSED) \<noteq> 0 then goes c None []
      else
        bind_fallible (if state AND (SCHEDULED OR RUNNING) = 0 then plus_reference (state OR SCHEDULED OR TASK_CLOSED)
                       else Inr (state OR TASK_CLOSED)) (\<lambda>new.
        cas_weak sp c state new
          (\<lambda>c'. goes c' None ((if state AND (SCHEDULED OR RUNNING) = 0 then [Wk Schedule] else []) @
                              (if state AND AWAITER \<noteq> 0 then notify None else [])))
          (\<lambda>s. goes c None [Tk (Cancel_Loop s)])))"

definition detach_first :: "bool \<Rightarrow> 'a task_cell \<Rightarrow> 'a outcome" where
  "detach_first sp c =
     cas_weak sp c (SCHEDULED OR TASK OR REFERENCE) (SCHEDULED OR REFERENCE)
       (\<lambda>c'. goes c' None []) (\<lambda>s. goes c None [Tk (Detach_Loop s)])"

definition detach_loop :: "bool \<Rightarrow> usize \<Rightarrow> 'a task_cell \<Rightarrow> 'a outcome" where
  "detach_loop sp state c =
     (if state AND COMPLETED \<noteq> 0 \<and> state AND TASK_CLOSED = 0 then
        cas_weak sp c state (state OR TASK_CLOSED)
          (\<lambda>c'. goes c' None [Tk (Detach_Read (state OR TASK_CLOSED))])
          (\<lambda>s. goes c None [Tk (Detach_Loop s)])
      else
        let new = (if state AND (NOT (REFERENCE - 1) OR TASK_CLOSED) = 0 then SCHEDULED OR TASK_CLOSED OR REFERENCE
                   else state AND NOT TASK) in
        cas_weak sp c state new
          (\<lambda>c'. if state AND NOT (REFERENCE - 1) = 0 then
                  (if state AND TASK_CLOSED = 0 then goes c' None [Wk Schedule] else goes c' None [Wk Destroy])
                else goes c' None [])
          (\<lambda>s. goes c None [Tk (Detach_Loop s)]))"

definition task_loop :: "waker \<Rightarrow> usize \<Rightarrow> 'a task_cell \<Rightarrow> 'a outcome" where
  "task_loop w state c =
     (if state AND TASK_CLOSED \<noteq> 0 then
        (if state AND (SCHEDULED OR RUNNING) \<noteq> 0 then goes c None [Hd (Reg_Load w True)]
         else goes c None (notify (Some w) @ [Tk (Task_Return (Ready None))]))
      else if state AND COMPLETED = 0 then goes c None [Hd (Reg_Load w False)]
      else goes c None [Tk (Task_Cas w state)])"

definition task_closed :: "waker \<Rightarrow> 'a task_cell \<Rightarrow> 'a outcome" where
  "task_closed w c =
     (if t_state c AND (SCHEDULED OR RUNNING) \<noteq> 0 then goes c None [Tk (Task_Return Pending)]
      else goes c None (notify (Some w) @ [Tk (Task_Return (Ready None))]))"

definition task_open :: "waker \<Rightarrow> 'a task_cell \<Rightarrow> 'a outcome" where
  "task_open w c =
     (let state = t_state c in
      if state AND TASK_CLOSED \<noteq> 0 then goes c None [Tk (Task_Loop w state)]
      else if state AND COMPLETED = 0 then goes c None [Tk (Task_Return Pending)]
      else goes c None [Tk (Task_Cas w state)])"

definition task_cas :: "waker \<Rightarrow> usize \<Rightarrow> 'a task_cell \<Rightarrow> 'a outcome" where
  "task_cas w state c =
     cas_weak False c state (state OR TASK_CLOSED)
       (\<lambda>c'. goes c' None ((if state AND AWAITER \<noteq> 0 then notify (Some w) else []) @ [Tk Task_Output]))
       (\<lambda>s. goes c None [Tk (Task_Loop w s)])"

definition task_return :: "'a option poll \<Rightarrow> 'a task_cell \<Rightarrow> 'a outcome" where
  "task_return r c = Inr (c, None, [H_Task], [], [Task_Polled r])"

section \<open>Calls on the handles and on the future\<close>

datatype 'a task_call =
    Call_Wake | Call_Wake_By_Ref | Call_Clone | Call_Drop_Waker
  | Call_Run | Call_Schedule | Call_Waker | Call_Drop_Runnable
  | Call_Poll waker | Call_Cancel | Call_Detach | Call_Drop_Task
  | Returns_Ready 'a | Returns_Pending | Panics

fun waker_call :: "'a task_call \<Rightarrow> 'a instr list" where
  "waker_call Call_Wake = [Wk Wake]"
| "waker_call Call_Wake_By_Ref = [Wk Ref_Load, H_Waker]"
| "waker_call Call_Clone = [Wk Clone, H_Waker]"
| "waker_call Call_Drop_Waker = [Wk Drop_Waker]"
| "waker_call _ = [H_Waker]"

text \<open>The methods of \<open>Runnable\<close> and its \<open>Drop\<close>.\<close>

fun runnable_call :: "'a task_call \<Rightarrow> 'a instr list" where
  "runnable_call Call_Run = [Rn Run_Load]"
| "runnable_call Call_Schedule = [Wk Schedule]"
| "runnable_call Call_Waker = [Wk Clone, H_Runnable]"
| "runnable_call Call_Drop_Runnable = [Gd Runnable_Load]"
| "runnable_call _ = [H_Runnable]"

text \<open>
  The methods of \<open>Task\<close> and its \<open>Drop\<close>. \<open>cancel\<close> marks the task and then polls it; the
  polls are calls of their own.
\<close>

fun handle_call :: "'a task_call \<Rightarrow> 'a instr list" where
  "handle_call (Call_Poll w) = [Tk (Task_Load w)]"
| "handle_call Call_Cancel = [Tk Cancel_Load, H_Task]"
| "handle_call Call_Detach = [Tk Detach_First]"
| "handle_call Call_Drop_Task = [Tk Cancel_Load, Tk Detach_First]"
| "handle_call _ = [H_Task]"

fun future_call :: "usize \<Rightarrow> 'a task_call \<Rightarrow> 'a instr list" where
  "future_call state Call_Clone = [Wk Clone, Rn (Poll_Future state)]"
| "future_call state Call_Wake_By_Ref = [Wk Ref_Load, Rn (Poll_Future state)]"
| "future_call state (Returns_Ready out) = [Rn (Ready_Drop out state)]"
| "future_call state Returns_Pending = [Rn (Pending_Loop state False)]"
| "future_call state Panics = [Gd Guard_Load]"
| "future_call state _ = [Rn (Poll_Future state)]"

section \<open>Steps\<close>

text \<open>The instructions that do not access the task's memory.\<close>

fun touches :: "bool \<Rightarrow> 'a instr \<Rightarrow> bool" where
  "touches sz (Hd i) \<longleftrightarrow> i \<noteq> Wake_Awaiter"
| "touches sz (Wk i) \<longleftrightarrow> i \<noteq> Wake \<and> (i \<in> {Schedule_Call, Schedule_Return} \<longrightarrow> sz)"
| "touches sz (Rn (Run_Return _)) = False"
| "touches sz (Rn _) = True"
| "touches sz (Gd _) = True"
| "touches sz (Tk (Task_Return _)) = False"
| "touches sz (Tk _) = True"
| "touches sz _ = False"

fun header_step :: "(waker \<Rightarrow> waker \<Rightarrow> bool) \<Rightarrow> bool \<Rightarrow> header_instr \<Rightarrow> waker option \<Rightarrow> 'a task_cell \<Rightarrow> 'a outcome" where
  "header_step ww sp (Take cu) ret c = take_start cu c"
| "header_step ww sp (Take_Cell cu) ret c = take_cell cu c"
| "header_step ww sp (Take_Clear cu) ret c = take_clear ww cu ret c"
| "header_step ww sp Wake_Awaiter ret c = wake_awaiter ret c"
| "header_step ww sp (Reg_Load w b) ret c = register_load w b c"
| "header_step ww sp (Reg_Loop w b s) ret c = register_loop sp w b s c"
| "header_step ww sp (Reg_Store w b s) ret c = register_store w b s c"
| "header_step ww sp (Reg_Fin w b s) ret c = register_take w b s ret c"
| "header_step ww sp (Reg_Cas w b s) ret c = register_cas sp w b s ret c"

fun waker_step :: "bool \<Rightarrow> bool \<Rightarrow> waker_instr \<Rightarrow> waker option \<Rightarrow> 'a task_cell \<Rightarrow> 'a outcome" where
  "waker_step sz sp Wake ret c = raw_wake sz c"
| "waker_step sz sp Wake_Load ret c = goes c None [Wk (Wake_Loop (t_state c))]"
| "waker_step sz sp (Wake_Loop s) ret c = wake_loop sp s c"
| "waker_step sz sp Ref_Load ret c = goes c None [Wk (Ref_Loop (t_state c))]"
| "waker_step sz sp (Ref_Loop s) ret c = wake_by_ref_loop sp s c"
| "waker_step sz sp Clone ret c = bind_fallible (clone_waker c) (\<lambda>c'. Inr (c', None, [], [H_Waker], []))"
| "waker_step sz sp Drop_Waker ret c = drop_waker c"
| "waker_step sz sp Revive ret c = revive c"
| "waker_step sz sp Drop_Ref ret c = drop_ref ret c"
| "waker_step sz sp Destroy ret c = destroy ret c"
| "waker_step sz sp Schedule ret c = raw_schedule sz c"
| "waker_step sz sp Schedule_Call ret c = schedule_call c"
| "waker_step sz sp Schedule_Return ret c = goes c None []"

fun run_step :: "bool \<Rightarrow> 'a task_call \<Rightarrow> 'a run_instr \<Rightarrow> 'a task_cell \<Rightarrow> 'a outcome" where
  "run_step sp k Run_Load c = goes c None [Rn (Run_Loop (t_state c))]"
| "run_step sp k (Run_Loop s) c = run_loop sp s c"
| "run_step sp k Run_Drop c = drop_future c None [Rn Run_Clear]"
| "run_step sp k Run_Clear c = run_clear c"
| "run_step sp k (Run_Return b) c = Inr (c, None, [], [], [Run_Returned b])"
| "run_step sp k (Poll_Future s) c = goes c None (future_call s k)"
| "run_step sp k (Ready_Drop v s) c = drop_future c None [Rn (Ready_Write v s)]"
| "run_step sp k (Ready_Write v s) c = ready_write v s c"
| "run_step sp k (Ready_Loop s) c = ready_loop sp s c"
| "run_step sp k (Ready_Discard s) c = ready_discard s c"
| "run_step sp k (Pending_Loop s d) c = pending_loop sp s d c"
| "run_step sp k (Pending_Drop s) c = drop_future c None [Rn (Pending_Loop s True)]"

fun guard_step :: "bool \<Rightarrow> guard_instr \<Rightarrow> 'a task_cell \<Rightarrow> 'a outcome" where
  "guard_step sp Guard_Load c = goes c None [Gd (Guard_Loop (t_state c))]"
| "guard_step sp (Guard_Loop s) c = guard_loop sp s c"
| "guard_step sp (Guard_Drop s) c = drop_future c None [Gd (Guard_Clear s)]"
| "guard_step sp (Guard_Clear s) c = guard_clear s c"
| "guard_step sp (Guard_Drop_Last s) c = drop_future c None (finish_run s)"
| "guard_step sp Runnable_Load c = goes c None [Gd (Runnable_Loop (t_state c))]"
| "guard_step sp (Runnable_Loop s) c = runnable_loop sp s c"
| "guard_step sp Runnable_Future c = drop_future c None [Gd Runnable_Clear]"
| "guard_step sp Runnable_Clear c = runnable_clear c"

fun handle_step :: "bool \<Rightarrow> 'a handle_instr \<Rightarrow> 'a task_cell \<Rightarrow> 'a outcome" where
  "handle_step sp Cancel_Load c = goes c None [Tk (Cancel_Loop (t_state c))]"
| "handle_step sp (Cancel_Loop s) c = cancel_loop sp s c"
| "handle_step sp Detach_First c = detach_first sp c"
| "handle_step sp (Detach_Loop s) c = detach_loop sp s c"
| "handle_step sp (Detach_Read s) c = move_output (\<lambda>v. [Output_Taken v]) c [Tk (Detach_Loop s)]"
| "handle_step sp (Task_Load w) c = goes c None [Tk (Task_Loop w (t_state c))]"
| "handle_step sp (Task_Loop w s) c = task_loop w s c"
| "handle_step sp (Task_Closed w) c = task_closed w c"
| "handle_step sp (Task_Open w) c = task_open w c"
| "handle_step sp (Task_Cas w s) c = task_cas w s c"
| "handle_step sp Task_Output c = move_output (\<lambda>v. [Output_Taken v, Task_Polled (Ready (Some v))]) c [H_Task]"
| "handle_step sp (Task_Return r) c = task_return r c"

fun instr_step :: "bool \<Rightarrow> (waker \<Rightarrow> waker \<Rightarrow> bool) \<Rightarrow> bool \<Rightarrow> 'a task_call \<Rightarrow> 'a instr \<Rightarrow> waker option \<Rightarrow> 'a task_cell \<Rightarrow> 'a outcome" where
  "instr_step sz ww sp k H_Waker ret c = goes c None (waker_call k)"
| "instr_step sz ww sp k H_Runnable ret c = goes c None (runnable_call k)"
| "instr_step sz ww sp k H_Task ret c = goes c None (handle_call k)"
| "instr_step sz ww sp k (Hd i) ret c = header_step ww sp i ret c"
| "instr_step sz ww sp k (Wk i) ret c = waker_step sz sp i ret c"
| "instr_step sz ww sp k (Rn i) ret c = run_step sp k i c"
| "instr_step sz ww sp k (Gd i) ret c = guard_step sp i c"
| "instr_step sz ww sp k (Tk i) ret c = handle_step sp i c"

definition exec_instr :: "bool \<Rightarrow> (waker \<Rightarrow> waker \<Rightarrow> bool) \<Rightarrow> bool \<Rightarrow> 'a task_call \<Rightarrow> 'a instr \<Rightarrow> waker option \<Rightarrow> 'a task_cell \<Rightarrow> 'a outcome" where
  "exec_instr sz ww sp k i ret c =
     (if touches sz i \<and> \<not> t_live c then Inl Dangling else instr_step sz ww sp k i ret c)"

record 'a task_config =
  cfg_cell :: "'a task_cell"
  cfg_threads :: "'a thread list"
  cfg_log :: "'a task_event list"

text \<open>A step: which thread moves, whether a weak exchange fails spuriously, which call is made.\<close>

type_synonym 'a choice = "nat \<times> bool \<times> 'a task_call"

definition task_step :: "bool \<Rightarrow> (waker \<Rightarrow> waker \<Rightarrow> bool) \<Rightarrow> 'a task_config \<Rightarrow> 'a choice \<Rightarrow> 'a task_config fallible" where
  "task_step sz ww g ch =
     (case ch of (n, sp, k) \<Rightarrow>
      if n < length (cfg_threads g) then
        (case cfg_threads g ! n of
           (ret, []) \<Rightarrow> Inr g
         | (ret, i # code) \<Rightarrow>
             bind_fallible (exec_instr sz ww sp k i ret (cfg_cell g)) (\<lambda>(c, ret', code', new, evs).
             Inr \<lparr>cfg_cell = c,
                  cfg_threads = (cfg_threads g)[n := (ret', code' @ code)] @ map (\<lambda>h. (None, [h])) new,
                  cfg_log = cfg_log g @ evs\<rparr>))
      else Inr g)"

fun task_run :: "bool \<Rightarrow> (waker \<Rightarrow> waker \<Rightarrow> bool) \<Rightarrow> 'a task_config \<Rightarrow> 'a choice list \<Rightarrow> 'a task_config fallible" where
  "task_run sz ww g [] = Inr g"
| "task_run sz ww g (ch # chs) = bind_fallible (task_step sz ww g ch) (\<lambda>g'. task_run sz ww g' chs)"

text \<open>\<open>RawTask::allocate\<close> and \<open>spawn_unchecked\<close>: a new task with its runnable and its handle.\<close>

definition task_allocate :: "'a task_cell" where
  "task_allocate = \<lparr>t_state = SCHEDULED OR TASK OR REFERENCE, t_awaiter = None, t_union = Future, t_live = True\<rparr>"

definition task_spawn :: "'a task_config" where
  "task_spawn = \<lparr>cfg_cell = task_allocate, cfg_threads = [(None, [H_Runnable]), (None, [H_Task])], cfg_log = []\<rparr>"

end
