(* ===== verification/Token_Count.thy ===== *)
theory Token_Count
  imports Cynthia_Prelude "HOL-Library.Multiset"
begin

text \<open>
  Counting arguments for threads: every program point carries a number of tokens, and the
  invariants of the shared state speak of their total over all threads.
\<close>

definition tokens :: "('i \<Rightarrow> nat) \<Rightarrow> 'i multiset \<Rightarrow> nat" where
  "tokens f M = (\<Sum>i\<in>#M. f i)"

lemma tokens_simps [simp]: "tokens f {#} = 0" "tokens f (add_mset i M) = f i + tokens f M" "tokens f (M + N) = tokens f M + tokens f N"
  by (simp_all add: tokens_def)

lemma tokens_mono: "(\<And>i. f i \<le> g i) \<Longrightarrow> tokens f M \<le> tokens g M"
  by (induction M) (auto intro: add_mono)

lemma tokens_0: "tokens f M = 0 \<Longrightarrow> i \<in># M \<Longrightarrow> f i = 0"
  by (simp add: tokens_def)

lemma tokens_plus: "tokens (\<lambda>i. f i + g i) M = tokens f M + tokens g M"
  by (simp add: tokens_def sum_mset.distrib)

lemma tokens_sum_list: "tokens f (\<Sum>x\<leftarrow>xs. g x) = (\<Sum>x\<leftarrow>xs. tokens f (g x))"
  by (induction xs) simp_all

lemma tokens_ge: "j \<in># M \<Longrightarrow> f j \<le> tokens f M"
  by (metis insert_DiffM le_add1 tokens_simps(2))

end
