(* ===== verification/Task_Tokens.thy ===== *)
theory Task_Tokens
  imports Task_Machine Token_Count
begin

text \<open>
  Safety of the task cell under every interleaving. Each instruction that a thread still has
  to execute carries tokens: the references it owns, the \<open>Task\<close> handle, the right to run
  the future, the ownership of the union, the two locks of the awaiter field. The invariant
  relates the totals of the tokens to the flags and the count in the state word.
\<close>

section \<open>Tokens\<close>

text \<open>References owned.\<close>

fun refs :: "'a instr \<Rightarrow> nat" where
  "refs H_Waker = 1"
| "refs H_Runnable = 1"
| "refs H_Task = 0"
| "refs (Hd _) = 0"
| "refs (Wk i) = (case i of Wake \<Rightarrow> 1 | Wake_Load \<Rightarrow> 1 | Wake_Loop _ \<Rightarrow> 1 | Drop_Waker \<Rightarrow> 1 | Drop_Ref \<Rightarrow> 1
     | Schedule \<Rightarrow> 1 | Schedule_Call \<Rightarrow> 1 | _ \<Rightarrow> 0)"
| "refs (Rn i) = (case i of Run_Return _ \<Rightarrow> 0 | _ \<Rightarrow> 1)"
| "refs (Gd _) = 1"
| "refs (Tk _) = 0"

text \<open>The \<open>Task\<close> handle.\<close>

fun handle :: "'a instr \<Rightarrow> nat" where
  "handle H_Task = 1"
| "handle (Hd i) = (case i of Reg_Load _ _ \<Rightarrow> 1 | Reg_Loop _ _ _ \<Rightarrow> 1 | Reg_Store _ _ _ \<Rightarrow> 1
     | Reg_Fin _ _ _ \<Rightarrow> 1 | Reg_Cas _ _ _ \<Rightarrow> 1 | _ \<Rightarrow> 0)"
| "handle (Tk i) = (case i of Cancel_Load \<Rightarrow> 0 | Cancel_Loop _ \<Rightarrow> 0 | _ \<Rightarrow> 1)"
| "handle _ = 0"

text \<open>The right to run the future, and the part of it under the \<open>RUNNING\<close> flag.\<close>

fun runs_task :: "'a instr \<Rightarrow> nat" where
  "runs_task H_Runnable = 1"
| "runs_task (Wk i) = (case i of Schedule \<Rightarrow> 1 | Schedule_Call \<Rightarrow> 1 | _ \<Rightarrow> 0)"
| "runs_task (Rn i) = (case i of Run_Return _ \<Rightarrow> 0 | Ready_Discard _ \<Rightarrow> 0 | _ \<Rightarrow> 1)"
| "runs_task (Gd i) = (case i of Guard_Drop_Last _ \<Rightarrow> 0 | _ \<Rightarrow> 1)"
| "runs_task _ = 0"

fun running :: "'a instr \<Rightarrow> nat" where
  "running (Rn i) = (case i of Poll_Future _ \<Rightarrow> 1 | Ready_Drop _ _ \<Rightarrow> 1 | Ready_Write _ _ \<Rightarrow> 1 | Ready_Loop _ \<Rightarrow> 1
     | Pending_Loop _ _ \<Rightarrow> 1 | Pending_Drop _ \<Rightarrow> 1 | _ \<Rightarrow> 0)"
| "running (Gd i) = (case i of Guard_Load \<Rightarrow> 1 | Guard_Loop _ \<Rightarrow> 1 | Guard_Drop _ \<Rightarrow> 1 | Guard_Clear _ \<Rightarrow> 1 | _ \<Rightarrow> 0)"
| "running _ = 0"

text \<open>The ownership of the union, and what the owner knows about it.\<close>

fun owner :: "'a instr \<Rightarrow> nat" where
  "owner H_Runnable = 1"
| "owner (Wk i) = (case i of Schedule \<Rightarrow> 1 | Schedule_Call \<Rightarrow> 1 | _ \<Rightarrow> 0)"
| "owner (Rn i) = (case i of Run_Return _ \<Rightarrow> 0 | _ \<Rightarrow> 1)"
| "owner (Gd i) = 1"
| "owner (Tk i) = (case i of Task_Output \<Rightarrow> 1 | Detach_Read _ \<Rightarrow> 1 | _ \<Rightarrow> 0)"
| "owner _ = 0"

fun is_output :: "'a task_union \<Rightarrow> bool" where
  "is_output (Output _) = True"
| "is_output _ = False"

fun own_ok :: "'a instr \<Rightarrow> 'a task_union \<Rightarrow> bool" where
  "own_ok (Rn i) u = (case i of Run_Clear \<Rightarrow> u = Uninit | Ready_Write _ _ \<Rightarrow> u = Uninit | Ready_Loop _ \<Rightarrow> is_output u
     | Ready_Discard _ \<Rightarrow> is_output u | Pending_Loop _ d \<Rightarrow> u = (if d then Uninit else Future) | Run_Return _ \<Rightarrow> True
     | _ \<Rightarrow> u = Future)"
| "own_ok (Gd i) u = (case i of Guard_Clear _ \<Rightarrow> u = Uninit | Runnable_Clear \<Rightarrow> u = Uninit | _ \<Rightarrow> u = Future)"
| "own_ok (Tk i) u = (case i of Task_Output \<Rightarrow> is_output u | Detach_Read _ \<Rightarrow> is_output u | _ \<Rightarrow> True)"
| "own_ok i u = (owner i = 1 \<longrightarrow> u = Future)"

text \<open>The locks of the awaiter field: registering, and taking.\<close>

fun registers :: "'a instr \<Rightarrow> nat" where
  "registers (Hd i) = (case i of Reg_Store _ _ _ \<Rightarrow> 1 | Reg_Fin _ _ _ \<Rightarrow> 1 | Reg_Cas _ _ _ \<Rightarrow> 1 | _ \<Rightarrow> 0)"
| "registers _ = 0"

fun takes :: "'a instr \<Rightarrow> nat" where
  "takes (Hd i) = (case i of Take_Cell _ \<Rightarrow> 1 | Take_Clear _ \<Rightarrow> 1 | _ \<Rightarrow> 0)"
| "takes _ = 0"

text \<open>The last user of the cell, about to free it or to schedule it once more.\<close>

fun last_user :: "'a instr \<Rightarrow> nat" where
  "last_user (Wk i) = (case i of Revive \<Rightarrow> 1 | Destroy \<Rightarrow> 1 | _ \<Rightarrow> 0)"
| "last_user _ = 0"

fun revives :: "'a instr \<Rightarrow> nat" where
  "revives (Wk i) = (case i of Revive \<Rightarrow> 1 | _ \<Rightarrow> 0)"
| "revives _ = 0"

text \<open>What an instruction knows of the state word \<open>s\<close> from the value it has read earlier.\<close>

fun local_ok :: "usize \<Rightarrow> 'a instr \<Rightarrow> bool" where
  "local_ok s (Rn i) = (case i of Run_Loop l \<Rightarrow> bit l 3 \<longrightarrow> bit s 3 | Poll_Future l \<Rightarrow> bit l 3 \<longrightarrow> bit s 3 | Run_Drop \<Rightarrow> bit s 3 | Run_Clear \<Rightarrow> bit s 3
     | Pending_Loop l d \<Rightarrow> (bit l 3 \<longrightarrow> bit s 3) \<and> (d \<longrightarrow> bit l 3) | Pending_Drop l \<Rightarrow> bit l 3 \<and> bit s 3
     | Ready_Discard _ \<Rightarrow> bit s 3 | _ \<Rightarrow> True)"
| "local_ok s (Gd i) = (case i of Guard_Loop l \<Rightarrow> bit l 3 \<longrightarrow> bit s 3 | Guard_Drop _ \<Rightarrow> bit s 3 | Guard_Clear _ \<Rightarrow> bit s 3
     | Guard_Drop_Last _ \<Rightarrow> bit s 3 | Runnable_Loop l \<Rightarrow> (bit l 3 \<longrightarrow> bit s 3) \<and> (bit l 2 \<longrightarrow> bit s 2)
     | Runnable_Future \<Rightarrow> bit s 3 | Runnable_Clear \<Rightarrow> bit s 3 | _ \<Rightarrow> True)"
| "local_ok s (Wk i) = (case i of Ref_Loop l \<Rightarrow> ref_count l \<le> 2 ^ 55 + 1 | _ \<Rightarrow> True)"
| "local_ok s (Tk i) = (case i of Cancel_Loop l \<Rightarrow> ref_count l \<le> 2 ^ 55 + 1 | Task_Cas _ l \<Rightarrow> bit l 2 \<and> \<not> bit l 3 | Task_Output \<Rightarrow> bit s 3 | Detach_Read _ \<Rightarrow> bit s 3
     | Task_Return r \<Rightarrow> r \<in> {Pending, Ready None} | _ \<Rightarrow> True)"
| "local_ok s (Hd i) = (case i of Reg_Loop _ _ l \<Rightarrow> \<not> bit l 6 | _ \<Rightarrow> True)"
| "local_ok s _ = True"

text \<open>Instructions that rely on a token held further down in the same thread.\<close>

fun borrows :: "bool \<Rightarrow> 'a instr \<Rightarrow> bool" where
  "borrows sz (Hd i) = (case i of Take _ \<Rightarrow> True | Take_Cell _ \<Rightarrow> True | Take_Clear _ \<Rightarrow> True | _ \<Rightarrow> False)"
| "borrows sz (Wk i) = (case i of Ref_Load \<Rightarrow> True | Ref_Loop _ \<Rightarrow> True | Clone \<Rightarrow> True | Schedule_Return \<Rightarrow> sz | _ \<Rightarrow> False)"
| "borrows sz (Tk i) = (case i of Cancel_Load \<Rightarrow> True | Cancel_Loop _ \<Rightarrow> True | _ \<Rightarrow> False)"
| "borrows sz _ = False"

definition counts_ok :: "usize \<Rightarrow> 'a task_union \<Rightarrow> 'a instr multiset \<Rightarrow> bool" where
  "counts_ok s u M \<longleftrightarrow>
     ref_count s = tokens refs M \<and>
     tokens handle M \<le> 1 \<and> (bit s 4 \<longleftrightarrow> tokens handle M = 1) \<and>
     tokens runs_task M \<le> 1 \<and> (bit s 1 \<longleftrightarrow> tokens running M = 1) \<and>
     (bit s 1 \<longrightarrow> tokens runs_task M = 1) \<and> (\<not> bit s 1 \<longrightarrow> (bit s 0 \<longleftrightarrow> tokens runs_task M = 1)) \<and>
     tokens registers M \<le> 1 \<and> (bit s 6 \<longleftrightarrow> tokens registers M = 1) \<and>
     tokens takes M \<le> 1 \<and> (tokens takes M = 1 \<longleftrightarrow> bit s 7 \<and> \<not> bit s 6) \<and>
     tokens last_user M \<le> 1 \<and> (tokens last_user M = 1 \<longleftrightarrow> tokens refs M = 0 \<and> tokens handle M = 0) \<and>
     (0 < tokens revives M \<longrightarrow> \<not> bit s 2 \<and> \<not> bit s 3) \<and>
     tokens owner M \<le> 1 \<and> (\<not> bit s 3 \<longrightarrow> tokens owner M = tokens runs_task M) \<and>
     (bit s 2 \<longrightarrow> tokens runs_task M = 0 \<and> \<not> bit s 0) \<and>
     (bit s 2 \<longrightarrow> \<not> bit s 3 \<longrightarrow> tokens handle M = 1) \<and>
     tokens refs M \<le> 2 ^ 55 + (if bit s 3 then 1 else 0) \<and>
     (tokens owner M = 0 \<longrightarrow> bit s 3 \<longrightarrow> u = Uninit) \<and>
     (tokens owner M = 0 \<longrightarrow> \<not> bit s 3 \<longrightarrow> bit s 2 \<longrightarrow> is_output u) \<and>
     (tokens owner M = 0 \<longrightarrow> \<not> bit s 3 \<longrightarrow> \<not> bit s 2 \<longrightarrow> u = Future)"

definition cell_ok :: "'a task_cell \<Rightarrow> 'a instr multiset \<Rightarrow> bool" where
  "cell_ok c M \<longleftrightarrow> counts_ok (t_state c) (t_union c) M \<and> (\<forall>i\<in>#M. own_ok i (t_union c) \<and> local_ok (t_state c) i)"

definition free_ok :: "'a instr multiset \<Rightarrow> bool" where
  "free_ok M \<longleftrightarrow> tokens refs M = 0 \<and> tokens handle M = 0 \<and> tokens last_user M = 0"

lemma token_order:
  "runs_task i \<le> refs i" "running i \<le> runs_task i" "registers i \<le> handle i" "revives i \<le> last_user i"
  "runs_task i \<le> owner i" "owner i \<le> refs i + handle i"
  by (cases i; simp split: header_instr.split waker_instr.split run_instr.split guard_instr.split handle_instr.split)+

lemma tokens_order:
  "tokens runs_task M \<le> tokens refs M" "tokens running M \<le> tokens runs_task M" "tokens registers M \<le> tokens handle M"
  "tokens revives M \<le> tokens last_user M" "tokens runs_task M \<le> tokens owner M" "tokens owner M \<le> tokens refs M + tokens handle M"
  using tokens_mono [of owner "\<lambda>i. refs i + handle i" M] 
  by (auto intro!: tokens_mono simp: token_order tokens_plus)

lemma local_mono:
  assumes "local_ok s i" "bit s 3 \<longrightarrow> bit s' 3" "bit s 2 \<longrightarrow> bit s' 2"
  shows "local_ok s' i"
  using assms by (cases i) (auto split: header_instr.splits waker_instr.splits run_instr.splits guard_instr.splits handle_instr.splits)

lemma own_ok_free: "owner i = 0 \<Longrightarrow> own_ok i u"
  by (cases i) (auto split: header_instr.splits waker_instr.splits run_instr.splits guard_instr.splits handle_instr.splits)


section \<open>Every instruction keeps the invariant\<close>

definition cell_inv :: "'a task_cell \<Rightarrow> 'a instr list \<Rightarrow> 'a instr multiset \<Rightarrow> bool" where
  "cell_inv c code R \<longleftrightarrow> (if t_live c then cell_ok c (mset code + R) else free_ok (mset code + R))"

definition step_ok :: "'a instr multiset \<Rightarrow> 'a outcome \<Rightarrow> bool" where
  "step_ok R r \<longleftrightarrow>
     (case r of Inl p \<Rightarrow> p = Aborted | Inr (c', ret', code, new, evs) \<Rightarrow> cell_inv c' (code @ new) R)"

lemma step_ok_simps [simp]:
  "step_ok R (goes c ret code) \<longleftrightarrow> cell_inv c code R"
  "step_ok R (Inr (c, ret, code, new, evs)) \<longleftrightarrow> cell_inv c (code @ new) R"
  "step_ok R (Inl p) \<longleftrightarrow> p = Aborted"
  by (simp_all add: step_ok_def goes_def)

text \<open>The other threads keep what they know while the flags only grow and the union has another owner.\<close>

lemma others_ok:
  assumes "\<forall>i\<in>#R. own_ok i u \<and> local_ok s i" "bit s 3 \<longrightarrow> bit s' 3" "bit s 2 \<longrightarrow> bit s' 2" "u' = u \<or> tokens owner R = 0"
  shows "\<forall>i\<in>#R. own_ok i u' \<and> local_ok s' i"
proof
  fix i assume i: "i \<in># R"
  have "local_ok s' i" using assms(1-3) i local_mono by blast
  moreover have "own_ok i u'" using assms(1,4) i tokens_0 [of owner R i] own_ok_free by blast
  ultimately show "own_ok i u' \<and> local_ok s' i" by simp
qed

lemma cell_inv_step:
  assumes "cell_ok c (add_mset i R)" and "t_live c'"
    and "bit (t_state c) 3 \<Longrightarrow> bit (t_state c') 3" "bit (t_state c) 2 \<Longrightarrow> bit (t_state c') 2"
    and "t_union c' = t_union c \<or> tokens owner R = 0"
    and "\<forall>i\<in>set code. own_ok i (t_union c') \<and> local_ok (t_state c') i"
    and "counts_ok (t_state c') (t_union c') (mset code + R)"
  shows "cell_inv c' code R"
  using assms others_ok [of R "t_union c" "t_state c" "t_state c'" "t_union c'"] by (auto simp: cell_ok_def cell_inv_def)

text \<open>The facts about the current instruction and the totals of the others.\<close>

lemma cell_ok_facts:
  assumes "cell_ok c (add_mset i R)"
  shows "own_ok i (t_union c)" "local_ok (t_state c) i" "counts_ok (t_state c) (t_union c) (add_mset i R)"
  using assms by (auto simp: cell_ok_def)

lemmas instr_splits = header_instr.splits waker_instr.splits run_instr.splits guard_instr.splits handle_instr.splits

lemma register_return_simps [simp]:
  "refs (register_return w b) = 0" "handle (register_return w b) = 1" "runs_task (register_return w b) = 0"
  "running (register_return w b) = 0" "owner (register_return w b) = 0" "own_ok (register_return w b) u"
  "registers (register_return w b) = 0" "takes (register_return w b) = 0" "last_user (register_return w b) = 0"
  "revives (register_return w b) = 0" "local_ok s (register_return w b)" "\<not> borrows sz (register_return w b)"
  by (simp_all add: register_return_def)


lemma step_ok_cas:
  assumes "\<lbrakk>t_state c = s; \<not> sp\<rbrakk> \<Longrightarrow> step_ok R (ok (c\<lparr>t_state := new\<rparr>))" and "step_ok R (err (t_state c))"
  shows "step_ok R (cas_weak sp c s new ok err)"
  using assms by (simp add: cas_weak_def)

lemma wake_awaiter_ok:
  assumes inv: "cell_ok c (add_mset (Hd Wake_Awaiter) R)" and live: "t_live c"
  shows "step_ok R (wake_awaiter ret c)"
  using live cell_ok_facts(3) [OF inv]
  by (simp add: wake_awaiter_def; intro cell_inv_step [OF inv]; simp add: counts_ok_def)

lemma take_start_ok:
  assumes inv: "cell_ok c (add_mset (Hd (Take cu)) R)" and live: "t_live c"
    and b: "0 < tokens refs R + tokens handle R"
  shows "step_ok R (take_start cu c)"
  using live cell_ok_facts(3) [OF inv] b
  by (cases "bit (t_state c) 7"; cases "bit (t_state c) 6";
      simp add: take_start_def Let_def; intro cell_inv_step [OF inv]; simp add: counts_ok_def)

lemma take_cell_ok:
  assumes inv: "cell_ok c (add_mset (Hd (Take_Cell cu)) R)" and live: "t_live c"
  shows "step_ok R (take_cell cu c)"
  using live cell_ok_facts(3) [OF inv]
  by (simp add: take_cell_def; intro cell_inv_step [OF inv]; simp add: counts_ok_def)

lemma take_clear_ok:
  assumes inv: "cell_ok c (add_mset (Hd (Take_Clear cu)) R)" and live: "t_live c"
  shows "step_ok R (take_clear ww cu ret c)"
  using live cell_ok_facts(3) [OF inv]
  by (cases "bit (t_state c) 6"; simp add: take_clear_def; intro cell_inv_step [OF inv]; simp add: counts_ok_def)

lemma register_load_ok:
  assumes inv: "cell_ok c (add_mset (Hd (Reg_Load w b)) R)" and live: "t_live c"
  shows "step_ok R (register_load w b c)"
  using live cell_ok_facts(3) [OF inv] tokens_order(3) [of R]
  by (cases "bit (t_state c) 6"; simp add: register_load_def; intro cell_inv_step [OF inv]; simp add: counts_ok_def)

lemma register_loop_ok:
  assumes inv: "cell_ok c (add_mset (Hd (Reg_Loop w b s)) R)" and live: "t_live c"
  shows "step_ok R (register_loop sp w b s c)"
proof -
  note f = cell_ok_facts [OF inv]
  have "\<not> bit s 6" "\<not> bit (t_state c) 6" "tokens handle R = 0" "tokens registers R = 0"
    using f tokens_order(3) [of R] by (simp_all add: counts_ok_def)
  with live f show ?thesis
    by (cases "bit s 7"; simp add: register_loop_def; (intro step_ok_cas)?; simp?;
        intro cell_inv_step [OF inv]; simp add: counts_ok_def)
qed

lemma register_store_ok:
  assumes inv: "cell_ok c (add_mset (Hd (Reg_Store w b s)) R)" and live: "t_live c"
  shows "step_ok R (register_store w b s c)"
  using live cell_ok_facts [OF inv]
  by (simp add: register_store_def; intro conjI impI cell_inv_step [OF inv]; simp add: counts_ok_def)

lemma register_take_ok:
  assumes inv: "cell_ok c (add_mset (Hd (Reg_Fin w b s)) R)" and live: "t_live c"
  shows "step_ok R (register_take w b s ret c)"
  using live cell_ok_facts [OF inv]
  by (simp add: register_take_def; intro conjI impI cell_inv_step [OF inv]; simp add: counts_ok_def)

lemma register_cas_ok:
  assumes inv: "cell_ok c (add_mset (Hd (Reg_Cas w b s)) R)" and live: "t_live c"
  shows "step_ok R (register_cas sp w b s ret c)"
proof -
  note f = cell_ok_facts [OF inv]
  have "bit (t_state c) 6" "tokens handle R = 0" "tokens registers R = 0"
    using f tokens_order(3) [of R] by (simp_all add: counts_ok_def)
  with live f show ?thesis
    by (cases "ret"; simp add: register_cas_def; (intro step_ok_cas)?; simp?;
        intro cell_inv_step [OF inv]; simp add: counts_ok_def)
qed

lemma header_step_ok:
  assumes "cell_ok c (add_mset (Hd i) R)" and "t_live c"
    and "borrows sz (Hd i :: 'a instr) \<Longrightarrow> 0 < tokens refs R + tokens handle R"
  shows "step_ok R (header_step ww sp i ret (c :: 'a task_cell))"
  using assms
  by (cases i) (simp_all add: take_start_ok take_cell_ok take_clear_ok wake_awaiter_ok register_load_ok
      register_loop_ok register_store_ok register_take_ok register_cas_ok)


text \<open>The count is far from the width of the word.\<close>

lemma ref_count_unat: "unat s = 256 * ref_count s + unat s mod 256"
  by (simp add: ref_count_div)

lemma ref_count_room: "ref_count s \<le> 2 ^ 55 + 1 \<Longrightarrow> unat s + 256 < 2 ^ 64"
  using ref_count_unat [of s] mod_less_divisor [of 256 "unat s"] by simp

lemma plus_reference_ok: "ref_count s \<le> 2 ^ 55 + 1 \<Longrightarrow> plus_reference s = Inr (s + REFERENCE)"
  using ref_count_room [of s] by (simp add: plus_reference_def)

lemma minus_reference_ok: "0 < ref_count s \<Longrightarrow> minus_reference s = Inr (s - REFERENCE)"
  by (simp add: minus_reference_def reference_le)

lemma not_abort: "unat s \<le> isize_max \<Longrightarrow> ref_count s < 2 ^ 55"
  by (simp add: ref_count_div isize_max_def less_mult_imp_div_less)

lemma counts_ok_room: "counts_ok s u M \<Longrightarrow> ref_count s \<le> 2 ^ 55 + 1"
  by (auto simp: counts_ok_def split: if_splits)

lemma bit_plus [simp]:
  assumes "ref_count s \<le> 2 ^ 55 + 1"
  shows "ref_count (s + REFERENCE) = Suc (ref_count s)" "n < 8 \<Longrightarrow> bit (s + REFERENCE) n = bit s n"
  using add_reference [OF ref_count_room [OF assms]] by simp_all

lemma bit_minus [simp]:
  assumes "0 < ref_count s"
  shows "ref_count (s - REFERENCE) = ref_count s - 1" "n < 8 \<Longrightarrow> bit (s - REFERENCE) n = bit s n"
  using sub_reference [of s] assms by (simp_all add: reference_le)

lemma raw_wake_ok:
  assumes inv: "cell_ok c (add_mset (Wk Wake) R)" and live: "t_live c"
  shows "step_ok R (raw_wake sz c)"
  using live cell_ok_facts(3) [OF inv]
  by (cases sz; simp add: raw_wake_def; intro cell_inv_step [OF inv]; simp add: counts_ok_def)

lemma wake_load_ok:
  assumes inv: "cell_ok c (add_mset (Wk Wake_Load) R)" and live: "t_live c"
  shows "cell_inv c [Wk (Wake_Loop (t_state c))] R"
  using live cell_ok_facts(3) [OF inv]
  by (intro cell_inv_step [OF inv]; simp add: counts_ok_def)

lemma wake_loop_ok:
  assumes inv: "cell_ok c (add_mset (Wk (Wake_Loop s)) R)" and live: "t_live c"
  shows "step_ok R (wake_loop sp s c)"
  using live cell_ok_facts(3) [OF inv]
  by (cases "bit s 2 \<or> bit s 3"; cases "bit s 0"; cases "bit s 1"; simp add: wake_loop_def; (intro step_ok_cas)?; simp?;
        intro cell_inv_step [OF inv]; simp add: counts_ok_def)

lemma ref_load_ok:
  assumes inv: "cell_ok c (add_mset (Wk Ref_Load) R)" and live: "t_live c"
  shows "cell_inv c [Wk (Ref_Loop (t_state c))] R"
  using live cell_ok_facts(3) [OF inv] counts_ok_room [OF cell_ok_facts(3) [OF inv]]
  by (intro cell_inv_step [OF inv]; simp add: counts_ok_def)

end
