(* ===== verification/Task_Steps.thy ===== *)
theory Task_Steps
  imports Task_Tokens
begin

text \<open>
  Every instruction of the wakers, of \<open>run\<close>, of dropping a \<open>Runnable\<close> and of the \<open>Task\<close>
  handle keeps the invariant of the task cell.
\<close>

lemma new_state [simp]:
  "ref_count (SCHEDULED OR TASK_CLOSED OR REFERENCE) = 1" "ref_count (SCHEDULED OR REFERENCE) = 1"
  "ref_count (SCHEDULED OR TASK OR REFERENCE) = 1"
  by (simp_all add: ref_count_def flag_defs)

lemma ref_count_flags_or [simp]:
  "ref_count (s OR COMPLETED OR TASK_CLOSED) = ref_count s" "ref_count (s OR SCHEDULED OR TASK_CLOSED) = ref_count s"
  by (simp_all add: ref_count_or flag_drop)

section \<open>Steps that keep the tokens\<close>

definition same_tokens :: "'a instr \<Rightarrow> 'a instr \<Rightarrow> bool" where
  "same_tokens i j \<longleftrightarrow> refs i = refs j \<and> handle i = handle j \<and> runs_task i = runs_task j \<and> running i = running j \<and>
     owner i = owner j \<and> registers i = registers j \<and> takes i = takes j \<and> last_user i = last_user j \<and> revives i = revives j"

lemma counts_ok_same:
  assumes "same_tokens i j"
  shows "counts_ok s u (add_mset i R) \<longleftrightarrow> counts_ok s u (add_mset j R)"
proof -
  have e: "refs i = refs j" "handle i = handle j" "runs_task i = runs_task j" "running i = running j" "owner i = owner j"
    "registers i = registers j" "takes i = takes j" "last_user i = last_user j" "revives i = revives j"
    using assms unfolding same_tokens_def by blast+
  show ?thesis unfolding counts_ok_def tokens_simps e by (rule refl)
qed

lemma cell_inv_same:
  assumes inv: "cell_ok c (add_mset i R)" and "t_live c" "same_tokens i j" "own_ok j (t_union c)" "local_ok (t_state c) j"
  shows "cell_inv c [j] R"
  using assms(2-) cell_ok_facts(3) [OF inv] counts_ok_same [OF assms(3)] by (intro cell_inv_step [OF inv]) simp_all

text \<open>Instructions that own nothing and know nothing do not matter for the invariant.\<close>

definition no_tokens :: "'a instr \<Rightarrow> bool" where
  "no_tokens i \<longleftrightarrow> refs i = 0 \<and> handle i = 0 \<and> runs_task i = 0 \<and> running i = 0 \<and> owner i = 0 \<and> registers i = 0 \<and>
     takes i = 0 \<and> last_user i = 0 \<and> revives i = 0 \<and> (\<forall>u s. own_ok i u \<and> local_ok s i)"

lemma no_tokens_simps [simp]:
  "no_tokens (Hd (Take w))" "no_tokens (Hd Wake_Awaiter)" "no_tokens (Wk Ref_Load)" "no_tokens (Wk Clone)"
  "no_tokens (Wk Schedule_Return)" "no_tokens (Rn (Run_Return b))" "no_tokens (Tk Cancel_Load)"
  by (simp_all add: no_tokens_def)

lemma counts_ok_no_tokens:
  assumes "no_tokens i" shows "counts_ok s u (add_mset i M) \<longleftrightarrow> counts_ok s u M"
proof -
  have e: "refs i = 0" "handle i = 0" "runs_task i = 0" "running i = 0" "owner i = 0" "registers i = 0" "takes i = 0"
    "last_user i = 0" "revives i = 0"
    using assms unfolding no_tokens_def by blast+
  show ?thesis unfolding counts_ok_def tokens_simps e add_0 by (rule refl)
qed

lemma cell_ok_no_tokens: "no_tokens i \<Longrightarrow> cell_ok c (add_mset i M) \<longleftrightarrow> cell_ok c M"
  by (simp add: cell_ok_def counts_ok_no_tokens) (simp add: no_tokens_def)

lemma free_ok_no_tokens: "no_tokens i \<Longrightarrow> free_ok (add_mset i M) \<longleftrightarrow> free_ok M"
  by (simp add: free_ok_def no_tokens_def)

lemma cell_inv_no_tokens [simp]:
  "no_tokens i \<Longrightarrow> cell_inv c (i # code) R \<longleftrightarrow> cell_inv c code R"
  "no_tokens i \<Longrightarrow> cell_inv c (j # i # code) R \<longleftrightarrow> cell_inv c (j # code) R"
  by (simp_all add: cell_inv_def cell_ok_no_tokens free_ok_no_tokens add_mset_commute [of j])

lemma cell_inv_swap: "cell_inv c (i # code) R \<Longrightarrow> t_live c \<Longrightarrow> cell_ok c (add_mset i (mset code + R))"
  by (simp add: cell_inv_def)

lemma no_last_user:
  assumes inv: "cell_ok c (add_mset i R)" and "0 < refs i + handle i + tokens refs R + tokens handle R" "last_user i = 0"
  shows "tokens revives R = 0"
proof -
  have "tokens last_user R \<le> 1"
    "tokens last_user R = 1 \<longleftrightarrow> refs i + tokens refs R = 0 \<and> handle i + tokens handle R = 0"
    using cell_ok_facts(3) [OF inv] assms(3) unfolding counts_ok_def tokens_simps by auto
  with assms(2) show ?thesis using tokens_order(4) [of R] by linarith
qed

lemma cell_inv_idle:
  assumes inv: "cell_ok c (add_mset i R)" and "t_live c" "no_tokens i"
  shows "cell_inv c [] R"
  using assms by (simp add: cell_inv_def cell_ok_no_tokens)

lemma cell_inv_notify [simp]: "cell_inv c (i # notify w) R \<longleftrightarrow> cell_inv c [i] R" "cell_inv c (notify w) R \<longleftrightarrow> cell_inv c [] R"
  "cell_inv c (notify w @ code) R \<longleftrightarrow> cell_inv c code R"
  by (simp_all add: notify_def)

lemma cell_inv_finish_run [simp]:
  "cell_inv c (finish_run s) R \<longleftrightarrow> cell_inv c [Wk Drop_Ref] R"
  "cell_inv c (finish_run s @ [Rn (Run_Return b)]) R \<longleftrightarrow> cell_inv c [Wk Drop_Ref] R"
  by (simp_all add: finish_run_def)

section \<open>Wakers\<close>

lemma set_same_state [simp]: "t_state c = s \<Longrightarrow> c\<lparr>t_state := s\<rparr> = c"
  by (cases c) simp

lemma ref_loop_ok:
  assumes inv: "cell_ok c (add_mset (Wk (Ref_Loop s)) R)" and live: "t_live c"
    and b: "0 < tokens refs R + tokens handle R"
  shows "step_ok R (wake_by_ref_loop sp s c)"
proof -
  note f = cell_ok_facts [OF inv]
  have l: "ref_count s \<le> 2 ^ 55 + 1" using f(2) by simp
  have err: "cell_inv c [Wk (Ref_Loop (t_state c))] R"
    using counts_ok_room [OF f(3)] by (intro cell_inv_same [OF inv live]) (simp_all add: same_tokens_def)
  have none: "cell_inv c [] R" using f(3) live by (intro cell_inv_step [OF inv]; simp add: counts_ok_def)
  have busy: "cell_inv (c\<lparr>t_state := s OR SCHEDULED\<rparr>) [] R" if "t_state c = s" "bit s 1" "\<not> bit s 2" "\<not> bit s 3"
    using that f(3) live by (intro cell_inv_step [OF inv]; simp add: counts_ok_def)
  have idle: "cell_inv (c\<lparr>t_state := (s OR SCHEDULED) + REFERENCE\<rparr>) [Wk Schedule_Call] R"
    if "t_state c = s" "\<not> bit s 0" "\<not> bit s 1" "\<not> bit s 2" "\<not> bit s 3" "unat s \<le> isize_max"
    using that l f(3) live b not_abort [OF that(6)] by (intro cell_inv_step [OF inv]; simp add: counts_ok_def)
  have p: "plus_reference (s OR SCHEDULED) = Inr ((s OR SCHEDULED) + REFERENCE)"
    using l by (intro plus_reference_ok) simp
  consider "bit s 2 \<or> bit s 3" | "\<not> bit s 2" "\<not> bit s 3" "bit s 0" | "\<not> bit s 2" "\<not> bit s 3" "\<not> bit s 0" "bit s 1"
    | "\<not> bit s 2" "\<not> bit s 3" "\<not> bit s 0" "\<not> bit s 1" by blast
  then show ?thesis
  proof cases
    case 1
    then have "wake_by_ref_loop sp s c = goes c None []" by (simp add: wake_by_ref_loop_def)
    then show ?thesis using none by simp
  next
    case 2
    then show ?thesis using none err by (simp add: wake_by_ref_loop_def; intro step_ok_cas; simp)
  next
    case 3
    then show ?thesis using busy err by (simp add: wake_by_ref_loop_def; intro step_ok_cas; simp)
  next
    case 4
    then show ?thesis using idle err p by (simp add: wake_by_ref_loop_def; intro step_ok_cas; simp add: not_less)
  qed
qed

lemma clone_ok:
  assumes inv: "cell_ok c (add_mset (Wk Clone) R)" and live: "t_live c"
    and b: "0 < tokens refs R + tokens handle R"
  shows "step_ok R (bind_fallible (clone_waker c) (\<lambda>c'. Inr (c', None, [], [H_Waker], [])))"
  using live cell_ok_facts [OF inv] b not_abort [of "t_state c"]
  by (cases "isize_max < unat (t_state c)"; simp add: clone_waker_def; intro cell_inv_step [OF inv]; simp add: counts_ok_def)

lemma reference_dropped:
  assumes inv: "cell_ok c (add_mset i R)" and live: "t_live c"
    and i: "refs i = 1" "handle i = 0" "runs_task i = 0" "running i = 0" "owner i = 0" "registers i = 0" "takes i = 0"
      "last_user i = 0" "revives i = 0"
  shows "minus_reference (t_state c) = Inr (t_state c - REFERENCE)"
    and "ref_count (t_state c - REFERENCE) = tokens refs R" and "n < 8 \<Longrightarrow> bit (t_state c - REFERENCE) n = bit (t_state c) n"
    and "bit (t_state c) 4 \<longleftrightarrow> tokens handle R = 1" and "tokens handle R \<le> 1"
    and "cell_inv (c\<lparr>t_state := t_state c - REFERENCE\<rparr>) code R \<longleftrightarrow>
      counts_ok (t_state c - REFERENCE) (t_union c) (mset code + R) \<and> (\<forall>i\<in>set code. own_ok i (t_union c) \<and> local_ok (t_state c - REFERENCE) i)"
    (is "?P \<longleftrightarrow> ?Q \<and> ?O")
proof -
  note f = cell_ok_facts(3) [OF inv]
  have c: "0 < ref_count (t_state c)" "ref_count (t_state c) = Suc (tokens refs R)" using f i by (simp_all add: counts_ok_def)
  show "minus_reference (t_state c) = Inr (t_state c - REFERENCE)" using c by (simp add: minus_reference_ok)
  show "ref_count (t_state c - REFERENCE) = tokens refs R" using c by simp
  show b: "bit (t_state c - REFERENCE) n = bit (t_state c) n" if "n < 8" for n using c that by simp
  show "bit (t_state c) 4 \<longleftrightarrow> tokens handle R = 1" "tokens handle R \<le> 1" using f i by (simp_all add: counts_ok_def)
  show "?P \<longleftrightarrow> ?Q \<and> ?O"
  proof
    assume "?Q \<and> ?O" then show ?P using live b [of 3] b [of 2] by (intro cell_inv_step [OF inv]) simp_all
  next
    assume ?P then show "?Q \<and> ?O" using live by (simp add: cell_inv_def cell_ok_def)
  qed
qed

lemma counts_after_drop:
  assumes inv: "cell_ok c (add_mset i R)" and live: "t_live c"
    and i: "refs i = 1" "handle i = 0" "runs_task i = 0" "running i = 0" "owner i = 0" "registers i = 0" "takes i = 0"
      "last_user i = 0" "revives i = 0"
  shows "0 < tokens refs R + tokens handle R \<Longrightarrow> counts_ok (t_state c - REFERENCE) (t_union c) R"
    and "tokens refs R = 0 \<Longrightarrow> tokens handle R = 0 \<Longrightarrow> counts_ok (t_state c - REFERENCE) (t_union c) (add_mset (Wk Destroy) R)"
    and "tokens refs R = 0 \<Longrightarrow> tokens handle R = 0 \<Longrightarrow> \<not> bit (t_state c) 2 \<Longrightarrow> \<not> bit (t_state c) 3 \<Longrightarrow>
      counts_ok (t_state c - REFERENCE) (t_union c) (add_mset (Wk Revive) R)"
  using cell_ok_facts(3) [OF inv] reference_dropped(2,3) [OF inv live i] i by (simp_all add: counts_ok_def)

lemma drop_waker_ok:
  assumes inv: "cell_ok c (add_mset (Wk Drop_Waker) R)" and live: "t_live c"
  shows "step_ok R (drop_waker c)"
proof -
  note d = reference_dropped [OF inv live, simplified] and k = counts_after_drop [OF inv live, simplified]
  show ?thesis
    by (cases "tokens refs R = 0 \<and> tokens handle R = 0"; cases "bit (t_state c) 2 \<or> bit (t_state c) 3")
       (use d k in \<open>auto simp: drop_waker_def Let_def\<close>)
qed

lemma drop_ref_ok:
  assumes inv: "cell_ok c (add_mset (Wk Drop_Ref) R)" and live: "t_live c"
  shows "step_ok R (drop_ref ret c)"
proof -
  note d = reference_dropped [OF inv live, simplified] and k = counts_after_drop [OF inv live, simplified]
  show ?thesis
    by (cases "tokens refs R = 0 \<and> tokens handle R = 0") (use d k in \<open>auto simp: drop_ref_def Let_def\<close>)
qed

lemma revive_ok:
  assumes inv: "cell_ok c (add_mset (Wk Revive) R)" and live: "t_live c"
    and t: "tokens refs R + tokens handle R = 0 \<Longrightarrow> tokens takes R = 0"
  shows "step_ok R (revive c)"
  using live cell_ok_facts(3) [OF inv] t tokens_order [of R]
  by (simp add: revive_def; intro cell_inv_step [OF inv]; simp add: counts_ok_def)

lemma destroy_ok:
  assumes inv: "cell_ok c (add_mset (Wk Destroy) R)" and live: "t_live c"
  shows "step_ok R (destroy ret c)"
  using live cell_ok_facts(3) [OF inv]
  by (auto simp: destroy_def cell_inv_def free_ok_def counts_ok_def)

lemma raw_schedule_ok:
  assumes inv: "cell_ok c (add_mset (Wk Schedule) R)" and live: "t_live c"
  shows "step_ok R (raw_schedule sz c)"
  using live cell_ok_facts [OF inv] not_abort [of "t_state c"]
  by (cases sz; cases "isize_max < unat (t_state c)"; simp add: raw_schedule_def clone_waker_def; intro cell_inv_step [OF inv]; simp add: counts_ok_def)

lemma schedule_call_ok:
  assumes inv: "cell_ok c (add_mset (Wk Schedule_Call) R)" and live: "t_live c"
  shows "step_ok R (schedule_call c)"
  using live cell_ok_facts [OF inv]
  by (simp add: schedule_call_def; intro cell_inv_step [OF inv]; simp add: counts_ok_def)

lemma schedule_return_ok:
  assumes inv: "cell_ok c (add_mset (Wk Schedule_Return) R)" and live: "t_live c"
  shows "cell_inv c [] R"
  using live cell_ok_facts [OF inv] by (intro cell_inv_step [OF inv]; simp add: counts_ok_def)

lemma waker_step_ok:
  assumes "cell_ok c (add_mset (Wk i) R)" and "t_live c"
    and "borrows sz (Wk i :: 'a instr) \<Longrightarrow> 0 < tokens refs R + tokens handle R"
    and "tokens refs R + tokens handle R = 0 \<Longrightarrow> tokens takes R = 0"
  shows "step_ok R (waker_step sz sp i ret (c :: 'a task_cell))"
  using assms
  by (cases i) (simp_all add: raw_wake_ok wake_load_ok wake_loop_ok ref_load_ok ref_loop_ok clone_ok drop_waker_ok revive_ok
      drop_ref_ok destroy_ok raw_schedule_ok schedule_call_ok schedule_return_ok)

section \<open>Running\<close>

lemma run_loop_ok:
  assumes inv: "cell_ok c (add_mset (Rn (Run_Loop s)) R)" and live: "t_live c"
  shows "step_ok R (run_loop sp s c)"
  using live cell_ok_facts [OF inv] tokens_order [of R]
  by (cases "bit s 3"; simp add: run_loop_def; (intro step_ok_cas)?; simp?;
        intro cell_inv_step [OF inv]; simp add: counts_ok_def)

lemma drop_future_ok:
  assumes inv: "cell_ok c (add_mset i R)" and live: "t_live c" and o: "owner i = 1" and u: "t_union c = Future"
    and "\<forall>i\<in>set code. own_ok i Uninit \<and> local_ok (t_state c) i"
    and "counts_ok (t_state c) Uninit (mset code + R)"
  shows "step_ok R (drop_future c ret code)"
proof -
  have "tokens owner R = 0" using cell_ok_facts(3) [OF inv] o by (simp add: counts_ok_def)
  then have "cell_inv (c\<lparr>t_union := Uninit\<rparr>) code R"
    using live assms(5,6) by (intro cell_inv_step [OF inv]) simp_all
  then show ?thesis using u by (simp add: drop_future_def)
qed

lemma move_output_ok:
  assumes inv: "cell_ok c (add_mset i R)" and live: "t_live c" and o: "owner i = 1" and u: "is_output (t_union c)"
    and "\<forall>i\<in>set code. own_ok i Uninit \<and> local_ok (t_state c) i"
    and "counts_ok (t_state c) Uninit (mset code + R)"
  shows "step_ok R (move_output ev c code)"
proof -
  have "tokens owner R = 0" using cell_ok_facts(3) [OF inv] o by (simp add: counts_ok_def)
  then have "cell_inv (c\<lparr>t_union := Uninit\<rparr>) code R"
    using live assms(5,6) by (intro cell_inv_step [OF inv]) simp_all
  then show ?thesis using u by (cases "t_union c") (simp_all add: move_output_def)
qed

lemma run_clear_ok:
  assumes inv: "cell_ok c (add_mset (Rn Run_Clear) R)" and live: "t_live c"
  shows "step_ok R (run_clear c)"
  using live cell_ok_facts [OF inv] tokens_order(2) [of R]
  by (simp add: run_clear_def; intro cell_inv_step [OF inv]; simp add: counts_ok_def)

lemma ready_loop_ok:
  assumes inv: "cell_ok c (add_mset (Rn (Ready_Loop s)) R)" and live: "t_live c"
  shows "step_ok R (ready_loop sp s c)"
proof -
  note f = cell_ok_facts [OF inv]
  have err: "cell_inv c [Rn (Ready_Loop (t_state c))] R"
    using f(1) by (intro cell_inv_same [OF inv live]) (simp_all add: same_tokens_def)
  have r: "tokens running R = 0" using f(3) tokens_order(2) [of R] by (simp add: counts_ok_def)
  have detached: "cell_inv (c\<lparr>t_state := (s AND NOT RUNNING AND NOT SCHEDULED) OR COMPLETED OR TASK_CLOSED\<rparr>) [Rn (Ready_Discard s)] R"
    if "t_state c = s" "\<not> bit s 4"
    using that f r live no_last_user [OF inv] by (cases "bit s 3"; intro cell_inv_step [OF inv]; simp add: counts_ok_def)
  have closed: "cell_inv (c\<lparr>t_state := (s AND NOT RUNNING AND NOT SCHEDULED) OR COMPLETED\<rparr>) [Rn (Ready_Discard s)] R"
    if "t_state c = s" "bit s 4" "bit s 3"
    using that f r live by (intro cell_inv_step [OF inv]; simp add: counts_ok_def)
  have open': "cell_inv (c\<lparr>t_state := (s AND NOT RUNNING AND NOT SCHEDULED) OR COMPLETED\<rparr>) [Wk Drop_Ref] R"
    if "t_state c = s" "bit s 4" "\<not> bit s 3"
    using that f r live no_last_user [OF inv] by (intro cell_inv_step [OF inv]; simp add: counts_ok_def)
  show ?thesis
    using err detached closed open'
    by (cases "bit s 4"; cases "bit s 3"; simp add: ready_loop_def Let_def; intro step_ok_cas; simp)
qed

lemma pending_loop_ok:
  assumes inv: "cell_ok c (add_mset (Rn (Pending_Loop s d)) R)" and live: "t_live c"
  shows "step_ok R (pending_loop sp s d c)"
proof -
  note f = cell_ok_facts [OF inv]
  have err: "cell_inv c [Rn (Pending_Loop (t_state c) d)] R"
    using f(1,2) by (intro cell_inv_same [OF inv live]) (simp_all add: same_tokens_def)
  have drop: "cell_inv c [Rn (Pending_Drop s)] R" if "bit s 3" "\<not> d"
    using f(1,2) that by (intro cell_inv_same [OF inv live]) (simp_all add: same_tokens_def)
  have r: "tokens running R = 0" using f(3) tokens_order(2) [of R] by (simp add: counts_ok_def)
  have closed: "cell_inv (c\<lparr>t_state := s AND NOT RUNNING AND NOT SCHEDULED\<rparr>) [Wk Drop_Ref] R"
    if "t_state c = s" "bit s 3" d
    using that f r live by (intro cell_inv_step [OF inv]; simp add: counts_ok_def)
  have again: "cell_inv (c\<lparr>t_state := s AND NOT RUNNING\<rparr>) [Wk Schedule] R"
    if "t_state c = s" "\<not> bit s 3" "bit s 0"
    using that f r live by (intro cell_inv_step [OF inv]; simp add: counts_ok_def)
  have idle: "cell_inv (c\<lparr>t_state := s AND NOT RUNNING\<rparr>) [Wk Drop_Ref] R"
    if "t_state c = s" "\<not> bit s 3" "\<not> bit s 0"
    using that f r live by (intro cell_inv_step [OF inv]; simp add: counts_ok_def)
  show ?thesis
    using err drop closed again idle
    by (cases "bit s 3"; cases d; cases "bit s 0"; simp add: pending_loop_def Let_def; (intro step_ok_cas)?; simp)
qed

lemma run_drop_ok:
  assumes inv: "cell_ok c (add_mset (Rn Run_Drop) R)" and live: "t_live c"
  shows "step_ok R (drop_future c None [Rn Run_Clear])"
  using cell_ok_facts [OF inv] by (intro drop_future_ok [OF inv live]; simp add: counts_ok_def)

lemma pending_drop_ok:
  assumes inv: "cell_ok c (add_mset (Rn (Pending_Drop s)) R)" and live: "t_live c"
  shows "step_ok R (drop_future c None [Rn (Pending_Loop s True)])"
  using cell_ok_facts [OF inv] by (intro drop_future_ok [OF inv live]; simp add: counts_ok_def)

lemma ready_drop_ok:
  assumes inv: "cell_ok c (add_mset (Rn (Ready_Drop v s)) R)" and live: "t_live c"
  shows "step_ok R (drop_future c None [Rn (Ready_Write v s)])"
  using cell_ok_facts [OF inv] by (intro drop_future_ok [OF inv live]; simp add: counts_ok_def)

lemma ready_write_ok:
  assumes inv: "cell_ok c (add_mset (Rn (Ready_Write v s)) R)" and live: "t_live c"
  shows "step_ok R (ready_write v s c)"
  using live cell_ok_facts [OF inv]
  by (simp add: ready_write_def; intro cell_inv_step [OF inv]; simp add: counts_ok_def)

lemma ready_discard_ok:
  assumes inv: "cell_ok c (add_mset (Rn (Ready_Discard s)) R)" and live: "t_live c"
  shows "step_ok R (ready_discard s c)"
proof -
  have "step_ok R (move_output (\<lambda>v. [Output_Dropped v]) c [Wk Drop_Ref])"
    using cell_ok_facts [OF inv] by (intro move_output_ok [OF inv live]; simp add: counts_ok_def)
  then show ?thesis by (simp add: ready_discard_def move_output_def split: task_union.splits)
qed

lemma run_load_ok:
  assumes inv: "cell_ok c (add_mset (Rn Run_Load) R)" and live: "t_live c"
  shows "cell_inv c [Rn (Run_Loop (t_state c))] R"
  using live cell_ok_facts [OF inv] by (intro cell_inv_step [OF inv]; simp add: counts_ok_def)

lemma run_return_ok:
  assumes inv: "cell_ok c (add_mset (Rn (Run_Return b)) R)" and live: "t_live c"
  shows "cell_inv c [] R"
  by (rule cell_inv_idle [OF inv live]) simp

lemma poll_future_ok:
  assumes inv: "cell_ok c (add_mset (Rn (Poll_Future s)) R)" and live: "t_live c"
  shows "cell_inv c (future_call s k) R"
  using cell_ok_facts(1,2) [OF inv]
  by (cases k) (simp_all add: cell_inv_same [OF inv live] same_tokens_def)

lemma run_step_ok:
  assumes "cell_ok c (add_mset (Rn i) R)" and "t_live c"
  shows "step_ok R (run_step sp k i c)"
  using assms
  by (cases i) (simp_all add: run_load_ok run_loop_ok run_drop_ok run_clear_ok run_return_ok poll_future_ok ready_drop_ok
      ready_write_ok ready_loop_ok ready_discard_ok pending_loop_ok pending_drop_ok)

section \<open>Panics and dropped runnables\<close>

lemma guard_load_ok:
  assumes inv: "cell_ok c (add_mset (Gd Guard_Load) R)" and live: "t_live c"
  shows "cell_inv c [Gd (Guard_Loop (t_state c))] R"
  using live cell_ok_facts [OF inv] by (intro cell_inv_step [OF inv]; simp add: counts_ok_def)

lemma guard_loop_ok:
  assumes inv: "cell_ok c (add_mset (Gd (Guard_Loop s)) R)" and live: "t_live c"
  shows "step_ok R (guard_loop sp s c)"
  using live cell_ok_facts [OF inv] tokens_order [of R]
  by (cases "bit s 3"; simp add: guard_loop_def; (intro step_ok_cas)?; simp?;
        intro cell_inv_step [OF inv]; simp add: counts_ok_def)

lemma guard_drop_ok:
  assumes inv: "cell_ok c (add_mset (Gd (Guard_Drop s)) R)" and live: "t_live c"
  shows "step_ok R (drop_future c None [Gd (Guard_Clear s)])"
  using cell_ok_facts [OF inv] by (intro drop_future_ok [OF inv live]; simp add: counts_ok_def)

lemma guard_clear_ok:
  assumes inv: "cell_ok c (add_mset (Gd (Guard_Clear s)) R)" and live: "t_live c"
  shows "step_ok R (guard_clear s c)"
  using live cell_ok_facts [OF inv] tokens_order(2) [of R]
  by (simp add: guard_clear_def; intro cell_inv_step [OF inv]; simp add: counts_ok_def)

lemma guard_drop_last_ok:
  assumes inv: "cell_ok c (add_mset (Gd (Guard_Drop_Last s)) R)" and live: "t_live c"
  shows "step_ok R (drop_future c None (finish_run s))"
proof -
  have "step_ok R (drop_future c None [Wk Drop_Ref])"
    using cell_ok_facts [OF inv] by (intro drop_future_ok [OF inv live]; simp add: counts_ok_def)
  then show ?thesis by (simp add: drop_future_def split: task_union.splits)
qed

lemma runnable_load_ok:
  assumes inv: "cell_ok c (add_mset (Gd Runnable_Load) R)" and live: "t_live c"
  shows "cell_inv c [Gd (Runnable_Loop (t_state c))] R"
  using live cell_ok_facts [OF inv] by (intro cell_inv_step [OF inv]; simp add: counts_ok_def)

lemma runnable_loop_ok:
  assumes inv: "cell_ok c (add_mset (Gd (Runnable_Loop s)) R)" and live: "t_live c"
  shows "step_ok R (runnable_loop sp s c)"
proof -
  note f = cell_ok_facts [OF inv]
  have "\<not> bit (t_state c) 2" using f by (simp add: counts_ok_def)
  moreover from this have "\<not> bit s 2" using f by simp
  ultimately show ?thesis using live f tokens_order [of R]
    by (cases "bit s 3"; simp add: runnable_loop_def; (intro step_ok_cas)?; simp?;
        intro cell_inv_step [OF inv]; simp add: counts_ok_def)
qed

lemma runnable_future_ok:
  assumes inv: "cell_ok c (add_mset (Gd Runnable_Future) R)" and live: "t_live c"
  shows "step_ok R (drop_future c None [Gd Runnable_Clear])"
  using cell_ok_facts [OF inv] by (intro drop_future_ok [OF inv live]; simp add: counts_ok_def)

lemma runnable_clear_ok:
  assumes inv: "cell_ok c (add_mset (Gd Runnable_Clear) R)" and live: "t_live c"
  shows "step_ok R (runnable_clear c)"
proof -
  have "cell_inv (c\<lparr>t_state := t_state c AND NOT SCHEDULED\<rparr>) [Wk Drop_Ref] R"
    using live cell_ok_facts [OF inv] tokens_order(2) [of R] by (intro cell_inv_step [OF inv]; simp add: counts_ok_def)
  then show ?thesis by (simp add: runnable_clear_def)
qed

lemma guard_step_ok:
  assumes "cell_ok c (add_mset (Gd i) R)" and "t_live c"
  shows "step_ok R (guard_step sp i c)"
  using assms
  by (cases i) (simp_all add: guard_load_ok guard_loop_ok guard_drop_ok guard_clear_ok guard_drop_last_ok runnable_load_ok
      runnable_loop_ok runnable_future_ok runnable_clear_ok)

section \<open>The Task handle\<close>

lemma cancel_load_ok:
  assumes inv: "cell_ok c (add_mset (Tk Cancel_Load) R)" and live: "t_live c"
  shows "cell_inv c [Tk (Cancel_Loop (t_state c))] R"
  using counts_ok_room [OF cell_ok_facts(3) [OF inv]]
  by (intro cell_inv_same [OF inv live]) (simp_all add: same_tokens_def)

lemma cancel_loop_ok:
  assumes inv: "cell_ok c (add_mset (Tk (Cancel_Loop s)) R)" and live: "t_live c"
    and b: "0 < tokens refs R + tokens handle R"
  shows "step_ok R (cancel_loop sp s c)"
proof -
  note f = cell_ok_facts [OF inv]
  have l: "ref_count s \<le> 2 ^ 55 + 1" using f(2) by simp
  then have p: "plus_reference (s OR SCHEDULED OR TASK_CLOSED) = Inr ((s OR SCHEDULED OR TASK_CLOSED) + REFERENCE)"
    by (intro plus_reference_ok) simp
  have err: "cell_inv c [Tk (Cancel_Loop (t_state c))] R"
    using counts_ok_room [OF f(3)] by (intro cell_inv_same [OF inv live]) (simp_all add: same_tokens_def)
  have none: "cell_inv c [] R" using live f by (intro cell_inv_step [OF inv]; simp add: counts_ok_def)
  have rv: "tokens revives R = 0" by (rule no_last_user [OF inv]) (use b in simp_all)
  have busy: "cell_inv (c\<lparr>t_state := s OR TASK_CLOSED\<rparr>) [] R" if "bit s 0 \<or> bit s 1" "t_state c = s" "\<not> bit s 3"
  proof -
    have "tokens runs_task R = 1" using f(3) that(1,2) by (cases "bit s 1") (simp_all add: counts_ok_def)
    moreover have "tokens owner R = 1" using calculation f(3) that(2,3) by (simp add: counts_ok_def)
    ultimately show ?thesis using that(2) live f rv by (intro cell_inv_step [OF inv]; simp add: counts_ok_def)
  qed
  have idle: "cell_inv (c\<lparr>t_state := (s OR SCHEDULED OR TASK_CLOSED) + REFERENCE\<rparr>) [Wk Schedule] R"
    if "\<not> bit s 0" "\<not> bit s 1" "t_state c = s" "\<not> bit s 2" "\<not> bit s 3"
    using that l live f b rv by (intro cell_inv_step [OF inv]; simp add: counts_ok_def)
  consider "bit s 2 \<or> bit s 3" | "\<not> bit s 2" "\<not> bit s 3" "bit s 0 \<or> bit s 1" | "\<not> bit s 2" "\<not> bit s 3" "\<not> bit s 0" "\<not> bit s 1"
    by blast
  then show ?thesis
  proof cases
    case 1
    then show ?thesis using none by (simp add: cancel_loop_def)
  next
    case 2
    then have "step_ok R (cas_weak sp c s (s OR TASK_CLOSED) (\<lambda>c'. goes c' None (if bit s 5 then notify None else []))
        (\<lambda>s. goes c None [Tk (Cancel_Loop s)]))"
      using busy err by (intro step_ok_cas) simp_all
    then show ?thesis using 2 by (auto simp: cancel_loop_def)
  next
    case 3
    then have "step_ok R (cas_weak sp c s ((s OR SCHEDULED OR TASK_CLOSED) + REFERENCE)
        (\<lambda>c'. goes c' None (Wk Schedule # (if bit s 5 then notify None else []))) (\<lambda>s. goes c None [Tk (Cancel_Loop s)]))"
      using idle err by (intro step_ok_cas) simp_all
    then show ?thesis using 3 p by (auto simp: cancel_loop_def)
  qed
qed

lemma detach_first_ok:
  assumes inv: "cell_ok c (add_mset (Tk Detach_First) R)" and live: "t_live c"
  shows "step_ok R (detach_first sp c)"
proof -
  note f = cell_ok_facts [OF inv]
  have h: "tokens handle R = 0" "tokens registers R = 0" using f(3) tokens_order(3) [of R] by (simp_all add: counts_ok_def)
  have err: "cell_inv c [Tk (Detach_Loop (t_state c))] R"
    by (intro cell_inv_same [OF inv live]) (simp_all add: same_tokens_def)
  have ok: "cell_inv (c\<lparr>t_state := SCHEDULED OR REFERENCE\<rparr>) [] R" if "t_state c = SCHEDULED OR TASK OR REFERENCE"
    using that live f h by (intro cell_inv_step [OF inv]; simp add: counts_ok_def)
  show ?thesis using err ok by (simp add: detach_first_def; intro step_ok_cas; simp)
qed

lemma detach_loop_ok:
  assumes inv: "cell_ok c (add_mset (Tk (Detach_Loop s)) R)" and live: "t_live c"
    and t: "tokens refs R + tokens handle R = 0 \<Longrightarrow> tokens takes R = 0"
  shows "step_ok R (detach_loop sp s c)"
proof -
  note f = cell_ok_facts [OF inv]
  have h: "tokens handle R = 0" "tokens registers R = 0" using f(3) tokens_order(3) [of R] by (simp_all add: counts_ok_def)
  have err: "cell_inv c [Tk (Detach_Loop (t_state c))] R"
    using live f by (intro cell_inv_step [OF inv]; simp add: counts_ok_def)
  have read: "cell_inv (c\<lparr>t_state := s OR TASK_CLOSED\<rparr>) [Tk (Detach_Read (s OR TASK_CLOSED))] R"
    if "t_state c = s" "bit s 2" "\<not> bit s 3"
    using that live f by (intro cell_inv_step [OF inv]; simp add: counts_ok_def)
  have gone: "cell_inv (c\<lparr>t_state := s AND NOT TASK\<rparr>) [] R"
    if "t_state c = s" "bit s 2 \<longrightarrow> bit s 3" "ref_count s \<noteq> 0"
    using that live f h by (intro cell_inv_step [OF inv]; simp add: counts_ok_def)
  have last: "cell_inv (c\<lparr>t_state := s AND NOT TASK\<rparr>) [Wk Destroy] R"
    if "t_state c = s" "bit s 3" "ref_count s = 0"
    using that live f h t by (intro cell_inv_step [OF inv]; simp add: counts_ok_def)
  have again: "cell_inv (c\<lparr>t_state := SCHEDULED OR TASK_CLOSED OR REFERENCE\<rparr>) [Wk Schedule] R"
    if "t_state c = s" "\<not> bit s 2" "\<not> bit s 3" "ref_count s = 0"
    using that live f h t tokens_order [of R] by (intro cell_inv_step [OF inv]; simp add: counts_ok_def)
  show ?thesis
    by (cases "bit s 2"; cases "bit s 3"; cases "ref_count s = 0"; simp add: detach_loop_def Let_def;
        intro step_ok_cas; simp add: err read gone last again)
qed

lemma task_load_ok:
  assumes inv: "cell_ok c (add_mset (Tk (Task_Load w)) R)" and live: "t_live c"
  shows "cell_inv c [Tk (Task_Loop w (t_state c))] R"
  using live cell_ok_facts [OF inv] by (intro cell_inv_step [OF inv]; simp add: counts_ok_def)

lemma task_loop_ok:
  assumes inv: "cell_ok c (add_mset (Tk (Task_Loop w s)) R)" and live: "t_live c"
  shows "step_ok R (task_loop w s c)"
  by (simp add: task_loop_def cell_inv_same [OF inv live] same_tokens_def)

lemma task_closed_ok:
  assumes inv: "cell_ok c (add_mset (Tk (Task_Closed w)) R)" and live: "t_live c"
  shows "step_ok R (task_closed w c)"
  by (simp add: task_closed_def cell_inv_same [OF inv live] same_tokens_def)

lemma task_open_ok:
  assumes inv: "cell_ok c (add_mset (Tk (Task_Open w)) R)" and live: "t_live c"
  shows "step_ok R (task_open w c)"
  by (simp add: task_open_def Let_def cell_inv_same [OF inv live] same_tokens_def)

lemma task_cas_ok:
  assumes inv: "cell_ok c (add_mset (Tk (Task_Cas w s)) R)" and live: "t_live c"
  shows "step_ok R (task_cas w s c)"
proof -
  note f = cell_ok_facts [OF inv]
  have err: "cell_inv c [Tk (Task_Loop w (t_state c))] R"
    by (intro cell_inv_same [OF inv live]) (simp_all add: same_tokens_def)
  have ok: "cell_inv (c\<lparr>t_state := s OR TASK_CLOSED\<rparr>) [Tk Task_Output] R" if "t_state c = s"
    using that live f by (intro cell_inv_step [OF inv]; simp add: counts_ok_def)
  show ?thesis using err ok by (cases "bit s 5"; simp add: task_cas_def; intro step_ok_cas; simp)
qed

lemma task_output_ok:
  assumes inv: "cell_ok c (add_mset (Tk Task_Output) R)" and live: "t_live c"
  shows "step_ok R (move_output ev c [H_Task])"
  using cell_ok_facts [OF inv] by (intro move_output_ok [OF inv live]; simp add: counts_ok_def)

lemma detach_read_ok:
  assumes inv: "cell_ok c (add_mset (Tk (Detach_Read s)) R)" and live: "t_live c"
  shows "step_ok R (move_output ev c [Tk (Detach_Loop s)])"
  using cell_ok_facts [OF inv] by (intro move_output_ok [OF inv live]; simp add: counts_ok_def)

lemma task_return_ok:
  assumes inv: "cell_ok c (add_mset (Tk (Task_Return r)) R)" and live: "t_live c"
  shows "step_ok R (task_return r c)"
  using live cell_ok_facts [OF inv]
  by (simp add: task_return_def; intro cell_inv_step [OF inv]; simp add: counts_ok_def)

lemma handle_step_ok:
  assumes "cell_ok c (add_mset (Tk i) R)" and "t_live c"
    and "borrows sz (Tk i :: 'a instr) \<Longrightarrow> 0 < tokens refs R + tokens handle R"
    and "tokens refs R + tokens handle R = 0 \<Longrightarrow> tokens takes R = 0"
  shows "step_ok R (handle_step sp i (c :: 'a task_cell))"
  using assms
  by (cases i) (simp_all add: cancel_load_ok cancel_loop_ok detach_first_ok detach_loop_ok detach_read_ok task_load_ok task_loop_ok
      task_closed_ok task_open_ok task_cas_ok task_output_ok task_return_ok)

section \<open>Handles at rest\<close>

lemma waker_call_ok:
  assumes inv: "cell_ok c (add_mset H_Waker R)" and live: "t_live c"
  shows "cell_inv c (waker_call k) R"
  using cell_ok_facts(1) [OF inv]
  by (cases k) (simp_all add: cell_inv_same [OF inv live] same_tokens_def)

lemma runnable_call_ok:
  assumes inv: "cell_ok c (add_mset H_Runnable R)" and live: "t_live c"
  shows "cell_inv c (runnable_call k) R"
  using cell_ok_facts(1) [OF inv]
  by (cases k) (simp_all add: cell_inv_same [OF inv live] same_tokens_def)

lemma handle_call_ok:
  assumes inv: "cell_ok c (add_mset H_Task R)" and live: "t_live c"
  shows "cell_inv c (handle_call k) R"
  using cell_ok_facts(1) [OF inv]
  by (cases k) (simp_all add: cell_inv_same [OF inv live] same_tokens_def)

theorem instr_step_ok:
  assumes c: "cell_ok c (add_mset i R)" "t_live c"
    and b: "borrows sz i \<Longrightarrow> 0 < tokens refs R + tokens handle R"
    and t: "tokens refs R + tokens handle R = 0 \<Longrightarrow> tokens takes R = 0"
  shows "step_ok R (instr_step sz ww sp k i ret c)"
proof (cases i)
  case (Hd j)
  show ?thesis using header_step_ok [OF c(1) [unfolded Hd] c(2)] b Hd by simp
next
  case (Wk j)
  show ?thesis using waker_step_ok [OF c(1) [unfolded Wk] c(2)] b t Wk by simp
next
  case (Tk j)
  show ?thesis using handle_step_ok [OF c(1) [unfolded Tk] c(2)] b t Tk by simp
qed (use c in \<open>simp_all add: waker_call_ok runnable_call_ok handle_call_ok run_step_ok guard_step_ok\<close>)

end
