(* ===== verification/Task_Safety.thy ===== *)
theory Task_Safety
  imports Task_Steps
begin

text \<open>
  The threads of a task: whatever the interleaving, the calls and the spurious failures,
  no step touches freed or uninitialised memory, the reference count is the number of
  references held, and the future and its output are dropped or handed over once.
\<close>

section \<open>Threads that hold what they borrow\<close>

definition holds :: "'a instr \<Rightarrow> bool" where
  "holds i \<longleftrightarrow> 0 < refs i + handle i"

fun held_code :: "bool \<Rightarrow> 'a instr list \<Rightarrow> bool" where
  "held_code sz [] = True"
| "held_code sz (i # is) \<longleftrightarrow> (borrows sz i \<longrightarrow> (\<exists>j\<in>set is. holds j)) \<and> held_code sz is"

lemma held_code_append: "held_code sz xs \<Longrightarrow> held_code sz ys \<Longrightarrow> held_code sz (xs @ ys)"
  by (induction xs) auto

lemma held_code_held: "\<exists>j\<in>set ys. holds j \<Longrightarrow> held_code sz ys \<Longrightarrow> held_code sz (xs @ ys)"
  by (induction xs) auto

lemma held_code_unheld: "held_code sz xs \<Longrightarrow> \<forall>j\<in>set xs. \<not> holds j \<Longrightarrow> \<forall>j\<in>set xs. \<not> borrows sz j"
  by (induction xs) auto

definition pushes_ok :: "bool \<Rightarrow> 'a outcome \<Rightarrow> bool" where
  "pushes_ok sz r \<longleftrightarrow>
     (case r of Inl p \<Rightarrow> True | Inr (c, ret, code, new, evs) \<Rightarrow> held_code sz code \<and> (\<forall>h\<in>set new. \<not> borrows sz h))"

lemma pushes_ok_simps [simp]:
  "pushes_ok sz (Inl p)" "pushes_ok sz (goes c ret code) \<longleftrightarrow> held_code sz code"
  "pushes_ok sz (Inr (c, ret, code, new, evs)) \<longleftrightarrow> held_code sz code \<and> (\<forall>h\<in>set new. \<not> borrows sz h)"
  by (simp_all add: pushes_ok_def goes_def)

lemma pushes_ok_cas [simp]:
  "pushes_ok sz (cas_weak sp c s new ok err) \<longleftrightarrow>
     (if t_state c = s \<and> \<not> sp then pushes_ok sz (ok (c\<lparr>t_state := new\<rparr>)) else pushes_ok sz (err (t_state c)))"
  by (simp add: cas_weak_def)

lemma pushes_ok_bind [intro!]: "(\<And>x. m = Inr x \<Longrightarrow> pushes_ok sz (f x)) \<Longrightarrow> pushes_ok sz (bind_fallible m f)"
  by (cases m) simp_all

lemma pushes_ok_union [simp]:
  "pushes_ok sz (drop_future c ret code) \<longleftrightarrow> (t_union c = Future \<longrightarrow> held_code sz code)"
  "pushes_ok sz (move_output ev c code) \<longleftrightarrow> (is_output (t_union c) \<longrightarrow> held_code sz code)"
  by (cases "t_union c"; simp add: drop_future_def move_output_def)+

lemma wf_finish_run [simp]: "held_code sz (finish_run s @ code) \<longleftrightarrow> held_code sz code" "held_code sz (finish_run s)"
  by (auto simp: finish_run_def holds_def)

lemma header_pushes: "\<not> borrows sz (Hd i :: 'a instr) \<Longrightarrow> pushes_ok sz (header_step ww sp i ret (c :: 'a task_cell))"
  by (cases i)
    (simp_all add: wake_awaiter_def register_load_def register_loop_def register_store_def register_take_def register_cas_def Let_def)

lemma waker_pushes: "\<not> borrows sz (Wk i :: 'a instr) \<Longrightarrow> pushes_ok sz (waker_step sz sp i ret (c :: 'a task_cell))"
  by (cases i)
    (auto simp: raw_wake_def wake_loop_def drop_waker_def revive_def drop_ref_def destroy_def raw_schedule_def schedule_call_def Let_def holds_def)

lemma run_pushes: "pushes_ok sz (run_step sp k i c)"
  by (cases i; cases k)
    (auto simp: run_loop_def run_clear_def ready_write_def ready_loop_def ready_discard_def pending_loop_def Let_def holds_def)

lemma guard_pushes: "pushes_ok sz (guard_step sp i c)"
  by (cases i) (auto simp: guard_loop_def guard_clear_def runnable_loop_def runnable_clear_def notify_def holds_def)

lemma handle_pushes: "\<not> borrows sz (Tk i :: 'a instr) \<Longrightarrow> pushes_ok sz (handle_step sp i (c :: 'a task_cell))"
  by (cases i)
    (auto simp: detach_first_def detach_loop_def task_loop_def task_closed_def task_open_def task_cas_def task_return_def notify_def Let_def holds_def)

lemma instr_pushes:
  assumes "\<not> borrows sz i"
  shows "pushes_ok sz (instr_step sz ww sp k i ret c)"
  using assms header_pushes waker_pushes run_pushes guard_pushes handle_pushes
  by (cases i; cases k; simp add: holds_def)

text \<open>A borrowing instruction gives away only handles.\<close>

definition news_ok :: "bool \<Rightarrow> 'a outcome \<Rightarrow> bool" where
  "news_ok sz r \<longleftrightarrow> (case r of Inl p \<Rightarrow> True | Inr (c, ret, code, new, evs) \<Rightarrow> \<forall>h\<in>set new. \<not> borrows sz h)"

lemma news_ok_simps [simp]:
  "news_ok sz (Inl p)" "news_ok sz (goes c ret code)"
  "news_ok sz (Inr (c, ret, code, new, evs)) \<longleftrightarrow> (\<forall>h\<in>set new. \<not> borrows sz h)"
  "news_ok sz (cas_weak sp c s n ok err) \<longleftrightarrow>
     (if t_state c = s \<and> \<not> sp then news_ok sz (ok (c\<lparr>t_state := n\<rparr>)) else news_ok sz (err (t_state c)))"
  by (simp_all add: news_ok_def goes_def cas_weak_def)

lemma news_ok_bind [intro!]: "(\<And>x. m = Inr x \<Longrightarrow> news_ok sz (f x)) \<Longrightarrow> news_ok sz (bind_fallible m f)"
  by (cases m) simp_all

lemma pushes_news: "pushes_ok sz r \<Longrightarrow> news_ok sz r"
  by (cases r) (auto simp: pushes_ok_def news_ok_def)

lemma instr_news: "news_ok sz (instr_step sz ww sp k i ret c)"
proof (cases "borrows sz i")
  case True
  then show ?thesis
    by (cases i; simp split: header_instr.splits waker_instr.splits handle_instr.splits)
      (auto simp: take_start_def take_cell_def take_clear_def wake_by_ref_loop_def cancel_loop_def Let_def)
next
  case False
  then show ?thesis by (intro pushes_news instr_pushes)
qed

section \<open>Configurations\<close>

definition instrs :: "'a task_config \<Rightarrow> 'a instr multiset" where
  "instrs g = (\<Sum>th\<leftarrow>cfg_threads g. mset (snd th))"

definition config_ok :: "bool \<Rightarrow> 'a task_config \<Rightarrow> bool" where
  "config_ok sz g \<longleftrightarrow>
     (\<forall>th\<in>set (cfg_threads g). held_code sz (snd th)) \<and>
     (if t_live (cfg_cell g) then cell_ok (cfg_cell g) (instrs g) else free_ok (instrs g))"

lemma spawn_ok: "config_ok sz task_spawn"
  by (simp add: config_ok_def task_spawn_def task_allocate_def instrs_def cell_ok_def counts_ok_def)

text \<open>One thread and the others.\<close>

lemma config_split:
  assumes "n < length ths" "ths ! n = th"
  obtains us vs where "ths = us @ th # vs" "\<And>th'. ths[n := th'] = us @ th' # vs"
proof (rule that [of "take n ths" "drop (Suc n) ths"])
  show "ths = take n ths @ th # drop (Suc n) ths" using assms id_take_nth_drop [of n ths] by simp
  show "ths[n := th'] = take n ths @ th' # drop (Suc n) ths" for th' using assms by (simp add: upd_conv_take_nth_drop)
qed

lemma unheld_takes:
  assumes "\<forall>th\<in>set ths. held_code sz (snd th)" and "tokens refs (\<Sum>th\<leftarrow>ths. mset (snd th)) + tokens handle (\<Sum>th\<leftarrow>ths. mset (snd th)) = 0"
  shows "tokens takes (\<Sum>th\<leftarrow>ths. mset (snd th)) = 0"
proof -
  have "takes i = 0" if "th \<in> set ths" "i \<in> set (snd th)" for th i
  proof -
    have "\<not> holds j" if "j \<in> set (snd th)" for j
      using assms(2) that \<open>th \<in> set ths\<close> unfolding tokens_sum_list tokens_def holds_def
      by (auto simp: sum_list_eq_0_iff)
    then have "\<not> borrows sz i" using held_code_unheld assms(1) that by blast
    then show ?thesis by (cases i) (auto split: header_instr.splits)
  qed
  then show ?thesis unfolding tokens_sum_list tokens_def by (auto simp: sum_list_eq_0_iff)
qed

lemma new_threads [simp]: "sum_list (map ((\<lambda>th. mset (snd th)) \<circ> (\<lambda>h. (None, [h]))) new) = mset new"
  by (induction new) simp_all

text \<open>What is left to do after the memory has been freed does not touch it.\<close>

lemma free_instr:
  assumes "free_ok (add_mset i R)" "\<not> borrows sz i"
  shows "\<not> touches sz i" "\<exists>evs. instr_step sz ww sp k i ret c = Inr (c, None, [], [], evs)"
  using assms
  by (cases i; auto simp: free_ok_def wake_awaiter_def goes_def split: header_instr.splits waker_instr.splits run_instr.splits handle_instr.splits)+

lemma task_step_ok:
  assumes ok: "config_ok sz g"
  shows "case task_step sz ww g ch of Inl p \<Rightarrow> p = Aborted | Inr g' \<Rightarrow> config_ok sz g'"
proof -
  obtain n sp k where ch: "ch = (n, sp, k)" by (cases ch)
  show ?thesis
  proof (cases "n < length (cfg_threads g) \<and> snd (cfg_threads g ! n) \<noteq> []")
    case False
    then show ?thesis using ok by (auto simp: task_step_def ch split: prod.splits list.splits)
  next
    case True
    then obtain ret i code where th: "cfg_threads g ! n = (ret, i # code)" by (metis list.exhaust prod.collapse)
    obtain us vs where s: "cfg_threads g = us @ (ret, i # code) # vs" "\<And>th'. (cfg_threads g)[n := th'] = us @ th' # vs"
      using config_split [OF _ th] True by blast
    define R where "R = mset code + (\<Sum>th\<leftarrow>us @ vs. mset (snd th))"
    have I: "instrs g = add_mset i R" by (simp add: instrs_def s R_def)
    have wf: "held_code sz (i # code)" "\<forall>th\<in>set (us @ vs). held_code sz (snd th)" using ok s by (auto simp: config_ok_def)
    have R': "R = (\<Sum>th\<leftarrow>(None, code) # us @ vs. mset (snd th))" by (simp add: R_def)
    have t: "tokens takes R = 0" if "tokens refs R + tokens handle R = 0"
      using unheld_takes [of "(None, code) # us @ vs" sz] wf that unfolding R' by simp
    have b: "0 < tokens refs R + tokens handle R" if bo: "borrows sz i"
    proof -
      obtain j where "j \<in> set code" "holds j" using wf(1) bo by auto
      then have "0 < tokens refs (mset code) + tokens handle (mset code)"
        using tokens_ge [of j "mset code" refs] tokens_ge [of j "mset code" handle] unfolding holds_def by simp linarith
      then show ?thesis by (auto simp: R_def)
    qed
    show ?thesis
    proof (cases "t_live (cfg_cell g)")
      case live: True
      have "cell_ok (cfg_cell g) (add_mset i R)" using ok live I by (simp add: config_ok_def)
      then have st: "step_ok R (instr_step sz ww sp k i ret (cfg_cell g))" using live b t by (rule instr_step_ok)
      show ?thesis
      proof (cases "instr_step sz ww sp k i ret (cfg_cell g)")
        case (Inl p)
        then show ?thesis using st live True th by (simp add: task_step_def ch exec_instr_def)
      next
        case (Inr r)
        obtain c' ret' code' new evs where r: "r = (c', ret', code', new, evs)" by (cases r)
        have "held_code sz (code' @ code)"
        proof (cases "borrows sz i")
          case True
          then show ?thesis using wf by (intro held_code_held) auto
        next
          case False
          then show ?thesis using instr_pushes [OF False, where ww = ww and sp = sp and k = k and ret = ret and c = "cfg_cell g"] Inr r wf by (simp add: held_code_append)
        qed
        moreover have "\<forall>h\<in>set new. \<not> borrows sz h" using instr_news [of sz ww sp k i ret "cfg_cell g"] Inr r by simp
        moreover have "cell_inv c' (code' @ new) R" using st Inr r by simp
        moreover have "task_step sz ww g ch = Inr \<lparr>cfg_cell = c', cfg_threads = us @ (ret', code' @ code) # vs @ map (\<lambda>h. (None, [h])) new,
            cfg_log = cfg_log g @ evs\<rparr>"
          using Inr r live True th s(2) by (simp add: task_step_def ch exec_instr_def)
        ultimately show ?thesis using wf
          by (auto simp: config_ok_def instrs_def cell_inv_def R_def ac_simps)
      qed
    next
      case dead: False
      have f: "free_ok (add_mset i R)" using ok dead I by (simp add: config_ok_def)
      then have "\<not> borrows sz i" using b by (auto simp: free_ok_def)
      note fi = free_instr [OF f this]
      obtain evs where e: "instr_step sz ww sp k i ret (cfg_cell g) = Inr (cfg_cell g, None, [], [], evs)" using fi(2) by blast
      have "task_step sz ww g ch = Inr \<lparr>cfg_cell = cfg_cell g, cfg_threads = us @ (None, code) # vs, cfg_log = cfg_log g @ evs\<rparr>"
        using fi(1) e True th s(2) by (simp add: task_step_def ch exec_instr_def)
      then show ?thesis using f wf dead by (auto simp: config_ok_def instrs_def R_def free_ok_def)
    qed
  qed
qed


lemma task_run_ok:
  assumes "config_ok sz g"
  shows "case task_run sz ww g chs of Inl p \<Rightarrow> p = Aborted | Inr g' \<Rightarrow> config_ok sz g'"
  using assms
proof (induction chs arbitrary: g)
  case (Cons ch chs)
  then show ?case using task_step_ok [OF Cons.prems, of ww ch] by (cases "task_step sz ww g ch") auto
qed simp

text \<open>
  Memory safety of tasks (C3). Start from a task that has just been spawned and let any
  threads make any calls in any order, with any spurious failures of the weak exchanges; the
  only failure is the abort when the reference count is exhausted. In particular no step
  reads or writes the task after it was freed, the future is not used after it was dropped,
  the output is not read before it was written, and nothing is freed twice. In every state reached
  while the task is allocated, the reference count is the number of references held by the
  threads, at most one thread at a time uses the future or its output, at most one uses the
  awaiter field, and \<open>SCHEDULED\<close> or \<open>RUNNING\<close> is set exactly when one thread holds the runnable, so that a wake-up
  is never lost and a task never runs twice at once. After the task was freed nobody holds a
  reference, a runnable or a handle.
\<close>

theorem task_memory_safe:
  "case task_run sz ww task_spawn chs of
     Inl p \<Rightarrow> p = Aborted
   | Inr g \<Rightarrow>
       let s = t_state (cfg_cell g); M = instrs g in
       (t_live (cfg_cell g) \<longrightarrow>
          ref_count s = tokens refs M \<and> (bit s 4 \<longleftrightarrow> tokens handle M = 1) \<and> tokens handle M \<le> 1 \<and>
          (bit s 0 \<or> bit s 1 \<longleftrightarrow> tokens runs_task M = 1) \<and> tokens runs_task M \<le> 1 \<and>
          (bit s 1 \<longleftrightarrow> tokens running M = 1) \<and>
          tokens owner M \<le> 1 \<and> tokens takes M + tokens registers M \<le> 1) \<and>
       (\<not> t_live (cfg_cell g) \<longrightarrow>
          tokens refs M = 0 \<and> tokens handle M = 0 \<and> tokens runs_task M = 0 \<and> tokens owner M = 0)"
proof (cases "task_run sz ww task_spawn chs")
  case (Inl p)
  then show ?thesis using task_run_ok [OF spawn_ok, of sz ww chs] by simp
next
  case (Inr g)
  then have ok: "config_ok sz g" using task_run_ok [OF spawn_ok, of sz ww chs] by simp
  show ?thesis
  proof (cases "t_live (cfg_cell g)")
    case True
    define s where "s = t_state (cfg_cell g)"
    define M where "M = instrs g"
    have f: "counts_ok s (t_union (cfg_cell g)) M" using True ok by (simp add: config_ok_def cell_ok_def s_def M_def)
    have "bit s 0 \<or> bit s 1 \<longleftrightarrow> tokens runs_task M = 1" using f by (cases "bit s 1") (simp_all add: counts_ok_def)
    moreover have "tokens takes M + tokens registers M \<le> 1"
    proof (cases "bit s 6")
      case True
      then have "tokens takes M \<le> 1" "tokens takes M \<noteq> 1" "tokens registers M \<le> 1" using f by (simp_all add: counts_ok_def)
      then show ?thesis by linarith
    next
      case False
      then have "tokens takes M \<le> 1" "tokens registers M \<noteq> 1" "tokens registers M \<le> 1" using f by (simp_all add: counts_ok_def)
      then show ?thesis by linarith
    qed
    moreover have "ref_count s = tokens refs M" "bit s 4 \<longleftrightarrow> tokens handle M = 1" "tokens handle M \<le> 1"
      "tokens runs_task M \<le> 1" "bit s 1 \<longleftrightarrow> tokens running M = 1" "tokens owner M \<le> 1"
      using f by (simp_all add: counts_ok_def)
    ultimately show ?thesis unfolding Inr Let_def sum.case s_def M_def using True by blast
  next
    case False
    then have "free_ok (instrs g)" using ok by (simp add: config_ok_def)
    then show ?thesis using Inr False tokens_order [of "instrs g"] by (simp add: free_ok_def Let_def)
  qed
qed

definition first_poll :: "nat choice list" where
  "first_poll = replicate 3 (0, False, Call_Run)"

theorem task_memory_safe_witness:
  "\<exists>g. task_run True (=) task_spawn first_poll = Inr g \<and> t_live (cfg_cell g) \<and> ref_count (t_state (cfg_cell g)) = 1 \<and>
     tokens refs (instrs g) = 1 \<and> tokens running (instrs g) = 1 \<and> tokens owner (instrs g) \<le> 1"
proof -
  have "case task_run True (=) task_spawn first_poll of Inl p \<Rightarrow> False
    | Inr g \<Rightarrow> t_live (cfg_cell g) \<and> ref_count (t_state (cfg_cell g)) = 1 \<and> bit (t_state (cfg_cell g)) 1" by code_simp
  then obtain g where g: "task_run True (=) task_spawn first_poll = Inr g" "t_live (cfg_cell g)" "ref_count (t_state (cfg_cell g)) = 1"
      "bit (t_state (cfg_cell g)) 1" by (auto split: sum.splits)
  then show ?thesis using task_memory_safe [of True "(=)" first_poll] by (simp add: Let_def)
qed

end
