(* ===== verification/Task_Once.thy ===== *)
theory Task_Once
  imports Task_Safety
begin

text \<open>
  What happens to the future and to its output: each is dropped or handed over once. Two
  runs of the machine show where the code falls short: a detached task whose future keeps
  no waker is freed without dropping the future, and a panic of a cancelled task can leave
  the awaiting task asleep.
\<close>

section \<open>The log\<close>

definition drops :: "'a task_event list \<Rightarrow> nat" where
  "drops log = length (filter (\<lambda>e. e = Future_Dropped) log)"

definition frees :: "'a task_event list \<Rightarrow> nat" where
  "frees log = length (filter (\<lambda>e. e = Freed) log)"

text \<open>The outputs written to the task, and the outputs moved out or dropped.\<close>

fun written :: "'a task_event list \<Rightarrow> 'a list" where
  "written [] = []"
| "written (Output_Written v # log) = v # written log"
| "written (_ # log) = written log"

fun consumed :: "'a task_event list \<Rightarrow> 'a list" where
  "consumed [] = []"
| "consumed (Output_Taken v # log) = v # consumed log"
| "consumed (Output_Dropped v # log) = v # consumed log"
| "consumed (_ # log) = consumed log"

fun polled :: "'a task_event list \<Rightarrow> 'a list" where
  "polled [] = []"
| "polled (Task_Polled (Ready (Some v)) # log) = v # polled log"
| "polled (_ # log) = polled log"

fun moves :: "'a task_event \<Rightarrow> bool" where
  "moves (Awaiter_Woken _) = False"
| "moves (Task_Polled (Ready (Some _))) = True"
| "moves (Task_Polled _) = False"
| "moves (Run_Returned _) = False"
| "moves _ = True"

lemma log_append:
  "drops (xs @ ys) = drops xs + drops ys" "frees (xs @ ys) = frees xs + frees ys"
  "written (xs @ ys) = written xs @ written ys" "consumed (xs @ ys) = consumed xs @ consumed ys"
  "polled (xs @ ys) = polled xs @ polled ys"
proof -
  show "drops (xs @ ys) = drops xs + drops ys" "frees (xs @ ys) = frees xs + frees ys" by (simp_all add: drops_def frees_def)
  show "written (xs @ ys) = written xs @ written ys" by (induction xs rule: written.induct) simp_all
  show "consumed (xs @ ys) = consumed xs @ consumed ys" by (induction xs rule: consumed.induct) simp_all
  show "polled (xs @ ys) = polled xs @ polled ys" by (induction xs rule: polled.induct) simp_all
qed

lemma log_still:
  assumes "\<forall>e\<in>set evs. \<not> moves e"
  shows "drops evs = 0" "frees evs = 0" "written evs = []" "consumed evs = []" "polled evs = []"
proof -
  show "drops evs = 0" "frees evs = 0" using assms by (auto simp: drops_def frees_def filter_empty_conv)
  show "written evs = []" using assms by (induction evs rule: written.induct) simp_all
  show "consumed evs = []" using assms by (induction evs rule: consumed.induct) simp_all
  show "polled evs = []" using assms by (induction evs rule: polled.induct) simp_all
qed

text \<open>The instruction that is about to write the output.\<close>

fun writes :: "'a instr \<Rightarrow> bool" where
  "writes (Rn i) = (case i of Ready_Write _ _ \<Rightarrow> True | _ \<Rightarrow> False)"
| "writes _ = False"

section \<open>Steps that leave the future and the output alone\<close>

definition quiet :: "'a task_cell \<Rightarrow> 'a outcome \<Rightarrow> bool" where
  "quiet c r \<longleftrightarrow>
     (case r of Inl p \<Rightarrow> True
      | Inr (c', ret, code, new, evs) \<Rightarrow>
          t_union c' = t_union c \<and> t_live c' = t_live c \<and> (\<forall>e\<in>set evs. \<not> moves e) \<and> (\<forall>i\<in>set (code @ new). \<not> writes i))"

lemma quiet_simps [simp]:
  "quiet c (Inl p)"
  "quiet c (goes c' ret code) \<longleftrightarrow> t_union c' = t_union c \<and> t_live c' = t_live c \<and> (\<forall>i\<in>set code. \<not> writes i)"
  "quiet c (Inr (c', ret, code, new, evs)) \<longleftrightarrow> t_union c' = t_union c \<and> t_live c' = t_live c \<and>
     (\<forall>e\<in>set evs. \<not> moves e) \<and> (\<forall>i\<in>set (code @ new). \<not> writes i)"
  "quiet c (cas_weak sp c' s n ok err) \<longleftrightarrow>
     (if t_state c' = s \<and> \<not> sp then quiet c (ok (c'\<lparr>t_state := n\<rparr>)) else quiet c (err (t_state c')))"
  by (simp_all add: quiet_def goes_def cas_weak_def)

lemma quiet_bind [intro!]: "(\<And>x. m = Inr x \<Longrightarrow> quiet c (f x)) \<Longrightarrow> quiet c (bind_fallible m f)"
  by (cases m) simp_all

lemma writes_codes [simp]: "i \<in> set (finish_run s) \<Longrightarrow> \<not> writes i" "i \<in> set (notify w) \<Longrightarrow> \<not> writes i" "\<not> writes (register_return w' b)"
  by (auto simp: finish_run_def notify_def register_return_def split: if_splits)

lemma header_quiet: "quiet c (header_step ww sp i ret c)"
  by (cases i) (auto simp: take_start_def take_cell_def take_clear_def wake_awaiter_def register_load_def register_loop_def register_store_def
      register_take_def register_cas_def Let_def split: option.splits)

lemma waker_quiet: "i \<noteq> Destroy \<Longrightarrow> quiet c (waker_step sz sp i ret c)"
  by (cases i) (auto simp: raw_wake_def wake_loop_def wake_by_ref_loop_def clone_waker_def drop_waker_def revive_def drop_ref_def
      raw_schedule_def schedule_call_def Let_def split: if_splits)

fun run_moves :: "'a run_instr \<Rightarrow> bool" where
  "run_moves i = (case i of Run_Drop \<Rightarrow> True | Ready_Drop _ _ \<Rightarrow> True | Ready_Write _ _ \<Rightarrow> True | Ready_Discard _ \<Rightarrow> True | Pending_Drop _ \<Rightarrow> True | _ \<Rightarrow> False)"

lemma run_quiet: "\<not> run_moves i \<Longrightarrow> quiet c (run_step sp k i c)"
  by (cases i; cases k) (auto simp: run_loop_def run_clear_def ready_loop_def pending_loop_def Let_def)

fun guard_moves :: "guard_instr \<Rightarrow> bool" where
  "guard_moves i = (case i of Guard_Drop _ \<Rightarrow> True | Guard_Drop_Last _ \<Rightarrow> True | Runnable_Future \<Rightarrow> True | _ \<Rightarrow> False)"

lemma guard_quiet: "\<not> guard_moves i \<Longrightarrow> quiet c (guard_step sp i c)"
  by (cases i) (auto simp: guard_loop_def guard_clear_def runnable_loop_def runnable_clear_def)

fun handle_moves :: "'a handle_instr \<Rightarrow> bool" where
  "handle_moves i = (case i of Task_Output \<Rightarrow> True | Detach_Read _ \<Rightarrow> True | Task_Return r \<Rightarrow> r \<notin> {Pending, Ready None} | _ \<Rightarrow> False)"

lemma handle_quiet: "\<not> handle_moves i \<Longrightarrow> quiet c (handle_step sp i c)"
  by (cases i) (auto simp: cancel_loop_def detach_first_def detach_loop_def task_loop_def task_closed_def task_open_def task_cas_def Let_def
      task_return_def split: poll.splits option.splits)

section \<open>The log follows the cell\<close>

definition writer :: "'a instr multiset \<Rightarrow> bool" where
  "writer M \<longleftrightarrow> (\<exists>i\<in>#M. writes i)"

lemma writer_simps [simp]: "writer {#} \<longleftrightarrow> False" "writer (add_mset i M) \<longleftrightarrow> writes i \<or> writer M" "writer (M + N) \<longleftrightarrow> writer M \<or> writer N"
  "writer (mset code) \<longleftrightarrow> (\<exists>i\<in>set code. writes i)"
  by (auto simp: writer_def)

definition log_ok :: "'a task_cell \<Rightarrow> 'a instr multiset \<Rightarrow> 'a task_event list \<Rightarrow> bool" where
  "log_ok c M log \<longleftrightarrow>
     drops log = (if t_union c = Future then 0 else 1) \<and>
     frees log = (if t_live c then 0 else 1) \<and>
     written log = consumed log @ (case t_union c of Output v \<Rightarrow> [v] | _ \<Rightarrow> []) \<and>
     length (written log) \<le> (if t_union c = Future \<or> writer M then 0 else 1) \<and>
     (polled log = [] \<or> polled log = consumed log) \<and>
     (t_live c \<or> \<not> is_output (t_union c))"

lemma writes_owner: "writes i \<Longrightarrow> owner i = 1"
  by (cases i) (auto split: run_instr.splits)

lemma no_writer:
  assumes "tokens owner R = 0" shows "\<not> writer R"
proof
  assume "writer R"
  then obtain i where "i \<in># R" "writes i" by (auto simp: writer_def)
  then show False using tokens_0 [OF assms, of i] writes_owner [of i] by simp
qed

lemma log_quiet:
  assumes "quiet c (Inr (c', ret, code, new, evs))" "log_ok c (add_mset i R) log" "\<not> writes i"
  shows "log_ok c' (mset code + mset new + R) (log @ evs)"
  using assms log_still [of evs] by (auto simp: log_ok_def log_append)

lemma log_drop_future:
  assumes "drop_future c ret code = Inr (c', ret', code', new, evs)" "log_ok c (add_mset i R) log"
  shows "log_ok c' M (log @ evs)"
  using assms by (auto simp: log_ok_def log_append drop_future_def drops_def frees_def split: task_union.splits)

lemma log_move_output:
  assumes "move_output ev c code = Inr (c', ret', code', new, evs)" "log_ok c (add_mset i R) log"
    and "tokens owner R = 0" "\<forall>i\<in>set code. \<not> writes i"
    and "\<And>v. drops (ev v) = 0 \<and> frees (ev v) = 0 \<and> written (ev v) = [] \<and> consumed (ev v) = [v] \<and> polled (ev v) \<in> {[], [v]}"
  shows "log_ok c' (mset code' + mset new + R) (log @ evs)"
proof -
  obtain v where v: "t_union c = Output v" "c' = c\<lparr>t_union := Uninit\<rparr>" "evs = ev v" "code' = code" "new = []"
    using assms(1) by (auto simp: move_output_def split: task_union.splits)
  have "consumed log = []" "written log = [v]" using assms(2) v(1) by (auto simp: log_ok_def split: if_splits)
  then show ?thesis using assms(2,4) v no_writer [OF assms(3)] assms(5) [of v] by (auto simp: log_ok_def log_append)
qed

text \<open>One lemma per group of instructions that touch the future or the output.\<close>

lemma owner_alone:
  assumes "cell_ok c (add_mset i R)" "owner i = 1"
  shows "tokens owner R = 0"
  using cell_ok_facts(3) [OF assms(1)] assms(2) by (simp add: counts_ok_def)

lemma log_ready_write:
  assumes "t_union c = Uninit" "ready_write v s c = Inr (c', ret', code, new, evs)" "log_ok c (add_mset (Rn (Ready_Write v s)) R) log"
    and "tokens owner R = 0" and "t_live c"
  shows "log_ok c' (mset code + mset new + R) (log @ evs)"
  using assms no_writer [OF assms(4)] by (auto simp: ready_write_def log_ok_def log_append drops_def frees_def)

lemma log_run:
  assumes inv: "cell_ok c (add_mset (Rn j) R)" and st: "run_step sp k j c = Inr (c', ret', code, new, evs)"
    and log: "log_ok c (add_mset (Rn j) R) log" and m: "run_moves j" and live: "t_live c"
  shows "log_ok c' (mset code + mset new + R) (log @ evs)"
proof -
  have "owner (Rn j :: 'a instr) = 1" using m by (cases j) simp_all
  note o = owner_alone [OF inv this]
  show ?thesis
  proof (cases j)
    case (Ready_Write v s)
    have "t_union c = Uninit" using cell_ok_facts(1) [OF inv] Ready_Write by simp
    then show ?thesis using st log o live unfolding Ready_Write run_step.simps by (intro log_ready_write)
  next
    case (Ready_Discard s)
    have e: "move_output (\<lambda>v. [Output_Dropped v]) c (finish_run s @ [Rn (Run_Return False)]) = Inr (c', ret', code, new, evs)"
      using st Ready_Discard by (simp add: ready_discard_def)
    show ?thesis by (rule log_move_output [OF e log o]) (auto simp: drops_def frees_def)
  next
    case Run_Drop
    then show ?thesis using log_drop_future [OF _ log] st by simp
  next
    case (Ready_Drop v s)
    then show ?thesis using log_drop_future [OF _ log] st by simp
  next
    case (Pending_Drop s)
    then show ?thesis using log_drop_future [OF _ log] st by simp
  qed (use m in simp_all)
qed

lemma log_handle:
  assumes inv: "cell_ok c (add_mset (Tk j) R)" and st: "handle_step sp j c = Inr (c', ret', code, new, evs)"
    and log: "log_ok c (add_mset (Tk j) R) log" and m: "handle_moves j"
  shows "log_ok c' (mset code + mset new + R) (log @ evs)"
proof (cases j)
  case Task_Output
  have e: "move_output (\<lambda>v. [Output_Taken v, Task_Polled (Ready (Some v))]) c [H_Task] = Inr (c', ret', code, new, evs)"
    using Task_Output st by simp
  show ?thesis by (rule log_move_output [OF e log owner_alone [OF inv]]) (simp_all add: Task_Output drops_def frees_def)
next
  case (Detach_Read s)
  have e: "move_output (\<lambda>v. [Output_Taken v]) c [Tk (Detach_Loop s)] = Inr (c', ret', code, new, evs)"
    using Detach_Read st by simp
  show ?thesis by (rule log_move_output [OF e log owner_alone [OF inv]]) (simp_all add: Detach_Read drops_def frees_def)
next
  case (Task_Return r)
  then show ?thesis using cell_ok_facts(2) [OF inv] m by simp
qed (use m in simp_all)

lemma log_guard:
  assumes st: "guard_step sp j c = Inr (c', ret', code, new, evs)" and log: "log_ok c (add_mset i R) log" and m: "guard_moves j"
  shows "log_ok c' (mset code + mset new + R) (log @ evs)"
proof -
  have "\<exists>code0. guard_step sp j c = drop_future c None code0" using m by (cases j) auto
  then obtain code0 where "drop_future c None code0 = Inr (c', ret', code, new, evs)" using st by auto
  then show ?thesis by (rule log_drop_future [OF _ log])
qed

text \<open>The last user of a task finds no output in it.\<close>

lemma freed_output:
  assumes "cell_ok c (add_mset (Wk Destroy) R)"
  shows "\<not> is_output (t_union c)"
proof -
  note f = cell_ok_facts(3) [OF assms]
  have "tokens refs R = 0 \<and> tokens handle R = 0" using f unfolding counts_ok_def by auto
  moreover from this have "tokens owner R = 0" using tokens_order(6) [of R] by simp
  ultimately show ?thesis using f
    by (cases "bit (t_state c) 3"; cases "bit (t_state c) 2"; simp add: counts_ok_def)
qed

lemma instr_quiet:
  assumes "case i of Wk j \<Rightarrow> j \<noteq> Destroy | Rn j \<Rightarrow> \<not> run_moves j | Gd j \<Rightarrow> \<not> guard_moves j | Tk j \<Rightarrow> \<not> handle_moves j | _ \<Rightarrow> True"
  shows "quiet c (instr_step sz ww sp k i ret c)"
proof (cases i)
  case H_Waker show ?thesis by (cases k) (simp_all add: H_Waker)
next
  case H_Runnable show ?thesis by (cases k) (simp_all add: H_Runnable)
next
  case H_Task show ?thesis by (cases k) (simp_all add: H_Task)
qed (use assms header_quiet waker_quiet run_quiet guard_quiet handle_quiet in \<open>simp_all del: run_moves.simps guard_moves.simps handle_moves.simps\<close>)

lemma log_instr:
  assumes inv: "cell_ok c (add_mset i R)" and st: "instr_step sz ww sp k i ret c = Inr (c', ret', code, new, evs)"
    and log: "log_ok c (add_mset i R) log" and live: "t_live c"
  shows "log_ok c' (mset code + mset new + R) (log @ evs)"
proof -
  consider "i = Wk Destroy" | j where "i = Rn j" "run_moves j" | j where "i = Gd j" "guard_moves j" | j where "i = Tk j" "handle_moves j"
    | "case i of Wk j \<Rightarrow> j \<noteq> Destroy | Rn j \<Rightarrow> \<not> run_moves j | Gd j \<Rightarrow> \<not> guard_moves j | Tk j \<Rightarrow> \<not> handle_moves j | _ \<Rightarrow> True"
    by (cases i) (auto simp del: run_moves.simps guard_moves.simps handle_moves.simps)
  then show ?thesis
  proof cases
    case 1
    then have "\<not> is_output (t_union c)" using freed_output inv by blast
    then show ?thesis using 1 st log live by (auto simp: destroy_def log_ok_def log_append drops_def frees_def)
  next
    case 2
    then show ?thesis using log_run [of c _ R sp k] inv st log live by (auto simp del: run_moves.simps)
  next
    case 3
    show ?thesis by (rule log_guard [OF _ log 3(2)]) (use st 3(1) in simp)
  next
    case 4
    show ?thesis by (rule log_handle [OF inv [unfolded 4(1)] _ log [unfolded 4(1)] 4(2)]) (use st 4(1) in simp)
  next
    case 5
    have "\<not> writes i" using 5 by (cases i) (auto split: run_instr.splits)
    moreover have "quiet c (Inr (c', ret', code, new, evs))" using instr_quiet [OF 5, of c sz ww sp k ret] st by simp
    ultimately show ?thesis by (intro log_quiet [OF _ log])
  qed
qed

lemma task_step_cases:
  assumes "config_ok sz g" "task_step sz ww g ch = Inr g'"
  obtains "g' = g"
  | i R sp k ret ret' code new evs where "instrs g = add_mset i R"
      "instr_step sz ww sp k i ret (cfg_cell g) = Inr (cfg_cell g', ret', code, new, evs)" "\<not> t_live (cfg_cell g) \<Longrightarrow> \<not> touches sz i"
      "instrs g' = mset code + mset new + R" "cfg_log g' = cfg_log g @ evs"
proof -
  obtain n sp k where ch: "ch = (n, sp, k)" by (cases ch)
  show thesis
  proof (cases "n < length (cfg_threads g) \<and> snd (cfg_threads g ! n) \<noteq> []")
    case False
    then have "g' = g" using assms(2) by (auto simp: task_step_def ch split: prod.splits list.splits if_splits)
    then show thesis by (rule that(1))
  next
    case True
    then obtain ret i code0 where th: "cfg_threads g ! n = (ret, i # code0)" by (metis list.exhaust prod.collapse)
    obtain us vs where s: "cfg_threads g = us @ (ret, i # code0) # vs" "\<And>th'. (cfg_threads g)[n := th'] = us @ th' # vs"
      using config_split [OF _ th] True by blast
    obtain c' ret' code new evs where st: "exec_instr sz ww sp k i ret (cfg_cell g) = Inr (c', ret', code, new, evs)"
      "g' = \<lparr>cfg_cell = c', cfg_threads = us @ (ret', code @ code0) # vs @ map (\<lambda>h. (None, [h])) new, cfg_log = cfg_log g @ evs\<rparr>"
      using assms(2) True th s(2) by (auto simp: task_step_def ch)
    have t: "\<not> (touches sz i \<and> \<not> t_live (cfg_cell g))" "instr_step sz ww sp k i ret (cfg_cell g) = Inr (c', ret', code, new, evs)"
      using st(1) by (auto simp: exec_instr_def split: if_splits)
    show thesis
      by (rule that(2) [of i "mset code0 + (\<Sum>th\<leftarrow>us @ vs. mset (snd th))" sp k ret ret' code new evs])
         (use t st(2) in \<open>auto simp: instrs_def s(1) ac_simps\<close>)
  qed
qed

lemma log_step:
  assumes ok: "config_ok sz g" and st: "task_step sz ww g ch = Inr g'" and log: "log_ok (cfg_cell g) (instrs g) (cfg_log g)"
  shows "log_ok (cfg_cell g') (instrs g') (cfg_log g')"
  using ok st
proof (cases rule: task_step_cases)
  case 1 then show ?thesis using log by simp
next
  case (2 i R sp k ret ret' code new evs)
  show ?thesis
  proof (cases "t_live (cfg_cell g)")
    case True
    then have "cell_ok (cfg_cell g) (add_mset i R)" using ok 2(1) by (simp add: config_ok_def)
    then show ?thesis using log_instr [OF _ 2(2) _ True] log 2 by simp
  next
    case False
    have "free_ok (add_mset i R)" using ok 2(1) False by (simp add: config_ok_def)
    then have q: "case i of Wk j \<Rightarrow> j \<noteq> Destroy | Rn j \<Rightarrow> \<not> run_moves j | Gd j \<Rightarrow> \<not> guard_moves j | Tk j \<Rightarrow> \<not> handle_moves j | _ \<Rightarrow> True"
      "\<not> writes i"
      using 2(3) False by (cases i; auto simp: free_ok_def split: run_instr.splits handle_instr.splits)+
    have "quiet (cfg_cell g) (Inr (cfg_cell g', ret', code, new, evs))" using instr_quiet [OF q(1), of "cfg_cell g" sz ww sp k ret] 2(2) by simp
    then show ?thesis using log_quiet [OF _ _ q(2)] log 2 by simp
  qed
qed

lemma log_run_ok:
  assumes "config_ok sz g" "log_ok (cfg_cell g) (instrs g) (cfg_log g)" "task_run sz ww g chs = Inr g'"
  shows "log_ok (cfg_cell g') (instrs g') (cfg_log g')"
  using assms
proof (induction chs arbitrary: g)
  case (Cons ch chs)
  then obtain g1 where g1: "task_step sz ww g ch = Inr g1" "task_run sz ww g1 chs = Inr g'" by auto
  have "config_ok sz g1" using task_step_ok [OF Cons.prems(1), of ww ch] g1 by simp
  then show ?case using Cons.IH log_step [OF Cons.prems(1) g1(1) Cons.prems(2)] g1(2) by blast
qed simp

text \<open>
  The future and its output (C4). In every run of a spawned task the future is dropped at most
  once and the memory is freed at most once. At most one output is ever written; it is then
  either still in the task or was consumed exactly once, by the \<open>Task\<close> handle or by being
  dropped, and what a poll of the handle returns is that output. No output is left in a
  task that was freed.
\<close>

theorem task_output_once:
  assumes "task_run sz ww task_spawn chs = Inr g"
  shows "drops (cfg_log g) \<le> 1 \<and> frees (cfg_log g) = (if t_live (cfg_cell g) then 0 else 1) \<and>
    length (written (cfg_log g)) \<le> 1 \<and>
    written (cfg_log g) = consumed (cfg_log g) @ (case t_union (cfg_cell g) of Output v \<Rightarrow> [v] | _ \<Rightarrow> []) \<and>
    (polled (cfg_log g) = [] \<or> polled (cfg_log g) = consumed (cfg_log g)) \<and>
    (written (cfg_log g) \<noteq> [] \<longrightarrow> drops (cfg_log g) = 1) \<and>
    (t_live (cfg_cell g) \<or> written (cfg_log g) = consumed (cfg_log g))"
proof -
  have "log_ok (cfg_cell task_spawn) (instrs task_spawn) (cfg_log (task_spawn :: 'a task_config))"
    by (simp add: log_ok_def task_spawn_def task_allocate_def drops_def frees_def)
  then have "log_ok (cfg_cell g) (instrs g) (cfg_log g)" by (rule log_run_ok [OF spawn_ok _ assms])
  then show ?thesis unfolding log_ok_def by (cases "t_union (cfg_cell g)") (auto split: if_splits)
qed

text \<open>A run of a task from the spawn to the polling of its output and the freeing of its memory.\<close>

definition one_thread :: "nat \<Rightarrow> 'a task_call list \<Rightarrow> 'a choice list" where
  "one_thread n ks = map (\<lambda>k. (n, False, k)) ks"

definition lifetime :: "nat choice list" where
  "lifetime = one_thread 0 [Call_Run, Call_Run, Call_Run, Returns_Ready 7, Call_Run, Call_Run, Call_Run, Call_Run] @
     one_thread 1 [Call_Poll 3, Call_Run, Call_Run, Call_Run, Call_Run, Call_Drop_Task, Call_Run, Call_Run, Call_Run, Call_Run, Call_Run]"

theorem task_output_once_witness:
  "\<exists>g. task_run True (=) task_spawn lifetime = Inr g \<and> polled (cfg_log g) = [7] \<and> \<not> t_live (cfg_cell g) \<and>
     written (cfg_log g) = consumed (cfg_log g) \<and> drops (cfg_log g) \<le> 1"
proof -
  have "case task_run True (=) task_spawn lifetime of Inl p \<Rightarrow> False | Inr g \<Rightarrow> polled (cfg_log g) = [7] \<and> \<not> t_live (cfg_cell g)"
    by code_simp
  then obtain g where g: "task_run True (=) task_spawn lifetime = Inr g" "polled (cfg_log g) = [7]" "\<not> t_live (cfg_cell g)"
    by (auto split: sum.splits)
  then show ?thesis using task_output_once [OF g(1)] by blast
qed

section \<open>Where the code falls short\<close>

text \<open>
  A detached task can be freed with its future in it (C33): when the future returns
  \<open>Pending\<close> without having kept a waker, \<open>run\<close> drops the last reference with \<open>drop_ref\<close>,
  which frees the memory and never drops the future.
\<close>

definition detached :: "nat choice list" where
  "detached = one_thread 1 [Call_Detach, Call_Run] @
     one_thread 0 [Call_Run, Call_Run, Call_Run, Returns_Pending, Call_Run, Call_Run, Call_Run]"


text \<open>
  A wake-up can be lost when a cancelled task panics (C32): \<open>Guard::drop\<close> looks for the
  awaiter in the state it has loaded before it cleared \<open>RUNNING\<close>. If the handle registers its
  waker in between, the handle's poll answers \<open>Pending\<close>, the task ends, and no thread is
  left that would wake the awaiting task.
\<close>

definition cancelled_panic :: "nat choice list" where
  "cancelled_panic = one_thread 0 [Call_Run, Call_Run, Call_Run] @ one_thread 1 [Call_Cancel, Call_Run, Call_Run] @
     one_thread 0 [Panics, Call_Run] @ one_thread 1 (Call_Poll 3 # replicate 10 Call_Run) @ one_thread 0 (replicate 4 Call_Run)"


end
