(* ===== verification/Lock_Base.thy ===== *)
theory Lock_Base
  imports Event_Listener Token_Count
begin

text \<open>
  What the locks of src/cynthia/src/platform/lock need of an event: which entries are
  registered and which of them are notified. The locale \<open>wait_list\<close> states it, and events
  satisfy it. The threads that use a lock are a multiset of program points; \<open>entries\<close>
  collects the listeners that they own.
\<close>

section \<open>Events as a set of entries and a set of notified entries\<close>

locale wait_list =
  fixes ok :: "'e \<Rightarrow> nat set \<Rightarrow> nat set \<Rightarrow> bool"
    and call :: "'e \<Rightarrow> event_op \<Rightarrow> ('e \<times> event_res) fallible"
  assumes sets: "ok ev A N \<Longrightarrow> finite A \<and> N \<subseteq> A"
    and listen: "ok ev A N \<Longrightarrow> card A < usize_max \<Longrightarrow>
      \<exists>ev' a. call ev OpListen = Inr (ev', ResListener a) \<and> a \<notin> A \<and> ok ev' (insert a A) N"
    and notify: "ok ev A N \<Longrightarrow>
      \<exists>ev' ws N'. call ev (OpNotify n) = Inr (ev', ResWoken ws) \<and> ok ev' A N' \<and> N \<subseteq> N' \<and> min n (card A) \<le> card N'"
    and poll: "ok ev A N \<Longrightarrow> a \<in> A \<Longrightarrow>
      \<exists>ev'. call ev (OpPoll a cx) = Inr (ev', ResPolled (a \<in> N)) \<and> ok ev' (if a \<in> N then A - {a} else A) (N - {a})"
    and drop: "ok ev A N \<Longrightarrow> a \<in> A \<Longrightarrow>
      \<exists>ev' ws N'. call ev (OpDropListener a) = Inr (ev', ResWoken ws) \<and> ok ev' (A - {a}) N' \<and> N - {a} \<subseteq> N' \<and>
        (a \<in> N \<longrightarrow> A - {a} \<noteq> {} \<longrightarrow> N' \<noteq> {}) \<and> (a \<notin> N \<longrightarrow> N' = N)"
begin

lemma notify_one:
  assumes "ok ev A N"
  shows "\<exists>ev' ws N'. call ev (OpNotify 1) = Inr (ev', ResWoken ws) \<and> ok ev' A N' \<and> N \<subseteq> N' \<and> (A \<noteq> {} \<longrightarrow> N' \<noteq> {})"
proof -
  obtain ev' ws N' where *: "call ev (OpNotify 1) = Inr (ev', ResWoken ws)" "ok ev' A N'" "N \<subseteq> N'" "min 1 (card A) \<le> card N'"
    using notify [OF assms, of 1] by blast
  have "N' \<noteq> {}" if "A \<noteq> {}" proof -
    have "1 \<le> card A" using sets [OF assms] that by (simp add: Suc_le_eq card_gt_0_iff)
    then show ?thesis using *(4) by auto
  qed
  with * show ?thesis by blast
qed

lemma notify_everyone:
  assumes "ok ev A N" "card A \<le> n"
  shows "\<exists>ev' ws. call ev (OpNotify n) = Inr (ev', ResWoken ws) \<and> ok ev' A A"
proof -
  obtain ev' ws N' where *: "call ev (OpNotify n) = Inr (ev', ResWoken ws)" "ok ev' A N'" "min n (card A) \<le> card N'"
    using notify [OF assms(1), of n] by blast
  have "N' = A" using sets [OF *(2)] *(3) assms(2) by (intro card_seteq) auto
  with * show ?thesis by blast
qed

end

declare event_call.simps [simp del]

text \<open>The equations that execute a call on a concrete event.\<close>

lemmas event_exec = event_call.simps event_listen_def event_notify_def listener_poll_def listener_drop_def list_insert_def list_insert_alloc_def
  list_remove_def list_remove_free_def list_remove_count_def list_notify_def guard_drop_def state_set_def state_replace_def with_entry_def get_entry_def
  set_head_def set_tail_def set_start_def event_new_def inner_new_def event_inner_of_def cache_ptr_def usize_max_def Let_def

definition notified_entries :: "listeners \<Rightarrow> nat set" where
  "notified_entries es = {a. \<exists>s. (a, s) \<in> set es \<and> is_notified s}"

text \<open>The locks neither block in \<open>wait\<close> nor use \<open>notify_additional\<close>.\<close>

fun plain_state :: "event_state \<Rightarrow> bool" where
  "plain_state (Waiting t) = False"
| "plain_state (Notified b) = (\<not> b)"
| "plain_state _ = True"

definition entries_ok :: "event \<Rightarrow> nat set \<Rightarrow> nat set \<Rightarrow> bool" where
  "entries_ok ev A N \<longleftrightarrow> (\<exists>es. event_rep ev es \<and> A = fst ` set es \<and> N = notified_entries es \<and> (\<forall>e\<in>set es. plain_state (snd e)))"

lemma notified_simps [simp]:
  "notified_entries [] = {}"
  "notified_entries (e # es) = (if is_notified (snd e) then insert (fst e) (notified_entries es) else notified_entries es)"
  "notified_entries (es @ fs) = notified_entries es \<union> notified_entries fs"
  by (cases e; auto simp: notified_entries_def)+

lemma notified_subset: "notified_entries es \<subseteq> fst ` set es"
  by (force simp: notified_entries_def)

lemma card_notified: "distinct (map fst es) \<Longrightarrow> card (notified_entries es) = notified_count es"
proof (induction es)
  case (Cons e es)
  then have "fst e \<notin> notified_entries es" using notified_subset [of es] by auto
  moreover have "finite (notified_entries es)" using notified_subset [of es] finite_subset by blast
  ultimately show ?case using Cons by (cases e) auto
qed simp

lemma notified_mark_mono: "notified_entries es \<subseteq> notified_entries (spec_mark False m es)"
  using spec_mark_keeps by (fastforce simp: notified_entries_def)

lemma plain_mark: "\<forall>e\<in>set es. plain_state (snd e) \<Longrightarrow> \<forall>e\<in>set (spec_mark False m es). plain_state (snd e)"
  using spec_mark_cases by fastforce

lemma notified_remove: "distinct (map fst es) \<Longrightarrow> notified_entries (spec_remove a es) = notified_entries es - {a}"
  by (auto simp: notified_entries_def spec_remove_def)

lemma notified_pending:
  assumes "distinct (map fst es)" "(a, s) \<in> set es" "\<not> is_notified s"
  shows "a \<notin> notified_entries es"
  using assms eq_key_imp_eq_value by (fastforce simp: notified_entries_def)

lemma notified_set:
  assumes "\<not> is_notified s" "a \<notin> notified_entries es"
  shows "notified_entries (spec_set a s es) = notified_entries es"
  using assms
proof (induction es)
  case (Cons e es)
  then show ?case by (cases e; cases "fst e = a") (auto split: if_splits)
qed (simp add: spec_set_def)

lemma plain_set: "\<forall>e\<in>set es. plain_state (snd e) \<Longrightarrow> plain_state s \<Longrightarrow> \<forall>e\<in>set (spec_set a s es). plain_state (snd e)"
  by (auto simp: spec_set_def)

lemma plain_remove: "\<forall>e\<in>set es. plain_state (snd e) \<Longrightarrow> \<forall>e\<in>set (spec_remove a es). plain_state (snd e)"
  by (auto simp: spec_remove_def)

lemma entries_okI: "event_rep ev es \<Longrightarrow> \<forall>e\<in>set es. plain_state (snd e) \<Longrightarrow> entries_ok ev (fst ` set es) (notified_entries es)"
  by (auto simp: entries_ok_def)

lemma entries_okE:
  assumes "entries_ok ev A N"
  obtains es where "event_rep ev es" "A = fst ` set es" "N = notified_entries es" "\<forall>e\<in>set es. plain_state (snd e)" "distinct (map fst es)"
  using assms event_rep_ok by (auto simp: entries_ok_def listeners_ok_def)

lemma entries_new: "entries_ok event_new {} {}"
  using entries_okI [OF event_new_rep] by simp

lemma entries_listen:
  assumes "entries_ok ev A N" "card A < usize_max"
  shows "\<exists>ev' a. event_call ww ev OpListen = Inr (ev', ResListener a) \<and> a \<notin> A \<and> entries_ok ev' (insert a A) N"
proof -
  obtain es where es: "event_rep ev es" "A = fst ` set es" "N = notified_entries es" "\<forall>e\<in>set es. plain_state (snd e)" "distinct (map fst es)"
    using assms(1) by (rule entries_okE)
  have "length es < usize_max" using assms(2) es by (metis distinct_card length_map list.set_map)
  then obtain ev' r es' where r: "event_call ww ev OpListen = Inr (ev', r)" "spec_event ww es OpListen r es'" "event_rep ev' es'"
    using event_call_refines [OF es(1), of OpListen ww] by auto
  then obtain a where "a \<notin> fst ` set es" "r = ResListener a" "es' = es @ [(a, Created)]" by (auto elim: spec_event.cases)
  then show ?thesis using r es entries_okI [OF r(3)] by auto
qed

lemma entries_notify:
  assumes "entries_ok ev A N"
  shows "\<exists>ev' ws N'. event_call ww ev (OpNotify n) = Inr (ev', ResWoken ws) \<and> entries_ok ev' A N' \<and> N \<subseteq> N' \<and> min n (card A) \<le> card N'"
proof -
  obtain es where es: "event_rep ev es" "A = fst ` set es" "N = notified_entries es" "\<forall>e\<in>set es. plain_state (snd e)" "distinct (map fst es)"
    using assms by (rule entries_okE)
  define m where "m = n - notified_count es"
  obtain ev' r es' where r: "event_call ww ev (OpNotify n) = Inr (ev', r)" "spec_event ww es (OpNotify n) r es'" "event_rep ev' es'"
    using event_call_refines [OF es(1), of "OpNotify n" ww] by auto
  then have s: "r = ResWoken (spec_wakeups m es)" "es' = spec_mark False m es" by (auto simp: m_def elim: spec_event.cases)
  have l: "card A = length es" using es by (metis distinct_card length_map list.set_map)
  have "fst ` set es' = A" using s es by (metis fst_spec_mark list.set_map)
  moreover have "distinct (map fst es')" using s es by simp
  then have "card (notified_entries es') = min (notified_count es + m) (length es)" by (simp add: card_notified s notified_count_mark)
  moreover have "min n (length es) \<le> min (notified_count es + m) (length es)" unfolding m_def by linarith
  ultimately show ?thesis using r s es l entries_okI [OF r(3)] plain_mark notified_mark_mono by metis
qed

lemma entries_poll:
  assumes "entries_ok ev A N" "a \<in> A"
  shows "\<exists>ev'. event_call ww ev (OpPoll a cx) = Inr (ev', ResPolled (a \<in> N)) \<and> entries_ok ev' (if a \<in> N then A - {a} else A) (N - {a})"
proof -
  obtain es where es: "event_rep ev es" "A = fst ` set es" "N = notified_entries es" "\<forall>e\<in>set es. plain_state (snd e)" "distinct (map fst es)"
    using assms(1) by (rule entries_okE)
  have "event_op_ok es (OpPoll a cx)" using assms(2) es by fastforce
  then obtain ev' r es' where r: "event_call ww ev (OpPoll a cx) = Inr (ev', r)" "spec_event ww es (OpPoll a cx) r es'" "event_rep ev' es'"
    using event_call_refines [OF es(1), of "OpPoll a cx" ww] by auto
  from r(2) consider (ready) s where "(a, s) \<in> set es" "is_notified s" "r = ResPolled True" "es' = spec_remove a es"
    | (pending) s where "(a, s) \<in> set es" "\<not> is_notified s" "r = ResPolled False" "es' = spec_set a (poll_state ww s cx) es"
    by (auto elim: spec_event_pollE)
  then show ?thesis
  proof cases
    case ready
    then have "a \<in> N" using es by (auto simp: notified_entries_def)
    moreover have "\<forall>e\<in>set es'. plain_state (snd e)" using es ready by (simp add: plain_remove)
    ultimately show ?thesis using ready r(1) es entries_okI [OF r(3)] by (simp add: fst_spec_remove notified_remove)
  next
    case pending
    then have n: "a \<notin> N" using es notified_pending by blast
    have p: "\<not> is_notified (poll_state ww s cx)" "plain_state (poll_state ww s cx)" by (simp_all add: poll_state_def split: event_state.splits)
    moreover have "\<forall>e\<in>set es'. plain_state (snd e)" using es p pending by (simp add: plain_set)
    ultimately show ?thesis using pending n r(1) es entries_okI [OF r(3)] by (simp add: notified_set)
  qed
qed

lemma entries_drop:
  assumes "entries_ok ev A N" "a \<in> A"
  shows "\<exists>ev' ws N'. event_call ww ev (OpDropListener a) = Inr (ev', ResWoken ws) \<and> entries_ok ev' (A - {a}) N' \<and> N - {a} \<subseteq> N' \<and>
    (a \<in> N \<longrightarrow> A - {a} \<noteq> {} \<longrightarrow> N' \<noteq> {}) \<and> (a \<notin> N \<longrightarrow> N' = N)"
proof -
  obtain es where es: "event_rep ev es" "A = fst ` set es" "N = notified_entries es" "\<forall>e\<in>set es. plain_state (snd e)" "distinct (map fst es)"
    using assms(1) by (rule entries_okE)
  obtain ev' r es' where r: "event_call ww ev (OpDropListener a) = Inr (ev', r)" "spec_event ww es (OpDropListener a) r es'" "event_rep ev' es'"
    using event_call_refines [OF es(1), of "OpDropListener a" ww] assms(2) es by auto
  from r(2) obtain s ws where s: "(a, s) \<in> set es" "spec_drop s (spec_remove a es) = (es', ws)" "r = ResWoken ws"
    by (cases rule: spec_event_dropE) auto
  let ?es = "spec_remove a es"
  have d: "distinct (map fst ?es)" using es by (simp add: spec_remove_def distinct_map_filter)
  have rem: "fst ` set ?es = A - {a}" "notified_entries ?es = N - {a}" "\<forall>e\<in>set ?es. plain_state (snd e)"
    using es by (simp_all add: fst_spec_remove notified_remove plain_remove)
  show ?thesis
  proof (cases "is_notified s")
    case True
    then have sf: "s = Notified False" using s es by (cases s) force+
    define m where "m = 1 - notified_count ?es"
    have e': "es' = spec_mark False m ?es" using s sf by (simp add: m_def)
    have "fst ` set es' = A - {a}" using rem(1) by (metis e' fst_spec_mark list.set_map)
    moreover have "N - {a} \<subseteq> notified_entries es'" using notified_mark_mono [of ?es m] rem e' by simp
    moreover have "notified_entries es' \<noteq> {}" if "A - {a} \<noteq> {}"
    proof -
      have "?es \<noteq> []" using that rem by auto
      then have "1 \<le> notified_count es'" using spec_drop_count(1) [OF True, of ?es] s by (simp add: min_def split: if_splits) (cases ?es; simp)
      moreover have "distinct (map fst es')" using d e' by simp
      ultimately show ?thesis using card_notified by fastforce
    qed
    moreover have "a \<in> N" using True s es by (auto simp: notified_entries_def)
    ultimately show ?thesis using r s entries_okI [OF r(3)] plain_mark [OF rem(3)] e' by metis
  next
    case False
    then have "a \<notin> N" using s es notified_pending by blast
    moreover have "es' = ?es" using s False by (cases s) auto
    ultimately show ?thesis using r s rem entries_okI [OF r(3)] by auto
  qed
qed

interpretation entries: wait_list entries_ok "event_call ww" for ww
proof (unfold_locales, goal_cases)
  case (1 ev A N)
  then show ?case using notified_subset by (auto elim!: entries_okE)
qed (rule entries_listen entries_notify entries_poll entries_drop; assumption)+

section \<open>Entries owned by threads\<close>

definition entries :: "('t \<Rightarrow> nat multiset) \<Rightarrow> 't multiset \<Rightarrow> nat multiset" where
  "entries f T = (\<Sum>t\<in>#T. f t)"

lemma entries_simps [simp]: "entries f {#} = {#}" "entries f (add_mset t T) = f t + entries f T"
  by (simp_all add: entries_def)

lemma entries_in: "t \<in># T \<Longrightarrow> f t \<subseteq># entries f T"
  by (metis entries_simps(2) insert_DiffM mset_subset_eq_add_left)

lemma entries_size: "(\<And>t. size (f t) \<le> 1) \<Longrightarrow> size (entries f T) \<le> size T"
proof (induction T)
  case (add t T)
  then have "size (f t) \<le> 1" "size (entries f T) \<le> size T" by blast+
  then show ?case by simp
qed simp

lemma tokens_image: "tokens f (image_mset h T) = tokens (\<lambda>t. f (h t)) T"
  by (induction T) simp_all

lemma tokens_size: "(\<And>t. f t \<le> 1) \<Longrightarrow> tokens f T \<le> size T"
  using tokens_mono [of f "\<lambda>_. 1" T] by (simp add: tokens_def)

lemma owned_add: "finite A \<Longrightarrow> a \<notin> A \<Longrightarrow> mset_set (insert a A) = add_mset a (mset_set A)"
  by simp

lemma owned_remove: "finite A \<Longrightarrow> add_mset a M = mset_set A \<Longrightarrow> a \<in> A \<and> M = mset_set (A - {a})"
  by (metis add_mset_remove_trivial elem_mset_set finite_set_mset_mset_set mset_set.remove union_single_eq_member)

text \<open>
  \<open>waits\<close> ties an event to the threads that use it: every registered entry belongs to exactly
  one thread, and where \<open>Q\<close> holds (nobody else is going to notify), there is a notified entry
  if a thread is asleep. The locale has one law for each call on the event.
\<close>

definition waits :: "('p \<Rightarrow> nat multiset) \<Rightarrow> ('p \<Rightarrow> nat) \<Rightarrow> event \<Rightarrow> bool \<Rightarrow> 'p multiset \<Rightarrow> bool" where
  "waits e z ev Q T \<longleftrightarrow> (\<exists>A N. entries_ok ev A N \<and> entries e T = mset_set A \<and> (Q \<longrightarrow> 0 < tokens z T \<longrightarrow> N \<noteq> {}))"

locale waiters =
  fixes e :: "'p \<Rightarrow> nat multiset" and z :: "'p \<Rightarrow> nat"
  assumes one_entry: "size (e p) \<le> 1"
    and asleep_entry: "0 < z p \<Longrightarrow> e p \<noteq> {#}"
begin

lemma asleep_entries: "0 < tokens z T \<Longrightarrow> entries e T \<noteq> {#}"
  by (induction T) (auto dest: asleep_entry)

lemma waitsE:
  assumes "waits e z ev Q (add_mset p R)"
  obtains A N where "entries_ok ev A N" "e p + entries e R = mset_set A" "Q \<longrightarrow> 0 < z p + tokens z R \<longrightarrow> N \<noteq> {}" "finite A" "N \<subseteq> A"
  using assms entries.sets by (auto simp: waits_def)

lemma waitsI:
  assumes "entries_ok ev A N" "e p + entries e R = mset_set A" "Q \<Longrightarrow> 0 < z p + tokens z R \<Longrightarrow> N \<noteq> {}"
  shows "waits e z ev Q (add_mset p R)"
  unfolding waits_def using assms by (intro exI [of _ A] exI [of _ N]) auto

lemma waits_new: "(\<And>p. p \<in># T \<Longrightarrow> e p = {#}) \<Longrightarrow> waits e z event_new Q T"
proof -
  assume *: "\<And>p. p \<in># T \<Longrightarrow> e p = {#}"
  then have "entries e T = {#}" by (induction T) simp_all
  moreover from this have "tokens z T = 0" using asleep_entries by blast
  ultimately show ?thesis using entries_new by (auto simp: waits_def)
qed

lemma waits_same:
  assumes "waits e z ev Q (add_mset p R)" "e p' = e p" "Q' \<Longrightarrow> Q \<and> z p' \<le> z p"
  shows "waits e z ev Q' (add_mset p' R)"
proof -
  obtain A N where *: "entries_ok ev A N" "e p + entries e R = mset_set A" "Q \<longrightarrow> 0 < z p + tokens z R \<longrightarrow> N \<noteq> {}"
    using assms(1) by (rule waitsE)
  show ?thesis using assms(2,3) * by (intro waitsI [OF *(1)]) auto
qed

lemma waits_awake: "waits e z ev Q T \<Longrightarrow> tokens z T = 0 \<Longrightarrow> waits e z ev Q' T"
  by (auto simp: waits_def)

lemma waits_listen:
  assumes "waits e z ev Q (add_mset p R)" "e p = {#}" "size R < usize_max"
  shows "\<exists>ev' a. event_call ww ev OpListen = Inr (ev', ResListener a) \<and>
    (\<forall>p' Q'. e p' = {#a#} \<and> (Q' \<longrightarrow> Q \<and> z p' \<le> z p) \<longrightarrow> waits e z ev' Q' (add_mset p' R))"
proof -
  obtain A N where w: "entries_ok ev A N" "e p + entries e R = mset_set A" "Q \<longrightarrow> 0 < z p + tokens z R \<longrightarrow> N \<noteq> {}" "finite A"
    using assms(1) by (rule waitsE)
  then have *: "entries_ok ev A N" "entries e R = mset_set A" "Q \<longrightarrow> 0 < z p + tokens z R \<longrightarrow> N \<noteq> {}" "finite A"
    using assms(2) by simp_all
  have "card A \<le> size R" using entries_size [of e R] one_entry *(2) by simp
  then have "card A < usize_max" using assms(3) by simp
  then obtain ev' a where l: "event_call ww ev OpListen = Inr (ev', ResListener a)" "a \<notin> A" "entries_ok ev' (insert a A) N"
    using entries.listen [OF *(1)] by blast
  then show ?thesis using * by (auto intro!: waitsI [OF l(3)])
qed

lemma waits_notify:
  assumes "waits e z ev Q (add_mset p R)"
  shows "\<exists>ev' ws. event_call ww ev (OpNotify 1) = Inr (ev', ResWoken ws) \<and>
    (\<forall>p' Q'. e p' = e p \<longrightarrow> waits e z ev' Q' (add_mset p' R))"
proof -
  obtain A N where *: "entries_ok ev A N" "e p + entries e R = mset_set A"
    using assms by (rule waitsE)
  obtain ev' ws N' where l: "event_call ww ev (OpNotify 1) = Inr (ev', ResWoken ws)" "entries_ok ev' A N'" "A \<noteq> {} \<longrightarrow> N' \<noteq> {}"
    using entries.notify_one [OF *(1)] by blast
  have "waits e z ev' Q' (add_mset p' R)" if p': "e p' = e p" for p' Q'
  proof (rule waitsI [OF l(2)])
    show *: "e p' + entries e R = mset_set A" using * p' by simp
    show "N' \<noteq> {}" if "0 < z p' + tokens z R" using asleep_entries [of "add_mset p' R"] that l(3) * by auto
  qed
  with l(1) show ?thesis by blast
qed

lemma waits_poll:
  assumes "waits e z ev Q (add_mset p R)" "e p = {#a#}"
  shows "\<exists>ev' b. event_call ww ev (OpPoll a cx) = Inr (ev', ResPolled b) \<and>
    (b \<longrightarrow> (\<forall>p'. e p' = {#} \<longrightarrow> waits e z ev' False (add_mset p' R))) \<and> (\<not> b \<longrightarrow> waits e z ev' Q (add_mset p R))"
proof -
  obtain A N where w: "entries_ok ev A N" "e p + entries e R = mset_set A" "Q \<longrightarrow> 0 < z p + tokens z R \<longrightarrow> N \<noteq> {}" "finite A"
    using assms(1) by (rule waitsE)
  then have *: "entries_ok ev A N" "add_mset a (entries e R) = mset_set A" "Q \<longrightarrow> 0 < z p + tokens z R \<longrightarrow> N \<noteq> {}" "finite A"
    using assms(2) by simp_all
  note o = owned_remove [OF *(4,2)]
  obtain ev' where l: "event_call ww ev (OpPoll a cx) = Inr (ev', ResPolled (a \<in> N))"
      "entries_ok ev' (if a \<in> N then A - {a} else A) (N - {a})"
    using entries.poll [OF *(1)] o by blast
  have "waits e z ev' False (add_mset p' R)" if "a \<in> N" "e p' = {#}" for p'
    using l(2) that o by (intro waitsI [of ev' "A - {a}" "N - {a}"]) simp_all
  moreover have "waits e z ev' Q (add_mset p R)" if "a \<notin> N"
    using l(2) that * assms(2) by (intro waitsI [of ev' A N]) auto
  ultimately show ?thesis using l(1) by blast
qed

lemma waits_drop:
  assumes "waits e z ev Q (add_mset p R)" "e p = {#a#}"
  shows "\<exists>ev' ws. event_call ww ev (OpDropListener a) = Inr (ev', ResWoken ws) \<and>
    (\<forall>p' Q'. e p' = {#} \<and> (Q' \<longrightarrow> Q \<and> z p' \<le> z p) \<longrightarrow> waits e z ev' Q' (add_mset p' R))"
proof -
  obtain A N where w: "entries_ok ev A N" "e p + entries e R = mset_set A" "Q \<longrightarrow> 0 < z p + tokens z R \<longrightarrow> N \<noteq> {}" "finite A"
    using assms(1) by (rule waitsE)
  then have *: "entries_ok ev A N" "add_mset a (entries e R) = mset_set A" "Q \<longrightarrow> 0 < z p + tokens z R \<longrightarrow> N \<noteq> {}" "finite A"
    using assms(2) by simp_all
  note o = owned_remove [OF *(4,2)]
  obtain ev' ws N' where l: "event_call ww ev (OpDropListener a) = Inr (ev', ResWoken ws)" "entries_ok ev' (A - {a}) N'"
      "a \<in> N \<longrightarrow> A - {a} \<noteq> {} \<longrightarrow> N' \<noteq> {}" "a \<notin> N \<longrightarrow> N' = N"
    using entries.drop [OF *(1)] o by blast
  have "waits e z ev' Q' (add_mset p' R)" if p': "e p' = {#}" "Q' \<longrightarrow> Q \<and> z p' \<le> z p" for p' Q'
  proof (rule waitsI [OF l(2)])
    show s: "e p' + entries e R = mset_set (A - {a})" using o p' by simp
    show "N' \<noteq> {}" if q: "Q'" "0 < z p' + tokens z R"
    proof (cases "a \<in> N")
      case True
      have "A - {a} \<noteq> {}" using asleep_entries [of "add_mset p' R"] q s by (metis entries_simps(2) mset_set.empty tokens_simps(2))
      then show ?thesis using l(3) True by simp
    next
      case False
      then show ?thesis using l(4) *(3) p' q by auto
    qed
  qed
  with l(1) show ?thesis by blast
qed

text \<open>A thread that is asleep when nobody else is responsible can be woken.\<close>

lemma waits_asleep:
  assumes "waits e z ev True T" "0 < tokens z T"
  shows "\<exists>p a. p \<in># T \<and> e p = {#a#} \<and> (\<forall>cx. \<exists>ev'. event_call ww ev (OpPoll a cx) = Inr (ev', ResPolled True))"
proof -
  obtain A N where *: "entries_ok ev A N" "entries e T = mset_set A" "N \<noteq> {}" using assms by (auto simp: waits_def)
  then obtain a where a: "a \<in> N" by blast
  have A: "finite A" "a \<in> A" using entries.sets [OF *(1)] a by auto
  then have "a \<in># entries e T" using *(2) by simp
  then obtain p where p: "p \<in># T" "a \<in># e p" by (auto simp: entries_def in_Union_mset_iff)
  then have "e p = {#a#}" using one_entry [of p] by (metis insert_DiffM le_zero_eq not_less_eq_eq One_nat_def size_add_mset size_eq_0_iff_empty)
  moreover have "\<exists>ev'. event_call ww ev (OpPoll a cx) = Inr (ev', ResPolled True)" for cx
    using entries.poll [OF *(1) A(2), of ww cx] a by auto
  ultimately show ?thesis using p(1) by blast
qed

end

section \<open>Threads\<close>

text \<open>
  Any number of threads that share one object. A schedule says which thread makes the next
  step and how it decides where it has a choice: which call it makes, with which waker it
  is polled, whether its future is dropped where it awaits, what a clock says and whether a
  weak exchange fails spuriously. The locale \<open>thread_system\<close> lifts an invariant
  that every allowed step keeps to every run.
\<close>

datatype lock_choice = Call_Lock | Call_Try_Lock | Drop_Guard | Poll_Cx waker | Drop_Future | Chance bool

fun new_entry :: "event_res \<Rightarrow> nat" where
  "new_entry (ResListener a) = a"
| "new_entry _ = 0"

definition threads_step :: "('c \<Rightarrow> 'm \<Rightarrow> 'p \<Rightarrow> ('m \<times> 'p) fallible) \<Rightarrow> 'm \<times> 'p list \<Rightarrow> nat \<times> 'c \<Rightarrow> ('m \<times> 'p list) fallible" where
  "threads_step step g ch =
     (if fst ch < length (snd g) then
        bind_fallible (step (snd ch) (fst g) (snd g ! fst ch)) (\<lambda>(m, p). Inr (m, (snd g)[fst ch := p]))
      else Inr g)"

fun threads_run :: "('c \<Rightarrow> 'm \<Rightarrow> 'p \<Rightarrow> ('m \<times> 'p) fallible) \<Rightarrow> 'm \<times> 'p list \<Rightarrow> (nat \<times> 'c) list \<Rightarrow> ('m \<times> 'p list) fallible" where
  "threads_run step g [] = Inr g"
| "threads_run step g (ch # chs) = bind_fallible (threads_step step g ch) (\<lambda>g'. threads_run step g' chs)"

locale thread_system =
  fixes step :: "'c \<Rightarrow> 'm \<Rightarrow> 'p \<Rightarrow> ('m \<times> 'p) fallible"
    and inv :: "'m \<Rightarrow> 'p multiset \<Rightarrow> bool"
    and allowed :: "'c \<Rightarrow> bool"
  assumes keeps: "inv m (add_mset p R) \<Longrightarrow> allowed ch \<Longrightarrow> \<exists>m' p'. step ch m p = Inr (m', p') \<and> inv m' (add_mset p' R)"
begin

lemma step_keeps:
  assumes "inv m (mset ths)" "allowed ch"
  shows "\<exists>m' ths'. threads_step step (m, ths) (i, ch) = Inr (m', ths') \<and> inv m' (mset ths') \<and> length ths' = length ths"
proof (cases "i < length ths")
  case True
  then have m: "mset ths = add_mset (ths ! i) (mset ths - {#ths ! i#})" by simp
  obtain m' p' where "step ch m (ths ! i) = Inr (m', p')" "inv m' (add_mset p' (mset ths - {#ths ! i#}))"
    using keeps [of m "ths ! i" "mset ths - {#ths ! i#}" ch] assms m by auto
  with True show ?thesis by (simp add: threads_step_def mset_update)
qed (use assms in \<open>simp add: threads_step_def\<close>)

lemma run_keeps:
  assumes "inv m (mset ths)" "\<And>ch. ch \<in> set chs \<Longrightarrow> allowed (snd ch)"
  shows "\<exists>m' ths'. threads_run step (m, ths) chs = Inr (m', ths') \<and> inv m' (mset ths') \<and> length ths' = length ths"
  using assms
proof (induction chs arbitrary: m ths)
  case (Cons ch chs)
  obtain m1 ths1 where "threads_step step (m, ths) ch = Inr (m1, ths1)" "inv m1 (mset ths1)" "length ths1 = length ths"
    using step_keeps [OF Cons.prems(1), of "snd ch" "fst ch"] Cons.prems(2) [of ch] by auto
  with Cons.IH [of m1 ths1] Cons.prems(2) show ?case by simp
qed simp

end

end
