(* ===== verification/Lock_Mutex.thy ===== *)
theory Lock_Mutex
  imports Lock_Base
begin

text \<open>
  The asynchronous mutex (src/cynthia/src/platform/lock/mutex.rs). The state word is 1 while
  the mutex is locked, plus 2 for every starving waiter. A task that uses the mutex is a
  program point: between two points it makes one atomic access to the word, or one call on
  the event \<open>lock_ops\<close>. It can be cancelled, its future dropped, where it awaits a listener.
  \<open>lock_arc\<close>, \<open>try_lock_arc\<close> and \<open>MutexGuardArc\<close> make the same accesses as \<open>lock\<close>, \<open>try_lock\<close> and
  \<open>MutexGuard\<close>. \<open>Chance True\<close> at \<open>S_Retry\<close> says that more than 500 microseconds have elapsed.
\<close>

section \<open>The mutex\<close>

record 'a mutex =
  mx_state :: usize
  mx_ops :: event
  mx_data :: 'a

definition mutex_new :: "'a \<Rightarrow> 'a mutex" where
  "mutex_new d = \<lparr>mx_state = 0, mx_ops = event_new, mx_data = d\<rparr>"

definition mutex_into_inner :: "'a mutex \<Rightarrow> 'a" where
  "mutex_into_inner m = mx_data m"

text \<open>\<open>Deref\<close> and \<open>DerefMut\<close> of the guard, and \<open>get_mut\<close>: reading the data and changing it by \<open>f\<close>.\<close>

definition guard_deref :: "'a mutex \<Rightarrow> 'a" where
  "guard_deref m = mx_data m"

definition guard_deref_mut :: "('a \<Rightarrow> 'a) \<Rightarrow> 'a mutex \<Rightarrow> 'a mutex" where
  "guard_deref_mut f m = m\<lparr>mx_data := f (mx_data m)\<rparr>"

text \<open>
  The program points. \<open>Slow\<close> is the first loop of \<open>acquire_slow\<close>, \<open>Starve\<close> what follows it. The
  entry of a live listener is part of the point.
\<close>

datatype slow_pc =
    S_Listen
  | S_Cas nat
  | S_Drop_Hold nat
  | S_Drop_Starve nat
  | S_Await nat
  | S_Retry
  | S_Pass

datatype starve_pc =
    V_Enter
  | V_Listen
  | V_Cas nat
  | V_Drop_Hold nat
  | V_Notify nat
  | V_Await nat
  | V_Or
  | V_Sub
  | V_Cancel

datatype mutex_pc = Idle | Fast | Try | Slow slow_pc | Starve starve_pc | Hold | Unlock

definition mutex_cas :: "usize \<Rightarrow> usize \<Rightarrow> 'a mutex \<Rightarrow> 'a mutex \<times> usize" where
  "mutex_cas old new m = (if mx_state m = old then (m\<lparr>mx_state := new\<rparr>, old) else (m, mx_state m))"

definition on_ops :: "(waker \<Rightarrow> waker \<Rightarrow> bool) \<Rightarrow> 'a mutex \<Rightarrow> event_op \<Rightarrow> (event_res \<Rightarrow> mutex_pc) \<Rightarrow> ('a mutex \<times> mutex_pc) fallible" where
  "on_ops ww m p k = bind_fallible (event_call ww (mx_ops m) p) (\<lambda>(ev, r). Inr (m\<lparr>mx_ops := ev\<rparr>, k r))"

fun slow_step :: "(waker \<Rightarrow> waker \<Rightarrow> bool) \<Rightarrow> lock_choice \<Rightarrow> 'a mutex \<Rightarrow> slow_pc \<Rightarrow> ('a mutex \<times> mutex_pc) fallible" where
  "slow_step ww ch m S_Listen = on_ops ww m OpListen (\<lambda>r. Slow (S_Cas (new_entry r)))"
| "slow_step ww ch m (S_Cas a) =
     (case mutex_cas 0 1 m of (m', s) \<Rightarrow>
        Inr (m', if s = 0 then Slow (S_Drop_Hold a) else if s = 1 then Slow (S_Await a) else Slow (S_Drop_Starve a)))"
| "slow_step ww ch m (S_Drop_Hold a) = on_ops ww m (OpDropListener a) (\<lambda>_. Hold)"
| "slow_step ww ch m (S_Drop_Starve a) = on_ops ww m (OpDropListener a) (\<lambda>_. Starve V_Enter)"
| "slow_step ww ch m (S_Await a) =
     (case ch of
        Poll_Cx cx \<Rightarrow> on_ops ww m (OpPoll a cx) (\<lambda>r. if r = ResPolled True then Slow S_Retry else Slow (S_Await a))
      | Drop_Future \<Rightarrow> on_ops ww m (OpDropListener a) (\<lambda>_. Idle)
      | _ \<Rightarrow> Inr (m, Slow (S_Await a)))"
| "slow_step ww ch m S_Retry =
     (case mutex_cas 0 1 m of (m', s) \<Rightarrow>
        Inr (m', if s = 0 then Hold
                 else if s = 1 then (if ch = Chance True then Starve V_Enter else Slow S_Listen)
                 else Slow S_Pass))"
| "slow_step ww ch m S_Pass = on_ops ww m (OpNotify 1) (\<lambda>_. Starve V_Enter)"

fun starve_step :: "(waker \<Rightarrow> waker \<Rightarrow> bool) \<Rightarrow> lock_choice \<Rightarrow> 'a mutex \<Rightarrow> starve_pc \<Rightarrow> ('a mutex \<times> mutex_pc) fallible" where
  "starve_step ww ch m V_Enter =
     (if unat (mx_state m) > usize_max div 2 then Inl Aborted else Inr (m\<lparr>mx_state := mx_state m + 2\<rparr>, Starve V_Listen))"
| "starve_step ww ch m V_Listen = on_ops ww m OpListen (\<lambda>r. Starve (V_Cas (new_entry r)))"
| "starve_step ww ch m (V_Cas a) =
     (case mutex_cas 2 (2 OR 1) m of (m', s) \<Rightarrow>
        Inr (m', Starve (if s = 2 then V_Drop_Hold a else if s mod 2 = 1 then V_Await a else V_Notify a)))"
| "starve_step ww ch m (V_Drop_Hold a) = on_ops ww m (OpDropListener a) (\<lambda>_. Starve V_Sub)"
| "starve_step ww ch m (V_Notify a) = on_ops ww m (OpNotify 1) (\<lambda>_. Starve (V_Await a))"
| "starve_step ww ch m (V_Await a) =
     (case ch of
        Poll_Cx cx \<Rightarrow> on_ops ww m (OpPoll a cx) (\<lambda>r. if r = ResPolled True then Starve V_Or else Starve (V_Await a))
      | Drop_Future \<Rightarrow> on_ops ww m (OpDropListener a) (\<lambda>_. Starve V_Cancel)
      | _ \<Rightarrow> Inr (m, Starve (V_Await a)))"
| "starve_step ww ch m V_Or =
     Inr (m\<lparr>mx_state := mx_state m OR 1\<rparr>, Starve (if mx_state m mod 2 = 0 then V_Sub else V_Listen))"
| "starve_step ww ch m V_Sub = Inr (m\<lparr>mx_state := mx_state m - 2\<rparr>, Hold)"
| "starve_step ww ch m V_Cancel = Inr (m\<lparr>mx_state := mx_state m - 2\<rparr>, Idle)"

definition try_lock :: "'a mutex \<Rightarrow> 'a mutex \<times> bool" where
  "try_lock m = (case mutex_cas 0 1 m of (m', s) \<Rightarrow> (m', s = 0))"

definition guard_unlock :: "'a mutex \<Rightarrow> 'a mutex" where
  "guard_unlock m = m\<lparr>mx_state := mx_state m - 1\<rparr>"

fun mutex_step :: "(waker \<Rightarrow> waker \<Rightarrow> bool) \<Rightarrow> lock_choice \<Rightarrow> 'a mutex \<Rightarrow> mutex_pc \<Rightarrow> ('a mutex \<times> mutex_pc) fallible" where
  "mutex_step ww ch m Idle = Inr (m, case ch of Call_Lock \<Rightarrow> Fast | Call_Try_Lock \<Rightarrow> Try | _ \<Rightarrow> Idle)"
| "mutex_step ww ch m Fast = (case try_lock m of (m', b) \<Rightarrow> Inr (m', if b then Hold else Slow S_Listen))"
| "mutex_step ww ch m Try = (case try_lock m of (m', b) \<Rightarrow> Inr (m', if b then Hold else Idle))"
| "mutex_step ww ch m (Slow p) = slow_step ww ch m p"
| "mutex_step ww ch m (Starve p) = starve_step ww ch m p"
| "mutex_step ww ch m Hold =
     (if ch = Drop_Guard then Inr (guard_unlock m, Unlock) else Inr (m, Hold))"
| "mutex_step ww ch m Unlock = on_ops ww m (OpNotify 1) (\<lambda>_. Idle)"

definition mutex_run :: "(waker \<Rightarrow> waker \<Rightarrow> bool) \<Rightarrow> 'a mutex \<times> mutex_pc list \<Rightarrow> (nat \<times> lock_choice) list \<Rightarrow> ('a mutex \<times> mutex_pc list) fallible" where
  "mutex_run ww = threads_run (mutex_step ww)"

section \<open>The invariant\<close>

text \<open>The entry a task owns, and what it counts for.\<close>

fun mutex_entry :: "mutex_pc \<Rightarrow> nat multiset" where
  "mutex_entry (Slow (S_Cas a)) = {#a#}"
| "mutex_entry (Slow (S_Drop_Hold a)) = {#a#}"
| "mutex_entry (Slow (S_Drop_Starve a)) = {#a#}"
| "mutex_entry (Slow (S_Await a)) = {#a#}"
| "mutex_entry (Starve (V_Cas a)) = {#a#}"
| "mutex_entry (Starve (V_Drop_Hold a)) = {#a#}"
| "mutex_entry (Starve (V_Notify a)) = {#a#}"
| "mutex_entry (Starve (V_Await a)) = {#a#}"
| "mutex_entry _ = {#}"

fun holding :: "mutex_pc \<Rightarrow> nat" where
  "holding Hold = 1"
| "holding (Slow (S_Drop_Hold a)) = 1"
| "holding (Starve (V_Drop_Hold a)) = 1"
| "holding (Starve V_Sub) = 1"
| "holding _ = 0"

fun starving :: "mutex_pc \<Rightarrow> nat" where
  "starving (Starve V_Enter) = 0"
| "starving (Starve _) = 1"
| "starving _ = 0"

fun asleep :: "mutex_pc \<Rightarrow> nat" where
  "asleep (Slow (S_Await a)) = 1"
| "asleep (Starve (V_Await a)) = 1"
| "asleep _ = 0"

text \<open>
  A task is responsible when it is about to take the mutex, or to notify a waiter, without
  waiting before.
\<close>

fun responsible :: "mutex_pc \<Rightarrow> nat" where
  "responsible (Slow S_Retry) = 1"
| "responsible (Slow S_Pass) = 1"
| "responsible (Starve (V_Notify a)) = 1"
| "responsible (Starve V_Or) = 1"
| "responsible Unlock = 1"
| "responsible _ = 0"

definition max_tasks :: nat where
  "max_tasks = 2 ^ 62"

definition word_inv :: "usize \<Rightarrow> mutex_pc multiset \<Rightarrow> bool" where
  "word_inv s T \<longleftrightarrow> size T \<le> max_tasks \<and> tokens holding T \<le> 1 \<and> unat s = 2 * tokens starving T + tokens holding T"

definition mutex_idle :: "mutex_pc multiset \<Rightarrow> bool" where
  "mutex_idle T \<longleftrightarrow> tokens holding T = 0 \<and> tokens responsible T = 0"

definition mutex_inv :: "'a mutex \<Rightarrow> mutex_pc multiset \<Rightarrow> bool" where
  "mutex_inv m T \<longleftrightarrow> word_inv (mx_state m) T \<and> waits mutex_entry asleep (mx_ops m) (mutex_idle T) T"


interpretation mutex_waiters: waiters mutex_entry asleep
proof
  show "size (mutex_entry p) \<le> 1" for p by (induction p rule: mutex_entry.induct) simp_all
  show "0 < asleep p \<Longrightarrow> mutex_entry p \<noteq> {#}" for p by (induction p rule: asleep.induct) simp_all
qed


section \<open>Every step keeps the invariant\<close>

definition mutex_ok :: "mutex_pc multiset \<Rightarrow> 'a \<Rightarrow> ('a mutex \<times> mutex_pc) fallible \<Rightarrow> bool" where
  "mutex_ok R d x \<longleftrightarrow> (\<exists>m' p'. x = Inr (m', p') \<and> mutex_inv m' (add_mset p' R) \<and> mx_data m' = d)"

lemma mutex_ok_simps [simp]:
  "mutex_ok R d (Inr (m', p')) \<longleftrightarrow> mutex_inv m' (add_mset p' R) \<and> mx_data m' = d"
  by (simp add: mutex_ok_def)

lemma starving_le: "starving p \<le> 1"
  by (induction p rule: starving.induct) simp_all

lemma word_facts:
  assumes "word_inv s (add_mset p R)"
  shows "size R < max_tasks" "holding p + tokens holding R \<le> 1" "unat s = 2 * (starving p + tokens starving R) + (holding p + tokens holding R)"
    "starving p + tokens starving R \<le> size R + 1"
proof -
  show "starving p + tokens starving R \<le> size R + 1" using tokens_size [of starving "add_mset p R", OF starving_le] by simp
qed (use assms in \<open>auto simp: word_inv_def\<close>)

lemma word_same: "word_inv s (add_mset p R) \<Longrightarrow> holding p' = holding p \<Longrightarrow> starving p' = starving p \<Longrightarrow> word_inv s (add_mset p' R)"
  by (simp add: word_inv_def)

lemma word_tests:
  fixes s :: usize
  assumes "unat s = 2 * n + h" "h \<le> 1"
  shows "s = 0 \<longleftrightarrow> n = 0 \<and> h = 0" "s = 1 \<longleftrightarrow> n = 0 \<and> h = 1" "s = 2 \<longleftrightarrow> n = 1 \<and> h = 0" "s mod 2 = 1 \<longleftrightarrow> h = 1" "s mod 2 = 0 \<longleftrightarrow> h = 0"
proof -
  have "unat (s mod 2) = h" using assms by (simp add: unat_mod)
  then show "s mod 2 = 1 \<longleftrightarrow> h = 1" "s mod 2 = 0 \<longleftrightarrow> h = 0" by (simp_all add: word_unat_eq_iff)
  have "s = 0 \<longleftrightarrow> unat s = 0" "s = 1 \<longleftrightarrow> unat s = 1" "s = 2 \<longleftrightarrow> unat s = 2" by (simp_all add: word_unat_eq_iff)
  then show "s = 0 \<longleftrightarrow> n = 0 \<and> h = 0" "s = 1 \<longleftrightarrow> n = 0 \<and> h = 1" "s = 2 \<longleftrightarrow> n = 1 \<and> h = 0"
    using assms by presburger+
qed

lemma word_arith:
  fixes s :: usize
  assumes "unat s = 2 * n + h" "h \<le> 1"
  shows "n < max_tasks \<Longrightarrow> unat (s + 2) = 2 * Suc n + h" "0 < n \<Longrightarrow> unat (s - 2) = 2 * (n - 1) + h" "h = 1 \<Longrightarrow> unat (s - 1) = 2 * n"
    "h = 0 \<Longrightarrow> unat (s OR 1) = 2 * n + 1" "h = 1 \<Longrightarrow> s OR 1 = s"
proof -
  show "unat (s + 2) = 2 * Suc n + h" if "n < max_tasks"
    using assms that by (simp add: unat_word_ariths max_tasks_def)
  show "unat (s - 2) = 2 * (n - 1) + h" if "0 < n"
    using assms that by (simp add: unat_sub word_le_nat_alt)
  show "unat (s - 1) = 2 * n" if "h = 1"
    using assms that by (simp add: unat_sub word_le_nat_alt)
  have e: "even s \<longleftrightarrow> h = 0" using word_tests(5) [OF assms] by (simp add: even_iff_mod_2_eq_zero)
  have "unat s + 1 < 2 ^ 64" if "h = 0" proof -
    have "unat s < 2 ^ 64" using unsigned_less [of s] by simp
    then show ?thesis using assms that by simp
  qed
  then show "h = 0 \<Longrightarrow> unat (s OR 1) = 2 * n + 1" "h = 1 \<Longrightarrow> s OR 1 = s"
    using e assms by (simp_all add: or_one_eq unat_word_ariths)
qed

lemma mutex_invD:
  assumes "mutex_inv m (add_mset p R)"
  shows "word_inv (mx_state m) (add_mset p R)" "waits mutex_entry asleep (mx_ops m) (mutex_idle (add_mset p R)) (add_mset p R)"
    "size R < usize_max"
  using assms word_facts(1) [of "mx_state m" p R] by (auto simp: mutex_inv_def max_tasks_def usize_max_def)

text \<open>A step on the word alone, and one step for each call on the event.\<close>

lemma mutex_word_step:
  assumes "mutex_inv m (add_mset p R)" "mutex_entry p' = mutex_entry p" "word_inv s (add_mset p' R)"
    "mutex_idle (add_mset p' R) \<Longrightarrow> mutex_idle (add_mset p R) \<and> asleep p' \<le> asleep p"
  shows "mutex_inv (m\<lparr>mx_state := s\<rparr>) (add_mset p' R)"
  using mutex_waiters.waits_same [OF mutex_invD(2) [OF assms(1)] assms(2)] assms(3,4) by (simp add: mutex_inv_def)

lemma mutex_same_step:
  assumes "mutex_inv m (add_mset p R)" "mutex_entry p' = mutex_entry p" "holding p' = holding p" "starving p' = starving p"
    "mutex_idle (add_mset p' R) \<Longrightarrow> mutex_idle (add_mset p R) \<and> asleep p' \<le> asleep p"
  shows "mutex_inv m (add_mset p' R)"
  using mutex_word_step [OF assms(1,2) word_same [OF mutex_invD(1) [OF assms(1)] assms(3,4)] assms(5)] by simp

lemma mutex_listen_step:
  assumes inv: "mutex_inv m (add_mset p R)" and e: "mutex_entry p = {#}"
    and k: "\<And>a. mutex_entry (k (ResListener a)) = {#a#} \<and> holding (k (ResListener a)) = holding p \<and> starving (k (ResListener a)) = starving p \<and>
      asleep (k (ResListener a)) = asleep p \<and> responsible (k (ResListener a)) = responsible p"
  shows "mutex_ok R (mx_data m) (on_ops ww m OpListen k)"
proof -
  note d = mutex_invD [OF inv]
  obtain ev' a where l: "event_call ww (mx_ops m) OpListen = Inr (ev', ResListener a)"
    "\<forall>p' Q'. mutex_entry p' = {#a#} \<and> (Q' \<longrightarrow> mutex_idle (add_mset p R) \<and> asleep p' \<le> asleep p) \<longrightarrow> waits mutex_entry asleep ev' Q' (add_mset p' R)"
    using mutex_waiters.waits_listen [OF d(2) e d(3)] by blast
  then show ?thesis using k [of a] word_same [OF d(1)] by (simp add: on_ops_def mutex_inv_def mutex_idle_def)
qed

lemma mutex_notify_step:
  assumes inv: "mutex_inv m (add_mset p R)" and k: "\<And>r. k r = p'"
    and "mutex_entry p' = mutex_entry p" "holding p' = holding p" "starving p' = starving p"
  shows "mutex_ok R (mx_data m) (on_ops ww m (OpNotify 1) k)"
proof -
  note d = mutex_invD [OF inv]
  obtain ev' ws where l: "event_call ww (mx_ops m) (OpNotify 1) = Inr (ev', ResWoken ws)"
    "\<forall>p' Q'. mutex_entry p' = mutex_entry p \<longrightarrow> waits mutex_entry asleep ev' Q' (add_mset p' R)"
    using mutex_waiters.waits_notify [OF d(2)] by blast
  then show ?thesis using assms word_same [OF d(1)] by (simp add: on_ops_def mutex_inv_def)
qed

lemma mutex_drop_step:
  assumes inv: "mutex_inv m (add_mset p R)" and k: "\<And>r. k r = p'" and e: "mutex_entry p = {#a#}"
    and "mutex_entry p' = {#}" "holding p' = holding p" "starving p' = starving p" "asleep p' \<le> asleep p" "responsible p' = responsible p"
  shows "mutex_ok R (mx_data m) (on_ops ww m (OpDropListener a) k)"
proof -
  note d = mutex_invD [OF inv]
  obtain ev' ws where l: "event_call ww (mx_ops m) (OpDropListener a) = Inr (ev', ResWoken ws)"
    "\<forall>p' Q'. mutex_entry p' = {#} \<and> (Q' \<longrightarrow> mutex_idle (add_mset p R) \<and> asleep p' \<le> asleep p) \<longrightarrow> waits mutex_entry asleep ev' Q' (add_mset p' R)"
    using mutex_waiters.waits_drop [OF d(2) e] by blast
  then show ?thesis using assms word_same [OF d(1)] by (simp add: on_ops_def mutex_inv_def mutex_idle_def)
qed

lemma mutex_poll_step:
  assumes inv: "mutex_inv m (add_mset p R)" and e: "mutex_entry p = {#a#}"
    and "mutex_entry p' = {#}" "holding p' = holding p" "starving p' = starving p" "responsible p' = 1"
  shows "mutex_ok R (mx_data m) (on_ops ww m (OpPoll a cx) (\<lambda>r. if r = ResPolled True then p' else p))"
proof -
  note d = mutex_invD [OF inv]
  obtain ev' b where l: "event_call ww (mx_ops m) (OpPoll a cx) = Inr (ev', ResPolled b)"
    "b \<longrightarrow> (\<forall>p'. mutex_entry p' = {#} \<longrightarrow> waits mutex_entry asleep ev' False (add_mset p' R))"
    "\<not> b \<longrightarrow> waits mutex_entry asleep ev' (mutex_idle (add_mset p R)) (add_mset p R)"
    using mutex_waiters.waits_poll [OF d(2) e, of ww cx] by blast
  show ?thesis
  proof (cases b)
    case True
    then show ?thesis using l assms word_same [OF d(1)] by (simp add: on_ops_def mutex_inv_def mutex_idle_def)
  next
    case False
    then show ?thesis using l d(1) by (simp add: on_ops_def mutex_inv_def)
  qed
qed

text \<open>The compare-and-exchange from 0 to 1.\<close>

lemma mutex_cas_step:
  assumes inv: "mutex_inv m (add_mset p R)" and p: "holding p = 0" "starving p = 0"
    and p0: "mutex_entry p0 = mutex_entry p" "holding p0 = 1" "starving p0 = 0"
    and p1: "mx_state m = 1 \<Longrightarrow> mutex_entry p1 = mutex_entry p \<and> holding p1 = 0 \<and> starving p1 = 0"
    and p2: "mx_state m \<noteq> 0 \<Longrightarrow> mx_state m \<noteq> 1 \<Longrightarrow> mutex_entry p2 = mutex_entry p \<and> holding p2 = 0 \<and> starving p2 = 0 \<and>
      asleep p2 \<le> asleep p \<and> responsible p \<le> responsible p2"
  shows "mutex_ok R (mx_data m) (case mutex_cas 0 1 m of (m', s) \<Rightarrow> Inr (m', if s = 0 then p0 else if s = 1 then p1 else p2))"
proof -
  note d = mutex_invD [OF inv] and w = word_facts [OF mutex_invD(1) [OF inv]]
  note t = word_tests [OF w(3,2)]
  consider "mx_state m = 0" | "mx_state m = 1" | "mx_state m \<noteq> 0" "mx_state m \<noteq> 1" by blast
  then show ?thesis
  proof cases
    case 1
    then have "word_inv 1 (add_mset p0 R)" using t(1) d(1) p p0 by (simp add: word_inv_def)
    then show ?thesis using 1 p0 mutex_word_step [OF inv, of p0 1] by (simp add: mutex_cas_def mutex_idle_def)
  next
    case 2
    then have h: "tokens holding R = 1" using t(2) p by simp
    have "mutex_inv m (add_mset p1 R)" using p1 [OF 2] p h by (intro mutex_same_step [OF inv]) (simp_all add: mutex_idle_def)
    then show ?thesis using 2 by (simp add: mutex_cas_def)
  next
    case 3
    note p2 = p2 [OF 3]
    have "mutex_inv m (add_mset p2 R)" using p2 p by (intro mutex_same_step [OF inv]) (simp_all add: mutex_idle_def)
    then show ?thesis using 3 by (simp add: mutex_cas_def)
  qed
qed

lemma slow_step_ok:
  assumes "mutex_inv m (add_mset (Slow p) R)"
  shows "mutex_ok R (mx_data m) (slow_step ww ch m p)"
proof (cases p)
  case S_Listen
  then show ?thesis using assms by (auto intro!: mutex_listen_step)
next
  case (S_Cas a)
  then show ?thesis using mutex_cas_step [OF assms, of "Slow (S_Drop_Hold a)" "Slow (S_Await a)" "Slow (S_Drop_Starve a)"] by simp
next
  case (S_Drop_Hold a)
  then show ?thesis using assms by (auto intro!: mutex_drop_step)
next
  case (S_Drop_Starve a)
  then show ?thesis using assms by (auto intro!: mutex_drop_step)
next
  case (S_Await a)
  have "mutex_ok R (mx_data m) (on_ops ww m (OpDropListener a) (\<lambda>_. Idle))" using assms S_Await by (auto intro!: mutex_drop_step)
  moreover have "mutex_ok R (mx_data m) (on_ops ww m (OpPoll a cx) (\<lambda>r. if r = ResPolled True then Slow S_Retry else Slow (S_Await a)))" for cx
    using assms S_Await by (auto intro!: mutex_poll_step)
  ultimately show ?thesis using assms S_Await by (simp split: lock_choice.split)
next
  case S_Retry
  then show ?thesis using mutex_cas_step [OF assms, of Hold "if ch = Chance True then Starve V_Enter else Slow S_Listen" "Slow S_Pass"] by simp
next
  case S_Pass
  then show ?thesis using mutex_notify_step [OF assms, of "\<lambda>_. Starve V_Enter" "Starve V_Enter"] by simp
qed

lemma starve_word_step:
  assumes inv: "mutex_inv m (add_mset p R)"
  shows "p = Starve V_Enter \<Longrightarrow> mutex_ok R (mx_data m) (starve_step ww ch m V_Enter)"
    "p = Starve V_Or \<Longrightarrow> mutex_ok R (mx_data m) (starve_step ww ch m V_Or)"
    "p = Starve V_Sub \<Longrightarrow> mutex_ok R (mx_data m) (starve_step ww ch m V_Sub)"
    "p = Starve V_Cancel \<Longrightarrow> mutex_ok R (mx_data m) (starve_step ww ch m V_Cancel)"
    "p = Starve (V_Cas a) \<Longrightarrow> mutex_ok R (mx_data m) (starve_step ww ch m (V_Cas a))"
proof -
  note d = mutex_invD [OF inv] and w = word_facts [OF mutex_invD(1) [OF inv]]
  note t = word_tests [OF w(3,2)] and ar = word_arith [OF w(3,2)]
  show "mutex_ok R (mx_data m) (starve_step ww ch m V_Enter)" if p: "p = Starve V_Enter"
  proof -
    have n: "tokens starving R < max_tasks" using w(1,4) tokens_size [of starving R] by (metis le_less_trans starving_le)
    have "unat (mx_state m) \<le> usize_max div 2" using w(2,3) p n by (simp add: usize_max_def max_tasks_def)
    moreover have "word_inv (mx_state m + 2) (add_mset (Starve V_Listen) R)" using ar(1) n d(1) p by (simp add: word_inv_def)
    ultimately show ?thesis using mutex_word_step [OF inv, of "Starve V_Listen"] p by (simp add: mutex_idle_def)
  qed
  show "mutex_ok R (mx_data m) (starve_step ww ch m V_Or)" if p: "p = Starve V_Or"
  proof (cases "tokens holding R = 0")
    case True
    have "word_inv (mx_state m OR 1) (add_mset (Starve V_Sub) R)" using ar(4) d(1) p True by (simp add: word_inv_def)
    then show ?thesis using mutex_word_step [OF inv, of "Starve V_Sub"] t(5) p True by (simp add: mutex_idle_def)
  next
    case False
    then have h: "tokens holding R = 1" using w(2) p by simp
    have "mutex_inv m (add_mset (Starve V_Listen) R)" using p h by (intro mutex_same_step [OF inv]) (simp_all add: mutex_idle_def)
    then show ?thesis using ar(5) t(5) p h by simp
  qed
  have sub: "mutex_ok R (mx_data m) (Inr (m\<lparr>mx_state := mx_state m - 2\<rparr>, p'))"
    if p: "starving p = 1" "starving p' = 0" "mutex_entry p = {#}" "mutex_entry p' = {#}" "holding p' = holding p" "asleep p' = 0" "responsible p = 0" for p'
  proof -
    have "word_inv (mx_state m - 2) (add_mset p' R)" using ar(2) d(1) p by (simp add: word_inv_def)
    then show ?thesis using mutex_word_step [OF inv, of p'] p by (simp add: mutex_idle_def)
  qed
  show "p = Starve V_Sub \<Longrightarrow> mutex_ok R (mx_data m) (starve_step ww ch m V_Sub)"
    "p = Starve V_Cancel \<Longrightarrow> mutex_ok R (mx_data m) (starve_step ww ch m V_Cancel)"
    using sub [of Hold] sub [of Idle] by simp_all
  show "mutex_ok R (mx_data m) (starve_step ww ch m (V_Cas a))" if p: "p = Starve (V_Cas a)"
  proof -
    consider "mx_state m = 2" | "mx_state m \<noteq> 2" "mx_state m mod 2 = 1" | "mx_state m \<noteq> 2" "mx_state m mod 2 \<noteq> 1" by blast
    then show ?thesis
    proof cases
      case 1
      then have "word_inv 3 (add_mset (Starve (V_Drop_Hold a)) R)" using t(3) d(1) p by (simp add: word_inv_def)
      then show ?thesis using 1 mutex_word_step [OF inv, of "Starve (V_Drop_Hold a)" 3] p by (simp add: mutex_cas_def mutex_idle_def)
    next
      case 2
      then have "tokens holding R = 1" using t(4) p by simp
      then have "mutex_inv m (add_mset (Starve (V_Await a)) R)" using p by (intro mutex_same_step [OF inv]) (simp_all add: mutex_idle_def)
      then show ?thesis using 2 by (simp add: mutex_cas_def)
    next
      case 3
      have "mutex_inv m (add_mset (Starve (V_Notify a)) R)" using p by (intro mutex_same_step [OF inv]) (simp_all add: mutex_idle_def)
      then show ?thesis using 3 by (simp add: mutex_cas_def)
    qed
  qed
qed

lemma starve_step_ok:
  assumes "mutex_inv m (add_mset (Starve p) R)"
  shows "mutex_ok R (mx_data m) (starve_step ww ch m p)"
proof (cases p)
  case V_Listen
  then show ?thesis using assms by (auto intro!: mutex_listen_step)
next
  case (V_Drop_Hold a)
  then show ?thesis using assms by (auto intro!: mutex_drop_step)
next
  case (V_Notify a)
  then show ?thesis using mutex_notify_step [OF assms, of "\<lambda>_. Starve (V_Await a)" "Starve (V_Await a)"] by simp
next
  case (V_Await a)
  have "mutex_ok R (mx_data m) (on_ops ww m (OpDropListener a) (\<lambda>_. Starve V_Cancel))" using assms V_Await by (auto intro!: mutex_drop_step)
  moreover have "mutex_ok R (mx_data m) (on_ops ww m (OpPoll a cx) (\<lambda>r. if r = ResPolled True then Starve V_Or else Starve (V_Await a)))" for cx
    using assms V_Await by (auto intro!: mutex_poll_step)
  ultimately show ?thesis using assms V_Await by (simp split: lock_choice.split)
qed (use assms starve_word_step [OF assms] in auto)

lemma mutex_step_ok:
  assumes "mutex_inv m (add_mset p R)"
  shows "mutex_ok R (mx_data m) (mutex_step ww ch m p)"
proof (cases p)
  case Idle
  then have "mutex_inv m (add_mset q R)" if "q \<in> {Idle, Fast, Try}" for q
    using that by (intro mutex_same_step [OF assms]) (auto simp: mutex_idle_def)
  then show ?thesis using Idle by (simp split: lock_choice.split)
next
  case Fast
  then show ?thesis using mutex_cas_step [OF assms, of Hold "Slow S_Listen" "Slow S_Listen"] by (auto simp: try_lock_def split_beta split: if_splits)
next
  case Try
  then show ?thesis using mutex_cas_step [OF assms, of Hold Idle Idle] by (auto simp: try_lock_def split_beta split: if_splits)
next
  case (Slow p')
  then show ?thesis using assms slow_step_ok by simp
next
  case (Starve p')
  then show ?thesis using assms starve_step_ok by simp
next
  case Hold
  note w = word_facts [OF mutex_invD(1) [OF assms]]
  have "word_inv (mx_state m - 1) (add_mset Unlock R)"
    using word_arith(3) [OF w(3,2)] mutex_invD(1) [OF assms] Hold by (simp add: word_inv_def)
  then show ?thesis using mutex_word_step [OF assms, of Unlock] assms Hold by (simp add: guard_unlock_def mutex_idle_def)
next
  case Unlock
  then show ?thesis using mutex_notify_step [OF assms, of "\<lambda>_. Idle" Idle] by simp
qed

definition mutex_inv_with :: "'a \<Rightarrow> 'a mutex \<Rightarrow> mutex_pc multiset \<Rightarrow> bool" where
  "mutex_inv_with d m T \<longleftrightarrow> mutex_inv m T \<and> mx_data m = d"

interpretation mutex_system: thread_system "mutex_step ww" "mutex_inv_with d" "\<lambda>_. True" for ww d
  using mutex_step_ok by unfold_locales (fastforce simp: mutex_ok_def mutex_inv_with_def)

lemma mutex_new_inv: "n \<le> max_tasks \<Longrightarrow> mutex_inv_with d (mutex_new d) (mset (replicate n Idle))"
proof -
  assume n: "n \<le> max_tasks"
  have t: "tokens f (replicate_mset n Idle) = 0" if "f Idle = 0" for f using that by (induction n) simp_all
  have "waits mutex_entry asleep event_new Q (replicate_mset n Idle)" for Q
    by (rule mutex_waiters.waits_new) (simp split: if_splits)
  with n show ?thesis by (simp add: mutex_inv_with_def mutex_inv_def mutex_new_def word_inv_def t)
qed

section \<open>Properties\<close>

text \<open>Between two polls a task is outside the mutex, holds it, or awaits a listener.\<close>

definition resting :: "mutex_pc \<Rightarrow> bool" where
  "resting p \<longleftrightarrow> p = Idle \<or> p = Hold \<or> asleep p = 1"

lemma resting_simps: "resting p \<Longrightarrow> responsible p = 0"
  "resting p \<Longrightarrow> mutex_entry p = {#a#} \<Longrightarrow> p = Slow (S_Await a) \<or> p = Starve (V_Await a)"
  by (induction p rule: asleep.induct) (auto simp: resting_def)

lemma mutex_wakes:
  assumes inv: "mutex_inv m (mset ths)" and rest: "\<forall>p\<in>set ths. resting p" and free: "tokens holding (mset ths) = 0"
    and asleep: "0 < tokens asleep (mset ths)"
  shows "\<exists>i<length ths. \<forall>cx. \<exists>m' p'. mutex_step ww (Poll_Cx cx) m (ths ! i) = Inr (m', p') \<and> responsible p' = 1"
proof -
  have "tokens responsible (mset ths) = 0" using rest resting_simps(1) by (induction ths) simp_all
  then have "waits mutex_entry asleep (mx_ops m) True (mset ths)" using inv free by (simp add: mutex_inv_def mutex_idle_def)
  then obtain p a where p: "p \<in># mset ths" "mutex_entry p = {#a#}"
    and w: "\<And>cx. \<exists>ev'. event_call ww (mx_ops m) (OpPoll a cx) = Inr (ev', ResPolled True)"
    using mutex_waiters.waits_asleep [OF _ asleep, of "mx_ops m" ww] by blast
  then obtain i where i: "i < length ths" "ths ! i = p" by (auto simp: in_set_conv_nth)
  have "p = Slow (S_Await a) \<or> p = Starve (V_Await a)" using rest p resting_simps(2) by simp
  then have "\<exists>m' p'. mutex_step ww (Poll_Cx cx) m p = Inr (m', p') \<and> responsible p' = 1" for cx
    using w [of cx] by (auto simp: on_ops_def)
  with i show ?thesis by blast
qed

text \<open>
  The mutex is correct (C5). Any number of tasks below the bound at which the counter could
  overflow use one mutex and make any calls in any order; they can be polled at any time and
  cancelled wherever they wait. No step fails: the process is not aborted and no listener is
  used after it was removed. At most one task holds the mutex at a time, and the word counts
  the holder and the starving waiters exactly; in particular nobody can hold it while the word
  says that it is free. No wake-up is lost: when every task rests between two polls, the mutex is
  free and some task awaits it, then there is a task whose listener is notified, which comes
  out of its await at the next poll and tries to take the mutex. The data is not touched.
\<close>

theorem mutex_correct:
  assumes "n \<le> max_tasks"
  shows "\<exists>m ths. mutex_run ww (mutex_new d, replicate n Idle) chs = Inr (m, ths) \<and> length ths = n \<and> mx_data m = d \<and>
    tokens holding (mset ths) \<le> 1 \<and> unat (mx_state m) = 2 * tokens starving (mset ths) + tokens holding (mset ths) \<and>
    ((\<forall>p\<in>set ths. resting p) \<and> tokens holding (mset ths) = 0 \<and> 0 < tokens asleep (mset ths) \<longrightarrow>
     (\<exists>i<length ths. \<forall>cx. \<exists>m' p'. mutex_step ww (Poll_Cx cx) m (ths ! i) = Inr (m', p') \<and> responsible p' = 1))"
proof -
  obtain m ths where r: "threads_run (mutex_step ww) (mutex_new d, replicate n Idle) chs = Inr (m, ths)"
    "mutex_inv_with d m (mset ths)" "length ths = n"
    using mutex_system.run_keeps [OF mutex_new_inv [OF assms], of chs ww d] by auto
  then have inv: "mutex_inv m (mset ths)" "mx_data m = d" by (simp_all add: mutex_inv_with_def)
  then show ?thesis using r mutex_wakes [OF inv(1)] by (auto simp: mutex_run_def mutex_inv_def word_inv_def)
qed

definition mutex_handover :: "(nat \<times> lock_choice) list" where
  "mutex_handover = [(0, Call_Lock), (0, Chance False), (1, Call_Lock), (1, Chance False), (1, Chance False), (1, Chance False),
     (1, Poll_Cx 7), (0, Drop_Guard), (0, Chance False)]"

theorem mutex_correct_witness:
  "\<exists>m ths. mutex_run (=) (mutex_new (), replicate 2 Idle) mutex_handover = Inr (m, ths) \<and> ths = [Idle, Slow (S_Await 0)] \<and>
     (\<exists>i<length ths. \<forall>cx. \<exists>m' p'. mutex_step (=) (Poll_Cx cx) m (ths ! i) = Inr (m', p') \<and> responsible p' = 1)"
proof -
  have two: "replicate 2 Idle = [Idle, Idle]" by (simp add: numeral_2_eq_2)
  have "case mutex_run (=) (mutex_new (), replicate 2 Idle) mutex_handover of Inl _ \<Rightarrow> False | Inr g \<Rightarrow> snd g = [Idle, Slow (S_Await 0)]"
    by (simp add: mutex_run_def mutex_handover_def threads_step_def try_lock_def guard_unlock_def mutex_cas_def on_ops_def mutex_new_def event_exec two)
  moreover have "2 \<le> max_tasks" by (simp add: max_tasks_def)
  ultimately show ?thesis
    using mutex_correct [of 2 "(=)" "()" mutex_handover] by (auto simp: resting_def numeral_2_eq_2 split: sum.splits)
qed

end
