(* ===== verification/Lock_RwLock.thy ===== *)
theory Lock_RwLock
  imports Lock_Mutex
begin

text \<open>
  The asynchronous reader-writer lock (src/cynthia/src/platform/lock/rwlock.rs). The state
  word has \<open>WRITER_BIT\<close> and twice the number of readers. Writers and upgradable readers hold
  the inner mutex, whose program points are embedded: acquiring it takes the steps of the
  mutex. A writer that has set its bit waits on \<open>no_readers\<close>, a reader waits on \<open>no_writer\<close>.
  The guards are points too: \<open>Rd_Hold\<close> is \<open>RwLockReadGuard\<close>, \<open>U_Hold\<close> is
  \<open>RwLockUpgradableReadGuard\<close>, \<open>W_Hold\<close> is \<open>RwLockWriteGuard\<close>.
\<close>

section \<open>The lock\<close>

definition WRITER_BIT :: usize where "WRITER_BIT = 1"

definition ONE_READER :: usize where "ONE_READER = 2"

record 'a rwlock =
  rw_mutex :: "unit mutex"
  rw_no_readers :: event
  rw_no_writer :: event
  rw_state :: usize
  rw_value :: 'a

definition rwlock_new :: "'a \<Rightarrow> 'a rwlock" where
  "rwlock_new t = \<lparr>rw_mutex = mutex_new (), rw_no_readers = event_new, rw_no_writer = event_new, rw_state = 0, rw_value = t\<rparr>"

definition rwlock_into_inner :: "'a rwlock \<Rightarrow> 'a" where
  "rwlock_into_inner l = rw_value l"

datatype read_pc =
    R_Try_Load
  | R_Try_Cas usize
  | R_Load
  | R_Cas usize
  | R_Listen
  | R_Check nat
  | R_Reload nat
  | R_Drop nat usize
  | R_Await nat
  | R_Pass

datatype upgradable_pc = U_Load | U_Cas usize | U_Hold | U_Notify

datatype write_pc =
    W_Try
  | W_Or
  | W_Load
  | W_Listen
  | W_Check nat
  | W_Drop nat
  | W_Await nat
  | W_Hold
  | W_Clear
  | W_Notify
  | W_Downgrade

text \<open>
  What the mutex is taken for. \<open>Rw_Release b\<close> releases it; with \<open>b\<close> a read guard remains.
\<close>

datatype rw_purpose = For_Upgradable | For_Write | For_Try_Write

datatype rw_pc =
    Rw_Idle
  | Rd read_pc
  | Rd_Hold
  | Rd_Notify
  | Rw_Acquire rw_purpose mutex_pc
  | Up upgradable_pc
  | Wr write_pc
  | Rw_Release bool mutex_pc

datatype rw_call =
    Call_Try_Read | Call_Read | Call_Try_Upgradable | Call_Upgradable | Call_Try_Write | Call_Write
  | Call_Drop | Call_Downgrade | Call_Try_Upgrade | Call_Upgrade | Call_Downgrade_To_Upgradable

datatype rw_choice = Rw_Call rw_call | Rw_Poll waker | Rw_Cancel | Rw_Elapsed bool

type_synonym 'a rw_outcome = "('a rwlock \<times> rw_pc) fallible"

definition on_no_writer :: "(waker \<Rightarrow> waker \<Rightarrow> bool) \<Rightarrow> 'a rwlock \<Rightarrow> event_op \<Rightarrow> (event_res \<Rightarrow> rw_pc fallible) \<Rightarrow> 'a rw_outcome" where
  "on_no_writer ww l p k =
     bind_fallible (event_call ww (rw_no_writer l) p) (\<lambda>(ev, r). bind_fallible (k r) (\<lambda>pc. Inr (l\<lparr>rw_no_writer := ev\<rparr>, pc)))"

definition on_no_readers :: "(waker \<Rightarrow> waker \<Rightarrow> bool) \<Rightarrow> 'a rwlock \<Rightarrow> event_op \<Rightarrow> (event_res \<Rightarrow> rw_pc) \<Rightarrow> 'a rw_outcome" where
  "on_no_readers ww l p k = bind_fallible (event_call ww (rw_no_readers l) p) (\<lambda>(ev, r). Inr (l\<lparr>rw_no_readers := ev\<rparr>, k r))"

section \<open>Readers\<close>

definition try_read_loop :: "usize \<Rightarrow> rw_pc fallible" where
  "try_read_loop state =
     (if state AND WRITER_BIT \<noteq> 0 then Inr Rw_Idle
      else if unat state > isize_max then Inl Aborted
      else Inr (Rd (R_Try_Cas state)))"

definition read_loop :: "usize \<Rightarrow> rw_pc fallible" where
  "read_loop state =
     (if state AND WRITER_BIT = 0 then
        if unat state > isize_max then Inl Aborted else Inr (Rd (R_Cas state))
      else Inr (Rd R_Listen))"

definition go_on :: "'a rwlock \<Rightarrow> rw_pc fallible \<Rightarrow> 'a rw_outcome" where
  "go_on l x = bind_fallible x (\<lambda>p. Inr (l, p))"

fun read_step :: "(waker \<Rightarrow> waker \<Rightarrow> bool) \<Rightarrow> rw_choice \<Rightarrow> 'a rwlock \<Rightarrow> read_pc \<Rightarrow> 'a rw_outcome" where
  "read_step ww ch l R_Try_Load = go_on l (try_read_loop (rw_state l))"
| "read_step ww ch l (R_Try_Cas state) =
     (if rw_state l = state then Inr (l\<lparr>rw_state := state + ONE_READER\<rparr>, Rd_Hold) else go_on l (try_read_loop (rw_state l)))"
| "read_step ww ch l R_Load = go_on l (read_loop (rw_state l))"
| "read_step ww ch l (R_Cas state) =
     (if rw_state l = state then Inr (l\<lparr>rw_state := state + ONE_READER\<rparr>, Rd_Hold) else go_on l (read_loop (rw_state l)))"
| "read_step ww ch l R_Listen = on_no_writer ww l OpListen (\<lambda>r. Inr (Rd (R_Check (new_entry r))))"
| "read_step ww ch l (R_Check a) = Inr (l, Rd (if rw_state l AND WRITER_BIT \<noteq> 0 then R_Await a else R_Reload a))"
| "read_step ww ch l (R_Reload a) = Inr (l, Rd (R_Drop a (rw_state l)))"
| "read_step ww ch l (R_Drop a state) = on_no_writer ww l (OpDropListener a) (\<lambda>_. read_loop state)"
| "read_step ww ch l (R_Await a) =
     (case ch of
        Rw_Poll cx \<Rightarrow> on_no_writer ww l (OpPoll a cx) (\<lambda>r. Inr (if r = ResPolled True then Rd R_Pass else Rd (R_Await a)))
      | Rw_Cancel \<Rightarrow> on_no_writer ww l (OpDropListener a) (\<lambda>_. Inr Rw_Idle)
      | _ \<Rightarrow> Inr (l, Rd (R_Await a)))"
| "read_step ww ch l R_Pass = on_no_writer ww l (OpNotify 1) (\<lambda>_. Inr (Rd R_Load))"

text \<open>\<open>RwLockReadGuard::drop\<close>; the flag tells whether this was the last reader.\<close>

definition read_guard_drop :: "'a rwlock \<Rightarrow> 'a rwlock \<times> bool" where
  "read_guard_drop l = (l\<lparr>rw_state := rw_state l - ONE_READER\<rparr>, rw_state l AND NOT WRITER_BIT = ONE_READER)"

section \<open>The inner mutex\<close>

fun mutex_choice :: "rw_choice \<Rightarrow> lock_choice" where
  "mutex_choice (Rw_Poll cx) = Poll_Cx cx"
| "mutex_choice Rw_Cancel = Drop_Future"
| "mutex_choice (Rw_Elapsed b) = Chance b"
| "mutex_choice (Rw_Call c) = Chance False"

fun rw_locked :: "rw_purpose \<Rightarrow> rw_pc" where
  "rw_locked For_Upgradable = Up U_Load"
| "rw_locked For_Write = Wr W_Or"
| "rw_locked For_Try_Write = Wr W_Try"

definition acquire_next :: "rw_purpose \<Rightarrow> mutex_pc \<Rightarrow> rw_pc" where
  "acquire_next k q = (if q = Hold then rw_locked k else if q = Idle then Rw_Idle else Rw_Acquire k q)"

definition release_next :: "bool \<Rightarrow> mutex_pc \<Rightarrow> rw_pc" where
  "release_next b q = (if q = Idle then (if b then Rd_Hold else Rw_Idle) else Rw_Release b q)"

definition on_mutex :: "(waker \<Rightarrow> waker \<Rightarrow> bool) \<Rightarrow> 'a rwlock \<Rightarrow> lock_choice \<Rightarrow> mutex_pc \<Rightarrow> (mutex_pc \<Rightarrow> rw_pc) \<Rightarrow> 'a rw_outcome" where
  "on_mutex ww l ch q k = bind_fallible (mutex_step ww ch (rw_mutex l) q) (\<lambda>(m, q'). Inr (l\<lparr>rw_mutex := m\<rparr>, k q'))"

section \<open>Upgradable readers and writers\<close>

definition upgradable_try_upgrade :: "'a rwlock \<Rightarrow> 'a rw_outcome" where
  "upgradable_try_upgrade l =
     (if rw_state l = ONE_READER then Inr (l\<lparr>rw_state := WRITER_BIT\<rparr>, Wr W_Hold) else Inr (l, Up U_Hold))"

definition upgradable_upgrade :: "'a rwlock \<Rightarrow> 'a rw_outcome" where
  "upgradable_upgrade l = Inr (l\<lparr>rw_state := rw_state l - (ONE_READER - WRITER_BIT)\<rparr>, Wr W_Load)"

text \<open>The methods and the drop of an upgradable guard.\<close>

definition upgradable_guard_call :: "rw_choice \<Rightarrow> 'a rwlock \<Rightarrow> 'a rw_outcome" where
  "upgradable_guard_call ch l =
     (case ch of
        Rw_Call Call_Drop \<Rightarrow> (case read_guard_drop l of (l', was_last) \<Rightarrow> Inr (l', if was_last then Up U_Notify else Rw_Release False Hold))
      | Rw_Call Call_Downgrade \<Rightarrow> Inr (l, Rw_Release True Hold)
      | Rw_Call Call_Try_Upgrade \<Rightarrow> upgradable_try_upgrade l
      | Rw_Call Call_Upgrade \<Rightarrow> upgradable_upgrade l
      | _ \<Rightarrow> Inr (l, Up U_Hold))"

fun upgradable_step :: "(waker \<Rightarrow> waker \<Rightarrow> bool) \<Rightarrow> rw_choice \<Rightarrow> 'a rwlock \<Rightarrow> upgradable_pc \<Rightarrow> 'a rw_outcome" where
  "upgradable_step ww ch l U_Load = (if unat (rw_state l) > isize_max then Inl Aborted else Inr (l, Up (U_Cas (rw_state l))))"
| "upgradable_step ww ch l (U_Cas state) =
     (if rw_state l = state then Inr (l\<lparr>rw_state := state + ONE_READER\<rparr>, Up U_Hold) else Inr (l, Up (U_Cas (rw_state l))))"
| "upgradable_step ww ch l U_Hold = upgradable_guard_call ch l"
| "upgradable_step ww ch l U_Notify = on_no_readers ww l (OpNotify 1) (\<lambda>_. Rw_Release False Hold)"

definition write_guard_clear :: "'a rwlock \<Rightarrow> 'a rwlock" where
  "write_guard_clear l = l\<lparr>rw_state := rw_state l AND NOT WRITER_BIT\<rparr>"

definition write_to_read :: "'a rwlock \<Rightarrow> 'a rwlock" where
  "write_to_read l = l\<lparr>rw_state := rw_state l + (ONE_READER - WRITER_BIT)\<rparr>"

text \<open>The methods and the drop of a write guard.\<close>

definition write_guard_call :: "rw_choice \<Rightarrow> 'a rwlock \<Rightarrow> 'a rw_outcome" where
  "write_guard_call ch l =
     (case ch of
        Rw_Call Call_Drop \<Rightarrow> Inr (l, Wr W_Clear)
      | Rw_Call Call_Downgrade \<Rightarrow> Inr (write_to_read l, Wr W_Downgrade)
      | Rw_Call Call_Downgrade_To_Upgradable \<Rightarrow> Inr (write_to_read l, Up U_Hold)
      | _ \<Rightarrow> Inr (l, Wr W_Hold))"

fun write_step :: "(waker \<Rightarrow> waker \<Rightarrow> bool) \<Rightarrow> rw_choice \<Rightarrow> 'a rwlock \<Rightarrow> write_pc \<Rightarrow> 'a rw_outcome" where
  "write_step ww ch l W_Try =
     (if rw_state l = 0 then Inr (l\<lparr>rw_state := WRITER_BIT\<rparr>, Wr W_Hold) else Inr (l, Rw_Release False Hold))"
| "write_step ww ch l W_Or = Inr (l\<lparr>rw_state := rw_state l OR WRITER_BIT\<rparr>, Wr W_Load)"
| "write_step ww ch l W_Load = Inr (l, Wr (if rw_state l \<noteq> WRITER_BIT then W_Listen else W_Hold))"
| "write_step ww ch l W_Listen = on_no_readers ww l OpListen (\<lambda>r. Wr (W_Check (new_entry r)))"
| "write_step ww ch l (W_Check a) = Inr (l, Wr (if rw_state l \<noteq> WRITER_BIT then W_Await a else W_Drop a))"
| "write_step ww ch l (W_Drop a) = on_no_readers ww l (OpDropListener a) (\<lambda>_. Wr W_Load)"
| "write_step ww ch l (W_Await a) =
     (case ch of
        Rw_Poll cx \<Rightarrow> on_no_readers ww l (OpPoll a cx) (\<lambda>r. if r = ResPolled True then Wr W_Load else Wr (W_Await a))
      | Rw_Cancel \<Rightarrow> on_no_readers ww l (OpDropListener a) (\<lambda>_. Wr W_Clear)
      | _ \<Rightarrow> Inr (l, Wr (W_Await a)))"
| "write_step ww ch l W_Hold = write_guard_call ch l"
| "write_step ww ch l W_Clear = Inr (write_guard_clear l, Wr W_Notify)"
| "write_step ww ch l W_Notify = on_no_writer ww l (OpNotify 1) (\<lambda>_. Inr (Rw_Release False Hold))"
| "write_step ww ch l W_Downgrade = on_no_writer ww l (OpNotify 1) (\<lambda>_. Inr (Rw_Release True Hold))"

fun rw_start :: "rw_choice \<Rightarrow> rw_pc" where
  "rw_start (Rw_Call Call_Try_Read) = Rd R_Try_Load"
| "rw_start (Rw_Call Call_Read) = Rd R_Load"
| "rw_start (Rw_Call Call_Try_Upgradable) = Rw_Acquire For_Upgradable Try"
| "rw_start (Rw_Call Call_Upgradable) = Rw_Acquire For_Upgradable Fast"
| "rw_start (Rw_Call Call_Try_Write) = Rw_Acquire For_Try_Write Try"
| "rw_start (Rw_Call Call_Write) = Rw_Acquire For_Write Fast"
| "rw_start _ = Rw_Idle"

fun rw_step :: "(waker \<Rightarrow> waker \<Rightarrow> bool) \<Rightarrow> rw_choice \<Rightarrow> 'a rwlock \<Rightarrow> rw_pc \<Rightarrow> 'a rw_outcome" where
  "rw_step ww ch l Rw_Idle = Inr (l, rw_start ch)"
| "rw_step ww ch l (Rd p) = read_step ww ch l p"
| "rw_step ww ch l Rd_Hold =
     (if ch = Rw_Call Call_Drop then (case read_guard_drop l of (l', was_last) \<Rightarrow> Inr (l', if was_last then Rd_Notify else Rw_Idle))
      else Inr (l, Rd_Hold))"
| "rw_step ww ch l Rd_Notify = on_no_readers ww l (OpNotify 1) (\<lambda>_. Rw_Idle)"
| "rw_step ww ch l (Rw_Acquire k q) = on_mutex ww l (mutex_choice ch) q (acquire_next k)"
| "rw_step ww ch l (Up p) = upgradable_step ww ch l p"
| "rw_step ww ch l (Wr p) = write_step ww ch l p"
| "rw_step ww ch l (Rw_Release b q) = on_mutex ww l Drop_Guard q (release_next b)"

definition rw_run :: "(waker \<Rightarrow> waker \<Rightarrow> bool) \<Rightarrow> 'a rwlock \<times> rw_pc list \<Rightarrow> (nat \<times> rw_choice) list \<Rightarrow> ('a rwlock \<times> rw_pc list) fallible" where
  "rw_run ww = threads_run (rw_step ww)"

section \<open>The invariant\<close>

fun rw_mutex_pc :: "rw_pc \<Rightarrow> mutex_pc" where
  "rw_mutex_pc (Rw_Acquire k q) = q"
| "rw_mutex_pc (Rw_Release b q) = q"
| "rw_mutex_pc (Up p) = Hold"
| "rw_mutex_pc (Wr p) = Hold"
| "rw_mutex_pc _ = Idle"

fun readers :: "rw_pc \<Rightarrow> nat" where
  "readers Rd_Hold = 1"
| "readers (Up U_Hold) = 1"
| "readers (Wr W_Downgrade) = 1"
| "readers (Rw_Release b q) = (if b then 1 else 0)"
| "readers _ = 0"

fun writer :: "rw_pc \<Rightarrow> nat" where
  "writer (Wr p) = (if p \<in> {W_Try, W_Or, W_Notify, W_Downgrade} then 0 else 1)"
| "writer _ = 0"

definition writing :: "rw_pc \<Rightarrow> nat" where
  "writing p = (if p = Wr W_Hold then 1 else 0)"

fun read_entry :: "rw_pc \<Rightarrow> nat multiset" where
  "read_entry (Rd (R_Check a)) = {#a#}"
| "read_entry (Rd (R_Reload a)) = {#a#}"
| "read_entry (Rd (R_Drop a s)) = {#a#}"
| "read_entry (Rd (R_Await a)) = {#a#}"
| "read_entry _ = {#}"

fun write_entry :: "rw_pc \<Rightarrow> nat multiset" where
  "write_entry (Wr (W_Check a)) = {#a#}"
| "write_entry (Wr (W_Drop a)) = {#a#}"
| "write_entry (Wr (W_Await a)) = {#a#}"
| "write_entry _ = {#}"

fun read_asleep :: "rw_pc \<Rightarrow> nat" where
  "read_asleep (Rd (R_Await a)) = 1"
| "read_asleep _ = 0"

fun write_asleep :: "rw_pc \<Rightarrow> nat" where
  "write_asleep (Wr (W_Await a)) = 1"
| "write_asleep _ = 0"

text \<open>Who is about to notify a reader, and who the writer.\<close>

definition wakes_reader :: "rw_pc \<Rightarrow> nat" where
  "wakes_reader p = (if p \<in> {Rd R_Pass, Wr W_Notify, Wr W_Downgrade} then 1 else 0)"

definition wakes_writer :: "rw_pc \<Rightarrow> nat" where
  "wakes_writer p = (if p \<in> {Rd_Notify, Up U_Notify} then 1 else 0)"

fun rw_pc_ok :: "rw_pc \<Rightarrow> bool" where
  "rw_pc_ok (Rd (R_Try_Cas s)) = (s AND WRITER_BIT = 0)"
| "rw_pc_ok (Rd (R_Cas s)) = (s AND WRITER_BIT = 0)"
| "rw_pc_ok (Rd (R_Drop a s)) = (unat s \<le> isize_max)"
| "rw_pc_ok (Rw_Acquire k q) = (q \<noteq> Hold \<and> q \<noteq> Idle)"
| "rw_pc_ok (Rw_Release b q) = (q = Hold \<or> q = Unlock)"
| "rw_pc_ok _ = True"

definition readers_quiet :: "bool \<Rightarrow> rw_pc multiset \<Rightarrow> bool" where
  "readers_quiet g T \<longleftrightarrow> g \<and> tokens writer T = 0 \<and> tokens wakes_reader T = 0"

definition writer_quiet :: "rw_pc multiset \<Rightarrow> bool" where
  "writer_quiet T \<longleftrightarrow> tokens readers T = 0 \<and> tokens wakes_writer T = 0"

definition rw_word :: "usize \<Rightarrow> rw_pc multiset \<Rightarrow> bool" where
  "rw_word s T \<longleftrightarrow> unat s = 2 * tokens readers T + tokens writer T \<and> (0 < tokens writing T \<longrightarrow> tokens readers T = 0) \<and> (\<forall>p\<in>#T. rw_pc_ok p)"

definition rw_inv :: "bool \<Rightarrow> 'a rwlock \<Rightarrow> rw_pc multiset \<Rightarrow> bool" where
  "rw_inv g l T \<longleftrightarrow> mutex_inv (rw_mutex l) (image_mset rw_mutex_pc T) \<and> rw_word (rw_state l) T \<and>
     waits read_entry read_asleep (rw_no_writer l) (readers_quiet g T) T \<and>
     waits write_entry write_asleep (rw_no_readers l) (writer_quiet T) T"

interpretation reading: waiters read_entry read_asleep
proof
  show "size (read_entry p) \<le> 1" for p by (induction p rule: read_entry.induct) simp_all
  show "0 < read_asleep p \<Longrightarrow> read_entry p \<noteq> {#}" for p by (induction p rule: read_asleep.induct) simp_all
qed

interpretation writing: waiters write_entry write_asleep
proof
  show "size (write_entry p) \<le> 1" for p by (induction p rule: write_entry.induct) simp_all
  show "0 < write_asleep p \<Longrightarrow> write_entry p \<noteq> {#}" for p by (induction p rule: write_asleep.induct) simp_all
qed

section \<open>Consequences of the invariant\<close>

abbreviation rw_holding :: "rw_pc \<Rightarrow> nat" where
  "rw_holding p \<equiv> holding (rw_mutex_pc p)"

lemma rw_pointwise: "readers p \<le> 1" "writer p \<le> rw_holding p" "writing p \<le> writer p" "write_asleep p \<le> writer p"
  by (induction p rule: readers.induct) (auto simp: writing_def)+

lemma rw_invD:
  assumes "rw_inv g l (add_mset p R)"
  shows "mutex_inv (rw_mutex l) (add_mset (rw_mutex_pc p) (image_mset rw_mutex_pc R))" "rw_word (rw_state l) (add_mset p R)"
    "waits read_entry read_asleep (rw_no_writer l) (readers_quiet g (add_mset p R)) (add_mset p R)"
    "waits write_entry write_asleep (rw_no_readers l) (writer_quiet (add_mset p R)) (add_mset p R)"
    "size R < max_tasks" "size R < usize_max" "rw_holding p + tokens rw_holding R \<le> 1"
proof -
  show m: "mutex_inv (rw_mutex l) (add_mset (rw_mutex_pc p) (image_mset rw_mutex_pc R))" using assms by (simp add: rw_inv_def)
  show "size R < max_tasks" "rw_holding p + tokens rw_holding R \<le> 1"
    using word_facts(1,2) [OF mutex_invD(1) [OF m]] by (simp_all add: tokens_image)
  then show "size R < usize_max" by (simp add: max_tasks_def usize_max_def)
qed (use assms in \<open>auto simp: rw_inv_def\<close>)

lemma rw_counts:
  assumes "rw_inv g l (add_mset p R)"
  shows "unat (rw_state l) = 2 * (readers p + tokens readers R) + (writer p + tokens writer R)" "writer p + tokens writer R \<le> 1"
    "tokens readers R < max_tasks" "rw_pc_ok p" "0 < writing p + tokens writing R \<Longrightarrow> readers p + tokens readers R = 0"
    "rw_holding p = 1 \<Longrightarrow> tokens writer R = 0 \<and> tokens write_asleep R = 0 \<and> tokens writing R = 0"
proof -
  note d = rw_invD [OF assms]
  show "unat (rw_state l) = 2 * (readers p + tokens readers R) + (writer p + tokens writer R)" "rw_pc_ok p"
    "0 < writing p + tokens writing R \<Longrightarrow> readers p + tokens readers R = 0"
    using d(2) by (simp_all add: rw_word_def)
  have w: "tokens writer R \<le> tokens rw_holding R" "tokens writing R \<le> tokens writer R" "tokens write_asleep R \<le> tokens writer R"
    by (intro tokens_mono rw_pointwise)+
  then show "writer p + tokens writer R \<le> 1" using d(7) rw_pointwise(2) [of p] by linarith
  show "tokens readers R < max_tasks" using d(5) tokens_size [of readers R, OF rw_pointwise(1)] by linarith
  show "rw_holding p = 1 \<Longrightarrow> tokens writer R = 0 \<and> tokens write_asleep R = 0 \<and> tokens writing R = 0" using w d(7) by linarith
qed

lemma writer_bit:
  fixes s :: usize
  assumes "unat s = 2 * n + w" "w \<le> 1"
  shows "s AND WRITER_BIT = 0 \<longleftrightarrow> w = 0" "s = WRITER_BIT \<longleftrightarrow> n = 0 \<and> w = 1" "s = ONE_READER \<longleftrightarrow> n = 1 \<and> w = 0"
    "s AND NOT WRITER_BIT = ONE_READER \<longleftrightarrow> n = 1" "unat (s AND NOT WRITER_BIT) = 2 * n"
proof -
  note t = word_tests [OF assms]
  have b: "s AND WRITER_BIT = of_bool (odd s)" by (simp add: WRITER_BIT_def and_one_eq mod_2_eq_odd)
  have e: "even s \<longleftrightarrow> w = 0" using t(5) by (simp add: even_iff_mod_2_eq_zero)
  show "s AND WRITER_BIT = 0 \<longleftrightarrow> w = 0" using b e by simp
  show "s = WRITER_BIT \<longleftrightarrow> n = 0 \<and> w = 1" "s = ONE_READER \<longleftrightarrow> n = 1 \<and> w = 0" using t by (simp_all add: WRITER_BIT_def ONE_READER_def)
  have "s AND NOT WRITER_BIT = s AND NOT (s AND WRITER_BIT)" by (rule bit_eqI) (auto simp: bit_simps)
  also have "\<dots> = s - (s AND WRITER_BIT)"
    by (rule disjunctive_diff_eq_and_not [symmetric], rule bit_eqI) (simp add: bit_simps)
  finally have "unat (s AND NOT WRITER_BIT) = unat s - w" using b e assms by (cases "w = 0") (simp_all add: unat_sub word_le_nat_alt)
  then show u: "unat (s AND NOT WRITER_BIT) = 2 * n" using assms by simp
  show "s AND NOT WRITER_BIT = ONE_READER \<longleftrightarrow> n = 1" unfolding word_unat_eq_iff u by (simp add: ONE_READER_def)
qed

section \<open>Every step keeps the invariant\<close>

definition rw_ok :: "bool \<Rightarrow> rw_pc multiset \<Rightarrow> 'a \<Rightarrow> 'a rw_outcome \<Rightarrow> bool" where
  "rw_ok g R v x \<longleftrightarrow> (\<exists>l' p'. x = Inr (l', p') \<and> rw_inv g l' (add_mset p' R) \<and> rw_value l' = v)"

lemma rw_ok_simps [simp]: "rw_ok g R v (Inr (l', p')) \<longleftrightarrow> rw_inv g l' (add_mset p' R) \<and> rw_value l' = v"
  by (simp add: rw_ok_def)

lemma rw_word_same:
  "rw_word s (add_mset p R) \<Longrightarrow> readers p' = readers p \<Longrightarrow> writer p' = writer p \<Longrightarrow> writing p' \<le> writing p \<Longrightarrow> rw_pc_ok p' \<Longrightarrow> rw_word s (add_mset p' R)"
  by (auto simp: rw_word_def)

text \<open>A step that changes the word or only the program point.\<close>

lemma rw_word_step:
  assumes inv: "rw_inv g l (add_mset p R)" and same: "rw_mutex_pc p' = rw_mutex_pc p" "read_entry p' = read_entry p" "write_entry p' = write_entry p"
    and w: "rw_word s (add_mset p' R)"
    and rq: "readers_quiet g (add_mset p' R) \<Longrightarrow> readers_quiet g (add_mset p R) \<and> read_asleep p' \<le> read_asleep p"
    and wq: "writer_quiet (add_mset p' R) \<Longrightarrow> 0 < write_asleep p' + tokens write_asleep R \<Longrightarrow> writer_quiet (add_mset p R) \<and> write_asleep p' \<le> write_asleep p"
  shows "rw_inv g (l\<lparr>rw_state := s\<rparr>) (add_mset p' R)"
proof -
  note d = rw_invD [OF inv]
  have "waits write_entry write_asleep (rw_no_readers l) (writer_quiet (add_mset p' R)) (add_mset p' R)"
  proof (cases "tokens write_asleep (add_mset p' R) = 0")
    case True
    have "waits write_entry write_asleep (rw_no_readers l) False (add_mset p' R)" using writing.waits_same [OF d(4) same(3), of False] by simp
    then show ?thesis using True by (rule writing.waits_awake)
  next
    case False
    then show ?thesis using writing.waits_same [OF d(4) same(3)] wq by simp
  qed
  moreover have "waits read_entry read_asleep (rw_no_writer l) (readers_quiet g (add_mset p' R)) (add_mset p' R)"
    using reading.waits_same [OF d(3) same(2)] rq by blast
  ultimately show ?thesis using d(1) w same(1) by (simp add: rw_inv_def)
qed

lemma rw_same_step:
  assumes inv: "rw_inv g l (add_mset p R)" and same: "rw_mutex_pc p' = rw_mutex_pc p" "read_entry p' = read_entry p" "write_entry p' = write_entry p"
    and w: "readers p' = readers p" "writer p' = writer p" "writing p' \<le> writing p" "rw_pc_ok p'"
    and rq: "readers_quiet g (add_mset p' R) \<Longrightarrow> readers_quiet g (add_mset p R) \<and> read_asleep p' \<le> read_asleep p"
    and wq: "writer_quiet (add_mset p' R) \<Longrightarrow> 0 < write_asleep p' + tokens write_asleep R \<Longrightarrow> writer_quiet (add_mset p R) \<and> write_asleep p' \<le> write_asleep p"
  shows "rw_inv g l (add_mset p' R)"
  using rw_word_step [OF inv same rw_word_same [OF rw_invD(2) [OF inv] w] rq wq] by simp

text \<open>Calls on \<open>no_writer\<close>. The points before and after differ only for the readers' event.\<close>

definition same_for_writers :: "rw_pc \<Rightarrow> rw_pc \<Rightarrow> bool" where
  "same_for_writers p p' \<longleftrightarrow> rw_mutex_pc p' = rw_mutex_pc p \<and> write_entry p' = write_entry p \<and> readers p' = readers p \<and>
     writer p' = writer p \<and> writing p' \<le> writing p \<and> write_asleep p' \<le> write_asleep p \<and> wakes_writer p \<le> wakes_writer p' \<and> rw_pc_ok p'"

lemma rw_no_writer_event:
  assumes inv: "rw_inv g l (add_mset p R)" and same: "same_for_writers p p'"
    and "waits read_entry read_asleep ev (readers_quiet g (add_mset p' R)) (add_mset p' R)"
  shows "rw_inv g (l\<lparr>rw_no_writer := ev\<rparr>) (add_mset p' R)"
proof -
  note d = rw_invD [OF inv]
  have "waits write_entry write_asleep (rw_no_readers l) (writer_quiet (add_mset p' R)) (add_mset p' R)"
    using same by (intro writing.waits_same [OF d(4)]) (auto simp: same_for_writers_def writer_quiet_def)
  moreover have "rw_word (rw_state l) (add_mset p' R)" using same rw_word_same [OF d(2)] by (simp add: same_for_writers_def)
  ultimately show ?thesis using d(1) assms(3) same by (simp add: rw_inv_def same_for_writers_def)
qed

lemma reader_listen:
  assumes inv: "rw_inv g l (add_mset (Rd R_Listen) R)"
  shows "rw_ok g R (rw_value l) (on_no_writer ww l OpListen (\<lambda>r. Inr (Rd (R_Check (new_entry r)))))"
proof -
  note d = rw_invD [OF inv]
  obtain ev' a where e: "event_call ww (rw_no_writer l) OpListen = Inr (ev', ResListener a)"
    "\<forall>p' Q'. read_entry p' = {#a#} \<and> (Q' \<longrightarrow> readers_quiet g (add_mset (Rd R_Listen) R) \<and> read_asleep p' \<le> read_asleep (Rd R_Listen)) \<longrightarrow>
       waits read_entry read_asleep ev' Q' (add_mset p' R)"
    using reading.waits_listen [OF d(3) _ d(6), of ww] by auto
  have "rw_inv g (l\<lparr>rw_no_writer := ev'\<rparr>) (add_mset (Rd (R_Check a)) R)"
    by (rule rw_no_writer_event [OF inv]) (use e(2) in \<open>simp_all add: same_for_writers_def writing_def wakes_writer_def readers_quiet_def wakes_reader_def\<close>)
  then show ?thesis using e(1) by (simp add: on_no_writer_def)
qed

lemma reader_notify:
  assumes inv: "rw_inv g l (add_mset p R)" and k: "\<And>r. k r = Inr p'" and same: "same_for_writers p p'" "read_entry p' = read_entry p"
  shows "rw_ok g R (rw_value l) (on_no_writer ww l (OpNotify 1) k)"
proof -
  obtain ev' ws where e: "event_call ww (rw_no_writer l) (OpNotify 1) = Inr (ev', ResWoken ws)"
    "\<forall>p' Q'. read_entry p' = read_entry p \<longrightarrow> waits read_entry read_asleep ev' Q' (add_mset p' R)"
    using reading.waits_notify [OF rw_invD(3) [OF inv]] by blast
  then show ?thesis using k same rw_no_writer_event [OF inv same(1), of ev'] by (simp add: on_no_writer_def)
qed

lemma reader_drop:
  assumes inv: "rw_inv g l (add_mset p R)" and k: "\<And>r. k r = Inr p'" and e: "read_entry p = {#a#}" "read_entry p' = {#}" and same: "same_for_writers p p'"
    and q: "read_asleep p' = 0" "wakes_reader p = 0"
  shows "rw_ok g R (rw_value l) (on_no_writer ww l (OpDropListener a) k)"
proof -
  obtain ev' ws where l: "event_call ww (rw_no_writer l) (OpDropListener a) = Inr (ev', ResWoken ws)"
    "\<forall>p' Q'. read_entry p' = {#} \<and> (Q' \<longrightarrow> readers_quiet g (add_mset p R) \<and> read_asleep p' \<le> read_asleep p) \<longrightarrow> waits read_entry read_asleep ev' Q' (add_mset p' R)"
    using reading.waits_drop [OF rw_invD(3) [OF inv] e(1)] by blast
  have "waits read_entry read_asleep ev' (readers_quiet g (add_mset p' R)) (add_mset p' R)"
    using l(2) e q same by (simp add: readers_quiet_def same_for_writers_def)
  then show ?thesis using l(1) k rw_no_writer_event [OF inv same] by (simp add: on_no_writer_def)
qed

lemma reader_poll:
  assumes inv: "rw_inv g l (add_mset (Rd (R_Await a)) R)"
  shows "rw_ok g R (rw_value l) (on_no_writer ww l (OpPoll a cx) (\<lambda>r. Inr (if r = ResPolled True then Rd R_Pass else Rd (R_Await a))))"
proof -
  obtain ev' b where e: "event_call ww (rw_no_writer l) (OpPoll a cx) = Inr (ev', ResPolled b)"
    "b \<longrightarrow> (\<forall>p'. read_entry p' = {#} \<longrightarrow> waits read_entry read_asleep ev' False (add_mset p' R))"
    "\<not> b \<longrightarrow> waits read_entry read_asleep ev' (readers_quiet g (add_mset (Rd (R_Await a)) R)) (add_mset (Rd (R_Await a)) R)"
    using reading.waits_poll [OF rw_invD(3) [OF inv], of a ww cx] by auto
  have q: "readers_quiet g (add_mset (Rd R_Pass) R) = False" by (simp add: readers_quiet_def wakes_reader_def)
  have same: "same_for_writers (Rd (R_Await a)) (Rd R_Pass)" "same_for_writers (Rd (R_Await a)) (Rd (R_Await a))"
    by (simp_all add: same_for_writers_def writing_def wakes_writer_def)
  show ?thesis
  proof (cases b)
    case True
    then have "rw_inv g (l\<lparr>rw_no_writer := ev'\<rparr>) (add_mset (Rd R_Pass) R)" using e q by (intro rw_no_writer_event [OF inv same(1)]) simp
    then show ?thesis using e(1) True by (simp add: on_no_writer_def)
  next
    case False
    then have "rw_inv g (l\<lparr>rw_no_writer := ev'\<rparr>) (add_mset (Rd (R_Await a)) R)" using e by (intro rw_no_writer_event [OF inv same(2)]) simp
    then show ?thesis using e(1) False by (simp add: on_no_writer_def)
  qed
qed

text \<open>Calls on \<open>no_readers\<close>.\<close>

definition same_for_readers :: "rw_pc \<Rightarrow> rw_pc \<Rightarrow> bool" where
  "same_for_readers p p' \<longleftrightarrow> rw_mutex_pc p' = rw_mutex_pc p \<and> read_entry p' = read_entry p \<and> readers p' = readers p \<and>
     writer p' = writer p \<and> writing p' \<le> writing p \<and> read_asleep p' \<le> read_asleep p \<and> wakes_reader p \<le> wakes_reader p' \<and> rw_pc_ok p'"

lemma rw_no_readers_event:
  assumes inv: "rw_inv g l (add_mset p R)" and same: "same_for_readers p p'"
    and "waits write_entry write_asleep ev (writer_quiet (add_mset p' R)) (add_mset p' R)"
  shows "rw_inv g (l\<lparr>rw_no_readers := ev\<rparr>) (add_mset p' R)"
proof -
  note d = rw_invD [OF inv]
  have "waits read_entry read_asleep (rw_no_writer l) (readers_quiet g (add_mset p' R)) (add_mset p' R)"
    using same by (intro reading.waits_same [OF d(3)]) (auto simp: same_for_readers_def readers_quiet_def)
  moreover have "rw_word (rw_state l) (add_mset p' R)" using same rw_word_same [OF d(2)] by (simp add: same_for_readers_def)
  ultimately show ?thesis using d(1) assms(3) same by (simp add: rw_inv_def same_for_readers_def)
qed

lemma writer_listen:
  assumes inv: "rw_inv g l (add_mset (Wr W_Listen) R)"
  shows "rw_ok g R (rw_value l) (on_no_readers ww l OpListen (\<lambda>r. Wr (W_Check (new_entry r))))"
proof -
  note d = rw_invD [OF inv]
  obtain ev' a where e: "event_call ww (rw_no_readers l) OpListen = Inr (ev', ResListener a)"
    "\<forall>p' Q'. write_entry p' = {#a#} \<and> (Q' \<longrightarrow> writer_quiet (add_mset (Wr W_Listen) R) \<and> write_asleep p' \<le> write_asleep (Wr W_Listen)) \<longrightarrow>
       waits write_entry write_asleep ev' Q' (add_mset p' R)"
    using writing.waits_listen [OF d(4) _ d(6), of ww] by auto
  have "rw_inv g (l\<lparr>rw_no_readers := ev'\<rparr>) (add_mset (Wr (W_Check a)) R)"
    by (rule rw_no_readers_event [OF inv]) (use e(2) in \<open>simp_all add: same_for_readers_def writing_def wakes_reader_def writer_quiet_def wakes_writer_def\<close>)
  then show ?thesis using e(1) by (simp add: on_no_readers_def)
qed

lemma writer_notify:
  assumes inv: "rw_inv g l (add_mset p R)" and k: "\<And>r. k r = p'" and same: "same_for_readers p p'" "write_entry p' = write_entry p"
  shows "rw_ok g R (rw_value l) (on_no_readers ww l (OpNotify 1) k)"
proof -
  obtain ev' ws where e: "event_call ww (rw_no_readers l) (OpNotify 1) = Inr (ev', ResWoken ws)"
    "\<forall>p' Q'. write_entry p' = write_entry p \<longrightarrow> waits write_entry write_asleep ev' Q' (add_mset p' R)"
    using writing.waits_notify [OF rw_invD(4) [OF inv]] by blast
  then show ?thesis using k same rw_no_readers_event [OF inv same(1), of ev'] by (simp add: on_no_readers_def)
qed

lemma writer_drop:
  assumes inv: "rw_inv g l (add_mset p R)" and k: "\<And>r. k r = p'" and e: "write_entry p = {#a#}" "write_entry p' = {#}" and same: "same_for_readers p p'"
    and q: "write_asleep p' = 0" "wakes_writer p = 0"
  shows "rw_ok g R (rw_value l) (on_no_readers ww l (OpDropListener a) k)"
proof -
  obtain ev' ws where l: "event_call ww (rw_no_readers l) (OpDropListener a) = Inr (ev', ResWoken ws)"
    "\<forall>p' Q'. write_entry p' = {#} \<and> (Q' \<longrightarrow> writer_quiet (add_mset p R) \<and> write_asleep p' \<le> write_asleep p) \<longrightarrow> waits write_entry write_asleep ev' Q' (add_mset p' R)"
    using writing.waits_drop [OF rw_invD(4) [OF inv] e(1)] by blast
  have "waits write_entry write_asleep ev' (writer_quiet (add_mset p' R)) (add_mset p' R)"
    using l(2) e q same by (simp add: writer_quiet_def same_for_readers_def)
  then show ?thesis using l(1) k rw_no_readers_event [OF inv same] by (simp add: on_no_readers_def)
qed

lemma writer_poll:
  assumes inv: "rw_inv g l (add_mset (Wr (W_Await a)) R)"
  shows "rw_ok g R (rw_value l) (on_no_readers ww l (OpPoll a cx) (\<lambda>r. if r = ResPolled True then Wr W_Load else Wr (W_Await a)))"
proof -
  obtain ev' b where e: "event_call ww (rw_no_readers l) (OpPoll a cx) = Inr (ev', ResPolled b)"
    "b \<longrightarrow> (\<forall>p'. write_entry p' = {#} \<longrightarrow> waits write_entry write_asleep ev' False (add_mset p' R))"
    "\<not> b \<longrightarrow> waits write_entry write_asleep ev' (writer_quiet (add_mset (Wr (W_Await a)) R)) (add_mset (Wr (W_Await a)) R)"
    using writing.waits_poll [OF rw_invD(4) [OF inv], of a ww cx] by auto
  have z: "tokens write_asleep (add_mset (Wr W_Load) R) = 0" using rw_counts(6) [OF inv] by simp
  have same: "same_for_readers (Wr (W_Await a)) (Wr W_Load)" "same_for_readers (Wr (W_Await a)) (Wr (W_Await a))"
    by (simp_all add: same_for_readers_def writing_def wakes_reader_def)
  show ?thesis
  proof (cases b)
    case True
    then have "waits write_entry write_asleep ev' False (add_mset (Wr W_Load) R)" using e by simp
    from writing.waits_awake [OF this z] have "rw_inv g (l\<lparr>rw_no_readers := ev'\<rparr>) (add_mset (Wr W_Load) R)"
      by (intro rw_no_readers_event [OF inv same(1)])
    then show ?thesis using e(1) True by (simp add: on_no_readers_def)
  next
    case False
    then have "rw_inv g (l\<lparr>rw_no_readers := ev'\<rparr>) (add_mset (Wr (W_Await a)) R)" using e by (intro rw_no_readers_event [OF inv same(2)]) simp
    then show ?thesis using e(1) False by (simp add: on_no_readers_def)
  qed
qed

section \<open>Readers\<close>

lemmas rw_points = writing_def wakes_reader_def wakes_writer_def readers_quiet_def writer_quiet_def

lemma rw_small:
  assumes inv: "rw_inv g l (add_mset p R)" and "readers p = 0"
  shows "unat (rw_state l) \<le> isize_max"
  using rw_counts(1-3) [OF inv] assms(2) by (simp add: isize_max_def max_tasks_def)

text \<open>\<open>idle p\<close>: the point has no part in any count.\<close>

definition unbound :: "rw_pc \<Rightarrow> bool" where
  "unbound p \<longleftrightarrow> rw_mutex_pc p = Idle \<and> readers p = 0 \<and> writer p = 0 \<and> writing p = 0 \<and> write_entry p = {#} \<and> write_asleep p = 0 \<and> wakes_writer p = 0"

lemma unbound_same: "unbound p \<Longrightarrow> unbound p' \<Longrightarrow> rw_pc_ok p' \<Longrightarrow> same_for_writers p p'"
  by (simp add: unbound_def same_for_writers_def)

lemma unbound_Rd: "unbound (Rd p)" "unbound Rw_Idle"
  by (simp_all add: unbound_def rw_points)

lemma unbound_step:
  assumes "rw_inv g l (add_mset p R)" "unbound p" "unbound p'" "rw_pc_ok p'" "read_entry p' = read_entry p"
    "readers_quiet g (add_mset p' R) \<Longrightarrow> readers_quiet g (add_mset p R) \<and> read_asleep p' \<le> read_asleep p"
  shows "rw_inv g l (add_mset p' R)"
  by (rule rw_same_step [OF assms(1)]) (use assms in \<open>simp_all add: unbound_def writer_quiet_def\<close>)

lemma read_loop_cases:
  assumes "unat s \<le> isize_max"
  shows "read_loop s = Inr (Rd R_Listen) \<or> read_loop s = Inr (Rd (R_Cas s)) \<and> s AND WRITER_BIT = 0"
    "try_read_loop s = Inr Rw_Idle \<or> try_read_loop s = Inr (Rd (R_Try_Cas s)) \<and> s AND WRITER_BIT = 0"
  using assms by (auto simp: read_loop_def try_read_loop_def)

lemma read_loop_ok:
  assumes inv: "rw_inv g l (add_mset (Rd p) R)" and e: "read_entry (Rd p) = {#}" "wakes_reader (Rd p) = 0"
  shows "rw_ok g R (rw_value l) (go_on l (read_loop (rw_state l)))" "rw_ok g R (rw_value l) (go_on l (try_read_loop (rw_state l)))"
proof -
  have "unat (rw_state l) \<le> isize_max" using rw_small [OF inv] by simp
  note c = read_loop_cases [OF this]
  have "rw_inv g l (add_mset q R)" if "q = Rd R_Listen \<or> q = Rw_Idle \<or> (q = Rd (R_Cas s) \<or> q = Rd (R_Try_Cas s)) \<and> s AND WRITER_BIT = 0" for q s
    using that e by (intro unbound_step [OF inv unbound_Rd(1)]) (auto simp: unbound_Rd rw_points)
  then show "rw_ok g R (rw_value l) (go_on l (read_loop (rw_state l)))" "rw_ok g R (rw_value l) (go_on l (try_read_loop (rw_state l)))"
    using c by (auto simp: go_on_def)
qed

text \<open>A reader enters only when the writer's bit is clear.\<close>

lemma reader_enters:
  assumes inv: "rw_inv g l (add_mset (Rd p) R)" and e: "read_entry (Rd p) = {#}" "wakes_reader (Rd p) = 0"
    and s: "rw_state l AND WRITER_BIT = 0"
  shows "rw_inv g (l\<lparr>rw_state := rw_state l + ONE_READER\<rparr>) (add_mset Rd_Hold R)"
proof (rule rw_word_step [OF inv])
  note c = rw_counts [OF inv]
  have w: "tokens writer R = 0" using writer_bit(1) [OF c(1,2)] s by simp
  then have "tokens writing R = 0" using tokens_mono [of writing writer R, OF rw_pointwise(3)] by simp
  moreover have "unat (rw_state l + ONE_READER) = 2 * Suc (tokens readers R)"
    using word_arith(1) [of "rw_state l" "tokens readers R" 0] c(1,3) w by (simp add: ONE_READER_def)
  ultimately show "rw_word (rw_state l + ONE_READER) (add_mset Rd_Hold R)" using rw_invD(2) [OF inv] w by (simp add: rw_word_def rw_points)
qed (use e in \<open>simp_all add: rw_points\<close>)

lemma read_step_ok:
  assumes inv: "rw_inv g l (add_mset (Rd p) R)"
  shows "rw_ok g R (rw_value l) (read_step ww ch l p)"
proof (cases p)
  case R_Try_Load
  then show ?thesis using read_loop_ok(2) [OF inv] by (simp add: wakes_reader_def)
next
  case (R_Try_Cas s)
  then show ?thesis using read_loop_ok(2) [OF inv] reader_enters [OF inv] rw_counts(4) [OF inv] by (auto simp: wakes_reader_def)
next
  case R_Load
  then show ?thesis using read_loop_ok(1) [OF inv] by (simp add: wakes_reader_def)
next
  case (R_Cas s)
  then show ?thesis using read_loop_ok(1) [OF inv] reader_enters [OF inv] rw_counts(4) [OF inv] by (auto simp: wakes_reader_def)
next
  case R_Listen
  then show ?thesis using reader_listen inv by simp
next
  case (R_Check a)
  note c = rw_counts [OF inv]
  have "rw_inv g l (add_mset (Rd (R_Await a)) R)" if "rw_state l AND WRITER_BIT \<noteq> 0"
    using that writer_bit(1) [OF c(1,2)] R_Check by (intro unbound_step [OF inv unbound_Rd(1) unbound_Rd(1)]) (simp_all add: rw_points)
  moreover have "rw_inv g l (add_mset (Rd (R_Reload a)) R)"
    using R_Check by (intro unbound_step [OF inv unbound_Rd(1) unbound_Rd(1)]) (simp_all add: rw_points)
  ultimately show ?thesis using R_Check by simp
next
  case (R_Reload a)
  then have "rw_inv g l (add_mset (Rd (R_Drop a (rw_state l))) R)"
    using rw_small [OF inv] by (intro unbound_step [OF inv unbound_Rd(1) unbound_Rd(1)]) (simp_all add: rw_points)
  then show ?thesis using R_Reload by simp
next
  case (R_Drop a s)
  then have "unat s \<le> isize_max" using rw_counts(4) [OF inv] by simp
  then obtain q where q: "read_loop s = Inr (Rd q)" "rw_pc_ok (Rd q)" "read_entry (Rd q) = {#}" "read_asleep (Rd q) = 0"
    using read_loop_cases(1) by fastforce
  show ?thesis
    using R_Drop q by (simp, intro reader_drop [OF inv, of _ "Rd q"]) (simp_all add: unbound_same unbound_Rd wakes_reader_def)
next
  case (R_Await a)
  have "rw_ok g R (rw_value l) (on_no_writer ww l (OpDropListener a) (\<lambda>_. Inr Rw_Idle))"
    using R_Await by (intro reader_drop [OF inv, of _ Rw_Idle]) (simp_all add: unbound_same unbound_Rd wakes_reader_def)
  moreover have "rw_ok g R (rw_value l) (read_step ww (Rw_Poll cx) l p)" for cx using reader_poll [of g l a R ww cx] inv R_Await by simp
  ultimately show ?thesis using R_Await inv by (cases ch) simp_all
next
  case R_Pass
  then show ?thesis using reader_notify [OF inv, of "\<lambda>_. Inr (Rd R_Load)" "Rd R_Load"] by (simp add: unbound_same unbound_Rd)
qed

text \<open>The last reader notifies the writer.\<close>

lemma read_guard_drop_ok:
  assumes inv: "rw_inv g l (add_mset p R)" and p: "readers p = 1" "writer p = 0" "read_entry p = {#}" "write_entry p = {#}" "wakes_reader p = 0"
    and pc: "rw_pc_ok p'" "rw_mutex_pc p' = rw_mutex_pc p" "readers p' = 0" "writer p' = 0" "writing p' = 0" "read_entry p' = {#}" "write_entry p' = {#}"
      "read_asleep p' = 0" "rw_state l AND NOT WRITER_BIT = ONE_READER \<Longrightarrow> wakes_writer p' = 1" "write_asleep p' = 0"
  shows "rw_inv g (l\<lparr>rw_state := rw_state l - ONE_READER\<rparr>) (add_mset p' R)"
proof (rule rw_word_step [OF inv])
  note c = rw_counts [OF inv]
  note b = writer_bit [OF c(1,2)]
  have "unat (rw_state l - ONE_READER) = 2 * tokens readers R + tokens writer R"
    using word_arith(2) [OF c(1,2)] p by (simp add: ONE_READER_def)
  then show "rw_word (rw_state l - ONE_READER) (add_mset p' R)" using rw_invD(2) [OF inv] p pc by (auto simp: rw_word_def)
  show "writer_quiet (add_mset p R) \<and> write_asleep p' \<le> write_asleep p" if "writer_quiet (add_mset p' R)"
  proof -
    have "tokens readers R = 0" using that by (simp add: writer_quiet_def)
    then have "wakes_writer p' = 1" using b(4) p pc(9) by simp
    then show ?thesis using that by (simp add: writer_quiet_def)
  qed
qed (use p pc in \<open>simp_all add: readers_quiet_def\<close>)

section \<open>The inner mutex\<close>

lemma rw_mutex_step:
  assumes inv: "rw_inv g l (add_mset p R)" and m: "mutex_inv m (add_mset q (image_mset rw_mutex_pc R))"
    and p: "read_entry p = {#}" "write_entry p = {#}" "wakes_reader p = 0" "wakes_writer p = 0"
    and p': "rw_mutex_pc p' = q" "read_entry p' = {#}" "write_entry p' = {#}" "readers p' = readers p" "writer p' = writer p" "writing p' = 0" "rw_pc_ok p'"
      "read_asleep p' = 0" "write_asleep p' = 0"
  shows "rw_inv g (l\<lparr>rw_mutex := m\<rparr>) (add_mset p' R)"
proof -
  note d = rw_invD [OF inv]
  have "waits write_entry write_asleep (rw_no_readers l) (writer_quiet (add_mset p' R)) (add_mset p' R)"
    using p p' by (intro writing.waits_same [OF d(4)]) (simp_all add: writer_quiet_def)
  moreover have "waits read_entry read_asleep (rw_no_writer l) (readers_quiet g (add_mset p' R)) (add_mset p' R)"
    using p p' by (intro reading.waits_same [OF d(3)]) (simp_all add: readers_quiet_def)
  moreover have "rw_word (rw_state l) (add_mset p' R)" using p' by (intro rw_word_same [OF d(2)]) simp_all
  ultimately show ?thesis using m p' by (simp add: rw_inv_def)
qed

lemma acquire_step_ok:
  assumes inv: "rw_inv g l (add_mset (Rw_Acquire k q) R)"
  shows "rw_ok g R (rw_value l) (on_mutex ww l ch q (acquire_next k))"
proof -
  obtain m q' where m: "mutex_step ww ch (rw_mutex l) q = Inr (m, q')" "mutex_inv m (add_mset q' (image_mset rw_mutex_pc R))"
    using mutex_step_ok [of "rw_mutex l" q "image_mset rw_mutex_pc R" ww ch] rw_invD(1) [OF inv] by (auto simp: mutex_ok_def)
  have "rw_inv g (l\<lparr>rw_mutex := m\<rparr>) (add_mset (acquire_next k q') R)"
    by (rule rw_mutex_step [OF inv m(2)]; cases k) (simp_all add: acquire_next_def rw_points)
  then show ?thesis using m(1) by (simp add: on_mutex_def)
qed

lemma release_step_ok:
  assumes inv: "rw_inv g l (add_mset (Rw_Release b q) R)"
  shows "rw_ok g R (rw_value l) (on_mutex ww l Drop_Guard q (release_next b))"
proof -
  obtain m q' where m: "mutex_step ww Drop_Guard (rw_mutex l) q = Inr (m, q')" "mutex_inv m (add_mset q' (image_mset rw_mutex_pc R))"
    using mutex_step_ok [of "rw_mutex l" q "image_mset rw_mutex_pc R" ww Drop_Guard] rw_invD(1) [OF inv] by (auto simp: mutex_ok_def)
  have "q' = Idle \<or> q' = Unlock" using m(1) rw_counts(4) [OF inv] by (auto simp: on_ops_def)
  then have "rw_inv g (l\<lparr>rw_mutex := m\<rparr>) (add_mset (release_next b q') R)"
    by (intro rw_mutex_step [OF inv m(2)]) (auto simp: release_next_def rw_points)
  then show ?thesis using m(1) by (simp add: on_mutex_def)
qed

section \<open>Upgradable readers and writers\<close>

text \<open>A task that holds the mutex is the only one that can be a writer.\<close>

lemma held_step:
  assumes inv: "rw_inv g l (add_mset p R)" and held: "rw_mutex_pc p = Hold" "rw_mutex_pc p' = Hold"
    and e: "read_entry p = {#}" "read_entry p' = {#}" "write_entry p' = write_entry p" "rw_pc_ok p'" "read_asleep p' = 0"
    and word: "unat s = 2 * (readers p' + tokens readers R) + writer p'" "writing p' = 1 \<Longrightarrow> readers p' + tokens readers R = 0"
    and rq: "readers_quiet g (add_mset p' R) \<Longrightarrow> writer p = 0 \<and> wakes_reader p = 0"
    and wq: "write_asleep p' \<noteq> 0 \<Longrightarrow> \<not> writer_quiet (add_mset p' R) \<or> writer_quiet (add_mset p R) \<and> write_asleep p' \<le> write_asleep p"
  shows "rw_inv g (l\<lparr>rw_state := s\<rparr>) (add_mset p' R)"
proof (rule rw_word_step [OF inv])
  have h: "tokens writer R = 0" "tokens write_asleep R = 0" "tokens writing R = 0" using rw_counts(6) [OF inv] held by simp_all
  have "writing p' = 0 \<or> writing p' = 1" by (simp add: writing_def)
  then show "rw_word s (add_mset p' R)" using rw_invD(2) [OF inv] h word e(4) by (auto simp: rw_word_def)
  show "readers_quiet g (add_mset p R) \<and> read_asleep p' \<le> read_asleep p" if "readers_quiet g (add_mset p' R)"
    using that rq [OF that] e(5) by (simp add: readers_quiet_def)
  show "writer_quiet (add_mset p R) \<and> write_asleep p' \<le> write_asleep p" if "writer_quiet (add_mset p' R)" "0 < write_asleep p' + tokens write_asleep R"
    using that wq h by auto
qed (use held e in simp_all)

lemma held_same:
  assumes inv: "rw_inv g l (add_mset p R)" and "rw_mutex_pc p = Hold" "rw_mutex_pc p' = Hold"
    and "read_entry p = {#}" "read_entry p' = {#}" "write_entry p' = write_entry p" "rw_pc_ok p'" "read_asleep p' = 0"
    and "readers p' = readers p" "writer p' = writer p" "writing p' = 1 \<Longrightarrow> readers p' + tokens readers R = 0" "wakes_reader p = 0"
    and wq: "write_asleep p' \<noteq> 0 \<Longrightarrow> \<not> writer_quiet (add_mset p' R) \<or> writer_quiet (add_mset p R) \<and> write_asleep p' \<le> write_asleep p"
  shows "rw_inv g l (add_mset p' R)"
proof -
  have "tokens writer R = 0" using rw_counts(6) [OF inv] assms(2) by simp
  then have "unat (rw_state l) = 2 * (readers p' + tokens readers R) + writer p'" using rw_counts(1) [OF inv] assms(9,10) by simp
  then have "rw_inv g (l\<lparr>rw_state := rw_state l\<rparr>) (add_mset p' R)"
    using assms by (intro held_step [OF inv]) (simp_all add: readers_quiet_def)
  then show ?thesis by simp
qed

lemma held_word:
  assumes inv: "rw_inv g l (add_mset p R)" and "rw_mutex_pc p = Hold"
  shows "unat (rw_state l) = 2 * (readers p + tokens readers R) + writer p" "writer p \<le> 1" "readers p + tokens readers R \<le> max_tasks"
proof -
  show "unat (rw_state l) = 2 * (readers p + tokens readers R) + writer p" "writer p \<le> 1"
    using rw_counts(1,2,6) [OF inv] assms(2) by simp_all
  show "readers p + tokens readers R \<le> max_tasks" using rw_counts(3) [OF inv] rw_pointwise(1) [of p] by linarith
qed

lemma upgradable_upgrades:
  assumes inv: "rw_inv g l (add_mset (Up U_Hold) R)"
  shows "rw_ok g R (rw_value l) (upgradable_try_upgrade l)" "rw_ok g R (rw_value l) (upgradable_upgrade l)"
proof -
  note w = held_word [OF inv]
  have u: "unat (rw_state l) = 2 * Suc (tokens readers R)" using w(1) by simp
  show "rw_ok g R (rw_value l) (upgradable_try_upgrade l)"
  proof (cases "rw_state l = ONE_READER")
    case True
    then have "tokens readers R = 0" using u by (simp add: ONE_READER_def)
    then have "rw_inv g (l\<lparr>rw_state := WRITER_BIT\<rparr>) (add_mset (Wr W_Hold) R)"
      by (intro held_step [OF inv]) (simp_all add: WRITER_BIT_def rw_points)
    then show ?thesis using True by (simp add: upgradable_try_upgrade_def)
  qed (use inv in \<open>simp add: upgradable_try_upgrade_def\<close>)
  have "unat (rw_state l - 1) = 2 * tokens readers R + 1" using u by (simp add: unat_sub word_le_nat_alt)
  then have "rw_inv g (l\<lparr>rw_state := rw_state l - 1\<rparr>) (add_mset (Wr W_Load) R)"
    by (intro held_step [OF inv]) (simp_all add: rw_points)
  then show "rw_ok g R (rw_value l) (upgradable_upgrade l)" by (simp add: upgradable_upgrade_def ONE_READER_def WRITER_BIT_def)
qed

lemma upgradable_step_ok:
  assumes inv: "rw_inv g l (add_mset (Up p) R)"
  shows "rw_ok g R (rw_value l) (upgradable_step ww ch l p)"
proof (cases p)
  case U_Load
  have "rw_inv g l (add_mset (Up (U_Cas (rw_state l))) R)" using U_Load by (intro held_same [OF inv]) (simp_all add: rw_points)
  then show ?thesis using U_Load rw_small [OF inv] by simp
next
  case (U_Cas s)
  note w = held_word [OF inv]
  have "rw_inv g l (add_mset (Up (U_Cas (rw_state l))) R)" using U_Cas by (intro held_same [OF inv]) (simp_all add: rw_points)
  moreover have "unat (rw_state l + 2) = 2 * Suc (tokens readers R)"
    using word_arith(1) [of "rw_state l" "tokens readers R" 0] w(1) rw_counts(3) [OF inv] U_Cas by simp
  then have "rw_inv g (l\<lparr>rw_state := rw_state l + 2\<rparr>) (add_mset (Up U_Hold) R)" using U_Cas by (intro held_step [OF inv]) (simp_all add: rw_points)
  ultimately show ?thesis using U_Cas by (auto simp: ONE_READER_def)
next
  case U_Hold
  have drop: "rw_ok g R (rw_value l) (case read_guard_drop l of (l', was_last) \<Rightarrow> Inr (l', if was_last then Up U_Notify else Rw_Release False Hold))"
  proof (cases "rw_state l AND NOT WRITER_BIT = ONE_READER")
    case True
    then show ?thesis using U_Hold read_guard_drop_ok [OF inv, of "Up U_Notify"] by (simp add: read_guard_drop_def rw_points)
  next
    case False
    then show ?thesis using U_Hold read_guard_drop_ok [OF inv, of "Rw_Release False Hold"] by (simp add: read_guard_drop_def rw_points)
  qed
  have down: "rw_inv g l (add_mset (Rw_Release True Hold) R)" using U_Hold by (intro held_same [OF inv]) (simp_all add: rw_points)
  show ?thesis using U_Hold drop down upgradable_upgrades [of g l R] inv by (simp add: upgradable_guard_call_def split: rw_choice.split rw_call.split)
next
  case U_Notify
  then show ?thesis using writer_notify [OF inv, of "\<lambda>_. Rw_Release False Hold" "Rw_Release False Hold"] by (simp add: same_for_readers_def rw_points)
qed

text \<open>A complete writer sees the word 1.\<close>

lemma write_guard_ok:
  assumes inv: "rw_inv g l (add_mset (Wr W_Hold) R)"
  shows "rw_inv g l (add_mset (Wr W_Clear) R)" "rw_inv g (write_to_read l) (add_mset (Wr W_Downgrade) R)"
    "g \<or> rw_inv g (write_to_read l) (add_mset (Up U_Hold) R)"
proof -
  have r: "tokens readers R = 0" using rw_counts(5) [OF inv] by (simp add: writing_def)
  then have "unat (rw_state l) = 1" using held_word(1) [OF inv] by simp
  then have u: "unat (rw_state l + 1) = 2" by (simp add: unat_word_ariths)
  show "rw_inv g l (add_mset (Wr W_Clear) R)" by (intro held_same [OF inv]) (simp_all add: rw_points)
  have "rw_inv g (l\<lparr>rw_state := rw_state l + 1\<rparr>) (add_mset (Wr W_Downgrade) R)" using u r by (intro held_step [OF inv]) (simp_all add: rw_points)
  then show "rw_inv g (write_to_read l) (add_mset (Wr W_Downgrade) R)" by (simp add: write_to_read_def ONE_READER_def WRITER_BIT_def)
  have "rw_inv g (l\<lparr>rw_state := rw_state l + 1\<rparr>) (add_mset (Up U_Hold) R)" if "\<not> g" using that u r by (intro held_step [OF inv]) (simp_all add: rw_points)
  then show "g \<or> rw_inv g (write_to_read l) (add_mset (Up U_Hold) R)"
    by (cases g) (simp_all add: write_to_read_def ONE_READER_def WRITER_BIT_def)
qed

lemma write_step_ok:
  assumes inv: "rw_inv g l (add_mset (Wr p) R)" and ch: "g \<longrightarrow> ch \<noteq> Rw_Call Call_Downgrade_To_Upgradable"
  shows "rw_ok g R (rw_value l) (write_step ww ch l p)"
proof (cases p)
  case W_Try
  have "tokens readers R = 0" if "rw_state l = 0" using held_word(1) [OF inv] W_Try that by simp
  then have "rw_inv g (l\<lparr>rw_state := 1\<rparr>) (add_mset (Wr W_Hold) R)" if "rw_state l = 0" using W_Try that by (intro held_step [OF inv]) (simp_all add: rw_points)
  moreover have "rw_inv g l (add_mset (Rw_Release False Hold) R)" using W_Try by (intro held_same [OF inv]) (simp_all add: rw_points)
  ultimately show ?thesis using W_Try by (simp add: WRITER_BIT_def)
next
  case W_Or
  have "unat (rw_state l OR 1) = 2 * tokens readers R + 1" using word_arith(4) [OF held_word(1,2) [OF inv]] W_Or by simp
  then have "rw_inv g (l\<lparr>rw_state := rw_state l OR 1\<rparr>) (add_mset (Wr W_Load) R)" using W_Or by (intro held_step [OF inv]) (simp_all add: rw_points)
  then show ?thesis using W_Or by (simp add: WRITER_BIT_def)
next
  case W_Load
  have "tokens readers R = 0" if "rw_state l = WRITER_BIT" using writer_bit(2) [OF held_word(1,2) [OF inv]] W_Load that by simp
  then have "rw_inv g l (add_mset (Wr W_Hold) R)" if "rw_state l = WRITER_BIT" using W_Load that by (intro held_same [OF inv]) (simp_all add: rw_points)
  moreover have "rw_inv g l (add_mset (Wr W_Listen) R)" using W_Load by (intro held_same [OF inv]) (simp_all add: rw_points)
  ultimately show ?thesis using W_Load by simp
next
  case W_Listen
  then show ?thesis using writer_listen inv by simp
next
  case (W_Check a)
  have "0 < tokens readers R" if "rw_state l \<noteq> WRITER_BIT" using writer_bit(2) [OF held_word(1,2) [OF inv]] W_Check that by simp
  then have "rw_inv g l (add_mset (Wr (W_Await a)) R)" if "rw_state l \<noteq> WRITER_BIT" using W_Check that by (intro held_same [OF inv]) (simp_all add: rw_points)
  moreover have "rw_inv g l (add_mset (Wr (W_Drop a)) R)" using W_Check by (intro held_same [OF inv]) (simp_all add: rw_points)
  ultimately show ?thesis using W_Check by simp
next
  case (W_Drop a)
  then show ?thesis using writer_drop [OF inv, of "\<lambda>_. Wr W_Load" "Wr W_Load" a] by (simp add: same_for_readers_def rw_points)
next
  case (W_Await a)
  have "rw_ok g R (rw_value l) (on_no_readers ww l (OpDropListener a) (\<lambda>_. Wr W_Clear))"
    using W_Await writer_drop [OF inv, of "\<lambda>_. Wr W_Clear" "Wr W_Clear" a] by (simp add: same_for_readers_def rw_points)
  moreover have "rw_ok g R (rw_value l) (write_step ww (Rw_Poll cx) l p)" for cx using writer_poll [of g l a R ww cx] inv W_Await by simp
  ultimately show ?thesis using W_Await inv by (cases ch) simp_all
next
  case W_Hold
  note w = write_guard_ok [OF inv [unfolded W_Hold]]
  have "rw_value (write_to_read l) = rw_value l" by (simp add: write_to_read_def)
  then show ?thesis using W_Hold w inv ch by (cases "\<exists>c. ch = Rw_Call c") (auto simp: write_guard_call_def split: rw_choice.split rw_call.split)
next
  case W_Clear
  have "unat (rw_state l AND NOT WRITER_BIT) = 2 * tokens readers R" using writer_bit(5) [OF held_word(1,2) [OF inv]] W_Clear by simp
  then have "rw_inv g (l\<lparr>rw_state := rw_state l AND NOT WRITER_BIT\<rparr>) (add_mset (Wr W_Notify) R)" using W_Clear by (intro held_step [OF inv]) (simp_all add: rw_points)
  then show ?thesis using W_Clear by (simp add: write_guard_clear_def)
next
  case W_Notify
  then show ?thesis using reader_notify [OF inv, of "\<lambda>_. Inr (Rw_Release False Hold)" "Rw_Release False Hold"] by (simp add: same_for_writers_def rw_points)
next
  case W_Downgrade
  then show ?thesis using reader_notify [OF inv, of "\<lambda>_. Inr (Rw_Release True Hold)" "Rw_Release True Hold"] by (simp add: same_for_writers_def rw_points)
qed

lemma rw_start_ok:
  assumes inv: "rw_inv g l (add_mset Rw_Idle R)"
  shows "rw_inv g l (add_mset (rw_start ch) R)"
proof -
  have "mutex_inv (rw_mutex l) (add_mset q (image_mset rw_mutex_pc R))" if "q = Fast \<or> q = Try" for q
    using that rw_invD(1) [OF inv] by (auto intro!: mutex_same_step [of "rw_mutex l" Idle] simp: mutex_idle_def)
  then have "rw_inv g (l\<lparr>rw_mutex := rw_mutex l\<rparr>) (add_mset (Rw_Acquire k q) R)" if "q = Fast \<or> q = Try" for k q
    using that by (intro rw_mutex_step [OF inv]) (auto simp: rw_points)
  moreover have "rw_inv g l (add_mset (Rd q) R)" if "q = R_Try_Load \<or> q = R_Load" for q
    using that by (intro unbound_step [OF inv unbound_Rd(2,1)]) (auto simp: rw_points)
  ultimately show ?thesis using inv by (cases ch rule: rw_start.cases) simp_all
qed

lemma rw_step_ok:
  assumes inv: "rw_inv g l (add_mset p R)" and ch: "g \<longrightarrow> ch \<noteq> Rw_Call Call_Downgrade_To_Upgradable"
  shows "rw_ok g R (rw_value l) (rw_step ww ch l p)"
proof (cases p)
  case Rd_Hold
  show ?thesis
  proof (cases "ch = Rw_Call Call_Drop")
    case True
    show ?thesis
      using True Rd_Hold read_guard_drop_ok [OF inv, of Rd_Notify] read_guard_drop_ok [OF inv, of Rw_Idle] by (simp add: read_guard_drop_def rw_points)
  qed (use Rd_Hold inv in simp)
next
  case Rd_Notify
  then show ?thesis using writer_notify [OF inv, of "\<lambda>_. Rw_Idle" Rw_Idle] by (simp add: same_for_readers_def rw_points)
next
  case (Wr q)
  then show ?thesis using write_step_ok [OF _ ch] inv by simp
qed (use inv rw_start_ok read_step_ok acquire_step_ok release_step_ok upgradable_step_ok in auto)

definition rw_inv_with :: "bool \<Rightarrow> 'a \<Rightarrow> 'a rwlock \<Rightarrow> rw_pc multiset \<Rightarrow> bool" where
  "rw_inv_with g v l T \<longleftrightarrow> rw_inv g l T \<and> rw_value l = v"

interpretation rw_system: thread_system "rw_step ww" "rw_inv_with g v" "\<lambda>ch. g \<longrightarrow> ch \<noteq> Rw_Call Call_Downgrade_To_Upgradable" for ww g v
proof
  fix l :: "'a rwlock" and p R ch
  assume "rw_inv_with g v l (add_mset p R)" "g \<longrightarrow> ch \<noteq> Rw_Call Call_Downgrade_To_Upgradable"
  then show "\<exists>l' p'. rw_step ww ch l p = Inr (l', p') \<and> rw_inv_with g v l' (add_mset p' R)"
    using rw_step_ok [of g l p R ch ww] by (auto simp: rw_ok_def rw_inv_with_def)
qed

lemma rwlock_new_inv: "n \<le> max_tasks \<Longrightarrow> rw_inv_with g v (rwlock_new v) (mset (replicate n Rw_Idle))"
proof -
  assume n: "n \<le> max_tasks"
  have t: "tokens f (replicate_mset n Rw_Idle) = 0" if "f Rw_Idle = 0" for f using that by (induction n) simp_all
  have "waits read_entry read_asleep event_new Q (replicate_mset n Rw_Idle)" "waits write_entry write_asleep event_new Q' (replicate_mset n Rw_Idle)" for Q Q'
    by (rule reading.waits_new writing.waits_new; simp split: if_splits)+
  moreover have "mutex_inv (mutex_new ()) (replicate_mset n Idle)" using mutex_new_inv [OF n, of "()"] by (simp add: mutex_inv_with_def)
  ultimately show ?thesis by (simp add: rw_inv_with_def rw_inv_def rwlock_new_def rw_word_def t)
qed

section \<open>Properties\<close>

definition rw_guard :: "rw_pc \<Rightarrow> bool" where
  "rw_guard p \<longleftrightarrow> p = Rd_Hold \<or> p = Up U_Hold \<or> p = Wr W_Hold"

definition rw_asleep :: "rw_pc \<Rightarrow> nat" where
  "rw_asleep p = read_asleep p + write_asleep p + asleep (rw_mutex_pc p)"

text \<open>Between two polls a task is outside the lock, has a guard, or awaits a listener.\<close>

definition rw_resting :: "rw_pc \<Rightarrow> bool" where
  "rw_resting p \<longleftrightarrow> p = Rw_Idle \<or> rw_guard p \<or> rw_asleep p = 1"

lemma rw_resting_cases:
  assumes "rw_resting p" "rw_pc_ok p"
  obtains "p = Rw_Idle" | "rw_guard p" | a where "p = Rd (R_Await a)" | a where "p = Wr (W_Await a)" | k q where "p = Rw_Acquire k q" "asleep q = 1"
proof (cases p)
  case (Rd q)
  then show thesis using assms that by (cases q) (auto simp: rw_resting_def rw_asleep_def rw_guard_def)
next
  case (Wr q)
  then show thesis using assms that by (cases q) (auto simp: rw_resting_def rw_asleep_def rw_guard_def)
next
  case (Rw_Release b q)
  then show thesis using assms by (auto simp: rw_resting_def rw_asleep_def rw_guard_def)
qed (use assms that in \<open>auto simp: rw_resting_def rw_asleep_def rw_guard_def\<close>)

lemma rw_resting_facts:
  assumes "rw_resting p" "rw_pc_ok p" "\<not> rw_guard p"
  shows "readers p = 0" "wakes_writer p = 0" "wakes_reader p = 0" "writer p = write_asleep p" "rw_holding p = write_asleep p" "write_asleep p = 0 \<Longrightarrow> resting (rw_mutex_pc p)"
    "read_entry p = {#a#} \<Longrightarrow> p = Rd (R_Await a)" "write_entry p = {#a#} \<Longrightarrow> p = Wr (W_Await a)"
proof -
  have z: "holding q = 0" if "asleep q = 1" for q using that by (induction q rule: asleep.induct) simp_all
  show "readers p = 0" "wakes_writer p = 0" "wakes_reader p = 0" "writer p = write_asleep p" "rw_holding p = write_asleep p" "write_asleep p = 0 \<Longrightarrow> resting (rw_mutex_pc p)"
    "read_entry p = {#a#} \<Longrightarrow> p = Rd (R_Await a)" "write_entry p = {#a#} \<Longrightarrow> p = Wr (W_Await a)"
    by (rule rw_resting_cases [OF assms(1,2)]; use assms(3) z in \<open>auto simp: rw_points resting_def\<close>)+
qed

lemma responsible_awake: "responsible q = 1 \<Longrightarrow> asleep q = 0 \<and> q \<noteq> Hold \<and> q \<noteq> Idle"
  by (induction q rule: responsible.induct) simp_all

lemma tokens_all_0: "(\<And>p. p \<in># T \<Longrightarrow> f p = 0) \<Longrightarrow> tokens f T = 0"
  by (induction T) simp_all

lemma tokens_all_eq: "(\<And>p. p \<in># T \<Longrightarrow> f p = h p) \<Longrightarrow> tokens f T = tokens h T"
  by (induction T) simp_all

lemma rw_wakes:
  assumes inv: "rw_inv True l (mset ths)" and rest: "\<forall>p\<in>set ths. rw_resting p \<and> \<not> rw_guard p" and asleep: "0 < tokens rw_asleep (mset ths)"
  shows "\<exists>i<length ths. \<forall>cx. \<exists>l' p'. rw_step ww (Rw_Poll cx) l (ths ! i) = Inr (l', p') \<and> rw_asleep p' = 0"
proof -
  have ok: "\<forall>p\<in>#mset ths. rw_pc_ok p" using inv by (simp add: rw_inv_def rw_word_def)
  have f: "rw_resting p \<and> rw_pc_ok p \<and> \<not> rw_guard p" if "p \<in># mset ths" for p using that rest ok by simp
  have zero: "tokens readers (mset ths) = 0" "tokens wakes_writer (mset ths) = 0" "tokens wakes_reader (mset ths) = 0"
    by (rule tokens_all_0; use f rw_resting_facts in blast)+
  have same: "tokens writer (mset ths) = tokens write_asleep (mset ths)" "tokens rw_holding (mset ths) = tokens write_asleep (mset ths)"
    by (rule tokens_all_eq; use f rw_resting_facts in blast)+
  have nth: "\<exists>i<length ths. ths ! i = p" if "p \<in># mset ths" for p using that by (auto simp: in_set_conv_nth)
  consider (writer) "0 < tokens write_asleep (mset ths)" | (mutex) "tokens write_asleep (mset ths) = 0" "0 < tokens (\<lambda>p. asleep (rw_mutex_pc p)) (mset ths)"
    | (reader) "tokens write_asleep (mset ths) = 0" "0 < tokens read_asleep (mset ths)"
    using asleep by (auto simp: rw_asleep_def [abs_def] tokens_plus)
  then show ?thesis
  proof cases
    case writer
    have "waits write_entry write_asleep (rw_no_readers l) True (mset ths)" using inv zero by (simp add: rw_inv_def writer_quiet_def)
    then obtain p a where p: "p \<in># mset ths" "write_entry p = {#a#}"
      and w: "\<And>cx. \<exists>ev'. event_call ww (rw_no_readers l) (OpPoll a cx) = Inr (ev', ResPolled True)"
      using writing.waits_asleep [OF _ writer, of "rw_no_readers l" ww] by blast
    then have "p = Wr (W_Await a)" using f rw_resting_facts(8) by blast
    then have "\<exists>l' p'. rw_step ww (Rw_Poll cx) l p = Inr (l', p') \<and> rw_asleep p' = 0" for cx
      using w [of cx] by (auto simp: on_no_readers_def rw_asleep_def)
    then show ?thesis using nth [OF p(1)] by blast
  next
    case mutex
    have "resting q" if "q \<in> set (map rw_mutex_pc ths)" for q
      using that f rw_resting_facts(6) tokens_0 [OF mutex(1)] by fastforce
    moreover have "tokens holding (mset (map rw_mutex_pc ths)) = 0" using same(2) mutex(1) by (simp add: tokens_image)
    moreover have "0 < tokens asleep (mset (map rw_mutex_pc ths))" using mutex(2) by (simp add: tokens_image)
    moreover have "mutex_inv (rw_mutex l) (mset (map rw_mutex_pc ths))" using inv by (simp add: rw_inv_def)
    ultimately obtain i where i: "i < length ths"
      and w: "\<And>cx. \<exists>m' q'. mutex_step ww (Poll_Cx cx) (rw_mutex l) (rw_mutex_pc (ths ! i)) = Inr (m', q') \<and> responsible q' = 1"
      using mutex_wakes [of "rw_mutex l" "map rw_mutex_pc ths" ww] by auto
    have p: "ths ! i \<in># mset ths" using i by simp
    have "rw_mutex_pc (ths ! i) \<noteq> Idle" using w [of 0] by auto
    then obtain k q where "ths ! i = Rw_Acquire k q"
      using f [OF p] tokens_0 [OF mutex(1) p] by (auto elim!: rw_resting_cases [of "ths ! i"])
    then have "\<exists>l' p'. rw_step ww (Rw_Poll cx) l (ths ! i) = Inr (l', p') \<and> rw_asleep p' = 0" for cx
    proof -
      obtain m' q' where q': "mutex_step ww (Poll_Cx cx) (rw_mutex l) q = Inr (m', q')" "responsible q' = 1"
        using w [of cx] \<open>ths ! i = Rw_Acquire k q\<close> by auto
      then show ?thesis using \<open>ths ! i = Rw_Acquire k q\<close> responsible_awake [OF q'(2)]
        by (intro exI [of _ "l\<lparr>rw_mutex := m'\<rparr>"] exI [of _ "Rw_Acquire k q'"]) (simp add: on_mutex_def acquire_next_def rw_asleep_def)
    qed
    then show ?thesis using i by blast
  next
    case reader
    have "waits read_entry read_asleep (rw_no_writer l) True (mset ths)" using inv zero same reader by (simp add: rw_inv_def readers_quiet_def)
    then obtain p a where p: "p \<in># mset ths" "read_entry p = {#a#}"
      and w: "\<And>cx. \<exists>ev'. event_call ww (rw_no_writer l) (OpPoll a cx) = Inr (ev', ResPolled True)"
      using reading.waits_asleep [OF _ reader(2), of "rw_no_writer l" ww] by blast
    then have "p = Rd (R_Await a)" using f rw_resting_facts(7) by blast
    then have "\<exists>l' p'. rw_step ww (Rw_Poll cx) l p = Inr (l', p') \<and> rw_asleep p' = 0" for cx
      using w [of cx] by (auto simp: on_no_writer_def rw_asleep_def)
    then show ?thesis using nth [OF p(1)] by blast
  qed
qed

text \<open>
  The reader-writer lock is correct (C8). Any number of tasks below the bound read, write,
  take upgradable guards, upgrade, downgrade and release, in any interleaving and with
  cancellation wherever they wait. No step fails: the process is not aborted, the
  word does not overflow and no listener is used after it was removed. The word counts the
  readers and the writer exactly, at most one task is a writer, and while a task has a write
  guard there is no reader. The value is not touched. In runs that do not use
  \<open>downgrade_to_upgradable\<close> no wake-up is lost: when every task rests, nobody has a guard and
  some task waits, for the mutex, for the readers or for the writer, then there is a task that
  comes out of its await at the next poll.
\<close>

theorem rwlock_correct:
  assumes "n \<le> max_tasks"
  shows "\<exists>l ths. rw_run ww (rwlock_new v, replicate n Rw_Idle) chs = Inr (l, ths) \<and> length ths = n \<and> rw_value l = v \<and>
    unat (rw_state l) = 2 * tokens readers (mset ths) + tokens writer (mset ths) \<and>
    tokens writer (mset ths) \<le> 1 \<and> (0 < tokens writing (mset ths) \<longrightarrow> tokens writing (mset ths) = 1 \<and> tokens readers (mset ths) = 0) \<and>
    ((\<forall>ch\<in>set chs. snd ch \<noteq> Rw_Call Call_Downgrade_To_Upgradable) \<and> (\<forall>p\<in>set ths. rw_resting p \<and> \<not> rw_guard p) \<and> 0 < tokens rw_asleep (mset ths) \<longrightarrow>
     (\<exists>i<length ths. \<forall>cx. \<exists>l' p'. rw_step ww (Rw_Poll cx) l (ths ! i) = Inr (l', p') \<and> rw_asleep p' = 0))"
proof -
  define g where "g \<longleftrightarrow> (\<forall>ch\<in>set chs. snd ch \<noteq> Rw_Call Call_Downgrade_To_Upgradable)"
  obtain l ths where r: "threads_run (rw_step ww) (rwlock_new v, replicate n Rw_Idle) chs = Inr (l, ths)"
    "rw_inv_with g v l (mset ths)" "length ths = n"
    using rw_system.run_keeps [OF rwlock_new_inv [OF assms], of chs g ww v] by (auto simp: g_def)
  then have inv: "rw_inv g l (mset ths)" "rw_value l = v" by (simp_all add: rw_inv_with_def)
  have c: "unat (rw_state l) = 2 * tokens readers (mset ths) + tokens writer (mset ths)"
    "0 < tokens writing (mset ths) \<longrightarrow> tokens readers (mset ths) = 0" "tokens rw_holding (mset ths) \<le> 1"
    using inv(1) by (auto simp: rw_inv_def rw_word_def mutex_inv_def word_inv_def tokens_image)
  have "tokens writer (mset ths) \<le> tokens rw_holding (mset ths)" "tokens writing (mset ths) \<le> tokens writer (mset ths)"
    by (intro tokens_mono rw_pointwise)+
  with c have w: "tokens writer (mset ths) \<le> 1" "0 < tokens writing (mset ths) \<longrightarrow> tokens writing (mset ths) = 1" by linarith+
  have "\<exists>i<length ths. \<forall>cx. \<exists>l' p'. rw_step ww (Rw_Poll cx) l (ths ! i) = Inr (l', p') \<and> rw_asleep p' = 0"
    if "g" "\<forall>p\<in>set ths. rw_resting p \<and> \<not> rw_guard p" "0 < tokens rw_asleep (mset ths)"
    using rw_wakes [of l ths ww] that inv(1) by simp
  then show ?thesis using r inv c w by (auto simp: rw_run_def g_def)
qed

abbreviation rw_next :: "nat \<Rightarrow> nat \<times> rw_choice" where
  "rw_next i \<equiv> (i, Rw_Elapsed False)"

text \<open>A task writes, another waits for it to read; then the first one drops its guard.\<close>

definition rw_write_run :: "(nat \<times> rw_choice) list" where
  "rw_write_run = [(0, Rw_Call Call_Write), rw_next 0, rw_next 0, rw_next 0,
     (1, Rw_Call Call_Read), rw_next 1, rw_next 1, rw_next 1, (1, Rw_Poll 7)]"

definition rw_schedule :: "(nat \<times> rw_choice) list" where
  "rw_schedule = rw_write_run @ [(0, Rw_Call Call_Drop), rw_next 0, rw_next 0, rw_next 0, rw_next 0]"

lemmas rw_exec = rw_run_def rw_schedule_def rw_write_run_def threads_step_def rwlock_new_def mutex_new_def on_mutex_def on_no_writer_def
  on_no_readers_def go_on_def read_loop_def try_lock_def guard_unlock_def mutex_cas_def on_ops_def acquire_next_def release_next_def
  write_guard_call_def upgradable_guard_call_def write_guard_clear_def write_to_read_def read_guard_drop_def WRITER_BIT_def ONE_READER_def event_exec

theorem rwlock_correct_witness:
  "\<exists>l. rw_run (=) (rwlock_new (), replicate 2 Rw_Idle) rw_schedule = Inr (l, [Rw_Idle, Rd (R_Await 0)]) \<and>
     (\<exists>i<length [Rw_Idle, Rd (R_Await 0)]. \<forall>cx. \<exists>l' p'. rw_step (=) (Rw_Poll cx) l ([Rw_Idle, Rd (R_Await 0)] ! i) = Inr (l', p') \<and> rw_asleep p' = 0)"
proof -
  have two: "replicate 2 Rw_Idle = [Rw_Idle, Rw_Idle]" by (simp add: numeral_2_eq_2)
  have "case rw_run (=) (rwlock_new (), replicate 2 Rw_Idle) rw_schedule of Inl _ \<Rightarrow> False | Inr g \<Rightarrow> snd g = [Rw_Idle, Rd (R_Await 0)]"
    by (simp add: rw_exec two)
  then obtain l where l: "rw_run (=) (rwlock_new (), replicate 2 Rw_Idle) rw_schedule = Inr (l, [Rw_Idle, Rd (R_Await 0)])"
    by (auto split: sum.splits)
  moreover have "2 \<le> max_tasks" by (simp add: max_tasks_def)
  from rwlock_correct [OF this, of "(=)" "()" rw_schedule]
  have "\<exists>i<length [Rw_Idle, Rd (R_Await 0)]. \<forall>cx. \<exists>l' p'. rw_step (=) (Rw_Poll cx) l ([Rw_Idle, Rd (R_Await 0)] ! i) = Inr (l', p') \<and> rw_asleep p' = 0"
    unfolding l by (simp add: rw_resting_def rw_guard_def rw_asleep_def rw_schedule_def rw_write_run_def)
  ultimately show ?thesis by blast
qed

text \<open>
  \<open>downgrade_to_upgradable\<close> does not notify \<open>no_writer\<close>. A reader that waits for the writer sleeps
  on when the write guard becomes an upgradable one, and also after that guard is dropped:
  the lock is then free, nobody has a guard, and the reader's poll answers \<open>Pending\<close>.
\<close>

lemma rwlock_downgrade_lost_wakeup:
  "case rw_run (=) (rwlock_new (), [Rw_Idle, Rw_Idle])
      (rw_write_run @ [(0, Rw_Call Call_Downgrade_To_Upgradable), (0, Rw_Call Call_Drop), rw_next 0, rw_next 0, rw_next 0]) of
     Inl _ \<Rightarrow> False
   | Inr (l, ths) \<Rightarrow> ths = [Rw_Idle, Rd (R_Await 0)] \<and> rw_state l = 0 \<and>
       (case rw_step (=) (Rw_Poll 8) l (Rd (R_Await 0)) of Inl _ \<Rightarrow> False | Inr (l', p') \<Rightarrow> p' = Rd (R_Await 0))"
  by (simp add: rw_exec)

end
