(* ===== verification/Lock_Semaphore.thy ===== *)
theory Lock_Semaphore
  imports Lock_Base
begin

text \<open>
  The semaphore (src/cynthia/src/platform/lock/semaphore.rs), one access at a time like the
  mutex. \<open>try_acquire\<close> is called by itself or from the loop of \<open>acquire\<close>, which keeps an
  optional listener. \<open>Chance True\<close> makes the weak exchange fail spuriously. \<open>acquire_arc\<close>,
  \<open>try_acquire_arc\<close> and \<open>SemaphoreGuardArc\<close> make the same accesses.
\<close>

section \<open>The semaphore\<close>

record semaphore =
  sem_count :: usize
  sem_event :: event

definition semaphore_new :: "usize \<Rightarrow> semaphore" where
  "semaphore_new n = \<lparr>sem_count = n, sem_event = event_new\<rparr>"

text \<open>Who called \<open>try_acquire\<close>; the loop of \<open>acquire\<close> with the entry of its listener.\<close>

datatype sem_caller = Try_Only | Acquire "nat option"

datatype sem_pc =
    Sem_Idle
  | Sem_Load sem_caller
  | Sem_Cas sem_caller usize
  | Sem_Listen
  | Sem_Await nat
  | Sem_Drop nat
  | Sem_Hold
  | Sem_Notify

text \<open>\<open>acquire\<close> goes on when \<open>try_acquire\<close> returns \<open>None\<close>, and when it returns a guard.\<close>

fun acquire_failed :: "sem_caller \<Rightarrow> sem_pc" where
  "acquire_failed Try_Only = Sem_Idle"
| "acquire_failed (Acquire None) = Sem_Listen"
| "acquire_failed (Acquire (Some a)) = Sem_Await a"

fun acquire_done :: "sem_caller \<Rightarrow> sem_pc" where
  "acquire_done (Acquire (Some a)) = Sem_Drop a"
| "acquire_done _ = Sem_Hold"

definition try_acquire_loop :: "sem_caller \<Rightarrow> usize \<Rightarrow> sem_pc" where
  "try_acquire_loop c m = (if m = 0 then acquire_failed c else Sem_Cas c m)"

definition try_acquire_cas :: "bool \<Rightarrow> sem_caller \<Rightarrow> usize \<Rightarrow> semaphore \<Rightarrow> semaphore \<times> sem_pc" where
  "try_acquire_cas spurious c m s =
     (if sem_count s = m \<and> \<not> spurious then (s\<lparr>sem_count := m - 1\<rparr>, acquire_done c) else (s, try_acquire_loop c (sem_count s)))"

definition sem_guard_drop :: "semaphore \<Rightarrow> semaphore" where
  "sem_guard_drop s = s\<lparr>sem_count := sem_count s + 1\<rparr>"

definition on_event :: "(waker \<Rightarrow> waker \<Rightarrow> bool) \<Rightarrow> semaphore \<Rightarrow> event_op \<Rightarrow> (event_res \<Rightarrow> sem_pc) \<Rightarrow> (semaphore \<times> sem_pc) fallible" where
  "on_event ww s p k = bind_fallible (event_call ww (sem_event s) p) (\<lambda>(ev, r). Inr (s\<lparr>sem_event := ev\<rparr>, k r))"

fun sem_step :: "(waker \<Rightarrow> waker \<Rightarrow> bool) \<Rightarrow> lock_choice \<Rightarrow> semaphore \<Rightarrow> sem_pc \<Rightarrow> (semaphore \<times> sem_pc) fallible" where
  "sem_step ww ch s Sem_Idle =
     Inr (s, case ch of Call_Lock \<Rightarrow> Sem_Load (Acquire None) | Call_Try_Lock \<Rightarrow> Sem_Load Try_Only | _ \<Rightarrow> Sem_Idle)"
| "sem_step ww ch s (Sem_Load c) = Inr (s, try_acquire_loop c (sem_count s))"
| "sem_step ww ch s (Sem_Cas c m) = Inr (try_acquire_cas (ch = Chance True) c m s)"
| "sem_step ww ch s Sem_Listen = on_event ww s OpListen (\<lambda>r. Sem_Load (Acquire (Some (new_entry r))))"
| "sem_step ww ch s (Sem_Await a) =
     (case ch of
        Poll_Cx cx \<Rightarrow> on_event ww s (OpPoll a cx) (\<lambda>r. if r = ResPolled True then Sem_Load (Acquire None) else Sem_Await a)
      | Drop_Future \<Rightarrow> on_event ww s (OpDropListener a) (\<lambda>_. Sem_Idle)
      | _ \<Rightarrow> Inr (s, Sem_Await a))"
| "sem_step ww ch s (Sem_Drop a) = on_event ww s (OpDropListener a) (\<lambda>_. Sem_Hold)"
| "sem_step ww ch s Sem_Hold =
     (if ch = Drop_Guard then Inr (sem_guard_drop s, Sem_Notify) else Inr (s, Sem_Hold))"
| "sem_step ww ch s Sem_Notify = on_event ww s (OpNotify 1) (\<lambda>_. Sem_Idle)"

definition sem_run :: "(waker \<Rightarrow> waker \<Rightarrow> bool) \<Rightarrow> semaphore \<times> sem_pc list \<Rightarrow> (nat \<times> lock_choice) list \<Rightarrow> (semaphore \<times> sem_pc list) fallible" where
  "sem_run ww = threads_run (sem_step ww)"

section \<open>The invariant\<close>

fun sem_entry :: "sem_pc \<Rightarrow> nat multiset" where
  "sem_entry (Sem_Load (Acquire (Some a))) = {#a#}"
| "sem_entry (Sem_Cas (Acquire (Some a)) n) = {#a#}"
| "sem_entry (Sem_Await a) = {#a#}"
| "sem_entry (Sem_Drop a) = {#a#}"
| "sem_entry _ = {#}"

fun permits :: "sem_pc \<Rightarrow> nat" where
  "permits Sem_Hold = 1"
| "permits (Sem_Drop a) = 1"
| "permits _ = 0"

fun sem_asleep :: "sem_pc \<Rightarrow> nat" where
  "sem_asleep (Sem_Await a) = 1"
| "sem_asleep _ = 0"

text \<open>A task that has used up a notification, or is about to send one.\<close>

fun sem_responsible :: "sem_pc \<Rightarrow> nat" where
  "sem_responsible (Sem_Load (Acquire None)) = 1"
| "sem_responsible (Sem_Cas (Acquire None) n) = 1"
| "sem_responsible Sem_Notify = 1"
| "sem_responsible _ = 0"

definition sem_quiet :: "nat \<Rightarrow> sem_pc multiset \<Rightarrow> bool" where
  "sem_quiet n T \<longleftrightarrow> 0 < n \<and> tokens permits T = 0 \<and> tokens sem_responsible T = 0"

fun sem_pc_ok :: "sem_pc \<Rightarrow> bool" where
  "sem_pc_ok (Sem_Cas c n) = (n \<noteq> 0)"
| "sem_pc_ok _ = True"

definition sem_inv :: "nat \<Rightarrow> semaphore \<Rightarrow> sem_pc multiset \<Rightarrow> bool" where
  "sem_inv n s T \<longleftrightarrow> size T < usize_max \<and> n < 2 ^ 64 \<and> unat (sem_count s) + tokens permits T = n \<and> (\<forall>p\<in>#T. sem_pc_ok p) \<and>
     waits sem_entry sem_asleep (sem_event s) (sem_quiet n T) T"

interpretation sem_waiters: waiters sem_entry sem_asleep
proof
  show "size (sem_entry p) \<le> 1" for p by (induction p rule: sem_entry.induct) simp_all
  show "0 < sem_asleep p \<Longrightarrow> sem_entry p \<noteq> {#}" for p by (cases p) simp_all
qed

section \<open>Every step keeps the invariant\<close>

definition sem_ok :: "nat \<Rightarrow> sem_pc multiset \<Rightarrow> (semaphore \<times> sem_pc) fallible \<Rightarrow> bool" where
  "sem_ok n R x \<longleftrightarrow> (\<exists>s' p'. x = Inr (s', p') \<and> sem_inv n s' (add_mset p' R))"

lemma sem_ok_simps [simp]: "sem_ok n R (Inr (s', p')) \<longleftrightarrow> sem_inv n s' (add_mset p' R)"
  by (simp add: sem_ok_def)

lemma sem_word_step:
  assumes inv: "sem_inv n s (add_mset p R)" and e: "sem_entry p' = sem_entry p" and c: "unat w + permits p' = unat (sem_count s) + permits p"
    and k: "sem_pc_ok p'" and q: "sem_quiet n (add_mset p' R) \<Longrightarrow> sem_quiet n (add_mset p R) \<and> sem_asleep p' \<le> sem_asleep p"
  shows "sem_inv n (s\<lparr>sem_count := w\<rparr>) (add_mset p' R)"
  unfolding sem_inv_def
proof (intro conjI)
  show "size (add_mset p' R) < usize_max" "n < 2 ^ 64" "\<forall>p\<in>#add_mset p' R. sem_pc_ok p"
    using inv k by (simp_all add: sem_inv_def)
  have "unat (sem_count s) + (permits p + tokens permits R) = n" using inv by (simp add: sem_inv_def)
  then show "unat (sem_count (s\<lparr>sem_count := w\<rparr>)) + tokens permits (add_mset p' R) = n" using c by simp
  have "waits sem_entry sem_asleep (sem_event s) (sem_quiet n (add_mset p R)) (add_mset p R)" using inv by (simp add: sem_inv_def)
  from sem_waiters.waits_same [OF this e q]
  show "waits sem_entry sem_asleep (sem_event (s\<lparr>sem_count := w\<rparr>)) (sem_quiet n (add_mset p' R)) (add_mset p' R)" by simp
qed

lemma sem_same_step:
  assumes "sem_inv n s (add_mset p R)" "sem_entry p' = sem_entry p" "permits p' = permits p"
    "sem_pc_ok p'" "sem_quiet n (add_mset p' R) \<Longrightarrow> sem_quiet n (add_mset p R) \<and> sem_asleep p' \<le> sem_asleep p"
  shows "sem_inv n s (add_mset p' R)"
  using sem_word_step [OF assms(1,2) _ assms(4,5), of "sem_count s"] assms(3) by simp

lemma sem_invD:
  assumes "sem_inv n s (add_mset p R)"
  shows "waits sem_entry sem_asleep (sem_event s) (sem_quiet n (add_mset p R)) (add_mset p R)" "size R < usize_max"
  using assms by (simp_all add: sem_inv_def)

lemma sem_event_step:
  assumes "sem_inv n s (add_mset p R)" "permits p' = permits p" "sem_pc_ok p'" "waits sem_entry sem_asleep ev' (sem_quiet n (add_mset p' R)) (add_mset p' R)"
  shows "sem_inv n (s\<lparr>sem_event := ev'\<rparr>) (add_mset p' R)"
  using assms by (simp add: sem_inv_def)

lemma sem_drop_step:
  assumes inv: "sem_inv n s (add_mset p R)" and e: "sem_entry p = {#a#}" "sem_responsible p = 0"
    and p': "sem_entry p' = {#}" "permits p' = permits p" "sem_asleep p' = 0" "sem_pc_ok p'"
  shows "sem_ok n R (on_event ww s (OpDropListener a) (\<lambda>_. p'))"
proof -
  obtain ev' ws where l: "event_call ww (sem_event s) (OpDropListener a) = Inr (ev', ResWoken ws)"
    "\<forall>p' Q'. sem_entry p' = {#} \<and> (Q' \<longrightarrow> sem_quiet n (add_mset p R) \<and> sem_asleep p' \<le> sem_asleep p) \<longrightarrow> waits sem_entry sem_asleep ev' Q' (add_mset p' R)"
    using sem_waiters.waits_drop [OF sem_invD(1) [OF inv] e(1)] by blast
  then have "waits sem_entry sem_asleep ev' (sem_quiet n (add_mset p' R)) (add_mset p' R)" using p' e by (simp add: sem_quiet_def)
  then show ?thesis using l p' inv by (simp add: on_event_def sem_event_step)
qed

text \<open>A task gives up only when it has seen that the count is 0; then somebody holds a permit.\<close>

lemma sem_loop_step:
  assumes inv: "sem_inv n s (add_mset p R)" and p: "p = Sem_Load c \<or> p = Sem_Cas c m"
  shows "sem_inv n s (add_mset (try_acquire_loop c (sem_count s)) R)"
proof -
  have e: "sem_entry p = sem_entry (Sem_Load c)" "permits p = 0" "sem_asleep p = 0" "sem_responsible p = sem_responsible (Sem_Load c)"
    using p by (cases c; cases "case c of Acquire x \<Rightarrow> x | _ \<Rightarrow> None"; auto)+
  show ?thesis
  proof (cases "sem_count s = 0")
    case True
    then have "0 < n \<longrightarrow> 0 < tokens permits R" using inv e by (simp add: sem_inv_def)
    moreover have "sem_entry (acquire_failed c) = sem_entry p \<and> permits (acquire_failed c) = 0 \<and> sem_pc_ok (acquire_failed c)"
      unfolding e by (cases c rule: acquire_failed.cases) simp_all
    ultimately show ?thesis using True e inv by (intro sem_same_step [OF inv]) (simp_all add: try_acquire_loop_def sem_quiet_def)
  next
    case False
    have "sem_entry (Sem_Cas c (sem_count s)) = sem_entry p \<and> sem_responsible (Sem_Cas c (sem_count s)) = sem_responsible p"
      unfolding e by (cases c rule: acquire_failed.cases) simp_all
    then show ?thesis using False e by (intro sem_same_step [OF inv]) (simp_all add: try_acquire_loop_def sem_quiet_def)
  qed
qed

lemma sem_cas_step:
  assumes inv: "sem_inv n s (add_mset (Sem_Cas c m) R)" and eq: "sem_count s = m"
  shows "sem_inv n (s\<lparr>sem_count := m - 1\<rparr>) (add_mset (acquire_done c) R)"
proof -
  have "m \<noteq> 0" using inv by (simp add: sem_inv_def)
  then have "unat (m - 1) + 1 = unat m" by (simp add: unat_sub word_le_nat_alt unat_gt_0 Suc_le_eq)
  moreover have "sem_entry (acquire_done c) = sem_entry (Sem_Cas c m)" "permits (acquire_done c) = 1" "sem_pc_ok (acquire_done c)"
    by (cases c rule: acquire_failed.cases; simp)+
  ultimately show ?thesis using eq by (intro sem_word_step [OF inv]) (simp_all add: sem_quiet_def)
qed

lemma sem_listen_step:
  assumes inv: "sem_inv n s (add_mset Sem_Listen R)"
  shows "sem_ok n R (on_event ww s OpListen (\<lambda>r. Sem_Load (Acquire (Some (new_entry r)))))"
proof -
  obtain ev' a where l: "event_call ww (sem_event s) OpListen = Inr (ev', ResListener a)"
    "\<forall>p' Q'. sem_entry p' = {#a#} \<and> (Q' \<longrightarrow> sem_quiet n (add_mset Sem_Listen R) \<and> sem_asleep p' \<le> sem_asleep Sem_Listen) \<longrightarrow>
       waits sem_entry sem_asleep ev' Q' (add_mset p' R)"
    using sem_waiters.waits_listen [OF sem_invD(1) [OF inv] _ sem_invD(2) [OF inv], of ww] by auto
  then show ?thesis using sem_event_step [OF inv, of "Sem_Load (Acquire (Some a))" ev'] by (simp add: on_event_def sem_quiet_def)
qed

lemma sem_notify_step:
  assumes inv: "sem_inv n s (add_mset Sem_Notify R)"
  shows "sem_ok n R (on_event ww s (OpNotify 1) (\<lambda>_. Sem_Idle))"
proof -
  obtain ev' ws where l: "event_call ww (sem_event s) (OpNotify 1) = Inr (ev', ResWoken ws)"
    "\<forall>p' Q'. sem_entry p' = sem_entry Sem_Notify \<longrightarrow> waits sem_entry sem_asleep ev' Q' (add_mset p' R)"
    using sem_waiters.waits_notify [OF sem_invD(1) [OF inv]] by blast
  then show ?thesis using sem_event_step [OF inv, of Sem_Idle ev'] by (simp add: on_event_def)
qed

lemma sem_poll_step:
  assumes inv: "sem_inv n s (add_mset (Sem_Await a) R)"
  shows "sem_ok n R (on_event ww s (OpPoll a cx) (\<lambda>r. if r = ResPolled True then Sem_Load (Acquire None) else Sem_Await a))"
proof -
  obtain ev' b where l: "event_call ww (sem_event s) (OpPoll a cx) = Inr (ev', ResPolled b)"
    "b \<longrightarrow> (\<forall>p'. sem_entry p' = {#} \<longrightarrow> waits sem_entry sem_asleep ev' False (add_mset p' R))"
    "\<not> b \<longrightarrow> waits sem_entry sem_asleep ev' (sem_quiet n (add_mset (Sem_Await a) R)) (add_mset (Sem_Await a) R)"
    using sem_waiters.waits_poll [OF sem_invD(1) [OF inv], of a ww cx] by auto
  then show ?thesis
    using sem_event_step [OF inv, of "Sem_Load (Acquire None)" ev'] sem_event_step [OF inv, of "Sem_Await a" ev']
    by (cases b) (simp_all add: on_event_def sem_quiet_def)
qed

lemma sem_step_ok:
  assumes inv: "sem_inv n s (add_mset p R)"
  shows "sem_ok n R (sem_step ww ch s p)"
proof (cases p)
  case Sem_Idle
  then have "sem_inv n s (add_mset q R)" if "q \<in> {Sem_Idle, Sem_Load (Acquire None), Sem_Load Try_Only}" for q
    using that by (intro sem_same_step [OF inv]) (auto simp: sem_quiet_def)
  then show ?thesis using Sem_Idle by (simp split: lock_choice.split)
next
  case (Sem_Load c)
  then show ?thesis using sem_loop_step [OF inv] by simp
next
  case (Sem_Cas c m)
  then show ?thesis using sem_loop_step [OF inv] sem_cas_step inv by (auto simp: try_acquire_cas_def)
next
  case Sem_Listen
  then show ?thesis using sem_listen_step inv by simp
next
  case (Sem_Await a)
  moreover have "sem_ok n R (on_event ww s (OpDropListener a) (\<lambda>_. Sem_Idle))" using inv Sem_Await by (intro sem_drop_step [of n s p]) simp_all
  ultimately show ?thesis using sem_poll_step inv by (simp split: lock_choice.split)
next
  case (Sem_Drop a)
  then show ?thesis using sem_drop_step [OF inv, of a Sem_Hold] by simp
next
  case Sem_Hold
  have "Suc (unat (sem_count s)) \<le> n" "n < 2 ^ 64" using inv Sem_Hold by (simp_all add: sem_inv_def)
  then have "unat (sem_count s + 1) = unat (sem_count s) + 1" by (simp add: unat_word_ariths)
  then have "sem_inv n (s\<lparr>sem_count := sem_count s + 1\<rparr>) (add_mset Sem_Notify R)"
    using Sem_Hold by (intro sem_word_step [OF inv]) (simp_all add: sem_quiet_def)
  then show ?thesis using Sem_Hold inv by (simp add: sem_guard_drop_def)
next
  case Sem_Notify
  then show ?thesis using sem_notify_step inv by simp
qed

interpretation sem_system: thread_system "sem_step ww" "sem_inv n" "\<lambda>_. True" for ww n
  using sem_step_ok by unfold_locales (fastforce simp: sem_ok_def)

lemma semaphore_new_inv:
  assumes "t < usize_max"
  shows "sem_inv (unat n) (semaphore_new n) (mset (replicate t Sem_Idle))"
proof -
  have "tokens f (replicate_mset t Sem_Idle) = 0" if "f Sem_Idle = 0" for f using that by (induction t) simp_all
  moreover have "waits sem_entry sem_asleep event_new Q (replicate_mset t Sem_Idle)" for Q
    by (rule sem_waiters.waits_new) (simp split: if_splits)
  moreover have "unat n < 2 ^ 64" using unsigned_less [of n] by simp
  ultimately show ?thesis using assms by (simp add: sem_inv_def semaphore_new_def)
qed

section \<open>Properties\<close>

definition sem_resting :: "sem_pc \<Rightarrow> bool" where
  "sem_resting p \<longleftrightarrow> p = Sem_Idle \<or> p = Sem_Hold \<or> sem_asleep p = 1"

lemma sem_resting_simps: "sem_resting p \<Longrightarrow> sem_responsible p = 0"
  "sem_resting p \<Longrightarrow> sem_entry p = {#a#} \<Longrightarrow> p = Sem_Await a"
  by (cases p; auto simp: sem_resting_def)+

lemma sem_wakes:
  assumes inv: "sem_inv n s (mset ths)" and rest: "\<forall>p\<in>set ths. sem_resting p" and n: "0 < n" and free: "tokens permits (mset ths) = 0"
    and asleep: "0 < tokens sem_asleep (mset ths)"
  shows "\<exists>i<length ths. \<forall>cx. \<exists>s'. sem_step ww (Poll_Cx cx) s (ths ! i) = Inr (s', Sem_Load (Acquire None))"
proof -
  have "tokens sem_responsible (mset ths) = 0" using rest sem_resting_simps(1) by (induction ths) simp_all
  then have "waits sem_entry sem_asleep (sem_event s) True (mset ths)" using inv free n by (simp add: sem_inv_def sem_quiet_def)
  then obtain p a where p: "p \<in># mset ths" "sem_entry p = {#a#}"
    and w: "\<And>cx. \<exists>ev'. event_call ww (sem_event s) (OpPoll a cx) = Inr (ev', ResPolled True)"
    using sem_waiters.waits_asleep [OF _ asleep, of "sem_event s" ww] by blast
  then obtain i where i: "i < length ths" "ths ! i = p" by (auto simp: in_set_conv_nth)
  have "p = Sem_Await a" using rest p sem_resting_simps(2) by simp
  then have "\<exists>s'. sem_step ww (Poll_Cx cx) s p = Inr (s', Sem_Load (Acquire None))" for cx
    using w [of cx] by (auto simp: on_event_def)
  with i show ?thesis by blast
qed

text \<open>
  The semaphore is correct (C9). Whatever calls any number of tasks make, with any
  interleaving, cancellation and spurious failure, no step fails and the permits
  available and those held are together the \<open>n\<close> permits of the semaphore, so at most \<open>n\<close> are
  held at a time. The semaphore does not get stuck: when every task rests, all the permits are back and a task
  waits for one, then there is a notified task that tries again at its next poll.
\<close>

theorem semaphore_correct:
  assumes "t < usize_max"
  shows "\<exists>s ths. sem_run ww (semaphore_new n, replicate t Sem_Idle) chs = Inr (s, ths) \<and> length ths = t \<and>
    unat (sem_count s) + tokens permits (mset ths) = unat n \<and>
    (0 < n \<and> (\<forall>p\<in>set ths. sem_resting p) \<and> tokens permits (mset ths) = 0 \<and> 0 < tokens sem_asleep (mset ths) \<longrightarrow>
     (\<exists>i<length ths. \<forall>cx. \<exists>s'. sem_step ww (Poll_Cx cx) s (ths ! i) = Inr (s', Sem_Load (Acquire None))))"
proof -
  obtain s ths where r: "threads_run (sem_step ww) (semaphore_new n, replicate t Sem_Idle) chs = Inr (s, ths)"
    "sem_inv (unat n) s (mset ths)" "length ths = t"
    using sem_system.run_keeps [OF semaphore_new_inv [OF assms], of chs ww n] by auto
  moreover have "unat (sem_count s) + tokens permits (mset ths) = unat n" using r(2) by (simp add: sem_inv_def)
  moreover have "0 < n \<longrightarrow> 0 < unat n" by (simp add: unat_gt_0 word_neq_0_conv)
  ultimately show ?thesis using sem_wakes [OF r(2)] by (simp add: sem_run_def)
qed

text \<open>Two tasks take the two permits, two others wait; then both permits come back and one waiter is polled.\<close>

definition sem_wait :: "nat \<Rightarrow> (nat \<times> lock_choice) list" where
  "sem_wait i = [(i, Call_Lock), (i, Chance False), (i, Chance False), (i, Chance False), (i, Poll_Cx i)]"

definition sem_take :: "nat \<Rightarrow> (nat \<times> lock_choice) list" where
  "sem_take i = [(i, Call_Lock), (i, Chance False), (i, Chance False)]"

definition sem_release :: "nat \<Rightarrow> (nat \<times> lock_choice) list" where
  "sem_release i = [(i, Drop_Guard), (i, Chance False)]"

definition sem_schedule :: "(nat \<times> lock_choice) list" where
  "sem_schedule = sem_take 0 @ sem_take 1 @ sem_wait 2 @ sem_wait 3 @ sem_release 0 @ sem_release 1"

lemmas sem_exec = sem_run_def sem_schedule_def sem_take_def sem_wait_def sem_release_def threads_step_def try_acquire_loop_def try_acquire_cas_def sem_guard_drop_def on_event_def
  semaphore_new_def event_exec

lemma sem_four: "replicate 4 Sem_Idle = [Sem_Idle, Sem_Idle, Sem_Idle, Sem_Idle]"
  by (simp add: numeral_eq_Suc)

theorem semaphore_correct_witness:
  "\<exists>s ths. sem_run (=) (semaphore_new 2, replicate 4 Sem_Idle) sem_schedule = Inr (s, ths) \<and>
     ths = [Sem_Idle, Sem_Idle, Sem_Await 0, Sem_Await 1] \<and>
     (\<exists>i<length ths. \<forall>cx. \<exists>s'. sem_step (=) (Poll_Cx cx) s (ths ! i) = Inr (s', Sem_Load (Acquire None)))"
proof -
  have "case sem_run (=) (semaphore_new 2, replicate 4 Sem_Idle) sem_schedule of Inl _ \<Rightarrow> False
    | Inr g \<Rightarrow> snd g = [Sem_Idle, Sem_Idle, Sem_Await 0, Sem_Await 1]"
    by (simp add: sem_exec sem_four)
  then obtain s where s: "sem_run (=) (semaphore_new 2, replicate 4 Sem_Idle) sem_schedule = Inr (s, [Sem_Idle, Sem_Idle, Sem_Await 0, Sem_Await 1])"
    by (auto split: sum.splits)
  moreover have "4 < usize_max" by (simp add: usize_max_def)
  from semaphore_correct [OF this, of "(=)" 2 sem_schedule]
  have "\<exists>i<length [Sem_Idle, Sem_Idle, Sem_Await 0, Sem_Await 1]. \<forall>cx. \<exists>s'. sem_step (=) (Poll_Cx cx) s
      ([Sem_Idle, Sem_Idle, Sem_Await 0, Sem_Await 1] ! i) = Inr (s', Sem_Load (Acquire None))"
    unfolding s by (auto simp: sem_resting_def)
  ultimately show ?thesis by blast
qed

text \<open>
  A permit can stay unused while a task waits for it. Two permits come back before the
  first waiter runs: the second \<open>notify(1)\<close> finds that a listener is already notified and does
  nothing. The first waiter then takes one permit. The other waiter is not notified, its
  poll answers \<open>Pending\<close>, and one permit is available.
\<close>

lemma semaphore_lost_permit:
  "\<exists>s. sem_run (=) (semaphore_new 2, replicate 4 Sem_Idle) (sem_schedule @ [(2, Poll_Cx 2), (2, Chance False), (2, Chance False)])
       = Inr (s, [Sem_Idle, Sem_Idle, Sem_Hold, Sem_Await 1]) \<and>
     sem_count s = 1 \<and> (\<exists>s'. sem_step (=) (Poll_Cx 3) s (Sem_Await 1) = Inr (s', Sem_Await 1))"
  by (simp add: sem_exec sem_four) auto

end
