(* ===== verification/Parking.thy ===== *)
theory Parking
  imports Lock_Base
begin

text \<open>
  The parker of src/cynthia/src/platform/parking/parking.rs (src/cynthia/src/utils/parking.rs
  is the same text). One thread owns the \<open>Parker\<close>, which cannot be shared; any number of threads
  hold an \<open>Unparker\<close>. A thread is a program point, and a step is one access to the atomic state,
  the lock or the condition variable. \<open>Condvar::wait\<close> releases the lock and sleeps in one step;
  it can return spuriously, and a wait with a timeout can run out at any time.
\<close>

section \<open>The parker\<close>

definition EMPTY :: usize where "EMPTY = 0"
definition PARKED :: usize where "PARKED = 1"
definition NOTIFIED :: usize where "NOTIFIED = 2"

lemmas park_consts = EMPTY_def PARKED_def NOTIFIED_def

text \<open>
  \<open>pk_sleeping\<close> says that the parker sleeps on \<open>cvar\<close> and has not been signalled. The last two fields
  are for the proofs and no part of the code: the calls of \<open>unpark\<close> whose answer is \<open>true\<close>, and the
  calls of \<open>park\<close> that were unparked, counted where they change the state.
\<close>

record parker =
  pk_state :: usize
  pk_lock :: bool
  pk_sleeping :: bool
  pk_given :: nat
  pk_taken :: nat

definition parker_new :: parker where
  "parker_new = \<lparr>pk_state = EMPTY, pk_lock = False, pk_sleeping = False, pk_given = 0, pk_taken = 0\<rparr>"

text \<open>The program points of \<open>Inner::park\<close>, with its timeout in nanoseconds, and of \<open>Inner::unpark\<close>.\<close>

datatype park_pc =
    P_Idle
  | P_Fast "nat option"
  | P_Lock "nat option"
  | P_Cas "nat option"
  | P_Swap
  | P_Wait "nat option"
  | P_Sleep "nat option"
  | P_Relock "nat option"
  | P_Check "nat option"
  | P_Unlock bool
  | P_Return bool
  | U_Idle
  | U_Swap
  | U_Lock
  | U_Unlock
  | U_Notify
  | U_Return bool

datatype park_choice = Call_Park | Call_Park_Timeout nat | Call_Unpark | Go | Spurious | Timed_Out

text \<open>\<open>compare_exchange(NOTIFIED, EMPTY)\<close> succeeds or leaves the state as it is.\<close>

definition take_token :: "parker \<Rightarrow> parker \<times> bool" where
  "take_token m = (if pk_state m = NOTIFIED then (m\<lparr>pk_state := EMPTY, pk_taken := Suc (pk_taken m)\<rparr>, True) else (m, False))"

definition acquire :: "parker \<Rightarrow> park_pc \<Rightarrow> park_pc \<Rightarrow> (parker \<times> park_pc) fallible" where
  "acquire m wait go = Inr (if pk_lock m then (m, wait) else (m\<lparr>pk_lock := True\<rparr>, go))"

fun park_step :: "park_choice \<Rightarrow> parker \<Rightarrow> park_pc \<Rightarrow> (parker \<times> park_pc) fallible" where
  "park_step ch m P_Idle =
     Inr (m, case ch of Call_Park \<Rightarrow> P_Fast None | Call_Park_Timeout d \<Rightarrow> P_Fast (Some d) | _ \<Rightarrow> P_Idle)"
| "park_step ch m (P_Fast timeout) =
     (case take_token m of (m', taken) \<Rightarrow>
        Inr (m', if taken then P_Return True else if timeout = Some 0 then P_Return False else P_Lock timeout))"
| "park_step ch m (P_Lock timeout) = acquire m (P_Lock timeout) (P_Cas timeout)"
| "park_step ch m (P_Cas timeout) =
     (if pk_state m = EMPTY then Inr (m\<lparr>pk_state := PARKED\<rparr>, P_Wait timeout)
      else if pk_state m = NOTIFIED then Inr (m, P_Swap)
      else Inl AssertFailed)"
| "park_step ch m P_Swap =
     (case take_token m of (m', taken) \<Rightarrow>
        if taken then Inr (m', P_Unlock True) else Inl AssertFailed)"
| "park_step ch m (P_Wait timeout) = Inr (m\<lparr>pk_lock := False, pk_sleeping := True\<rparr>, P_Sleep timeout)"
| "park_step ch m (P_Sleep timeout) =
     Inr (if \<not> pk_sleeping m \<or> ch = Spurious \<or> timeout \<noteq> None \<and> ch = Timed_Out
          then (m\<lparr>pk_sleeping := False\<rparr>, P_Relock timeout) else (m, P_Sleep timeout))"
| "park_step ch m (P_Relock timeout) = acquire m (P_Relock timeout) (P_Check timeout)"
| "park_step ch m (P_Check None) =
     (case take_token m of (m', taken) \<Rightarrow> Inr (m', if taken then P_Unlock True else P_Wait None))"
| "park_step ch m (P_Check (Some d)) =
     (if pk_state m = NOTIFIED then Inr (fst (take_token m), P_Unlock True)
      else if pk_state m = PARKED then Inr (m\<lparr>pk_state := EMPTY\<rparr>, P_Unlock False)
      else Inl AssertFailed)"
| "park_step ch m (P_Unlock r) = Inr (m\<lparr>pk_lock := False\<rparr>, P_Return r)"
| "park_step ch m (P_Return r) = Inr (m, P_Idle)"
| "park_step ch m U_Idle = Inr (m, if ch = Call_Unpark then U_Swap else U_Idle)"
| "park_step ch m U_Swap =
     (if pk_state m = EMPTY then Inr (m\<lparr>pk_state := NOTIFIED, pk_given := Suc (pk_given m)\<rparr>, U_Return True)
      else if pk_state m = NOTIFIED then Inr (m, U_Return False)
      else if pk_state m = PARKED then Inr (m\<lparr>pk_state := NOTIFIED, pk_given := Suc (pk_given m)\<rparr>, U_Lock)
      else Inl AssertFailed)"
| "park_step ch m U_Lock = acquire m U_Lock U_Unlock"
| "park_step ch m U_Unlock = Inr (m\<lparr>pk_lock := False\<rparr>, U_Notify)"
| "park_step ch m U_Notify = Inr (m\<lparr>pk_sleeping := False\<rparr>, U_Return True)"
| "park_step ch m (U_Return r) = Inr (m, U_Idle)"

definition park_run :: "parker \<times> park_pc list \<Rightarrow> (nat \<times> park_choice) list \<Rightarrow> (parker \<times> park_pc list) fallible" where
  "park_run = threads_run park_step"

section \<open>The invariant\<close>

fun is_parker :: "park_pc \<Rightarrow> nat" where
  "is_parker U_Idle = 0" | "is_parker U_Swap = 0" | "is_parker U_Lock = 0" | "is_parker U_Unlock = 0" | "is_parker U_Notify = 0"
| "is_parker (U_Return r) = 0" | "is_parker _ = 1"

text \<open>The points between the exchange that sets \<open>PARKED\<close> and the one that takes it back.\<close>

fun parked :: "park_pc \<Rightarrow> nat" where
  "parked (P_Wait t) = 1" | "parked (P_Sleep t) = 1" | "parked (P_Relock t) = 1" | "parked (P_Check t) = 1" | "parked _ = 0"

fun locking :: "park_pc \<Rightarrow> nat" where
  "locking (P_Cas t) = 1" | "locking P_Swap = 1" | "locking (P_Wait t) = 1" | "locking (P_Check t) = 1" | "locking (P_Unlock r) = 1"
| "locking U_Unlock = 1" | "locking _ = 0"

fun at_swap :: "park_pc \<Rightarrow> nat" where
  "at_swap P_Swap = 1" | "at_swap _ = 0"

fun at_wait :: "park_pc \<Rightarrow> nat" where
  "at_wait (P_Wait t) = 1" | "at_wait _ = 0"

fun sleeps :: "park_pc \<Rightarrow> nat" where
  "sleeps (P_Sleep t) = 1" | "sleeps _ = 0"

fun to_lock :: "park_pc \<Rightarrow> nat" where
  "to_lock U_Lock = 1" | "to_lock _ = 0"

fun to_notify :: "park_pc \<Rightarrow> nat" where
  "to_notify U_Lock = 1" | "to_notify U_Unlock = 1" | "to_notify U_Notify = 1" | "to_notify _ = 0"

definition park_inv :: "parker \<Rightarrow> park_pc multiset \<Rightarrow> bool" where
  "park_inv m T \<longleftrightarrow>
     tokens is_parker T \<le> 1 \<and> tokens locking T = of_bool (pk_lock m) \<and>
     (pk_state m = EMPTY \<and> tokens parked T = 0 \<or> pk_state m = PARKED \<and> tokens parked T = 1 \<or> pk_state m = NOTIFIED) \<and>
     (0 < tokens at_swap T \<longrightarrow> pk_state m = NOTIFIED) \<and>
     (0 < tokens at_wait T \<and> pk_state m = NOTIFIED \<longrightarrow> 0 < tokens to_lock T) \<and>
     (pk_sleeping m \<longrightarrow> tokens sleeps T = 1 \<and> (pk_state m = NOTIFIED \<longrightarrow> 0 < tokens to_notify T)) \<and>
     pk_given m = pk_taken m + of_bool (pk_state m = NOTIFIED)"

lemma parker_only:
  assumes "tokens is_parker T = 0"
  shows "tokens parked T = 0" "tokens at_swap T = 0" "tokens at_wait T = 0" "tokens sleeps T = 0"
proof -
  have "tokens f T \<le> tokens is_parker T" if "\<And>p. f p \<le> is_parker p" for f using that by (rule tokens_mono)
  moreover have "parked p \<le> is_parker p" "at_swap p \<le> is_parker p" "at_wait p \<le> is_parker p" "sleeps p \<le> is_parker p" for p
    by (cases p; simp)+
  ultimately show "tokens parked T = 0" "tokens at_swap T = 0" "tokens at_wait T = 0" "tokens sleeps T = 0"
    using assms by (metis le_zero_eq)+
qed

lemma waiting_locks: "tokens at_wait T \<le> tokens locking T" "tokens to_lock T \<le> tokens to_notify T" "tokens at_wait T \<le> tokens parked T" "tokens sleeps T \<le> tokens parked T"
proof -
  have "at_wait p \<le> locking p" "to_lock p \<le> to_notify p" "at_wait p \<le> parked p" "sleeps p \<le> parked p" for p by (cases p; simp)+
  then show "tokens at_wait T \<le> tokens locking T" "tokens to_lock T \<le> tokens to_notify T" "tokens at_wait T \<le> tokens parked T" "tokens sleeps T \<le> tokens parked T"
    by (auto intro: tokens_mono)
qed

lemma park_step_ok:
  assumes inv: "park_inv m (add_mset p R)"
  shows "\<exists>m' p'. park_step ch m p = Inr (m', p') \<and> park_inv m' (add_mset p' R)"
proof -
  note w = waiting_locks [of R] parker_only [of R]
  show ?thesis
    using inv w by (cases "(ch, m, p)" rule: park_step.cases; cases "pk_lock m")
      (auto simp: park_inv_def take_token_def acquire_def park_consts split: park_choice.splits if_splits)
qed

interpretation park_system: thread_system park_step park_inv "\<lambda>_. True"
  using park_step_ok by unfold_locales blast

lemma parker_new_inv: "park_inv parker_new (mset (P_Idle # replicate n U_Idle))"
proof -
  have "tokens f (replicate_mset n U_Idle) = 0" if "f U_Idle = 0" for f using that by (induction n) simp_all
  then show ?thesis by (simp add: park_inv_def parker_new_def park_consts)
qed

section \<open>Properties\<close>

text \<open>The parker is inside \<open>park\<close> and has no answer yet; it runs alone for \<open>k\<close> steps.\<close>

fun waits_token :: "park_pc \<Rightarrow> bool" where
  "waits_token (P_Fast t) = True" | "waits_token (P_Lock t) = True" | "waits_token (P_Cas t) = True" | "waits_token P_Swap = True"
| "waits_token p = (parked p = 1)"

fun park_alone :: "nat \<Rightarrow> parker \<Rightarrow> park_pc \<Rightarrow> (parker \<times> park_pc) fallible" where
  "park_alone 0 m p = Inr (m, p)"
| "park_alone (Suc k) m p = bind_fallible (park_step Go m p) (\<lambda>(m', p'). park_alone k m' p')"

lemma locking_le: "tokens locking T \<le> tokens is_parker T + tokens to_notify T"
proof -
  have "locking p \<le> is_parker p + to_notify p" for p by (cases p) simp_all
  then have "tokens locking T \<le> tokens (\<lambda>p. is_parker p + to_notify p) T" by (rule tokens_mono)
  then show ?thesis by (simp add: tokens_plus)
qed

lemma park_steps:
  assumes "pk_state m = NOTIFIED"
  shows "park_step Go m (P_Fast t) = Inr (fst (take_token m), P_Return True)"
    "\<not> pk_lock m \<Longrightarrow> park_step Go m (P_Lock t) = Inr (m\<lparr>pk_lock := True\<rparr>, P_Cas t)"
    "park_step Go m (P_Cas t) = Inr (m, P_Swap)"
    "park_step Go m P_Swap = Inr (fst (take_token m), P_Unlock True)"
    "\<not> pk_sleeping m \<Longrightarrow> park_step Go m (P_Sleep t) = Inr (m\<lparr>pk_sleeping := False\<rparr>, P_Relock t)"
    "\<not> pk_lock m \<Longrightarrow> park_step Go m (P_Relock t) = Inr (m\<lparr>pk_lock := True\<rparr>, P_Check t)"
    "park_step Go m (P_Check t) = Inr (fst (take_token m), P_Unlock True)"
  using assms by (cases t; simp add: take_token_def acquire_def park_consts)+

text \<open>The steps it has left when it finds a notification.\<close>

fun park_left :: "park_pc \<Rightarrow> nat" where
  "park_left (P_Fast t) = 1" | "park_left (P_Lock t) = 4" | "park_left (P_Cas t) = 3" | "park_left (P_Sleep t) = 4"
| "park_left (P_Relock t) = 3" | "park_left _ = 2"

lemma park_alone_returns:
  assumes inv: "park_inv m (add_mset p R)" and tok: "pk_state m = NOTIFIED" and rest: "tokens to_notify (add_mset p R) = 0" and p: "waits_token p"
  shows "\<exists>k\<le>4. \<exists>m'. park_alone k m p = Inr (m', P_Return True)"
proof -
  have u: "tokens to_lock (add_mset p R) = 0" using waiting_locks(2) [of "add_mset p R"] rest by simp
  have "is_parker p = 1" using p by (cases p) simp_all
  then have "tokens is_parker R = 0" using inv by (simp add: park_inv_def)
  then have "tokens locking R = 0" using locking_le [of R] rest by simp
  then have l: "locking p = of_bool (pk_lock m)" using inv by (simp add: park_inv_def)
  have w: "at_wait p = 0" "sleeps p = 1 \<longrightarrow> \<not> pk_sleeping m"
  proof -
    show "at_wait p = 0" using inv tok u unfolding park_inv_def by (cases "at_wait p") simp_all
    show "sleeps p = 1 \<longrightarrow> \<not> pk_sleeping m" using inv tok rest unfolding park_inv_def by simp
  qed
  have free: "locking p = 0 \<Longrightarrow> \<not> pk_lock m" using l by simp
  have "\<exists>m'. park_alone (park_left p) m p = Inr (m', P_Return True)"
    using p free w by (cases p) (simp_all add: tok park_steps eval_nat_numeral take_token_def del: park_step.simps(2-9) bind_fallible_Inr)
  moreover have "park_left p \<le> 4" by (cases p) simp_all
  ultimately show ?thesis by blast
qed

text \<open>
  The parker is correct (C12). One thread parks, with and without a timeout, and any number of
  threads unpark it, in any order; waits wake up spuriously and run out at any time. None of the
  panics of the code is reached. A call of \<open>park\<close> answers \<open>true\<close> exactly as often as a call of
  \<open>unpark\<close> answers \<open>true\<close>, up to the one notification that is still in the state: notifications do
  not get lost and do not accumulate. While one is there and no thread is inside \<open>unpark\<close> after
  its exchange, the parker is not left asleep: at whatever point of \<open>park\<close> it is, it returns
  \<open>true\<close> after at most four of its own steps.
\<close>

theorem parking_correct:
  "\<exists>m ths. park_run (parker_new, P_Idle # replicate n U_Idle) chs = Inr (m, ths) \<and> length ths = Suc n \<and>
     pk_given m = pk_taken m + of_bool (pk_state m = NOTIFIED) \<and>
     (pk_state m = NOTIFIED \<and> tokens to_notify (mset ths) = 0 \<longrightarrow>
      (\<forall>i<length ths. waits_token (ths ! i) \<longrightarrow> (\<exists>k\<le>4. \<exists>m'. park_alone k m (ths ! i) = Inr (m', P_Return True))))"
proof -
  obtain m ths where r: "threads_run park_step (parker_new, P_Idle # replicate n U_Idle) chs = Inr (m, ths)" "park_inv m (mset ths)" "length ths = Suc n"
    using park_system.run_keeps [OF parker_new_inv [of n], of chs] by auto
  have "\<exists>k\<le>4. \<exists>m'. park_alone k m (ths ! i) = Inr (m', P_Return True)"
    if "pk_state m = NOTIFIED" "tokens to_notify (mset ths) = 0" "i < length ths" "waits_token (ths ! i)" for i
  proof -
    have "mset ths = add_mset (ths ! i) (mset ths - {#ths ! i#})" using that(3) by simp
    then show ?thesis using park_alone_returns [of m "ths ! i" "mset ths - {#ths ! i#}"] r(2) that by simp
  qed
  then show ?thesis using r by (auto simp: park_run_def park_inv_def)
qed

theorem parking_correct_witness:
  "\<exists>m ths. park_run (parker_new, P_Idle # replicate 1 U_Idle)
       [(0, Call_Park), (0, Go), (0, Go), (0, Go), (0, Go), (1, Call_Unpark), (1, Go), (1, Go), (1, Go), (1, Go)] = Inr (m, ths) \<and>
     ths = [P_Sleep None, U_Return True] \<and> pk_given m = 1 \<and> (\<exists>k\<le>4. \<exists>m'. park_alone k m (ths ! 0) = Inr (m', P_Return True))"
proof -
  let ?chs = "[(0, Call_Park), (0, Go), (0, Go), (0, Go), (0, Go), (1, Call_Unpark), (1, Go), (1, Go), (1, Go), (1, Go)]"
  have "case park_run (parker_new, P_Idle # replicate 1 U_Idle) ?chs of
      Inl _ \<Rightarrow> False | Inr g \<Rightarrow> snd g = [P_Sleep None, U_Return True] \<and> pk_state (fst g) = NOTIFIED \<and> pk_given (fst g) = 1"
    by (simp add: park_run_def threads_step_def take_token_def acquire_def parker_new_def park_consts)
  then show ?thesis using parking_correct [of 1 ?chs] by (fastforce split: sum.splits)
qed

end
