(* ===== verification/Future_Combinators.thy ===== *)
theory Future_Combinators
  imports Stream_Core
begin

text \<open>
  The futures of src/cynthia/src/future/future.rs, src/cynthia/src/future/timeout.rs and the
  loop of src/cynthia/src/future/block_on.rs. A combinator is a transition function on its own
  record, which holds the states of the futures inside. \<open>resolves_in p n s r\<close> says that the
  future is pending for \<open>n\<close> polls and gives \<open>r\<close> at the next one; what a combinator does depends
  on which of its futures is faster.
\<close>

section \<open>Definitions\<close>

record 'a outstanding = out_data :: "'a option"

definition outstanding_poll :: "('a outstanding, unit) future" where
  "outstanding_poll this = Some (this, case out_data this of Some _ \<Rightarrow> Ready () | None \<Rightarrow> Pending)"

definition future_pending_poll :: "(unit, 'a) future" where
  "future_pending_poll this = Some (this, Pending)"

text \<open>One poll of a future inside a combinator: ready, pending, or a panic that goes through.\<close>

definition inner_poll ::
  "('s \<times> 'a poll) option \<Rightarrow> ('s \<Rightarrow> 't) \<Rightarrow> ('s \<Rightarrow> 'a \<Rightarrow> ('t \<times> 'b poll) option) \<Rightarrow> ('s \<Rightarrow> ('t \<times> 'b poll) option) \<Rightarrow> ('t \<times> 'b poll) option" where
  "inner_poll m w f g =
     (case m of
        None \<Rightarrow> None
      | Some (s, Ready x) \<Rightarrow> f s x
      | Some (s, Pending) \<Rightarrow> g s
      | Some (s, Panicked) \<Rightarrow> Some (w s, Panicked))"

lemma inner_poll_simps [simp]:
  "inner_poll None w f g = None"
  "inner_poll (Some (s, Ready x)) w f g = f s x"
  "inner_poll (Some (s, Pending)) w f g = g s"
  "inner_poll (Some (s, Panicked)) w f g = Some (w s, Panicked)"
  by (simp_all add: inner_poll_def)

definition poll_once_poll :: "('s, 'a) future \<Rightarrow> ('s, 'a option) future" where
  "poll_once_poll p this = inner_poll (p this) id (\<lambda>s t. Some (s, Ready (Some t))) (\<lambda>s. Some (s, Ready None))"

definition future_poll_fn_poll :: "('s, 'a) future \<Rightarrow> ('s, 'a) future" where
  "future_poll_fn_poll f this = f this"

definition ready_poll :: "('a option, 'a) future" where
  "ready_poll this = Some (None, case this of Some val \<Rightarrow> Ready val | None \<Rightarrow> Panicked)"

text \<open>The wakers that a poll of \<open>YieldNow\<close> wakes come with its answer.\<close>

definition yield_now_poll :: "waker \<Rightarrow> bool \<Rightarrow> (bool \<times> unit poll) \<times> waker list" where
  "yield_now_poll cx this = (if \<not> this then ((True, Pending), [cx]) else ((this, Ready ()), []))"

record ('s, 't) pair_future =
  future1 :: 's
  future2 :: 't

definition future_or_poll :: "('s, 'a) future \<Rightarrow> ('t, 'a) future \<Rightarrow> (('s, 't) pair_future, 'a) future" where
  "future_or_poll p q this =
     inner_poll (p (future1 this)) (\<lambda>s. this\<lparr>future1 := s\<rparr>) (\<lambda>s t. Some (this\<lparr>future1 := s\<rparr>, Ready t)) (\<lambda>s.
     inner_poll (q (future2 this)) (\<lambda>u. this\<lparr>future1 := s, future2 := u\<rparr>) (\<lambda>u t. Some (this\<lparr>future1 := s, future2 := u\<rparr>, Ready t)) (\<lambda>u.
     Some (this\<lparr>future1 := s, future2 := u\<rparr>, Pending)))"

text \<open>\<open>coin\<close> is the answer of \<open>rander::bool()\<close>.\<close>

definition future_race_poll :: "bool \<Rightarrow> ('s, 'a) future \<Rightarrow> ('t, 'a) future \<Rightarrow> (('s, 't) pair_future, 'a) future" where
  "future_race_poll coin p q this =
     (if coin then future_or_poll p q this
      else
        inner_poll (q (future2 this)) (\<lambda>u. this\<lparr>future2 := u\<rparr>) (\<lambda>u t. Some (this\<lparr>future2 := u\<rparr>, Ready t)) (\<lambda>u.
        inner_poll (p (future1 this)) (\<lambda>s. this\<lparr>future1 := s, future2 := u\<rparr>) (\<lambda>s t. Some (this\<lparr>future1 := s, future2 := u\<rparr>, Ready t)) (\<lambda>s.
        Some (this\<lparr>future1 := s, future2 := u\<rparr>, Pending))))"

text \<open>A \<open>Race\<close> that is polled again and again; \<open>coin k\<close> is the answer that the \<open>k\<close>-th poll gets.\<close>

definition race_polls :: "(nat \<Rightarrow> bool) \<Rightarrow> ('s, 'a) future \<Rightarrow> ('t, 'a) future \<Rightarrow> (nat \<times> ('s, 't) pair_future, 'a) future" where
  "race_polls coin p q = (\<lambda>(k, this). map_option (\<lambda>(this', r). ((Suc k, this'), r)) (future_race_poll (coin k) p q this))"

record ('s, 't, 'a, 'b) zip_future =
  z_future1 :: 's
  z_output1 :: "'a option"
  z_future2 :: 't
  z_output2 :: "'b option"

definition zip_new :: "'s \<Rightarrow> 't \<Rightarrow> ('s, 't, 'a, 'b) zip_future" where
  "zip_new s t = \<lparr>z_future1 = s, z_output1 = None, z_future2 = t, z_output2 = None\<rparr>"

definition zip_finish :: "('s, 't, 'a, 'b) zip_future \<Rightarrow> (('s, 't, 'a, 'b) zip_future \<times> ('a \<times> 'b) poll) option" where
  "zip_finish this =
     (case (z_output1 this, z_output2 this) of
        (Some x, Some y) \<Rightarrow> Some (this\<lparr>z_output1 := None, z_output2 := None\<rparr>, Ready (x, y))
      | _ \<Rightarrow> Some (this, Pending))"

definition future_zip_second :: "('t, 'b) future \<Rightarrow> (('s, 't, 'a, 'b) zip_future, 'a \<times> 'b) future" where
  "future_zip_second q this =
     (if z_output2 this = None then
        inner_poll (q (z_future2 this)) (\<lambda>t. this\<lparr>z_future2 := t\<rparr>)
          (\<lambda>t out. zip_finish (this\<lparr>z_future2 := t, z_output2 := Some out\<rparr>)) (\<lambda>t. zip_finish (this\<lparr>z_future2 := t\<rparr>))
      else zip_finish this)"

definition future_zip_poll :: "('s, 'a) future \<Rightarrow> ('t, 'b) future \<Rightarrow> (('s, 't, 'a, 'b) zip_future, 'a \<times> 'b) future" where
  "future_zip_poll p q this =
     (if z_output1 this = None then
        inner_poll (p (z_future1 this)) (\<lambda>s. this\<lparr>z_future1 := s\<rparr>)
          (\<lambda>s out. future_zip_second q (this\<lparr>z_future1 := s, z_output1 := Some out\<rparr>)) (\<lambda>s. future_zip_second q (this\<lparr>z_future1 := s\<rparr>))
      else future_zip_second q this)"

text \<open>\<open>TryZip\<close> keeps results; an error is never stored, so that \<open>unreachable!\<close> is not reached.\<close>

definition try_zip_finish :: "('s, 't, 'e + 'a, 'e + 'b) zip_future \<Rightarrow> (('s, 't, 'e + 'a, 'e + 'b) zip_future \<times> ('e + 'a \<times> 'b) poll) option" where
  "try_zip_finish this =
     (case (z_output1 this, z_output2 this) of
        (Some res1, Some res2) \<Rightarrow>
          Some (this\<lparr>z_output1 := None, z_output2 := None\<rparr>,
            case (res1, res2) of (Inr t1, Inr t2) \<Rightarrow> Ready (Inr (t1, t2)) | _ \<Rightarrow> Panicked)
      | _ \<Rightarrow> Some (this, Pending))"

definition try_zip_second :: "('t, 'e + 'b) future \<Rightarrow> (('s, 't, 'e + 'a, 'e + 'b) zip_future, 'e + 'a \<times> 'b) future" where
  "try_zip_second q this =
     (if z_output2 this = None then
        inner_poll (q (z_future2 this)) (\<lambda>t. this\<lparr>z_future2 := t\<rparr>)
          (\<lambda>t out. case out of
             Inr v \<Rightarrow> try_zip_finish (this\<lparr>z_future2 := t, z_output2 := Some (Inr v)\<rparr>)
           | Inl err \<Rightarrow> Some (this\<lparr>z_future2 := t\<rparr>, Ready (Inl err)))
          (\<lambda>t. try_zip_finish (this\<lparr>z_future2 := t\<rparr>))
      else try_zip_finish this)"

definition try_zip_poll :: "('s, 'e + 'a) future \<Rightarrow> ('t, 'e + 'b) future \<Rightarrow> (('s, 't, 'e + 'a, 'e + 'b) zip_future, 'e + 'a \<times> 'b) future" where
  "try_zip_poll p q this =
     (if z_output1 this = None then
        inner_poll (p (z_future1 this)) (\<lambda>s. this\<lparr>z_future1 := s\<rparr>)
          (\<lambda>s out. case out of
             Inr v \<Rightarrow> try_zip_second q (this\<lparr>z_future1 := s, z_output1 := Some (Inr v)\<rparr>)
           | Inl err \<Rightarrow> Some (this\<lparr>z_future1 := s\<rparr>, Ready (Inl err)))
          (\<lambda>s. try_zip_second q (this\<lparr>z_future1 := s\<rparr>))
      else try_zip_second q this)"

text \<open>\<open>Inl ()\<close> is the payload of the panic.\<close>

definition catch_unwind_poll :: "('s, 'a) future \<Rightarrow> ('s, unit + 'a) future" where
  "catch_unwind_poll p this =
     (case p this of
        None \<Rightarrow> None
      | Some (s, Ready x) \<Rightarrow> Some (s, Ready (Inr x))
      | Some (s, Pending) \<Rightarrow> Some (s, Pending)
      | Some (s, Panicked) \<Rightarrow> Some (s, Ready (Inl ())))"

datatype timeout_error = TimeoutError

record ('s, 'd) timeout_future =
  to_future :: 's
  to_delay :: 'd

definition timeout_poll :: "('s, 'a) future \<Rightarrow> ('d, 'i) future \<Rightarrow> (('s, 'd) timeout_future, timeout_error + 'a) future" where
  "timeout_poll p delay this =
     inner_poll (p (to_future this)) (\<lambda>s. this\<lparr>to_future := s\<rparr>) (\<lambda>s v. Some (this\<lparr>to_future := s\<rparr>, Ready (Inr v))) (\<lambda>s.
     inner_poll (delay (to_delay this)) (\<lambda>d. this\<lparr>to_future := s, to_delay := d\<rparr>)
       (\<lambda>d i. Some (this\<lparr>to_future := s, to_delay := d\<rparr>, Ready (Inl TimeoutError))) (\<lambda>d.
     Some (this\<lparr>to_future := s, to_delay := d\<rparr>, Pending)))"

text \<open>
  \<open>block_on\<close>: the waker unparks the thread's parker. A poll answers also whether the waker was
  called since the last park, by the future itself or by another thread; \<open>token\<close> is the notification
  in the parker. \<open>park\<close> takes the notification and returns, and without one it does not return.
  Whether the thread's own parker could be borrowed makes no difference to the loop.
  \<open>Inr ()\<close> is a panic of the future, which goes through.
\<close>

partial_function (option) block_on :: "('s \<Rightarrow> ('s \<times> 'a poll \<times> bool) option) \<Rightarrow> bool \<Rightarrow> 's \<Rightarrow> ('a + unit) option" where
  "block_on p token s =
     (case p s of
        None \<Rightarrow> None
      | Some (s', r, woken) \<Rightarrow>
          (case r of
             Ready output \<Rightarrow> Some (Inl output)
           | Pending \<Rightarrow> (if token \<or> woken then block_on p False s' else None)
           | Panicked \<Rightarrow> Some (Inr ())))"

section \<open>When a future resolves\<close>

fun pends :: "('s, 'a) future \<Rightarrow> nat \<Rightarrow> 's \<Rightarrow> 's \<Rightarrow> bool" where
  "pends p 0 s s' = (s' = s)"
| "pends p (Suc n) s s' = (\<exists>s1. p s = Some (s1, Pending) \<and> pends p n s1 s')"

definition resolves_in :: "('s, 'a) future \<Rightarrow> nat \<Rightarrow> 's \<Rightarrow> 'a \<Rightarrow> bool" where
  "resolves_in p n s r \<longleftrightarrow> (\<exists>s1 s2. pends p n s s1 \<and> p s1 = Some (s2, Ready r))"

lemma resolves_in_simps:
  "resolves_in p 0 s r \<longleftrightarrow> (\<exists>s2. p s = Some (s2, Ready r))"
  "resolves_in p (Suc n) s r \<longleftrightarrow> (\<exists>s1. p s = Some (s1, Pending) \<and> resolves_in p n s1 r)"
  by (auto simp: resolves_in_def)

lemma resolves_iff: "resolves p s r \<longleftrightarrow> (\<exists>n. resolves_in p n s r)"
proof
  assume "resolves p s r"
  then show "\<exists>n. resolves_in p n s r"
    by induction (metis resolves_in_simps(1), metis resolves_in_simps(2))
next
  have "resolves p s r" if "resolves_in p n s r" for n
    using that by (induction n arbitrary: s) (auto simp: resolves_in_simps intro: resolves.intros)
  then show "\<exists>n. resolves_in p n s r \<Longrightarrow> resolves p s r" by blast
qed

definition pending_for :: "('s, 'a) future \<Rightarrow> nat \<Rightarrow> 's \<Rightarrow> bool" where
  "pending_for p n s \<longleftrightarrow> (\<exists>s1. pends p n s s1)"

lemma resolves_pending: "resolves_in p n s r \<Longrightarrow> m \<le> n \<Longrightarrow> pending_for p m s"
proof (induction m arbitrary: n s)
  case (Suc m)
  then obtain k where "n = Suc k" by (cases n) auto
  with Suc obtain s1 where "p s = Some (s1, Pending)" "pending_for p m s1" by (auto simp: resolves_in_simps)
  then show ?case by (auto simp: pending_for_def)
qed (simp add: pending_for_def)

lemma pends_last:
  assumes "pending_for p (Suc n) s"
  obtains s1 s2 where "pends p n s s1" "p s1 = Some (s2, Pending)"
proof -
  have "pends p (Suc n) a b \<Longrightarrow> \<exists>a' b'. pends p n a a' \<and> p a' = Some (b', Pending)" for a b
    by (induction n arbitrary: a) auto
  then show ?thesis using assms that by (auto simp: pending_for_def simp del: pends.simps)
qed

lemma resolvesE:
  assumes "resolves_in p n s r"
  obtains s1 s2 where "pends p n s s1" "p s1 = Some (s2, Ready r)"
  using assms by (auto simp: resolves_in_def)

lemma race_pends:
  "pends p n (future1 this) s \<Longrightarrow> pends q n (future2 this) u \<Longrightarrow>
   pends (race_polls coin p q) n (k, this) (k + n, this\<lparr>future1 := s, future2 := u\<rparr>)"
proof (induction n arbitrary: k this)
  case (Suc n)
  then obtain s1 u1 where 1: "p (future1 this) = Some (s1, Pending)" "pends p n s1 s" "q (future2 this) = Some (u1, Pending)" "pends q n u1 u" by auto
  then show ?case using Suc.IH [of "this\<lparr>future1 := s1, future2 := u1\<rparr>" "Suc k"] by (simp add: race_polls_def future_race_poll_def future_or_poll_def)
qed simp

lemma race_resolves:
  "resolves_in p n (future1 this) a \<Longrightarrow> pending_for q (Suc n) (future2 this) \<Longrightarrow> resolves_in (race_polls coin p q) n (k, this) a"
  "pending_for p (Suc n) (future1 this) \<Longrightarrow> resolves_in q n (future2 this) b \<Longrightarrow> resolves_in (race_polls coin p q) n (k, this) b"
  "resolves_in p n (future1 this) a \<Longrightarrow> resolves_in q n (future2 this) b \<Longrightarrow>
   resolves_in (race_polls coin p q) n (k, this) (if coin (k + n) then a else b)"
proof -
  note defs = resolves_in_def race_polls_def future_race_poll_def future_or_poll_def
  show "resolves_in (race_polls coin p q) n (k, this) a"
    if "resolves_in p n (future1 this) a" "pending_for q (Suc n) (future2 this)"
    using that by (elim resolvesE pends_last) (drule race_pends, assumption, fastforce simp: defs)
  show "resolves_in (race_polls coin p q) n (k, this) b"
    if "pending_for p (Suc n) (future1 this)" "resolves_in q n (future2 this) b"
    using that by (elim resolvesE pends_last) (drule race_pends, assumption, fastforce simp: defs)
  show "resolves_in (race_polls coin p q) n (k, this) (if coin (k + n) then a else b)"
    if "resolves_in p n (future1 this) a" "resolves_in q n (future2 this) b"
    using that by (elim resolvesE) (drule race_pends, assumption, fastforce simp: defs)
qed

lemma race_both:
  assumes "resolves_in p n (future1 this) a" "resolves_in q m (future2 this) b"
  shows "resolves_in (race_polls coin p q) (min n m) (k, this) (if n < m \<or> n = m \<and> coin (k + n) then a else b)"
  using race_resolves(1) [OF assms(1) resolves_pending [OF assms(2)]] race_resolves(2) [OF resolves_pending [OF assms(1)] assms(2)]
    race_resolves(3) [of p n this a q b] assms
  by (cases n m rule: linorder_cases) (auto simp: min_def)

text \<open>\<open>Or\<close> is the race in which the first future is always polled first.\<close>

lemma or_race: "resolves_in (race_polls (\<lambda>_. True) p q) n (k, this) r \<Longrightarrow> resolves_in (future_or_poll p q) n this r"
  by (induction n arbitrary: k this) (auto simp: resolves_in_simps race_polls_def future_race_poll_def)

text \<open>One poll of \<open>Zip\<close> while it has no second output, no first output, or neither.\<close>

lemmas zip_defs = future_zip_poll_def future_zip_second_def zip_finish_def

lemma zip_poll_second:
  assumes "z_output1 this = Some a" "z_output2 this = None"
  shows "q (z_future2 this) = Some (t1, Pending) \<Longrightarrow> future_zip_poll p q this = Some (this\<lparr>z_future2 := t1\<rparr>, Pending)"
    "q (z_future2 this) = Some (t1, Ready b) \<Longrightarrow> \<exists>this'. future_zip_poll p q this = Some (this', Ready (a, b))"
  using assms by (simp_all add: zip_defs)

lemma zip_poll_first:
  assumes "z_output1 this = None" "z_output2 this = Some b"
  shows "p (z_future1 this) = Some (s1, Pending) \<Longrightarrow> future_zip_poll p q this = Some (this\<lparr>z_future1 := s1\<rparr>, Pending)"
    "p (z_future1 this) = Some (s1, Ready a) \<Longrightarrow> \<exists>this'. future_zip_poll p q this = Some (this', Ready (a, b))"
  using assms by (simp_all add: zip_defs)

lemma zip_poll_both:
  assumes "z_output1 this = None" "z_output2 this = None"
  shows "p (z_future1 this) = Some (s1, Pending) \<Longrightarrow> q (z_future2 this) = Some (t1, Pending) \<Longrightarrow>
      future_zip_poll p q this = Some (this\<lparr>z_future1 := s1, z_future2 := t1\<rparr>, Pending)"
    "p (z_future1 this) = Some (s1, Ready a) \<Longrightarrow> q (z_future2 this) = Some (t1, Pending) \<Longrightarrow>
      future_zip_poll p q this = Some (this\<lparr>z_future1 := s1, z_output1 := Some a, z_future2 := t1\<rparr>, Pending)"
    "p (z_future1 this) = Some (s1, Pending) \<Longrightarrow> q (z_future2 this) = Some (t1, Ready b) \<Longrightarrow>
      future_zip_poll p q this = Some (this\<lparr>z_future1 := s1, z_future2 := t1, z_output2 := Some b\<rparr>, Pending)"
    "p (z_future1 this) = Some (s1, Ready a) \<Longrightarrow> q (z_future2 this) = Some (t1, Ready b) \<Longrightarrow>
      \<exists>this'. future_zip_poll p q this = Some (this', Ready (a, b))"
  using assms by (simp_all add: zip_defs)

lemma zip_second_resolves:
  assumes "resolves_in q m (z_future2 this) b" "z_output1 this = Some a" "z_output2 this = None"
  shows "resolves_in (future_zip_poll p q) m this (a, b)"
  using assms
proof (induction m arbitrary: this)
  case (Suc m)
  then obtain t1 where t: "q (z_future2 this) = Some (t1, Pending)" "resolves_in q m t1 b" by (auto simp: resolves_in_simps)
  then show ?case using Suc.IH [of "this\<lparr>z_future2 := t1\<rparr>"] Suc.prems zip_poll_second(1) [of this a q t1 p] by (simp add: resolves_in_simps)
qed (auto simp: resolves_in_simps intro: zip_poll_second(2))

lemma zip_first_resolves:
  assumes "resolves_in p n (z_future1 this) a" "z_output1 this = None" "z_output2 this = Some b"
  shows "resolves_in (future_zip_poll p q) n this (a, b)"
  using assms
proof (induction n arbitrary: this)
  case (Suc n)
  then obtain s1 where s: "p (z_future1 this) = Some (s1, Pending)" "resolves_in p n s1 a" by (auto simp: resolves_in_simps)
  then show ?case using Suc.IH [of "this\<lparr>z_future1 := s1\<rparr>"] Suc.prems zip_poll_first(1) [of this b p s1 q] by (simp add: resolves_in_simps)
qed (auto simp: resolves_in_simps intro: zip_poll_first(2))

lemma zip_resolves:
  assumes "resolves_in p n (z_future1 this) a" "resolves_in q m (z_future2 this) b" "z_output1 this = None" "z_output2 this = None"
  shows "resolves_in (future_zip_poll p q) (max n m) this (a, b)"
  using assms
proof (induction n arbitrary: this m)
  case 0
  then obtain s1 where s: "p (z_future1 this) = Some (s1, Ready a)" by (auto simp: resolves_in_simps)
  show ?case
  proof (cases m)
    case 0
    then obtain t1 where "q (z_future2 this) = Some (t1, Ready b)" using "0.prems" by (auto simp: resolves_in_simps)
    with 0 show ?thesis using zip_poll_both(4) [of this p s1 a q t1 b, OF "0.prems"(3,4) s] by (simp add: resolves_in_simps)
  next
    case (Suc k)
    then obtain t1 where t: "q (z_future2 this) = Some (t1, Pending)" "resolves_in q k t1 b" using "0.prems" by (auto simp: resolves_in_simps)
    have "resolves_in (future_zip_poll p q) k (this\<lparr>z_future1 := s1, z_output1 := Some a, z_future2 := t1\<rparr>) (a, b)"
      using t "0.prems" by (intro zip_second_resolves) simp_all
    with Suc show ?thesis using zip_poll_both(2) [of this p s1 a q t1, OF "0.prems"(3,4) s t(1)] by (simp add: resolves_in_simps)
  qed
next
  case (Suc n)
  then obtain s1 where s: "p (z_future1 this) = Some (s1, Pending)" "resolves_in p n s1 a" by (auto simp: resolves_in_simps)
  show ?case
  proof (cases m)
    case 0
    then obtain t1 where t: "q (z_future2 this) = Some (t1, Ready b)" using Suc.prems by (auto simp: resolves_in_simps)
    have "resolves_in (future_zip_poll p q) n (this\<lparr>z_future1 := s1, z_future2 := t1, z_output2 := Some b\<rparr>) (a, b)"
      using s Suc.prems by (intro zip_first_resolves) simp_all
    with 0 show ?thesis using zip_poll_both(3) [of this p s1 q t1 b, OF Suc.prems(3,4) s(1) t] by (simp add: resolves_in_simps)
  next
    case (Suc k)
    then obtain t1 where t: "q (z_future2 this) = Some (t1, Pending)" "resolves_in q k t1 b" using Suc.prems by (auto simp: resolves_in_simps)
    have "resolves_in (future_zip_poll p q) (max n k) (this\<lparr>z_future1 := s1, z_future2 := t1\<rparr>) (a, b)"
      using s t Suc.prems by (intro Suc.IH) simp_all
    with Suc show ?thesis using zip_poll_both(1) [of this p s1 q t1, OF Suc.prems(3,4) s(1) t(1)] by (simp add: resolves_in_simps)
  qed
qed

text \<open>
  \<open>TryZip\<close>: with two successes both values at the later poll, and otherwise the error that
  comes first, the one of the first future if both come at the same poll.
\<close>

definition try_zip_spec :: "nat \<Rightarrow> 'e + 'a \<Rightarrow> nat \<Rightarrow> 'e + 'b \<Rightarrow> nat \<times> ('e + 'a \<times> 'b)" where
  "try_zip_spec n x m y =
     (case (x, y) of
        (Inr a, Inr b) \<Rightarrow> (max n m, Inr (a, b))
      | (Inl e, Inr b) \<Rightarrow> (n, Inl e)
      | (Inr a, Inl e) \<Rightarrow> (m, Inl e)
      | (Inl e, Inl e') \<Rightarrow> if n \<le> m then (n, Inl e) else (m, Inl e'))"

lemmas try_zip_defs = try_zip_poll_def try_zip_second_def try_zip_finish_def

lemma try_zip_poll_second:
  assumes "z_output1 this = Some (Inr a)" "z_output2 this = None"
  shows "q (z_future2 this) = Some (t1, Pending) \<Longrightarrow> try_zip_poll p q this = Some (this\<lparr>z_future2 := t1\<rparr>, Pending)"
    "q (z_future2 this) = Some (t1, Ready y) \<Longrightarrow> \<exists>this'. try_zip_poll p q this = Some (this', Ready (case y of Inl e \<Rightarrow> Inl e | Inr b \<Rightarrow> Inr (a, b)))"
  using assms by (auto simp: try_zip_defs split: sum.splits)

lemma try_zip_poll_first:
  assumes "z_output1 this = None" "z_output2 this = Some (Inr b)"
  shows "p (z_future1 this) = Some (s1, Pending) \<Longrightarrow> try_zip_poll p q this = Some (this\<lparr>z_future1 := s1\<rparr>, Pending)"
    "p (z_future1 this) = Some (s1, Ready x) \<Longrightarrow> \<exists>this'. try_zip_poll p q this = Some (this', Ready (case x of Inl e \<Rightarrow> Inl e | Inr a \<Rightarrow> Inr (a, b)))"
  using assms by (auto simp: try_zip_defs split: sum.splits)

lemma try_zip_poll_both:
  assumes "z_output1 this = None" "z_output2 this = None"
  shows "p (z_future1 this) = Some (s1, Pending) \<Longrightarrow> q (z_future2 this) = Some (t1, Pending) \<Longrightarrow>
      try_zip_poll p q this = Some (this\<lparr>z_future1 := s1, z_future2 := t1\<rparr>, Pending)"
    "p (z_future1 this) = Some (s1, Ready (Inl e)) \<Longrightarrow> \<exists>this'. try_zip_poll p q this = Some (this', Ready (Inl e))"
    "p (z_future1 this) = Some (s1, Ready (Inr a)) \<Longrightarrow> q (z_future2 this) = Some (t1, Pending) \<Longrightarrow>
      try_zip_poll p q this = Some (this\<lparr>z_future1 := s1, z_output1 := Some (Inr a), z_future2 := t1\<rparr>, Pending)"
    "p (z_future1 this) = Some (s1, Ready (Inr a)) \<Longrightarrow> q (z_future2 this) = Some (t1, Ready y) \<Longrightarrow>
      \<exists>this'. try_zip_poll p q this = Some (this', Ready (case y of Inl e \<Rightarrow> Inl e | Inr b \<Rightarrow> Inr (a, b)))"
    "p (z_future1 this) = Some (s1, Pending) \<Longrightarrow> q (z_future2 this) = Some (t1, Ready (Inl e')) \<Longrightarrow>
      \<exists>this'. try_zip_poll p q this = Some (this', Ready (Inl e'))"
    "p (z_future1 this) = Some (s1, Pending) \<Longrightarrow> q (z_future2 this) = Some (t1, Ready (Inr b)) \<Longrightarrow>
      try_zip_poll p q this = Some (this\<lparr>z_future1 := s1, z_future2 := t1, z_output2 := Some (Inr b)\<rparr>, Pending)"
  using assms by (auto simp: try_zip_defs split: sum.splits)

lemma try_zip_second_resolves:
  assumes "resolves_in q m (z_future2 this) y" "z_output1 this = Some (Inr a)" "z_output2 this = None"
  shows "resolves_in (try_zip_poll p q) m this (case y of Inl e \<Rightarrow> Inl e | Inr b \<Rightarrow> Inr (a, b))"
  using assms
proof (induction m arbitrary: this)
  case (Suc m)
  then obtain t1 where t: "q (z_future2 this) = Some (t1, Pending)" "resolves_in q m t1 y" by (auto simp: resolves_in_simps)
  then show ?case using Suc.IH [of "this\<lparr>z_future2 := t1\<rparr>"] Suc.prems try_zip_poll_second(1) [of this a q t1 p] by (simp add: resolves_in_simps)
qed (auto simp: resolves_in_simps intro: try_zip_poll_second(2))

lemma try_zip_first_resolves:
  assumes "resolves_in p n (z_future1 this) x" "z_output1 this = None" "z_output2 this = Some (Inr b)"
  shows "resolves_in (try_zip_poll p q) n this (case x of Inl e \<Rightarrow> Inl e | Inr a \<Rightarrow> Inr (a, b))"
  using assms
proof (induction n arbitrary: this)
  case (Suc n)
  then obtain s1 where s: "p (z_future1 this) = Some (s1, Pending)" "resolves_in p n s1 x" by (auto simp: resolves_in_simps)
  then show ?case using Suc.IH [of "this\<lparr>z_future1 := s1\<rparr>"] Suc.prems try_zip_poll_first(1) [of this b p s1 q] by (simp add: resolves_in_simps)
qed (auto simp: resolves_in_simps intro: try_zip_poll_first(2))

text \<open>The last poll of the race between the two futures: the first is ready, or only the second is.\<close>

lemma try_zip_first_ready:
  assumes "p (z_future1 this) = Some (s1, Ready x)" "resolves_in q m (z_future2 this) y" "z_output1 this = None" "z_output2 this = None"
  shows "resolves_in (try_zip_poll p q) (fst (try_zip_spec 0 x m y)) this (snd (try_zip_spec 0 x m y))"
proof (cases x)
  case (Inl e)
  then show ?thesis using try_zip_poll_both(2) [of this p s1 e q, OF assms(3,4)] assms(1)
    by (simp add: try_zip_spec_def resolves_in_simps split: sum.splits)
next
  case (Inr a)
  have spec: "try_zip_spec 0 x m y = (m, case y of Inl e \<Rightarrow> Inl e | Inr b \<Rightarrow> Inr (a, b))"
    using Inr by (simp add: try_zip_spec_def split: sum.splits)
  show ?thesis
  proof (cases m)
    case 0
    then obtain t1 where "q (z_future2 this) = Some (t1, Ready y)" using assms by (auto simp: resolves_in_simps)
    then show ?thesis using 0 Inr spec try_zip_poll_both(4) [of this p s1 a q t1 y, OF assms(3,4)] assms(1) by (simp add: resolves_in_simps)
  next
    case (Suc k)
    then obtain t1 where t: "q (z_future2 this) = Some (t1, Pending)" "resolves_in q k t1 y" using assms by (auto simp: resolves_in_simps)
    have "resolves_in (try_zip_poll p q) k (this\<lparr>z_future1 := s1, z_output1 := Some (Inr a), z_future2 := t1\<rparr>) (case y of Inl e \<Rightarrow> Inl e | Inr b \<Rightarrow> Inr (a, b))"
      using t assms by (intro try_zip_second_resolves) simp_all
    then show ?thesis using Suc Inr spec try_zip_poll_both(3) [of this p s1 a q t1, OF assms(3,4)] assms(1) t(1) by (simp add: resolves_in_simps)
  qed
qed

lemma try_zip_second_ready:
  assumes "p (z_future1 this) = Some (s1, Pending)" "resolves_in p n s1 x" "q (z_future2 this) = Some (t1, Ready y)"
    "z_output1 this = None" "z_output2 this = None"
  shows "resolves_in (try_zip_poll p q) (fst (try_zip_spec (Suc n) x 0 y)) this (snd (try_zip_spec (Suc n) x 0 y))"
proof (cases y)
  case (Inl e)
  then show ?thesis using try_zip_poll_both(5) [of this p s1 q t1 e, OF assms(4,5)] assms(1,3)
    by (simp add: try_zip_spec_def resolves_in_simps split: sum.splits)
next
  case (Inr b)
  have spec: "try_zip_spec (Suc n) x 0 y = (Suc n, case x of Inl e \<Rightarrow> Inl e | Inr a \<Rightarrow> Inr (a, b))"
    using Inr by (simp add: try_zip_spec_def split: sum.splits)
  have "resolves_in (try_zip_poll p q) n (this\<lparr>z_future1 := s1, z_future2 := t1, z_output2 := Some (Inr b)\<rparr>) (case x of Inl e \<Rightarrow> Inl e | Inr a \<Rightarrow> Inr (a, b))"
    using assms by (intro try_zip_first_resolves) simp_all
  then show ?thesis using Inr spec try_zip_poll_both(6) [of this p s1 q t1 b, OF assms(4,5)] assms(1,3) by (simp add: resolves_in_simps)
qed

lemma try_zip_spec_Suc: "try_zip_spec (Suc n) x (Suc m) y = (Suc (fst (try_zip_spec n x m y)), snd (try_zip_spec n x m y))"
  by (simp add: try_zip_spec_def split: sum.splits)

lemma try_zip_resolves:
  assumes "resolves_in p n (z_future1 this) x" "resolves_in q m (z_future2 this) y" "z_output1 this = None" "z_output2 this = None"
  shows "resolves_in (try_zip_poll p q) (fst (try_zip_spec n x m y)) this (snd (try_zip_spec n x m y))"
  using assms
proof (induction n arbitrary: this m)
  case 0
  then show ?case using try_zip_first_ready [of p this _ x q m y] by (auto simp: resolves_in_simps)
next
  case (Suc n)
  then obtain s1 where s: "p (z_future1 this) = Some (s1, Pending)" "resolves_in p n s1 x" by (auto simp: resolves_in_simps)
  show ?case
  proof (cases m)
    case 0
    then show ?thesis using try_zip_second_ready [of p this s1 n x q _ y] s Suc.prems by (auto simp: resolves_in_simps)
  next
    case (Suc k)
    then obtain t1 where t: "q (z_future2 this) = Some (t1, Pending)" "resolves_in q k t1 y" using Suc.prems by (auto simp: resolves_in_simps)
    have "resolves_in (try_zip_poll p q) (fst (try_zip_spec n x k y)) (this\<lparr>z_future1 := s1, z_future2 := t1\<rparr>) (snd (try_zip_spec n x k y))"
      using s t Suc.prems by (intro Suc.IH) simp_all
    with Suc show ?thesis using try_zip_poll_both(1) [of this p s1 q t1, OF Suc.prems(3,4) s(1) t(1)] by (simp add: resolves_in_simps try_zip_spec_Suc)
  qed
qed

lemma timeout_pends:
  "pends p n (to_future this) s \<Longrightarrow> pends d n (to_delay this) u \<Longrightarrow> pends (timeout_poll p d) n this (this\<lparr>to_future := s, to_delay := u\<rparr>)"
proof (induction n arbitrary: this)
  case (Suc n)
  then obtain s1 u1 where "p (to_future this) = Some (s1, Pending)" "pends p n s1 s" "d (to_delay this) = Some (u1, Pending)" "pends d n u1 u" by auto
  then show ?case using Suc.IH [of "this\<lparr>to_future := s1, to_delay := u1\<rparr>"] by (simp add: timeout_poll_def)
qed simp

lemma timeout_resolves:
  "resolves_in p n (to_future this) a \<Longrightarrow> pending_for d n (to_delay this) \<Longrightarrow> resolves_in (timeout_poll p d) n this (Inr a)"
  "pending_for p (Suc n) (to_future this) \<Longrightarrow> resolves_in d n (to_delay this) i \<Longrightarrow> resolves_in (timeout_poll p d) n this (Inl TimeoutError)"
proof -
  note defs = resolves_in_def timeout_poll_def pending_for_def
  show "resolves_in (timeout_poll p d) n this (Inr a)"
    if "resolves_in p n (to_future this) a" "pending_for d n (to_delay this)"
    using that unfolding pending_for_def by (elim resolvesE exE) (drule timeout_pends, assumption, fastforce simp: defs)
  show "resolves_in (timeout_poll p d) n this (Inl TimeoutError)"
    if "pending_for p (Suc n) (to_future this)" "resolves_in d n (to_delay this) i"
    using that by (elim resolvesE pends_last) (drule timeout_pends, assumption, fastforce simp: defs)
qed

lemma catch_unwind_pends: "pends p n s s1 \<Longrightarrow> pends (catch_unwind_poll p) n s s1"
  by (induction n arbitrary: s) (auto simp: catch_unwind_poll_def)

lemma catch_unwind_resolves:
  "resolves_in p n s r \<Longrightarrow> resolves_in (catch_unwind_poll p) n s (Inr r)"
  "pends p n s s1 \<Longrightarrow> p s1 = Some (s2, Panicked) \<Longrightarrow> resolves_in (catch_unwind_poll p) n s (Inl ())"
  using catch_unwind_pends by (fastforce simp: resolves_in_def catch_unwind_poll_def)+

text \<open>
  A future with the calls of its waker: each pending poll is followed by a call, or not by
  the \<open>n\<close>-th.
\<close>

definition quiet :: "('s \<Rightarrow> ('s \<times> 'a poll \<times> bool) option) \<Rightarrow> ('s, 'a) future" where
  "quiet p s = map_option (\<lambda>(s', r, _). (s', r)) (p s)"

fun wakes_for :: "('s \<Rightarrow> ('s \<times> 'a poll \<times> bool) option) \<Rightarrow> nat \<Rightarrow> 's \<Rightarrow> 's \<Rightarrow> bool" where
  "wakes_for p 0 s s' = (s' = s)"
| "wakes_for p (Suc n) s s' = (\<exists>s1. p s = Some (s1, Pending, True) \<and> wakes_for p n s1 s')"

lemma wakes_quiet: "wakes_for p n s s' \<Longrightarrow> pends (quiet p) n s s'"
  by (induction n arbitrary: s) (auto simp: quiet_def)

lemma block_on_wakes: "wakes_for p n s s' \<Longrightarrow> block_on p False s = block_on p False s'"
  by (induction n arbitrary: s) (auto simp: block_on.simps [of p False])

text \<open>The futures that do not wrap another one.\<close>

definition yield_waking :: "waker \<Rightarrow> bool \<Rightarrow> (bool \<times> unit poll \<times> bool) option" where
  "yield_waking cx this = (case yield_now_poll cx this of ((this', r), woken) \<Rightarrow> Some (this', r, cx \<in> set woken))"

lemma pending_forever: "pends future_pending_poll n () ()"
  by (induction n) (simp_all add: future_pending_poll_def)

lemma outstanding_never: "pends outstanding_poll n \<lparr>out_data = None\<rparr> \<lparr>out_data = None\<rparr>"
  by (induction n) (simp_all add: outstanding_poll_def)

lemma ready_once: "ready_poll (Some v) = Some (None, Ready v)" "ready_poll None = Some (None, Panicked)"
  by (simp_all add: ready_poll_def)

lemma poll_once_now:
  "p s = Some (s1, Ready r) \<Longrightarrow> poll_once_poll p s = Some (s1, Ready (Some r))"
  "p s = Some (s1, Pending) \<Longrightarrow> poll_once_poll p s = Some (s1, Ready None)"
  by (simp_all add: poll_once_poll_def)

section \<open>Properties\<close>

text \<open>
  Two futures joined (C34). The first resolves to \<open>x\<close> after \<open>n\<close> pending polls, the second to \<open>y\<close>
  after \<open>m\<close>; nothing is assumed of a future after that. \<open>zip\<close> resolves to both at the later of the
  two polls. \<open>try_zip\<close> does so with two successes, and otherwise resolves to the error that comes
  first, at once; it never reaches its \<open>unreachable!\<close>. \<open>or\<close> and \<open>race\<close> resolve to the faster future, and
  when both are ready at the same poll to the first one, or to the one that the random choice of
  that poll names. \<open>timeout\<close> resolves to the future's value when the timer, the second future, is
  not faster, and otherwise to the timeout error at the poll at which the timer fires.
\<close>

theorem future_pairs_correct:
  fixes p :: "('s, 'e + 'a) future" and q :: "('t, 'e + 'a) future"
  assumes "resolves_in p n s x" "resolves_in q m t y"
  shows "resolves_in (future_zip_poll p q) (max n m) (zip_new s t) (x, y) \<and>
    (case try_zip_spec n x m y of (k, r) \<Rightarrow> resolves_in (try_zip_poll p q) k (zip_new s t) r) \<and>
    resolves_in (future_or_poll p q) (min n m) \<lparr>future1 = s, future2 = t\<rparr> (if n \<le> m then x else y) \<and>
    resolves_in (race_polls coin p q) (min n m) (0, \<lparr>future1 = s, future2 = t\<rparr>) (if n < m \<or> n = m \<and> coin n then x else y) \<and>
    resolves_in (timeout_poll p q) (min n m) \<lparr>to_future = s, to_delay = t\<rparr> (if n \<le> m then Inr x else Inl TimeoutError)"
proof (intro conjI)
  show "resolves_in (future_zip_poll p q) (max n m) (zip_new s t) (x, y)"
    by (rule zip_resolves) (use assms in \<open>simp_all add: zip_new_def\<close>)
  show "case try_zip_spec n x m y of (k, r) \<Rightarrow> resolves_in (try_zip_poll p q) k (zip_new s t) r"
    using try_zip_resolves [of p n "zip_new s t" x q m y] assms by (simp add: zip_new_def case_prod_beta)
  have race: "resolves_in (race_polls c p q) (min n m) (0, \<lparr>future1 = s, future2 = t\<rparr>) (if n < m \<or> n = m \<and> c n then x else y)" for c
    using race_both [of p n "\<lparr>future1 = s, future2 = t\<rparr>" x q m y c 0] assms by simp
  then show "resolves_in (race_polls coin p q) (min n m) (0, \<lparr>future1 = s, future2 = t\<rparr>) (if n < m \<or> n = m \<and> coin n then x else y)" .
  show "resolves_in (future_or_poll p q) (min n m) \<lparr>future1 = s, future2 = t\<rparr> (if n \<le> m then x else y)"
    using or_race [OF race] by (simp add: le_less)
  show "resolves_in (timeout_poll p q) (min n m) \<lparr>to_future = s, to_delay = t\<rparr> (if n \<le> m then Inr x else Inl TimeoutError)"
    using timeout_resolves(1) [of p n "\<lparr>to_future = s, to_delay = t\<rparr>" x q] timeout_resolves(2) [of p m "\<lparr>to_future = s, to_delay = t\<rparr>" q y]
      resolves_pending [OF assms(2), of n] resolves_pending [OF assms(1), of "Suc m"] assms by (simp add: min_def not_le Suc_le_eq)
qed

text \<open>A future that is pending for as many polls as its state says.\<close>

definition countdown :: "'a \<Rightarrow> (nat, 'a) future" where
  "countdown r k = (case k of 0 \<Rightarrow> Some (0, Ready r) | Suc j \<Rightarrow> Some (j, Pending))"

lemma countdown_resolves: "resolves_in (countdown r) k k r"
  by (induction k) (auto simp: resolves_in_simps countdown_def)

theorem future_pairs_correct_witness:
  "resolves_in (try_zip_poll (countdown (Inr 3 :: string + nat)) (countdown (Inl ''late'' :: string + nat))) 2 (zip_new 1 2) (Inl ''late'') \<and>
   resolves_in (timeout_poll (countdown (Inr 3 :: string + nat)) (countdown (Inl ''late'' :: string + nat))) 1 \<lparr>to_future = 1, to_delay = 2\<rparr> (Inr (Inr 3))"
  using future_pairs_correct [OF countdown_resolves [of "Inr 3 :: string + nat" 1] countdown_resolves [of "Inl ''late'' :: string + nat" 2], of "\<lambda>_. True"]
  by (simp add: try_zip_spec_def)



end
