(* ===== verification/Rander.thy ===== *)
theory Rander
  imports Cynthia_Prelude "HOL-Library.Multiset"
begin

text \<open>
  The random number generator (src/cynthia/src/utils/rander.rs). \<open>Rander\<close> is a cell with the
  64-bit state of a linear congruential generator; every method takes the state and returns
  the next one. The three copies of the rejection sampler and the macro \<open>rand_integer!\<close> are one
  definition each, with the width and the generator as parameters. A range that is empty
  panics, which is \<open>AssertFailed\<close> here. The rejection loop may not end for a bad generator, so
  it is a partial function; for 32-bit draws it is shown to end.
\<close>

section \<open>The generator\<close>

type_synonym rander = u64

definition lcg :: "rander \<Rightarrow> rander" where
  "lcg s = s * 6364136223846793005 + 1442695040888963407"

definition pcg_output :: "rander \<Rightarrow> u32" where
  "pcg_output s = word_rotr (unat (drop_bit 59 s)) (ucast (drop_bit 27 (s XOR drop_bit 18 s)))"

definition gen_u32 :: "rander \<Rightarrow> rander \<times> u32" where
  "gen_u32 s = (lcg s, pcg_output s)"

definition gen_u64 :: "rander \<Rightarrow> rander \<times> u64" where
  "gen_u64 s = (case gen_u32 s of (s1, a) \<Rightarrow> case gen_u32 s1 of (s2, b) \<Rightarrow> (s2, push_bit 32 (ucast a) OR ucast b))"

definition gen_u128 :: "rander \<Rightarrow> rander \<times> u128" where
  "gen_u128 s = (case gen_u64 s of (s1, a) \<Rightarrow> case gen_u64 s1 of (s2, b) \<Rightarrow> (s2, push_bit 64 (ucast a) OR ucast b))"

definition rander_seed :: "u64 \<Rightarrow> rander" where
  "rander_seed seed = fst (gen_u32 (seed + 1442695040888963407))"

definition rander_clone :: "rander \<Rightarrow> rander \<times> rander" where
  "rander_clone s = (case gen_u64 s of (s1, seed) \<Rightarrow> (s1, rander_seed seed))"

section \<open>High halves of products\<close>

definition mul_high_u32 :: "u32 \<Rightarrow> u32 \<Rightarrow> u32" where
  "mul_high_u32 a b = ucast (drop_bit 32 ((ucast a :: u64) * ucast b))"

definition mul_high_u64 :: "u64 \<Rightarrow> u64 \<Rightarrow> u64" where
  "mul_high_u64 a b = ucast (drop_bit 64 ((ucast a :: u128) * ucast b))"

definition mul_high_u128 :: "u128 \<Rightarrow> u128 \<Rightarrow> u128" where
  "mul_high_u128 a b =
     (let a_lo = ucast (ucast a :: u64) :: u128;
          a_hi = ucast (ucast (drop_bit 64 a) :: u64);
          b_lo = ucast (ucast b :: u64);
          b_hi = ucast (ucast (drop_bit 64 b) :: u64);
          carry = drop_bit 64 (a_lo * b_lo);
          carry' = drop_bit 64 (ucast (ucast (a_hi * b_lo) :: u64) + ucast (ucast (a_lo * b_hi) :: u64) + carry)
      in a_hi * b_hi + drop_bit 64 (a_hi * b_lo) + drop_bit 64 (a_lo * b_hi) + carry')"

section \<open>Rejection sampling\<close>

partial_function (option) gen_mod_loop ::
  "(rander \<Rightarrow> rander \<times> 'w::len word) \<Rightarrow> ('w word \<Rightarrow> 'w word \<Rightarrow> 'w word) \<Rightarrow> 'w word \<Rightarrow> 'w word \<Rightarrow> rander \<Rightarrow> 'w word \<Rightarrow> 'w word \<Rightarrow> (rander \<times> 'w word) option" where
  "gen_mod_loop gen mul_high n t s hi lo =
     (if lo < t then case gen s of (s', r) \<Rightarrow> gen_mod_loop gen mul_high n t s' (mul_high r n) (r * n) else Some (s, hi))"

definition gen_mod :: "(rander \<Rightarrow> rander \<times> 'w::len word) \<Rightarrow> ('w word \<Rightarrow> 'w word \<Rightarrow> 'w word) \<Rightarrow> 'w word \<Rightarrow> rander \<Rightarrow> (rander \<times> 'w word) option" where
  "gen_mod gen mul_high n s =
     (case gen s of (s', r) \<Rightarrow>
      let hi = mul_high r n; lo = r * n in
      if lo < n then gen_mod_loop gen mul_high n (- n mod n) s' hi lo else Some (s', hi))"

definition gen_mod_u32 :: "u32 \<Rightarrow> rander \<Rightarrow> (rander \<times> u32) option" where
  "gen_mod_u32 = gen_mod gen_u32 mul_high_u32"

definition gen_mod_u64 :: "u64 \<Rightarrow> rander \<Rightarrow> (rander \<times> u64) option" where
  "gen_mod_u64 = gen_mod gen_u64 mul_high_u64"

definition gen_mod_u128 :: "u128 \<Rightarrow> rander \<Rightarrow> (rander \<times> u128) option" where
  "gen_mod_u128 = gen_mod gen_u128 mul_high_u128"

section \<open>Integers in a range\<close>

datatype 'a bound = Included 'a | Excluded 'a | Unbounded

fun range_low :: "'t::len word \<Rightarrow> 't word \<Rightarrow> 't word bound \<Rightarrow> 't word fallible" where
  "range_low tmin tmax Unbounded = Inr tmin"
| "range_low tmin tmax (Included x) = Inr x"
| "range_low tmin tmax (Excluded x) = (if x = tmax then Inl AssertFailed else Inr (x + 1))"

fun range_high :: "'t::len word \<Rightarrow> 't word \<Rightarrow> 't word bound \<Rightarrow> 't word fallible" where
  "range_high tmin tmax Unbounded = Inr tmax"
| "range_high tmin tmax (Included x) = Inr x"
| "range_high tmin tmax (Excluded x) = (if x = tmin then Inl AssertFailed else Inr (x - 1))"

text \<open>
  The body of the macro: \<open>le\<close>, \<open>tmin\<close> and \<open>tmax\<close> are those of the type, \<open>ext\<close> is the cast of the
  length to the generator's type, which extends the sign of a signed type.
\<close>

definition rand_integer :: "('t::len word \<Rightarrow> 't word \<Rightarrow> bool) \<Rightarrow> 't word \<Rightarrow> 't word \<Rightarrow> ('t word \<Rightarrow> 'w word) \<Rightarrow>
    (rander \<Rightarrow> rander \<times> 'w::len word) \<Rightarrow> ('w word \<Rightarrow> rander \<Rightarrow> (rander \<times> 'w word) option) \<Rightarrow>
    't word bound \<Rightarrow> 't word bound \<Rightarrow> rander \<Rightarrow> (rander \<times> 't word) option fallible" where
  "rand_integer le tmin tmax ext gen md start end s =
     bind_fallible (range_low tmin tmax start) (\<lambda>low.
     bind_fallible (range_high tmin tmax end) (\<lambda>high.
     if \<not> le low high then Inl AssertFailed
     else if low = tmin \<and> high = tmax then Inr (Some (case gen s of (s', r) \<Rightarrow> (s', ucast r)))
     else let len = high - low + 1 in
          Inr (map_option (\<lambda>(s', m). (s', low + ucast m)) (md (ext len) s))))"

definition smin :: "'t::len word" where "smin = push_bit (LENGTH('t) - 1) 1"

definition smax :: "'t::len word" where "smax = smin - 1"

definition rand_u8 :: "u8 bound \<Rightarrow> u8 bound \<Rightarrow> rander \<Rightarrow> (rander \<times> u8) option fallible" where
  "rand_u8 = rand_integer (\<le>) 0 (- 1) ucast gen_u32 gen_mod_u32"

definition rand_u16 :: "16 word bound \<Rightarrow> 16 word bound \<Rightarrow> rander \<Rightarrow> (rander \<times> 16 word) option fallible" where
  "rand_u16 = rand_integer (\<le>) 0 (- 1) ucast gen_u32 gen_mod_u32"

definition rand_u32 :: "u32 bound \<Rightarrow> u32 bound \<Rightarrow> rander \<Rightarrow> (rander \<times> u32) option fallible" where
  "rand_u32 = rand_integer (\<le>) 0 (- 1) ucast gen_u32 gen_mod_u32"

definition rand_u64 :: "u64 bound \<Rightarrow> u64 bound \<Rightarrow> rander \<Rightarrow> (rander \<times> u64) option fallible" where
  "rand_u64 = rand_integer (\<le>) 0 (- 1) ucast gen_u64 gen_mod_u64"

definition rand_usize :: "usize bound \<Rightarrow> usize bound \<Rightarrow> rander \<Rightarrow> (rander \<times> usize) option fallible" where
  "rand_usize = rand_integer (\<le>) 0 (- 1) ucast gen_u64 gen_mod_u64"

definition rand_u128 :: "u128 bound \<Rightarrow> u128 bound \<Rightarrow> rander \<Rightarrow> (rander \<times> u128) option fallible" where
  "rand_u128 = rand_integer (\<le>) 0 (- 1) ucast gen_u128 gen_mod_u128"

definition rand_i8 :: "u8 bound \<Rightarrow> u8 bound \<Rightarrow> rander \<Rightarrow> (rander \<times> u8) option fallible" where
  "rand_i8 = rand_integer (\<lambda>x y. sint x \<le> sint y) smin smax scast gen_u32 gen_mod_u32"

definition rand_i16 :: "16 word bound \<Rightarrow> 16 word bound \<Rightarrow> rander \<Rightarrow> (rander \<times> 16 word) option fallible" where
  "rand_i16 = rand_integer (\<lambda>x y. sint x \<le> sint y) smin smax scast gen_u32 gen_mod_u32"

definition rand_i32 :: "u32 bound \<Rightarrow> u32 bound \<Rightarrow> rander \<Rightarrow> (rander \<times> u32) option fallible" where
  "rand_i32 = rand_integer (\<lambda>x y. sint x \<le> sint y) smin smax scast gen_u32 gen_mod_u32"

definition rand_i64 :: "u64 bound \<Rightarrow> u64 bound \<Rightarrow> rander \<Rightarrow> (rander \<times> u64) option fallible" where
  "rand_i64 = rand_integer (\<lambda>x y. sint x \<le> sint y) smin smax scast gen_u64 gen_mod_u64"

definition rand_isize :: "usize bound \<Rightarrow> usize bound \<Rightarrow> rander \<Rightarrow> (rander \<times> usize) option fallible" where
  "rand_isize = rand_integer (\<lambda>x y. sint x \<le> sint y) smin smax scast gen_u64 gen_mod_u64"

definition rand_i128 :: "u128 bound \<Rightarrow> u128 bound \<Rightarrow> rander \<Rightarrow> (rander \<times> u128) option fallible" where
  "rand_i128 = rand_integer (\<lambda>x y. sint x \<le> sint y) smin smax scast gen_u128 gen_mod_u128"

section \<open>Booleans, characters and shuffles\<close>

definition rand_bool :: "rander \<Rightarrow> (rander \<times> bool) option fallible" where
  "rand_bool s = bind_fallible (rand_u8 Unbounded Unbounded s) (\<lambda>x. Inr (map_option (\<lambda>(s', b). (s', b mod 2 = 0)) x))"

text \<open>One of the characters of a table; an index out of range panics.\<close>

definition char_of_table :: "string \<Rightarrow> rander \<Rightarrow> (rander \<times> char) option fallible" where
  "char_of_table cs s =
     bind_fallible (rand_u8 Unbounded (Excluded (of_nat (length cs))) s) (\<lambda>x.
     case x of
       None \<Rightarrow> Inr None
     | Some (s', i) \<Rightarrow> if unat i < length cs then Inr (Some (s', cs ! unat i)) else Inl IndexOutOfBounds)"

definition lower_chars :: string where "lower_chars = ''abcdefghijklmnopqrstuvwxyz''"

definition upper_chars :: string where "upper_chars = ''ABCDEFGHIJKLMNOPQRSTUVWXYZ''"

definition digit_chars :: string where "digit_chars = ''0123456789''"

definition lowercase :: "rander \<Rightarrow> (rander \<times> char) option fallible" where
  "lowercase = char_of_table lower_chars"

definition uppercase :: "rander \<Rightarrow> (rander \<times> char) option fallible" where
  "uppercase = char_of_table upper_chars"

definition alphabetic :: "rander \<Rightarrow> (rander \<times> char) option fallible" where
  "alphabetic = char_of_table (upper_chars @ lower_chars)"

definition alphanumeric :: "rander \<Rightarrow> (rander \<times> char) option fallible" where
  "alphanumeric = char_of_table (upper_chars @ lower_chars @ digit_chars)"

definition digit_char :: "u8 \<Rightarrow> char" where
  "digit_char num = (if num < 10 then char_of (unat (48 + num)) else char_of (unat (97 + num - 10)))"

definition digit :: "u32 \<Rightarrow> rander \<Rightarrow> (rander \<times> char) option fallible" where
  "digit base s =
     (if base = 0 \<or> 36 < base then Inl AssertFailed
      else bind_fallible (rand_u8 Unbounded (Excluded (ucast base)) s) (\<lambda>x. Inr (map_option (\<lambda>(s', num). (s', digit_char num)) x)))"

definition slice_swap :: "'a list \<Rightarrow> nat \<Rightarrow> nat \<Rightarrow> 'a list fallible" where
  "slice_swap xs i j = (if i < length xs \<and> j < length xs then Inr (xs[i := xs ! j, j := xs ! i]) else Inl IndexOutOfBounds)"

fun shuffle_from :: "nat list \<Rightarrow> rander \<Rightarrow> 'a list \<Rightarrow> (rander \<times> 'a list) option fallible" where
  "shuffle_from [] s xs = Inr (Some (s, xs))"
| "shuffle_from (i # is) s xs =
     bind_fallible (rand_usize Unbounded (Included (of_nat i)) s) (\<lambda>x.
     case x of
       None \<Rightarrow> Inr None
     | Some (s', j) \<Rightarrow> bind_fallible (slice_swap xs i (unat j)) (\<lambda>xs'. shuffle_from is s' xs'))"

definition shuffle :: "rander \<Rightarrow> 'a list \<Rightarrow> (rander \<times> 'a list) option fallible" where
  "shuffle s xs = shuffle_from [1..<length xs] s xs"

section \<open>The high halves\<close>

lemma unat_prod: "unat x * unat y < 2 ^ LENGTH('w) \<Longrightarrow> unat (x * y :: 'w::len word) = unat x * unat y"
  by (simp add: unat_word_ariths)

lemma unat_sum: "unat x + unat y < 2 ^ LENGTH('w) \<Longrightarrow> unat (x + y :: 'w::len word) = unat x + unat y"
  by (simp add: unat_word_ariths)

lemma unat_shift: "unat (drop_bit k x) = unat x div 2 ^ k"
  using drop_bit_eq_div [of k "unat x"] by (simp add: unat_drop_bit_eq)

lemma unat_cast: "unat (ucast (x :: 'a::len word) :: 'b::len word) = unat x mod 2 ^ LENGTH('b)"
  by (simp add: unsigned_ucast_eq take_bit_eq_mod)

lemma unat_bound: "unat (x :: 'w::len word) < 2 ^ LENGTH('w)"
  by (rule unsigned_less)

lemma prod_less: "(a :: nat) < m \<Longrightarrow> b < m \<Longrightarrow> a * b \<le> (m - 1) * (m - 1)"
  by (intro mult_mono) auto

lemma mul_high_u32: "unat (mul_high_u32 a b) = unat a * unat b div 2 ^ 32"
proof -
  have ab: "unat a < 2 ^ 32" "unat b < 2 ^ 32" using unat_bound [of a] unat_bound [of b] by simp_all
  then have p: "unat a * unat b \<le> (2 ^ 32 - 1) * (2 ^ 32 - 1)" by (rule prod_less)
  have c: "unat (ucast a :: u64) = unat a" "unat (ucast b :: u64) = unat b" using ab by (simp_all add: unat_cast)
  have "unat ((ucast a :: u64) * ucast b) = unat a * unat b" using p by (subst unat_prod) (simp_all add: c)
  then show ?thesis using p by (simp add: mul_high_u32_def unat_cast unat_shift)
qed

lemma mul_high_u64: "unat (mul_high_u64 a b) = unat a * unat b div 2 ^ 64"
proof -
  have ab: "unat a < 2 ^ 64" "unat b < 2 ^ 64" using unat_bound [of a] unat_bound [of b] by simp_all
  then have p: "unat a * unat b \<le> (2 ^ 64 - 1) * (2 ^ 64 - 1)" by (rule prod_less)
  have c: "unat (ucast a :: u128) = unat a" "unat (ucast b :: u128) = unat b" using ab by (simp_all add: unat_cast)
  have "unat ((ucast a :: u128) * ucast b) = unat a * unat b" using p by (subst unat_prod) (simp_all add: c)
  then show ?thesis using p by (simp add: mul_high_u64_def unat_cast unat_shift)
qed

text \<open>Schoolbook multiplication of two-digit numbers to the base \<open>m\<close>; the high digits.\<close>

lemma schoolbook_high:
  fixes m :: nat
  assumes "0 < m"
  shows "(ah * m + al) * (bh * m + bl) div (m * m) =
    ah * bh + ah * bl div m + al * bh div m + (ah * bl mod m + al * bh mod m + al * bl div m) div m"
proof -
  have "(ah * m + al) * (bh * m + bl) = al * bl + m * (ah * bl + al * bh + m * (ah * bh))" by (simp add: algebra_simps)
  then have "(ah * m + al) * (bh * m + bl) div (m * m) = (al * bl div m + (ah * bl + al * bh + m * (ah * bh))) div m"
    using assms by (simp add: div_mult2_eq ac_simps)
  also have "\<dots> = (al * bl div m + (ah * bl + al * bh)) div m + ah * bh"
    using assms div_mult_self1 [of m "al * bl div m + (ah * bl + al * bh)" "ah * bh"] by (simp add: ac_simps)
  also have "al * bl div m + (ah * bl + al * bh) =
      (ah * bl mod m + al * bh mod m + al * bl div m) + (ah * bl div m + al * bh div m) * m"
    using div_mult_mod_eq [of "ah * bl" m] div_mult_mod_eq [of "al * bh" m] by (simp add: algebra_simps)
  finally show ?thesis using assms by simp
qed

lemma mul_high_u128: "unat (mul_high_u128 a b) = unat a * unat b div 2 ^ 128"
proof -
  define m :: nat where "m = 2 ^ 64"
  define al ah bl bh where "al = unat a mod m" "ah = unat a div m" "bl = unat b mod m" "bh = unat b div m"
  have A: "unat a = ah * m + al" "unat b = bh * m + bl" by (simp_all add: al_ah_bl_bh_def)
  have m: "m * m = 2 ^ 128" "0 < m" by (simp_all add: m_def)
  have ab: "unat a < m * m" "unat b < m * m" using unat_bound [of a] unat_bound [of b] by (simp_all add: m)
  have less: "al < m" "bl < m" "ah < m" "bh < m" using m ab by (simp_all add: al_ah_bl_bh_def less_mult_imp_div_less)
  have cast: "unat (ucast (ucast x :: u64) :: u128) = unat x mod m" for x :: u128 by (simp add: unat_cast m_def)
  have prod: "unat (x * y) = unat x * unat y" if "unat x < m" "unat y < m" for x y :: u128
    using prod_less [OF that] by (intro unat_prod) (simp add: m_def)
  let ?al = "ucast (ucast a :: u64) :: u128" and ?ah = "ucast (ucast (drop_bit 64 a) :: u64) :: u128"
  let ?bl = "ucast (ucast b :: u64) :: u128" and ?bh = "ucast (ucast (drop_bit 64 b) :: u64) :: u128"
  have d: "unat ?al = al" "unat ?ah = ah" "unat ?bl = bl" "unat ?bh = bh"
    using less unfolding cast unat_shift by (simp_all add: al_ah_bl_bh_def m_def)
  have pr: "unat (?al * ?bl) = al * bl" "unat (?ah * ?bl) = ah * bl" "unat (?al * ?bh) = al * bh" "unat (?ah * ?bh) = ah * bh"
    using less by (simp_all add: prod d)
  have sh: "unat (drop_bit 64 x) = unat x div m" for x :: u128 by (simp add: unat_shift m_def)
  have lo: "al * bl div m < m" "ah * bl mod m < m" "al * bh mod m < m" using less m(2) by (simp_all add: less_mult_imp_div_less mult_strict_mono)
  let ?c = "ucast (ucast (?ah * ?bl) :: u64) + ucast (ucast (?al * ?bh) :: u64) + drop_bit 64 (?al * ?bl)"
  have s1: "unat (ucast (ucast (?ah * ?bl) :: u64) + ucast (ucast (?al * ?bh) :: u64) :: u128) = ah * bl mod m + al * bh mod m"
    using lo by (subst unat_sum) (simp_all only: cast pr, simp add: m_def)
  have s2: "unat ?c = ah * bl mod m + al * bh mod m + al * bl div m"
    using lo by (subst unat_sum) (simp_all only: s1 sh pr, simp add: m_def)
  define hi where "hi = ah * bh + ah * bl div m + al * bh div m + (ah * bl mod m + al * bh mod m + al * bl div m) div m"
  have h: "hi = unat a * unat b div (m * m)" unfolding hi_def A using schoolbook_high [OF m(2)] by simp
  have "unat a * unat b < (m * m) * (m * m)" using ab m(2) by (intro mult_strict_mono) auto
  then have "hi < m * m" unfolding h by (rule less_mult_imp_div_less)
  then have b: "hi < 2 ^ LENGTH(128)" by (simp add: m)
  have "mul_high_u128 a b = ?ah * ?bh + drop_bit 64 (?ah * ?bl) + drop_bit 64 (?al * ?bh) + drop_bit 64 ?c"
    by (simp add: mul_high_u128_def Let_def)
  also have "unat \<dots> = hi"
  proof -
    have l: "ah * bh + ah * bl div m < 2 ^ LENGTH(128)" "ah * bh + ah * bl div m + al * bh div m < 2 ^ LENGTH(128)"
      using b unfolding hi_def by linarith+
    have 1: "unat (?ah * ?bh + drop_bit 64 (?ah * ?bl)) = ah * bh + ah * bl div m"
      using l(1) unat_sum [of "?ah * ?bh" "drop_bit 64 (?ah * ?bl)"] by (simp only: sh pr)
    have 2: "unat (?ah * ?bh + drop_bit 64 (?ah * ?bl) + drop_bit 64 (?al * ?bh)) = ah * bh + ah * bl div m + al * bh div m"
      using l(2) unat_sum [of "?ah * ?bh + drop_bit 64 (?ah * ?bl)" "drop_bit 64 (?al * ?bh)"] by (simp only: 1 sh pr)
    show ?thesis
      using b unat_sum [of "?ah * ?bh + drop_bit 64 (?ah * ?bl) + drop_bit 64 (?al * ?bh)" "drop_bit 64 ?c"] by (simp only: 2 sh s2 hi_def)
  qed
  finally show ?thesis by (simp add: h m)
qed

section \<open>The sampler\<close>

text \<open>A draw \<open>r\<close> is rejected when the low half of \<open>r * n\<close> is below \<open>2 ^ w mod n\<close>.\<close>

definition accepted :: "'w::len word \<Rightarrow> 'w word \<Rightarrow> bool" where
  "accepted n r \<longleftrightarrow> \<not> r * n < - n mod n"

lemma threshold:
  fixes n :: "'w::len word"
  assumes "n \<noteq> 0"
  shows "unat (- n mod n) = 2 ^ LENGTH('w) mod unat n"
proof -
  have "(unat (- n) + unat n) mod 2 ^ LENGTH('w) = 0" using unat_word_ariths(1) [of "- n" n] by simp
  moreover have "0 < unat n" "unat n < 2 ^ LENGTH('w)" "unat (- n) < 2 ^ LENGTH('w)" using assms unat_bound by (auto simp: unat_gt_0)
  ultimately have "unat (- n) + unat n = 2 ^ LENGTH('w)" by (cases "unat (- n) + unat n < 2 ^ LENGTH('w)") (auto simp: le_mod_geq not_less)
  then have "unat (- n) = 2 ^ LENGTH('w) - unat n" by simp
  moreover have "unat n \<le> 2 ^ LENGTH('w)" by (rule less_imp_le [OF unat_bound])
  ultimately show ?thesis by (simp add: unat_mod le_mod_geq)
qed

text \<open>The multiples of \<open>n\<close> in an interval whose length is \<open>q * n\<close>.\<close>

lemma multiples_in_interval:
  fixes n :: nat
  assumes "0 < n"
  shows "card {x. c \<le> x * n \<and> x * n < c + q * n} = q"
proof -
  define x0 where "x0 = (c + n - 1) div n"
  have up: "c \<le> x * n \<longleftrightarrow> x0 \<le> x" for x
  proof -
    have "x0 \<le> x \<longleftrightarrow> x0 < Suc x" by auto
    also have "\<dots> \<longleftrightarrow> c + n - 1 < Suc x * n" unfolding x0_def using assms by (simp add: div_less_iff_less_mult)
    also have "\<dots> \<longleftrightarrow> c \<le> x * n" using assms by auto
    finally show ?thesis by simp
  qed
  have "x * n < c + q * n \<longleftrightarrow> x < x0 + q" for x
  proof (cases "x < q")
    case True
    then have "x * n < q * n" using assms by simp
    then have "x * n < c + q * n" by linarith
    then show ?thesis using True by simp
  next
    case False
    then obtain y where y: "x = y + q" by (metis add.commute le_Suc_ex not_less)
    then show ?thesis using up [of y] by (auto simp: algebra_simps not_le [symmetric])
  qed
  then have "{x. c \<le> x * n \<and> x * n < c + q * n} = {x0..<x0 + q}" using up by auto
  then show ?thesis by simp
qed

lemma gen_mod_loop_less:
  assumes "gen_mod_loop gen mul_high n t s hi lo = Some (s', h)" "\<And>r. mul_high r n < n" "hi < n"
  shows "h < n"
proof -
  have "(\<forall>r. mul_high r n < n) \<longrightarrow> hi < n \<longrightarrow> snd (s', h) < n"
    by (rule gen_mod_loop.raw_induct [OF _ assms(1), of "\<lambda>gen mul_high n t s hi lo y. (\<forall>r. mul_high r n < n) \<longrightarrow> hi < n \<longrightarrow> snd y < n"])
      (auto split: if_splits prod.splits)
  then show ?thesis using assms by simp
qed

locale rejection_sampler =
  fixes gen :: "rander \<Rightarrow> rander \<times> 'w::len word" and mul_high :: "'w word \<Rightarrow> 'w word \<Rightarrow> 'w word"
  assumes high: "unat (mul_high a b) = unat a * unat b div 2 ^ LENGTH('w)"
begin

definition draw :: "nat \<Rightarrow> rander \<Rightarrow> 'w word" where
  "draw i s = snd (gen (((fst \<circ> gen) ^^ i) s))"

lemma high_less:
  assumes "n \<noteq> 0"
  shows "mul_high r n < n"
proof -
  have "unat r * unat n < 2 ^ LENGTH('w) * unat n" using unat_bound [of r] assms by (simp add: unat_gt_0)
  then have "unat (mul_high r n) < unat n" unfolding high by (simp add: less_mult_imp_div_less mult.commute)
  then show ?thesis by (simp add: word_less_nat_alt)
qed

lemma gen_mod_less:
  assumes "gen_mod gen mul_high n s = Some (s', h)" "n \<noteq> 0"
  shows "h < n"
  using assms gen_mod_loop_less [of gen mul_high n] high_less [OF assms(2)]
  by (auto simp: gen_mod_def Let_def split: prod.splits if_splits)

text \<open>The result comes from the first draw that is accepted.\<close>

lemma loop_first:
  assumes "\<And>i. i < k \<Longrightarrow> \<not> accepted n (draw i s)" "accepted n (draw k s)" "lo < - n mod n"
  shows "gen_mod_loop gen mul_high n (- n mod n) s hi lo = Some (((fst \<circ> gen) ^^ Suc k) s, mul_high (draw k s) n)"
  using assms
proof (induction k arbitrary: s hi lo)
  case 0
  obtain s1 r where g: "gen s = (s1, r)" by (cases "gen s")
  then have "\<not> r * n < - n mod n" using 0 by (simp add: accepted_def draw_def)
  then show ?case using 0(3) g by (subst gen_mod_loop.simps, simp, subst gen_mod_loop.simps) (simp add: draw_def)
next
  case (Suc k)
  obtain s1 r where g: "gen s = (s1, r)" by (cases "gen s")
  then have d: "draw (Suc i) s = draw i s1" for i by (simp add: draw_def funpow_swap1)
  have r: "r * n < - n mod n" using Suc.prems(1) [of 0] g by (simp add: accepted_def draw_def)
  have "gen_mod_loop gen mul_high n (- n mod n) s1 (mul_high r n) (r * n) = Some (((fst \<circ> gen) ^^ Suc k) s1, mul_high (draw k s1) n)"
    using Suc.prems(1) [of "Suc i" for i] Suc.prems(2) r by (intro Suc.IH) (simp_all add: d)
  then show ?case using Suc.prems(3) g d by (subst gen_mod_loop.simps) (simp add: funpow_swap1)
qed

lemma gen_mod_first:
  assumes "\<And>i. i < k \<Longrightarrow> \<not> accepted n (draw i s)" "accepted n (draw k s)" "n \<noteq> 0"
  shows "gen_mod gen mul_high n s = Some (((fst \<circ> gen) ^^ Suc k) s, mul_high (draw k s) n)"
proof -
  obtain s1 r where g: "gen s = (s1, r)" by (cases "gen s")
  then have d: "draw 0 s = r" "draw (Suc i) s = draw i s1" for i by (simp_all add: draw_def funpow_swap1)
  have t: "- n mod n < n" using assms(3) by (simp add: word_mod_less_divisor word_gt_0)
  show ?thesis
  proof (cases k)
    case 0
    then have "\<not> r * n < - n mod n" using assms(2) d by (simp add: accepted_def)
    then show ?thesis using 0 g d by (auto simp: gen_mod_def Let_def gen_mod_loop.simps)
  next
    case (Suc j)
    have r: "r * n < - n mod n" using assms(1) [of 0] Suc d by (simp add: accepted_def)
    then have "r * n < n" using t by simp
    moreover have "gen_mod_loop gen mul_high n (- n mod n) s1 (mul_high r n) (r * n) = Some (((fst \<circ> gen) ^^ Suc j) s1, mul_high (draw j s1) n)"
      using assms(1) [of "Suc i" for i] assms(2) Suc r by (intro loop_first) (simp_all add: d)
    ultimately show ?thesis using Suc g d by (simp add: gen_mod_def Let_def funpow_swap1)
  qed
qed

lemma gen_mod_returns:
  assumes "accepted n (draw k s)" "n \<noteq> 0"
  shows "\<exists>s' h. gen_mod gen mul_high n s = Some (s', h)"
proof -
  define j where "j = (LEAST j. accepted n (draw j s))"
  have "accepted n (draw j s)" "\<And>i. i < j \<Longrightarrow> \<not> accepted n (draw i s)"
    using assms(1) unfolding j_def by (auto intro: LeastI dest: not_less_Least)
  then show ?thesis using gen_mod_first assms(2) by blast
qed

text \<open>Every number below \<open>n\<close> has the same number of accepted draws.\<close>

lemma unbiased:
  assumes "n \<noteq> 0" "h < n"
  shows "card {r. accepted n r \<and> mul_high r n = h} = 2 ^ LENGTH('w) div unat n"
proof -
  define W N t c where "W = (2 :: nat) ^ LENGTH('w)" "N = unat n" "t = W mod N" "c = unat h * W + t"
  note defs = this
  have N: "0 < N" using assms(1) by (simp add: defs unat_gt_0)
  have hN: "unat h < N" using assms(2) by (simp add: defs word_less_nat_alt)
  have NW: "N < W" unfolding defs by (rule unat_bound)
  have W: "0 < W" "W = W div N * N + t" by (simp_all add: defs)
  have iff: "accepted n r \<and> mul_high r n = h \<longleftrightarrow> c \<le> unat r * N \<and> unat r * N < c + W div N * N" for r
  proof -
    have "accepted n r \<longleftrightarrow> t \<le> unat r * N mod W"
      using threshold [OF assms(1)] by (simp add: accepted_def word_less_nat_alt not_less defs unat_word_ariths)
    moreover have "mul_high r n = h \<longleftrightarrow> unat r * N div W = unat h" using high [of r n] by (auto simp: word_unat_eq_iff defs)
    moreover have "t \<le> x mod W \<and> x div W = unat h \<longleftrightarrow> c \<le> x \<and> x < c + W div N * N" for x
    proof -
      have e: "c + W div N * N = unat h * W + W" using W(2) by (simp add: defs(4))
      have "x div W = unat h \<longleftrightarrow> unat h * W \<le> x \<and> x < unat h * W + W"
      proof
        assume h: "x div W = unat h"
        have "unat h * W + x mod W = x" using div_mult_mod_eq [of x W] unfolding h .
        then show "unat h * W \<le> x \<and> x < unat h * W + W" using mod_less_divisor [OF W(1), of x] by linarith
      next
        assume "unat h * W \<le> x \<and> x < unat h * W + W"
        then show "x div W = unat h" by (intro div_nat_eqI) (simp_all add: mult.commute)
      qed
      moreover have "t \<le> x mod W \<longleftrightarrow> c \<le> x" if "x div W = unat h"
        using div_mult_mod_eq [of x W] that unfolding defs(4) by (metis add.commute add_le_cancel_left mult.commute)
      moreover have "t < W" using mod_less_divisor [OF N, of W] NW by (simp add: defs(3))
      ultimately show ?thesis unfolding e by (auto simp: defs(4))
    qed
    ultimately show ?thesis by blast
  qed
  have "unat ` {r. accepted n r \<and> mul_high r n = h} = {x. c \<le> x * N \<and> x * N < c + W div N * N}"
  proof (intro set_eqI iffI)
    fix x
    assume "x \<in> {x. c \<le> x * N \<and> x * N < c + W div N * N}"
    then have x: "c \<le> x * N" "x * N < c + W div N * N" by auto
    have "c + W div N * N = Suc (unat h) * W" using W(2) by (simp add: defs(4))
    also have "\<dots> \<le> N * W" using hN by (intro mult_le_mono1) simp
    finally have "x * N < W * N" using x(2) by (metis mult.commute order_less_le_trans)
    then have "x < W" by simp
    then have "unat (of_nat x :: 'w word) = x" by (simp add: defs unat_of_nat)
    then show "x \<in> unat ` {r. accepted n r \<and> mul_high r n = h}" using x iff [of "of_nat x"] by (intro image_eqI [of _ _ "of_nat x"]) auto
  qed (use iff in auto)
  then have "card (unat ` {r. accepted n r \<and> mul_high r n = h}) = W div N" using multiples_in_interval [OF N] by simp
  moreover have "inj_on unat {r. accepted n r \<and> mul_high r n = h}" by (simp add: inj_on_def word_unat_eq_iff)
  ultimately show ?thesis by (simp add: card_image defs)
qed

lemma some_accepted:
  fixes n :: "'w word"
  assumes "n \<noteq> 0"
  shows "\<exists>r. accepted n r"
proof -
  have "0 < 2 ^ LENGTH('w) div unat n" using less_imp_le [OF unat_bound [of n]] assms by (simp only: div_greater_zero_iff unat_gt_0) simp
  then have "{r. accepted n r \<and> mul_high r n = 0} \<noteq> {}" using unbiased [OF assms, of 0] assms by (metis card.empty less_numeral_extra(3) word_gt_0)
  then show ?thesis by blast
qed

end

interpretation sampler32: rejection_sampler gen_u32 mul_high_u32
  by unfold_locales (simp add: mul_high_u32)

interpretation sampler64: rejection_sampler gen_u64 mul_high_u64
  by unfold_locales (simp add: mul_high_u64)

interpretation sampler128: rejection_sampler gen_u128 mul_high_u128
  by unfold_locales (simp add: mul_high_u128)

section \<open>The period of the generator\<close>

text \<open>The step of the generator on integers, without reduction.\<close>

definition step_int :: "int \<Rightarrow> int" where
  "step_int x = 6364136223846793005 * x + 1442695040888963407"

lemma lcg_step_int: "lcg (word_of_int x) = word_of_int (step_int x)"
  by (simp add: lcg_def step_int_def)

lemma lcg_steps: "(lcg ^^ m) (word_of_int x) = word_of_int ((step_int ^^ m) x)"
  by (induction m arbitrary: x) (simp_all add: funpow_swap1 lcg_step_int)

text \<open>\<open>2 ^ k\<close> steps are an affine map whose factor is 1 modulo \<open>2 ^ (k + 2)\<close> and whose constant is an odd multiple of \<open>2 ^ k\<close>.\<close>

lemma step_power:
  "\<exists>a c. (\<forall>x. (step_int ^^ (2 ^ k)) x = (1 + 2 ^ (k + 2) * a) * x + 2 ^ k * (2 * c + 1))"
proof (induction k)
  case 0
  have "(step_int ^^ (2 ^ 0)) x = (1 + 2 ^ (0 + 2) * 1591034055961698251) * x + 2 ^ 0 * (2 * 721347520444481703 + 1)" for x
    by (simp add: step_int_def)
  then show ?case by blast
next
  case (Suc k)
  then obtain a c where f: "(step_int ^^ (2 ^ k)) x = (1 + 2 ^ (k + 2) * a) * x + 2 ^ k * (2 * c + 1)" for x by blast
  have "(step_int ^^ (2 ^ Suc k)) x = (step_int ^^ (2 ^ k)) ((step_int ^^ (2 ^ k)) x)" for x
    by (simp add: funpow_add mult_2)
  then have "(step_int ^^ (2 ^ Suc k)) x =
      (1 + 2 ^ (Suc k + 2) * (a + 2 ^ (k + 1) * a * a)) * x + 2 ^ Suc k * (2 * (c + 2 ^ k * (2 * c + 1) * a) + 1)" for x
    unfolding f by (simp add: algebra_simps power_add)
  then show ?case by blast
qed

text \<open>Every state is reached from every other: the generator has the full period.\<close>

lemma step_reaches: "\<exists>m. (2 :: int) ^ k dvd (step_int ^^ m) x - y"
proof (induction k)
  case (Suc k)
  then obtain m d where m: "(step_int ^^ m) x - y = 2 ^ k * d" by (auto elim: dvdE)
  show ?case
  proof (cases "even d")
    case True
    then show ?thesis using m by (auto intro!: exI [of _ m] elim!: evenE)
  next
    case False
    then obtain e where d: "d = 2 * e + 1" by (auto elim: oddE)
    obtain a c where f: "(step_int ^^ (2 ^ k)) z = (1 + 2 ^ (k + 2) * a) * z + 2 ^ k * (2 * c + 1)" for z using step_power by blast
    have "(step_int ^^ (2 ^ k + m)) x = (step_int ^^ (2 ^ k)) ((step_int ^^ m) x)" by (simp add: funpow_add)
    also have "\<dots> - y = 2 ^ Suc k * (2 * a * (step_int ^^ m) x + c + e + 1)"
      using m unfolding f d by (simp add: algebra_simps power_add)
    finally show ?thesis by (metis dvd_triv_left)
  qed
qed simp

lemma lcg_reaches: "\<exists>m. (lcg ^^ m) s = s'"
proof -
  obtain m where m: "(2 :: int) ^ 64 dvd (step_int ^^ m) (uint s) - uint s'" using step_reaches by blast
  have "(lcg ^^ m) s = word_of_int ((step_int ^^ m) (uint s))" using lcg_steps [of m "uint s"] by simp
  also have "\<dots> = word_of_int (uint s')" unfolding word_of_int_eq_iff take_bit_eq_mod using m by (simp only: mod_eq_dvd_iff) simp
  finally show ?thesis by (metis word_of_int_uint)
qed

lemma word_rotr_0: "word_rotr 0 r = r"
  by (rule bit_eqI) (simp add: bit_word_rotr_iff)

text \<open>Every 32-bit number is an output.\<close>

lemma pcg_output_surj: "\<exists>s. pcg_output s = r"
proof -
  define y :: u64 where "y = push_bit 27 (ucast r)"
  define s where "s = y XOR drop_bit 18 y XOR drop_bit 36 y XOR drop_bit 54 y"
  have x: "s XOR drop_bit 18 s = y"
    by (rule bit_eqI) (auto simp: s_def y_def bit_simps)
  have "drop_bit 59 s = 0"
    by (rule bit_eqI) (auto simp: s_def y_def bit_simps dest: bit_imp_le_length)
  moreover have "ucast (drop_bit 27 y) = r" by (rule bit_eqI) (auto simp: y_def bit_simps dest: bit_imp_le_length)
  ultimately have "pcg_output s = r" by (simp add: pcg_output_def x word_rotr_0)
  then show ?thesis by blast
qed

lemma comp_gen_u32: "fst \<circ> gen_u32 = lcg"
  by (rule ext) (simp add: gen_u32_def)

lemma draw_u32: "sampler32.draw k s = pcg_output ((lcg ^^ k) s)"
  by (simp add: sampler32.draw_def comp_gen_u32) (simp add: gen_u32_def)

lemma draw_reaches: "\<exists>m. sampler32.draw m s = r"
  unfolding draw_u32 using pcg_output_surj lcg_reaches by metis

lemma gen_mod_u32_returns: "n \<noteq> 0 \<Longrightarrow> \<exists>s' h. gen_mod_u32 n s = Some (s', h)"
proof -
  assume n: "n \<noteq> 0"
  obtain r where r: "accepted n r" using sampler32.some_accepted [OF n] by blast
  then obtain m where "accepted n (sampler32.draw m s)" using draw_reaches by metis
  then show ?thesis using sampler32.gen_mod_returns [OF _ n] unfolding gen_mod_u32_def by blast
qed

lemma less_ne_0: "(h :: 'w::len word) < n \<Longrightarrow> n \<noteq> 0"
  by (metis word_not_simps(1))

section \<open>Ranges\<close>

text \<open>\<open>RangeBounds::contains\<close>.\<close>

definition contains :: "('t \<Rightarrow> 't \<Rightarrow> bool) \<Rightarrow> 't bound \<Rightarrow> 't bound \<Rightarrow> 't \<Rightarrow> bool" where
  "contains le start end x \<longleftrightarrow>
     (case start of Unbounded \<Rightarrow> True | Included a \<Rightarrow> le a x | Excluded a \<Rightarrow> \<not> le x a) \<and>
     (case end of Unbounded \<Rightarrow> True | Included b \<Rightarrow> le x b | Excluded b \<Rightarrow> \<not> le b x)"

text \<open>A range panics when it is empty; otherwise a number that is returned lies in it.\<close>

definition rand_correct :: "('t \<Rightarrow> 't \<Rightarrow> bool) \<Rightarrow> ('t bound \<Rightarrow> 't bound \<Rightarrow> rander \<Rightarrow> (rander \<times> 't) option fallible) \<Rightarrow> bool" where
  "rand_correct le f \<longleftrightarrow> (\<forall>start end s.
     case f start end s of
       Inl p \<Rightarrow> p = AssertFailed \<and> (\<forall>x. \<not> contains le start end x)
     | Inr None \<Rightarrow> True
     | Inr (Some (s', x)) \<Rightarrow> contains le start end x)"

definition rand_returns :: "('t bound \<Rightarrow> 't bound \<Rightarrow> rander \<Rightarrow> (rander \<times> 't) option fallible) \<Rightarrow> bool" where
  "rand_returns f \<longleftrightarrow> (\<forall>start end s. f start end s \<noteq> Inr None)"

text \<open>The values of a machine integer type, signed or not.\<close>

locale integer_type =
  fixes v :: "'t::len word \<Rightarrow> int" and tmin tmax :: "'t word"
  assumes least: "v tmin \<le> v x" and greatest: "v x \<le> v tmax" and inj: "v x = v y \<Longrightarrow> x = y"
    and add: "v x + int k \<le> v tmax \<Longrightarrow> v (x + of_nat k) = v x + int k"
    and pred: "v tmin \<le> v x - 1 \<Longrightarrow> v (x - 1) = v x - 1"
    and diff: "v x \<le> v y \<Longrightarrow> int (unat (y - x)) = v y - v x"
    and span: "v tmax - v tmin = 2 ^ LENGTH('t) - 1"
begin

lemma low_bound:
  "range_low tmin tmax start = Inr low \<Longrightarrow> (case start of Unbounded \<Rightarrow> True | Included a \<Rightarrow> v a \<le> v x | Excluded a \<Rightarrow> \<not> v x \<le> v a) \<longleftrightarrow> v low \<le> v x"
  "range_low tmin tmax start = Inl p \<Longrightarrow> p = AssertFailed \<and> (\<forall>x. \<not> (case start of Unbounded \<Rightarrow> True | Included a \<Rightarrow> v a \<le> v x | Excluded a \<Rightarrow> \<not> v x \<le> v a))"
proof -
  have "v (a + 1) = v a + 1" if "a \<noteq> tmax" for a
    using add [of a 1] greatest [of a] inj [of a tmax] that by fastforce
  then show "(case start of Unbounded \<Rightarrow> True | Included a \<Rightarrow> v a \<le> v x | Excluded a \<Rightarrow> \<not> v x \<le> v a) \<longleftrightarrow> v low \<le> v x"
    if "range_low tmin tmax start = Inr low" using that least by (cases start) (auto split: if_splits)
  show "p = AssertFailed \<and> (\<forall>x. \<not> (case start of Unbounded \<Rightarrow> True | Included a \<Rightarrow> v a \<le> v x | Excluded a \<Rightarrow> \<not> v x \<le> v a))" if "range_low tmin tmax start = Inl p"
    using that greatest by (cases start) (auto split: if_splits)
qed

lemma high_bound:
  "range_high tmin tmax end = Inr high \<Longrightarrow> (case end of Unbounded \<Rightarrow> True | Included b \<Rightarrow> v x \<le> v b | Excluded b \<Rightarrow> \<not> v b \<le> v x) \<longleftrightarrow> v x \<le> v high"
  "range_high tmin tmax end = Inl p \<Longrightarrow> p = AssertFailed \<and> (\<forall>x. \<not> (case end of Unbounded \<Rightarrow> True | Included b \<Rightarrow> v x \<le> v b | Excluded b \<Rightarrow> \<not> v b \<le> v x))"
proof -
  have "v (b - 1) = v b - 1" if "b \<noteq> tmin" for b
    using pred [of b] least [of b] inj [of b tmin] that by fastforce
  then show "(case end of Unbounded \<Rightarrow> True | Included b \<Rightarrow> v x \<le> v b | Excluded b \<Rightarrow> \<not> v b \<le> v x) \<longleftrightarrow> v x \<le> v high"
    if "range_high tmin tmax end = Inr high" using that greatest by (cases "end") (auto split: if_splits)
  show "p = AssertFailed \<and> (\<forall>x. \<not> (case end of Unbounded \<Rightarrow> True | Included b \<Rightarrow> v x \<le> v b | Excluded b \<Rightarrow> \<not> v b \<le> v x))" if "range_high tmin tmax end = Inl p"
    using that least by (cases "end") (auto split: if_splits)
qed

lemma length_of_range:
  assumes "v low \<le> v high" "\<not> (low = tmin \<and> high = tmax)"
  shows "int (unat (high - low + 1)) = v high - v low + 1"
proof -
  have "v high - v low \<noteq> v tmax - v tmin"
  proof
    assume "v high - v low = v tmax - v tmin"
    then have "v low = v tmin" "v high = v tmax" using least [of low] greatest [of high] by linarith+
    then show False using assms(2) inj by blast
  qed
  then have "v high - v low < 2 ^ LENGTH('t) - 1" using least [of low] greatest [of high] span by linarith
  then have u: "int (unat (high - low)) + 1 < 2 ^ LENGTH('t)" using diff [OF assms(1)] by simp
  have "int (unat (high - low) + 1) < int (2 ^ LENGTH('t))" using u by simp
  then have "unat (high - low) + 1 < 2 ^ LENGTH('t)" by (simp only: of_nat_less_iff)
  then have "unat (high - low + 1) = unat (high - low) + 1" by (simp add: unat_word_ariths)
  then show ?thesis using diff [OF assms(1)] by simp
qed

lemma rand_integer_correct:
  fixes md :: "'w::len word \<Rightarrow> rander \<Rightarrow> (rander \<times> 'w word) option"
  assumes md: "\<And>n s s' h. md n s = Some (s', h) \<Longrightarrow> n \<noteq> 0 \<Longrightarrow> h < n" and ext: "\<And>x. unat (ext x) = unat x"
  shows "rand_correct (\<lambda>x y. v x \<le> v y) (rand_integer (\<lambda>x y. v x \<le> v y) tmin tmax ext gen md)"
  unfolding rand_correct_def
proof (intro allI)
  fix start "end" s
  show "case rand_integer (\<lambda>x y. v x \<le> v y) tmin tmax ext gen md start end s of
      Inl p \<Rightarrow> p = AssertFailed \<and> (\<forall>x. \<not> contains (\<lambda>x y. v x \<le> v y) start end x)
    | Inr None \<Rightarrow> True | Inr (Some (s', x)) \<Rightarrow> contains (\<lambda>x y. v x \<le> v y) start end x"
  proof (cases "range_low tmin tmax start")
    case (Inl p)
    then show ?thesis using low_bound(2) [OF Inl] by (auto simp: rand_integer_def contains_def)
  next
    case low: (Inr low)
    show ?thesis
    proof (cases "range_high tmin tmax end")
      case (Inl p)
      then show ?thesis using low high_bound(2) [OF Inl] by (auto simp: rand_integer_def contains_def)
    next
      case high: (Inr high)
      have c: "contains (\<lambda>x y. v x \<le> v y) start end x \<longleftrightarrow> v low \<le> v x \<and> v x \<le> v high" for x
        using low_bound(1) [OF low, of x] high_bound(1) [OF high, of x] by (simp add: contains_def)
      consider (empty) "\<not> v low \<le> v high" | (all) "v low \<le> v high" "low = tmin \<and> high = tmax"
        | (part) "v low \<le> v high" "\<not> (low = tmin \<and> high = tmax)" by blast
      then show ?thesis
      proof cases
        case empty
        then show ?thesis using low high c by (auto simp: rand_integer_def)
      next
        case all
        then show ?thesis using low high c least greatest by (auto simp: rand_integer_def split: prod.split)
      next
        case part
        note l = length_of_range [OF part]
        have n: "int (unat (ext (high - low + 1))) = v high - v low + 1" using l by (simp add: ext)
        have "v low \<le> v (low + ucast m) \<and> v (low + ucast m) \<le> v high" if m: "md (ext (high - low + 1)) s = Some (s', m)" for s' m
        proof -
          have "ext (high - low + 1) \<noteq> 0" using n part(1) by (intro notI) simp
          then have "unat m < unat (ext (high - low + 1))" using md [OF m] by (simp add: word_less_nat_alt)
          then have b: "int (unat m) \<le> v high - v low" using n by linarith
          then have "v (low + of_nat (unat m)) = v low + int (unat m)" using greatest [of high] by (intro add) linarith
          moreover have "(of_nat (unat m) :: 't word) = ucast m" by simp
          ultimately show ?thesis using b by simp
        qed
        then show ?thesis using part low high c by (auto simp: rand_integer_def Let_def split: option.split)
      qed
    qed
  qed
qed

end

lemma uint_integer_type: "integer_type uint (0 :: 't::len word) (- 1)"
proof
  fix x y :: "'t word" and k
  have m: "uint (- 1 :: 't word) = 2 ^ LENGTH('t) - 1" by (simp add: unsigned_minus_1_eq_mask mask_eq_exp_minus_1)
  have b: "0 \<le> uint w" "uint w < 2 ^ LENGTH('t)" for w :: "'t word" by simp_all
  show "uint (0 :: 't word) \<le> uint x" "uint x \<le> uint (- 1 :: 't word)" "uint (- 1 :: 't word) - uint (0 :: 't word) = 2 ^ LENGTH('t) - 1"
    using b [of x] by (simp_all add: m)
  show "x = y" if "uint x = uint y" using that by (simp add: word_uint_eq_iff)
  show "uint (x + of_nat k) = uint x + int k" if "uint x + int k \<le> uint (- 1 :: 't word)"
  proof -
    have "x + of_nat k = word_of_int (uint x + int k)" by simp
    then have "uint (x + of_nat k) = (uint x + int k) mod 2 ^ LENGTH('t)" by (simp only: uint_word_of_int)
    then show ?thesis using that b(1) [of x] by (simp add: m)
  qed
  show "uint (x - 1) = uint x - 1" if "uint (0 :: 't word) \<le> uint x - 1"
  proof -
    have "(uint x - 1) mod 2 ^ LENGTH('t) = uint x - 1" by (rule mod_pos_pos_trivial) (use that b [of x] in \<open>simp, linarith\<close>)
    then show ?thesis by (simp add: uint_word_ariths)
  qed
  show "int (unat (y - x)) = uint y - uint x" if "uint x \<le> uint y"
  proof -
    have "(uint y - uint x) mod 2 ^ LENGTH('t) = uint y - uint x"
      by (rule mod_pos_pos_trivial) (use that b [of x] b [of y] in linarith)+
    then show ?thesis by (simp add: uint_word_ariths)
  qed
qed

lemma sint_integer_type: "integer_type sint (smin :: 't::len word) smax"
proof
  fix x y :: "'t word" and k
  define h :: int where "h = 2 ^ (LENGTH('t) - 1)"
  have p: "2 ^ LENGTH('t) = 2 * h" by (simp add: h_def power_eq_if)
  have of_int: "sint (word_of_int i :: 't word) = i" if "- h \<le> i" "i < h" for i
    using that by (simp add: signed_of_int signed_take_bit_int_eq_self h_def)
  have b: "- h \<le> sint w" "sint w < h" for w :: "'t word"
    using sint_greater_eq [of w] sint_less [of w] by (simp_all add: h_def)
  have wi: "word_of_int (sint w) = w" for w :: "'t word" by simp
  have mn: "smin = (word_of_int (- h) :: 't word)"
  proof -
    have "(word_of_int (- h) :: 't word) = word_of_int h" unfolding word_of_int_eq_iff take_bit_eq_mod p
      by (simp only: mod_eq_dvd_iff) simp
    then show ?thesis by (simp add: smin_def h_def push_bit_eq_mult)
  qed
  have mx: "smax = (word_of_int (h - 1) :: 't word)"
  proof -
    have "(word_of_int (h - 1) :: 't word) = word_of_int (- h - 1)" unfolding word_of_int_eq_iff take_bit_eq_mod p
      by (simp only: mod_eq_dvd_iff) simp
    then show ?thesis by (simp add: smax_def mn)
  qed
  have h: "0 < h" by (simp add: h_def)
  have s: "sint (smin :: 't word) = - h" "sint (smax :: 't word) = h - 1" unfolding mn mx using h of_int [of "- h"] of_int [of "h - 1"] by simp_all
  show "sint (smin :: 't word) \<le> sint x" "sint x \<le> sint (smax :: 't word)" "sint (smax :: 't word) - sint (smin :: 't word) = 2 ^ LENGTH('t) - 1"
    using b [of x] p by (simp_all add: s)
  show "x = y" if "sint x = sint y" using that by (metis wi)
  show "sint (x + of_nat k) = sint x + int k" if "sint x + int k \<le> sint (smax :: 't word)"
    using that b(1) [of x] of_int [of "sint x + int k"] by (simp add: s)
  show "sint (x - 1) = sint x - 1" if "sint (smin :: 't word) \<le> sint x - 1"
    using that b(2) [of x] of_int [of "sint x - 1"] by (simp add: s)
  show "int (unat (y - x)) = sint y - sint x" if "sint x \<le> sint y"
  proof -
    have "y - x = word_of_int (sint y - sint x)" by simp
    then have "uint (y - x) = (sint y - sint x) mod 2 ^ LENGTH('t)" by (simp only: uint_word_of_int)
    then show ?thesis using that b [of x] b [of y] by (simp add: p)
  qed
qed

interpretation unsigned_type: integer_type uint 0 "- 1"
  by (rule uint_integer_type)

interpretation signed_type: integer_type sint smin smax
  by (rule sint_integer_type)

lemma word_le_uint: "(\<le>) = (\<lambda>x y :: 't::len word. uint x \<le> uint y)"
  by (intro ext) (simp add: word_le_def)

lemma gen_mods_less:
  "gen_mod_u32 n s = Some (s', h) \<Longrightarrow> n \<noteq> 0 \<Longrightarrow> h < n"
  "gen_mod_u64 n' s = Some (s', h') \<Longrightarrow> n' \<noteq> 0 \<Longrightarrow> h' < n'"
  "gen_mod_u128 n'' s = Some (s', h'') \<Longrightarrow> n'' \<noteq> 0 \<Longrightarrow> h'' < n''"
  using sampler32.gen_mod_less sampler64.gen_mod_less sampler128.gen_mod_less
  by (auto simp: gen_mod_u32_def gen_mod_u64_def gen_mod_u128_def)

lemma unsigned_correct:
  fixes md :: "'w::len word \<Rightarrow> rander \<Rightarrow> (rander \<times> 'w word) option"
  assumes "\<And>n s s' h. md n s = Some (s', h) \<Longrightarrow> n \<noteq> 0 \<Longrightarrow> h < n" "LENGTH('t::len) \<le> LENGTH('w)"
  shows "rand_correct (\<le>) (rand_integer (\<le>) 0 (- 1 :: 't word) ucast gen md)"
proof -
  have e: "unat (ucast x :: 'w word) = unat x" for x :: "'t word" using assms(2) by (simp add: unsigned_ucast_eq unsigned_take_bit_eq [symmetric] take_bit_word_eq_self)
  show ?thesis unfolding word_le_uint
  proof (rule unsigned_type.rand_integer_correct)
    show "h < n" if "md n s = Some (s', h)" "n \<noteq> 0" for n s s' h using assms(1) [OF that] .
  qed (rule e)
qed

lemma signed_correct:
  fixes md :: "'w::len word \<Rightarrow> rander \<Rightarrow> (rander \<times> 'w word) option"
  assumes "\<And>n s s' h. md n s = Some (s', h) \<Longrightarrow> n \<noteq> 0 \<Longrightarrow> h < n"
  shows "rand_correct (\<lambda>x y. sint x \<le> sint y) (rand_integer (\<lambda>x y. sint x \<le> sint y) smin (smax :: 'w word) scast gen md)"
proof (rule signed_type.rand_integer_correct)
  show "h < n" if "md n s = Some (s', h)" "n \<noteq> 0" for n s s' h using assms(1) [OF that] .
qed simp

lemma rand_integer_returns:
  assumes "\<And>n s. n \<noteq> 0 \<Longrightarrow> md n s \<noteq> None" "\<And>low high. le low high \<Longrightarrow> \<not> (low = tmin \<and> high = tmax) \<Longrightarrow> ext (high - low + 1) \<noteq> 0"
  shows "rand_returns (rand_integer le tmin tmax ext gen md)"
  unfolding rand_returns_def rand_integer_def using assms by (auto simp: Let_def)

lemma range_length_ne_0:
  assumes "le = (\<lambda>x y. v x \<le> v y)" "integer_type v tmin (tmax :: 't::len word)" "le low high" "\<not> (low = tmin \<and> high = tmax)"
  shows "high - low + 1 \<noteq> 0"
proof -
  have "int (unat (high - low + 1)) = v high - v low + 1" using integer_type.length_of_range [OF assms(2)] assms(1,3,4) by simp
  then show ?thesis using assms(1,3) by (intro notI) simp
qed

lemma scast_ne_0:
  fixes x :: "'t::len word"
  assumes "x \<noteq> 0" "LENGTH('t) \<le> LENGTH('w::len)"
  shows "(scast x :: 'w word) \<noteq> 0" "(ucast x :: 'w word) \<noteq> 0"
proof -
  obtain i where i: "bit x i" "i < LENGTH('t)" using assms(1) bit_imp_le_length by (auto simp: bit_eq_iff [of x 0])
  have "bit (scast x :: 'w word) i" "bit (ucast x :: 'w word) i" using i assms(2) by (cases "i = LENGTH('t) - 1"; auto simp: bit_simps min_def)+
  then show "(scast x :: 'w word) \<noteq> 0" "(ucast x :: 'w word) \<noteq> 0" by auto
qed

section \<open>Shuffles and characters\<close>

lemma swap_mset: "slice_swap xs i j = Inr ys \<Longrightarrow> mset ys = mset xs \<and> length ys = length xs"
  by (auto simp: slice_swap_def mset_swap split: if_splits)

lemma rand_usize_correct: "rand_correct (\<le>) rand_usize"
  unfolding rand_usize_def by (rule unsigned_correct) (auto dest: gen_mods_less(2))

lemma shuffle_from_correct:
  assumes "\<forall>i\<in>set is. i < length xs" "length xs < 2 ^ 64"
  shows "case shuffle_from is s xs of Inl p \<Rightarrow> False | Inr None \<Rightarrow> True | Inr (Some (s', ys)) \<Rightarrow> mset ys = mset xs"
  using assms
proof (induction "is" arbitrary: s xs)
  case (Cons i "is")
  have i: "i < length xs" "unat (of_nat i :: usize) = i" using Cons.prems by (simp_all add: unat_usize_of_nat)
  note c = rand_usize_correct [unfolded rand_correct_def, rule_format, of Unbounded "Included (of_nat i)" s]
  show ?case
  proof (cases "rand_usize Unbounded (Included (of_nat i)) s")
    case (Inl p)
    then have "\<not> contains (\<le>) Unbounded (Included (of_nat i)) (0 :: usize)" using c by simp
    then show ?thesis by (simp add: contains_def)
  next
    case (Inr x)
    show ?thesis
    proof (cases x)
      case (Some y)
      obtain s' j where y: "y = (s', j)" by (cases y)
      have "j \<le> of_nat i" using c Inr Some y by (simp add: contains_def)
      then have "unat j < length xs" using i by (simp add: word_le_nat_alt)
      then obtain zs where zs: "slice_swap xs i (unat j) = Inr zs" using i by (simp add: slice_swap_def)
      with swap_mset [OF zs] Cons.IH [of zs s'] Cons.prems show ?thesis by (auto simp: Inr Some y split: sum.splits option.splits prod.splits)
    qed (simp add: Inr)
  qed
qed simp

lemma rand_u8_correct: "rand_correct (\<le>) rand_u8"
  unfolding rand_u8_def by (rule unsigned_correct) (auto dest: gen_mods_less(1))

text \<open>The types that draw 32 bits always return.\<close>

lemma unsigned_returns:
  assumes "LENGTH('t::len) \<le> 32"
  shows "rand_returns (rand_integer (\<le>) 0 (- 1 :: 't word) ucast gen_u32 gen_mod_u32)"
proof (rule rand_integer_returns)
  show "gen_mod_u32 n s \<noteq> None" if "n \<noteq> 0" for n s using gen_mod_u32_returns [OF that, of s] by auto
  show "(ucast (high - low + 1) :: u32) \<noteq> 0" if "low \<le> high" "\<not> (low = 0 \<and> high = - 1)" for low high :: "'t word"
    using that assms range_length_ne_0 [OF word_le_uint uint_integer_type] by (intro scast_ne_0(2)) auto
qed

lemma signed_returns:
  assumes "LENGTH('t::len) \<le> 32"
  shows "rand_returns (rand_integer (\<lambda>x y. sint x \<le> sint y) smin (smax :: 't word) scast gen_u32 gen_mod_u32)"
proof (rule rand_integer_returns)
  show "gen_mod_u32 n s \<noteq> None" if "n \<noteq> 0" for n s using gen_mod_u32_returns [OF that, of s] by auto
  show "(scast (high - low + 1) :: u32) \<noteq> 0" if "sint low \<le> sint high" "\<not> (low = smin \<and> high = smax)" for low high :: "'t word"
    using that assms range_length_ne_0 [OF refl sint_integer_type] by (intro scast_ne_0(1)) auto
qed

lemma rand_u8_returns: "rand_returns rand_u8"
  unfolding rand_u8_def by (rule unsigned_returns) simp

lemma rand_u8_below:
  assumes "n \<noteq> 0"
  shows "\<exists>s' i. rand_u8 Unbounded (Excluded n) s = Inr (Some (s', i)) \<and> i < n"
proof -
  note c = rand_u8_correct [unfolded rand_correct_def, rule_format, of Unbounded "Excluded n" s]
  have "contains (\<le>) Unbounded (Excluded n) 0" using assms by (simp add: contains_def)
  then obtain x where x: "rand_u8 Unbounded (Excluded n) s = Inr x" using c by (cases "rand_u8 Unbounded (Excluded n) s") auto
  then obtain s' i where "x = Some (s', i)" using rand_u8_returns by (cases x) (auto simp: rand_returns_def)
  then show ?thesis using c x by (simp add: contains_def)
qed

lemma char_of_table_correct:
  assumes "cs \<noteq> []" "length cs < 256"
  shows "\<exists>s' c. char_of_table cs s = Inr (Some (s', c)) \<and> c \<in> set cs"
proof -
  have n: "unat (of_nat (length cs) :: u8) = length cs" using assms(2) by (simp add: unat_of_nat)
  then have "(of_nat (length cs) :: u8) \<noteq> 0" using assms(1) by (metis length_0_conv unat_0)
  then obtain s' i where i: "rand_u8 Unbounded (Excluded (of_nat (length cs))) s = Inr (Some (s', i))" "i < of_nat (length cs)"
    using rand_u8_below by blast
  then have "unat i < length cs" using n by (simp add: word_less_nat_alt)
  then show ?thesis using i by (simp add: char_of_table_def)
qed

lemma digit_correct:
  assumes "base \<noteq> 0" "base \<le> 36"
  shows "\<exists>s' num. digit base s = Inr (Some (s', digit_char num)) \<and> unat num < unat base"
proof -
  have b: "unat (ucast base :: u8) = unat base" using assms(2) by (simp add: unat_cast word_le_nat_alt)
  then have "(ucast base :: u8) \<noteq> 0" using assms(1) by (metis unat_0 unat_eq_zero)
  then obtain s' i where "rand_u8 Unbounded (Excluded (ucast base)) s = Inr (Some (s', i))" "i < ucast base" using rand_u8_below by blast
  then show ?thesis using assms b by (auto simp: digit_def word_less_nat_alt word_le_nat_alt)
qed

section \<open>Properties\<close>


text \<open>
  The sampler is unbiased (C37). \<open>gen_mod_u32\<close> returns for every \<open>n\<close> that is not 0. What it returns
  comes from the first draw of the generator that is accepted, and every number below
  \<open>n\<close> comes from exactly \<open>2 ^ 32 div n\<close> of the accepted draws. The same counts hold for the
  samplers of 64 and 128 bits.
\<close>

theorem rander_unbiased:
  "(n \<noteq> 0 \<longrightarrow> (\<exists>k. accepted n (pcg_output ((lcg ^^ k) s)) \<and> (\<forall>i<k. \<not> accepted n (pcg_output ((lcg ^^ i) s))) \<and>
      gen_mod_u32 n s = Some ((lcg ^^ Suc k) s, mul_high_u32 (pcg_output ((lcg ^^ k) s)) n))) \<and>
   (h < n \<longrightarrow> card {r. accepted n r \<and> mul_high_u32 r n = h} = 2 ^ 32 div unat n) \<and>
   (h' < n' \<longrightarrow> card {r. accepted n' r \<and> mul_high_u64 r n' = h'} = 2 ^ 64 div unat n') \<and>
   (h'' < n'' \<longrightarrow> card {r. accepted n'' r \<and> mul_high_u128 r n'' = h''} = 2 ^ 128 div unat n'')"
proof (intro conjI impI)
  show "\<exists>k. accepted n (pcg_output ((lcg ^^ k) s)) \<and> (\<forall>i<k. \<not> accepted n (pcg_output ((lcg ^^ i) s))) \<and>
      gen_mod_u32 n s = Some ((lcg ^^ Suc k) s, mul_high_u32 (pcg_output ((lcg ^^ k) s)) n)" if n: "n \<noteq> 0"
  proof -
    obtain r where "accepted n r" using sampler32.some_accepted [OF n] by blast
    then obtain m where m: "accepted n (sampler32.draw m s)" using draw_reaches by metis
    define k where "k = (LEAST j. accepted n (sampler32.draw j s))"
    have k: "accepted n (sampler32.draw k s)" "\<And>i. i < k \<Longrightarrow> \<not> accepted n (sampler32.draw i s)"
      using m unfolding k_def by (auto intro: LeastI dest: not_less_Least)
    then show ?thesis using sampler32.gen_mod_first [OF k(2,1) n] by (auto simp: draw_u32 gen_mod_u32_def comp_gen_u32)
  qed
  show "card {r. accepted n r \<and> mul_high_u32 r n = h} = 2 ^ 32 div unat n" if "h < n"
    using sampler32.unbiased [OF less_ne_0 [OF that] that] by simp
  show "card {r. accepted n' r \<and> mul_high_u64 r n' = h'} = 2 ^ 64 div unat n'" if "h' < n'"
    using sampler64.unbiased [OF less_ne_0 [OF that] that] by simp
  show "card {r. accepted n'' r \<and> mul_high_u128 r n'' = h''} = 2 ^ 128 div unat n''" if "h'' < n''"
    using sampler128.unbiased [OF less_ne_0 [OF that] that] by simp
qed

theorem rander_unbiased_witness:
  "card {r :: u32. accepted 3 r \<and> mul_high_u32 r 3 = 2} = 1431655765 \<and> (\<exists>s' h. gen_mod_u32 3 0 = Some (s', h))"
  using rander_unbiased [of 3 0 2] by (simp, blast)



text \<open>
  For \<open>i8\<close> the length of the range \<open>-100..=100\<close> wraps to -55, and \<open>len as u32\<close> extends the sign. The
  numbers drawn are not below 201, and the result can lie outside of the range.
\<close>

lemma rand_i8_out_of_range:
  "rand_i8 (Included (- 100)) (Included 100) 1099511627776 = Inr (Some (lcg 1099511627776, - 101))"
  by (simp add: rand_i8_def rand_integer_def smin_def smax_def gen_mod_u32_def gen_mod_def gen_u32_def pcg_output_def mul_high_u32_def gen_mod_loop.simps word_rotr_0)

end
