(* ===== verification/Sleepers.thy ===== *)
theory Sleepers
  imports Lock_Base
begin

text \<open>
  The list of sleeping tickers (src/cynthia/src/platform/waker/sleeper.rs). Every registered
  ticker has an id and counts; those whose waker is not in the list have been notified.
  The count is the number of tickers, each of which is an object in memory, so it is a natural
  number; taking one away from 0 is an overflow.
\<close>

section \<open>The sleepers\<close>

record sleeper =
  sl_count :: nat
  sl_wakers :: "(nat \<times> waker) list"
  sl_free :: "nat list"

definition sleeper_new :: sleeper where
  "sleeper_new = \<lparr>sl_count = 0, sl_wakers = [], sl_free = []\<rparr>"

definition sleeper_insert :: "waker \<Rightarrow> sleeper \<Rightarrow> sleeper \<times> nat" where
  "sleeper_insert w s =
     (let (key, free) = (if sl_free s = [] then (sl_count s + 1, []) else (last (sl_free s), butlast (sl_free s)))
      in (s\<lparr>sl_count := sl_count s + 1, sl_wakers := sl_wakers s @ [(key, w)], sl_free := free\<rparr>, key))"

text \<open>The loop of \<open>update\<close>: the list with the waker of \<open>key\<close> replaced, if there is one.\<close>

fun update_wakers :: "(waker \<Rightarrow> waker \<Rightarrow> bool) \<Rightarrow> nat \<Rightarrow> waker \<Rightarrow> (nat \<times> waker) list \<Rightarrow> (nat \<times> waker) list option" where
  "update_wakers ww key w [] = None"
| "update_wakers ww key w (item # items) =
     (if fst item = key then Some ((if ww (snd item) w then item else (key, w)) # items)
      else map_option ((#) item) (update_wakers ww key w items))"

definition sleeper_update :: "(waker \<Rightarrow> waker \<Rightarrow> bool) \<Rightarrow> nat \<Rightarrow> waker \<Rightarrow> sleeper \<Rightarrow> sleeper \<times> bool" where
  "sleeper_update ww key w s =
     (case update_wakers ww key w (sl_wakers s) of
        Some items \<Rightarrow> (s\<lparr>sl_wakers := items\<rparr>, False)
      | None \<Rightarrow> (s\<lparr>sl_wakers := sl_wakers s @ [(key, w)]\<rparr>, True))"

text \<open>The loop of \<open>remove\<close> runs over the indices below \<open>i\<close> from the largest one.\<close>

fun remove_waker :: "nat \<Rightarrow> nat \<Rightarrow> (nat \<times> waker) list \<Rightarrow> (nat \<times> waker) list option" where
  "remove_waker 0 key items = None"
| "remove_waker (Suc i) key items =
     (if fst (items ! i) = key then Some (take i items @ drop (Suc i) items) else remove_waker i key items)"

definition sleeper_remove :: "nat \<Rightarrow> sleeper \<Rightarrow> (sleeper \<times> bool) fallible" where
  "sleeper_remove key s =
     (if sl_count s = 0 then Inl Overflow
      else
        let s' = s\<lparr>sl_count := sl_count s - 1, sl_free := sl_free s @ [key]\<rparr>
        in Inr (case remove_waker (length (sl_wakers s)) key (sl_wakers s) of
                  Some items \<Rightarrow> (s'\<lparr>sl_wakers := items\<rparr>, False)
                | None \<Rightarrow> (s', True)))"

definition sleeper_is_notified :: "sleeper \<Rightarrow> bool" where
  "sleeper_is_notified s \<longleftrightarrow> sl_count s = 0 \<or> sl_count s > length (sl_wakers s)"

definition sleeper_notify :: "sleeper \<Rightarrow> sleeper \<times> waker option" where
  "sleeper_notify s =
     (if length (sl_wakers s) = sl_count s \<and> sl_wakers s \<noteq> []
      then (s\<lparr>sl_wakers := butlast (sl_wakers s)\<rparr>, Some (snd (last (sl_wakers s)))) else (s, None))"

section \<open>The loops\<close>

lemma update_wakers_None: "update_wakers ww key w items = None \<longleftrightarrow> key \<notin> fst ` set items"
  by (induction items) auto

lemma update_wakers_Some:
  assumes "update_wakers ww key w items = Some items'"
  shows "map fst items' = map fst items" "\<exists>v. (key, v) \<in> set items' \<and> (v = w \<or> ww v w)" "\<And>a v. a \<noteq> key \<Longrightarrow> (a, v) \<in> set items' \<longleftrightarrow> (a, v) \<in> set items"
proof -
  show "map fst items' = map fst items" using assms by (induction items arbitrary: items') (auto split: if_splits)
  show "\<exists>v. (key, v) \<in> set items' \<and> (v = w \<or> ww v w)"
    using assms by (induction items arbitrary: items') (force split: if_splits)+
  show "(a, v) \<in> set items' \<longleftrightarrow> (a, v) \<in> set items" if "a \<noteq> key" for a v
    using assms that by (induction items arbitrary: items') (auto split: if_splits)
qed

lemma remove_waker_None:
  "n \<le> length items \<Longrightarrow> remove_waker n key items = None \<longleftrightarrow> key \<notin> fst ` set (take n items)"
  by (induction n) (auto simp: take_Suc_conv_app_nth)

lemma remove_waker_Some:
  assumes "distinct (map fst items)" "n \<le> length items" "remove_waker n key items = Some items'"
  shows "set items' = {e \<in> set items. fst e \<noteq> key} \<and> distinct (map fst items') \<and> Suc (length items') = length items"
  using assms(2,3)
proof (induction n)
  case (Suc i)
  show ?case
  proof (cases "fst (items ! i) = key")
    case True
    have e: "take i items @ items ! i # drop (Suc i) items = items" using Suc.prems(1) by (simp add: id_take_nth_drop [symmetric])
    obtain xs y ys where x: "take i items = xs" "items ! i = y" "drop (Suc i) items = ys" by blast
    have "items = xs @ y # ys" "items' = xs @ ys" "fst y = key" using e x True Suc.prems by simp_all
    then show ?thesis using assms(1) by (auto simp: image_iff)
  qed (use Suc in auto)
qed simp

section \<open>The invariant\<close>

text \<open>\<open>A\<close> are the ids of the registered tickers.\<close>

definition sleeper_inv :: "sleeper \<Rightarrow> nat set \<Rightarrow> bool" where
  "sleeper_inv s A \<longleftrightarrow>
     finite A \<and> card A = sl_count s \<and> distinct (map fst (sl_wakers s)) \<and> (\<forall>e\<in>set (sl_wakers s). fst e \<in> A) \<and>
     distinct (sl_free s) \<and> A \<inter> set (sl_free s) = {} \<and> A \<union> set (sl_free s) = {1..sl_count s + length (sl_free s)}"

lemma sleeper_new_inv: "sleeper_inv sleeper_new {}"
  by (simp add: sleeper_inv_def sleeper_new_def)

lemma sleeper_insert_inv:
  assumes "sleeper_inv s A" "sleeper_insert w s = (s', key)"
  shows "key \<notin> A \<and> key \<noteq> 0 \<and> sleeper_inv s' (insert key A) \<and> sl_wakers s' = sl_wakers s @ [(key, w)] \<and> sl_count s' = Suc (sl_count s)"
proof (cases "sl_free s" rule: rev_cases)
  case Nil
  with assms have "key = Suc (sl_count s)" "A = {1..sl_count s}" by (auto simp: sleeper_insert_def sleeper_inv_def)
  with Nil assms show ?thesis by (fastforce simp: sleeper_insert_def sleeper_inv_def)
next
  case (snoc free a)
  with assms have a: "key = a" "a \<notin> A" "a \<notin> set free" by (auto simp: sleeper_insert_def sleeper_inv_def)
  have u: "A \<union> set (free @ [a]) = {1..sl_count s + Suc (length free)}" using snoc assms(1) by (simp add: sleeper_inv_def)
  moreover have "a \<in> A \<union> set (free @ [a])" by simp
  ultimately have "a \<noteq> 0" by (metis atLeastAtMost_iff not_one_le_zero)
  moreover have "insert a (A \<union> set free) = {1..Suc (sl_count s + length free)}" using u by auto
  ultimately show ?thesis using snoc a assms by (auto simp: sleeper_insert_def sleeper_inv_def)
qed

lemma sleeper_update_inv:
  assumes "sleeper_inv s A" "sleeper_update ww key w s = (s', new)" "key \<in> A"
  shows "sleeper_inv s' A \<and> sl_count s' = sl_count s \<and> (new \<longleftrightarrow> key \<notin> fst ` set (sl_wakers s)) \<and>
    (\<exists>v. (key, v) \<in> set (sl_wakers s') \<and> (v = w \<or> ww v w)) \<and> (\<forall>a v. a \<noteq> key \<longrightarrow> (a, v) \<in> set (sl_wakers s') \<longleftrightarrow> (a, v) \<in> set (sl_wakers s)) \<and>
    length (sl_wakers s') = length (sl_wakers s) + of_bool new"
proof (cases "update_wakers ww key w (sl_wakers s)")
  case None
  with update_wakers_None [of ww key w "sl_wakers s"] assms show ?thesis by (auto simp: sleeper_update_def sleeper_inv_def)
next
  case (Some items)
  note u = update_wakers_Some [OF Some]
  have "key \<in> fst ` set (sl_wakers s)" using update_wakers_None [of ww key w "sl_wakers s"] Some by auto
  moreover have "fst ` set items = fst ` set (sl_wakers s)" using u(1) by (metis list.set_map)
  moreover have "length items = length (sl_wakers s)" using u(1) by (metis length_map)
  moreover have "\<forall>e\<in>set items. fst e \<in> A" using calculation(2) assms(1) unfolding sleeper_inv_def by (metis image_iff)
  ultimately show ?thesis using Some u assms by (auto simp: sleeper_update_def sleeper_inv_def)
qed

lemma sleeper_remove_inv:
  assumes "sleeper_inv s A" "key \<in> A"
  shows "\<exists>s'. sleeper_remove key s = Inr (s', key \<notin> fst ` set (sl_wakers s)) \<and> sleeper_inv s' (A - {key}) \<and>
    Suc (sl_count s') = sl_count s \<and> set (sl_wakers s') = {e \<in> set (sl_wakers s). fst e \<noteq> key} \<and>
    length (sl_wakers s) = length (sl_wakers s') + of_bool (key \<in> fst ` set (sl_wakers s))"
proof -
  have c: "sl_count s \<noteq> 0" "card (A - {key}) = sl_count s - 1" using assms by (auto simp: sleeper_inv_def)
  have f: "(A - {key}) \<union> set (sl_free s @ [key]) = {1..sl_count s - 1 + length (sl_free s @ [key])}"
    using assms c(1) by (auto simp: sleeper_inv_def)
  show ?thesis
  proof (cases "remove_waker (length (sl_wakers s)) key (sl_wakers s)")
    case None
    then have n: "key \<notin> fst ` set (sl_wakers s)" by (simp add: remove_waker_None)
    with None assms c f show ?thesis by (auto simp: sleeper_remove_def sleeper_inv_def Let_def)
  next
    case (Some items)
    then have n: "key \<in> fst ` set (sl_wakers s)" using remove_waker_None [of "length (sl_wakers s)" "sl_wakers s" key] by auto
    have "distinct (map fst (sl_wakers s))" using assms by (simp add: sleeper_inv_def)
    note r = remove_waker_Some [OF this order_refl Some]
    with Some n assms c f show ?thesis by (auto simp: sleeper_remove_def sleeper_inv_def Let_def)
  qed
qed

lemma sleeper_notify_inv:
  assumes "sleeper_inv s A" "sleeper_notify s = (s', r)"
  shows "sleeper_inv s' A \<and> sl_count s' = sl_count s \<and> (sl_count s = 0 \<or> length (sl_wakers s') < sl_count s) \<and>
    (case r of None \<Rightarrow> s' = s | Some v \<Rightarrow> \<exists>key. set (sl_wakers s) = insert (key, v) (set (sl_wakers s')))"
proof (cases "length (sl_wakers s) = sl_count s \<and> sl_wakers s \<noteq> []")
  case True
  then obtain ws key v where "sl_wakers s = ws @ [(key, v)]" by (metis rev_exhaust surj_pair)
  with True assms show ?thesis by (auto simp: sleeper_notify_def sleeper_inv_def)
next
  case False
  have "length (sl_wakers s) = card (fst ` set (sl_wakers s))" using assms by (metis distinct_card length_map list.set_map sleeper_inv_def)
  also have "\<dots> \<le> sl_count s" using assms card_mono [of A "fst ` set (sl_wakers s)"] by (simp add: sleeper_inv_def image_subset_iff)
  finally have "length (sl_wakers s) \<le> sl_count s" .
  with False assms show ?thesis by (auto simp: sleeper_notify_def)
qed

end
