(* ===== verification/Executor.thy ===== *)
theory Executor
  imports Sleepers
begin

text \<open>
  The executor (src/cynthia/src/runtime/executor.rs): the global queue of runnables, the local
  queues of the runners, and the tickers that sleep when there is nothing to run. A thread is a
  program point, and a step is one call on a queue, one access to \<open>notified\<close>, or the part of a
  critical section of \<open>sleepers\<close> up to the next access to \<open>notified\<close>. A queue is the list of its
  runnables, by the refinement of the concurrent queues; the global one is unbounded and never
  closed, a local one holds 512 runnables. A runnable is the number of its task, and to
  run it is one step: the calls that a task makes while it runs are calls of other threads.
\<close>

section \<open>The state\<close>

type_synonym runnable = nat

text \<open>
  \<open>ex_local\<close> holds the local queues by address, \<open>ex_locals\<close> are the registered ones, \<open>ex_readers\<close> the
  read guards of their lock. The last three fields are for the proofs and no part of the
  code: the runnables that were scheduled, those that were run, and the calls of wakers.
\<close>

record executor =
  ex_queue :: "runnable list"
  ex_local :: "nat \<Rightarrow> runnable list"
  ex_locals :: "nat list"
  ex_readers :: nat
  ex_next :: nat
  ex_notified :: bool
  ex_lock :: bool
  ex_sleepers :: sleeper
  ex_scheduled :: "runnable multiset"
  ex_ran :: "runnable multiset"
  ex_woken :: "waker list"

definition executor_new :: executor where
  "executor_new = \<lparr>ex_queue = [], ex_local = (\<lambda>_. []), ex_locals = [], ex_readers = 0, ex_next = 0, ex_notified = True,
     ex_lock = False, ex_sleepers = sleeper_new, ex_scheduled = {#}, ex_ran = {#}, ex_woken = []\<rparr>"

definition local_capacity :: nat where
  "local_capacity = 512"

text \<open>
  A ticker with the id under which it sleeps (0 when it does not); the ticker of a runner has a local queue
  and counts its ticks.
\<close>

record ticker =
  tk_sleeping :: nat
  tk_local :: "nat option"
  tk_ticks :: usize

definition ticker_new :: "nat option \<Rightarrow> ticker" where
  "ticker_new q = \<lparr>tk_sleeping = 0, tk_local = q, tk_ticks = 0\<rparr>"

text \<open>What follows a call of \<open>steal\<close>, and a call of \<open>notify\<close>.\<close>

datatype steal_next = Steal_Found runnable | Steal_Iter waker "nat list" | Steal_Run runnable

datatype notify_next = Then_Idle | Then_Try runnable | Then_Found ticker runnable | Then_Drop ticker

text \<open>
  Where a ticker is: away from \<open>runnable\<close>, pending (with its waker, and for the proofs the number of
  calls of wakers so far), searching, going to sleep, leaving the sleepers, running, or being
  dropped. A queue to steal from is \<open>None\<close>, the global one, or a local one.
\<close>

datatype ticker_pc =
    T_Away
  | T_Pending nat waker
  | T_Local waker
  | T_Global waker
  | T_Others waker
  | T_Next waker "nat list"
  | T_Own waker "nat list"
  | T_Len "nat option" steal_next
  | T_Cap "nat option" nat steal_next
  | T_Take "nat option" nat steal_next
  | T_Put "nat option" nat runnable steal_next
  | T_Sleep waker
  | T_Store waker
  | T_Found runnable
  | T_Swap runnable
  | T_Tick runnable
  | T_Run runnable
  | D_Retain
  | D_Pop
  | D_Ticker
  | D_Swap bool

datatype exec_pc =
    Exec_Idle
  | Try_Pop
  | Try_Run runnable
  | Sched_Push runnable notify_next
  | Notify_Cas notify_next
  | Notify_Lock notify_next
  | Notify_Wake waker notify_next
  | Tick ticker ticker_pc

datatype exec_choice = Exec_Go nat | Call_Schedule runnable | Call_Try_Tick | New_Ticker | New_Runner | Poll_Ticker waker | Drop_Ticker

section \<open>The steps\<close>

text \<open>\<open>tick\<close> drops its ticker before it runs the runnable; the ticker has left the sleepers, so this does nothing.\<close>

fun notify_done :: "notify_next \<Rightarrow> exec_pc" where
  "notify_done Then_Idle = Exec_Idle"
| "notify_done (Then_Try r) = Try_Run r"
| "notify_done (Then_Found t r) = (if tk_local t = None then Try_Run r else Tick t (T_Tick r))"
| "notify_done (Then_Drop t) = Tick t D_Pop"

fun steal_done :: "steal_next \<Rightarrow> ticker_pc" where
  "steal_done (Steal_Found r) = T_Found r"
| "steal_done (Steal_Iter w others) = T_Own w others"
| "steal_done (Steal_Run r) = T_Run r"

definition src_queue :: "executor \<Rightarrow> nat option \<Rightarrow> runnable list" where
  "src_queue m src = (case src of None \<Rightarrow> ex_queue m | Some q \<Rightarrow> ex_local m q)"

definition src_pop :: "executor \<Rightarrow> nat option \<Rightarrow> executor" where
  "src_pop m src = (case src of None \<Rightarrow> m\<lparr>ex_queue := tl (ex_queue m)\<rparr> | Some q \<Rightarrow> m\<lparr>ex_local := (ex_local m)(q := tl (ex_local m q))\<rparr>)"

definition own :: "ticker \<Rightarrow> nat" where
  "own t = (case tk_local t of Some q \<Rightarrow> q | None \<Rightarrow> 0)"

text \<open>Where \<open>runnable_with\<close> starts to search: a runner looks into its own queue first.\<close>

definition search_start :: "ticker \<Rightarrow> waker \<Rightarrow> ticker_pc" where
  "search_start t w = (if tk_local t = None then T_Global w else T_Local w)"

text \<open>\<open>State::notify\<close>.\<close>

fun notify_step :: "executor \<Rightarrow> exec_pc \<Rightarrow> executor \<times> exec_pc" where
  "notify_step m (Notify_Cas k) = (if ex_notified m then (m, notify_done k) else (m\<lparr>ex_notified := True\<rparr>, Notify_Lock k))"
| "notify_step m (Notify_Lock k) =
     (if ex_lock m then (m, Notify_Lock k)
      else case sleeper_notify (ex_sleepers m) of (s, r) \<Rightarrow>
        (m\<lparr>ex_sleepers := s\<rparr>, case r of Some w \<Rightarrow> Notify_Wake w k | None \<Rightarrow> notify_done k))"
| "notify_step m (Notify_Wake w k) = (m\<lparr>ex_woken := ex_woken m @ [w]\<rparr>, notify_done k)"
| "notify_step m p = (m, p)"

text \<open>\<open>steal\<close> into the own local queue, which has a capacity.\<close>

fun steal_step :: "executor \<Rightarrow> ticker \<Rightarrow> ticker_pc \<Rightarrow> (executor \<times> ticker_pc) fallible" where
  "steal_step m t (T_Len src k) =
     (let c = (length (src_queue m src) + 1) div 2 in Inr (m, if c = 0 then steal_done k else T_Cap src c k))"
| "steal_step m t (T_Cap src c k) =
     (if length (ex_local m (own t)) > local_capacity then Inl Overflow
      else Inr (m, T_Take src (min c (local_capacity - length (ex_local m (own t)))) k))"
| "steal_step m t (T_Take src c k) =
     (if c = 0 then Inr (m, steal_done k)
      else case src_queue m src of r # _ \<Rightarrow> Inr (src_pop m src, T_Put src (c - 1) r k) | [] \<Rightarrow> Inr (m, steal_done k))"
| "steal_step m t (T_Put src c r k) =
     (if length (ex_local m (own t)) < local_capacity
      then Inr (m\<lparr>ex_local := (ex_local m)(own t := ex_local m (own t) @ [r])\<rparr>, T_Take src c k) else Inl AssertFailed)"
| "steal_step m t p = Inr (m, p)"

text \<open>The closure that \<open>runnable_with\<close> is called with. \<open>n\<close> is what the random number gives.\<close>

fun search_step :: "nat \<Rightarrow> executor \<Rightarrow> ticker \<Rightarrow> ticker_pc \<Rightarrow> (executor \<times> ticker_pc) fallible" where
  "search_step n m t (T_Local w) =
     (case ex_local m (own t) of r # _ \<Rightarrow> Inr (src_pop m (Some (own t)), T_Found r) | [] \<Rightarrow> Inr (m, T_Global w))"
| "search_step n m t (T_Global w) =
     (case ex_queue m of
        r # _ \<Rightarrow> Inr (src_pop m None, if tk_local t = None then T_Found r else T_Len None (Steal_Found r))
      | [] \<Rightarrow> Inr (m, if tk_local t = None then T_Sleep w else T_Others w))"
| "search_step n m t (T_Others w) =
     (let k = length (ex_locals m)
      in if k = 0 then Inl AssertFailed
         else Inr (m\<lparr>ex_readers := Suc (ex_readers m)\<rparr>,
           T_Next w (filter (\<lambda>q. q \<noteq> own t) (take k (drop (n mod k) (ex_locals m @ ex_locals m))))))"
| "search_step n m t (T_Next w others) =
     (case others of
        q # others' \<Rightarrow> Inr (m, T_Len (Some q) (Steal_Iter w others'))
      | [] \<Rightarrow> Inr (m\<lparr>ex_readers := ex_readers m - 1\<rparr>, T_Sleep w))"
| "search_step n m t (T_Own w others) =
     (case ex_local m (own t) of
        r # _ \<Rightarrow> Inr ((src_pop m (Some (own t)))\<lparr>ex_readers := ex_readers m - 1\<rparr>, T_Found r)
      | [] \<Rightarrow> Inr (m, T_Next w others))"
| "search_step n m t p = steal_step m t p"

text \<open>\<open>Ticker::sleep\<close> up to its access to \<open>notified\<close>.\<close>

definition ticker_sleep :: "(waker \<Rightarrow> waker \<Rightarrow> bool) \<Rightarrow> executor \<Rightarrow> ticker \<Rightarrow> waker \<Rightarrow> executor \<times> exec_pc" where
  "ticker_sleep ww m t w =
     (if ex_lock m then (m, Tick t (T_Sleep w))
      else if tk_sleeping t = 0 then
        (case sleeper_insert w (ex_sleepers m) of (s, key) \<Rightarrow>
           (m\<lparr>ex_sleepers := s, ex_lock := True\<rparr>, Tick (t\<lparr>tk_sleeping := key\<rparr>) (T_Store w)))
      else
        (case sleeper_update ww (tk_sleeping t) w (ex_sleepers m) of (s, new) \<Rightarrow>
           if new then (m\<lparr>ex_sleepers := s, ex_lock := True\<rparr>, Tick t (T_Store w))
           else (m\<lparr>ex_sleepers := s\<rparr>, Tick t (T_Pending (length (ex_woken m)) w))))"

text \<open>The access to \<open>notified\<close> that ends a critical section.\<close>

definition store_notified :: "executor \<Rightarrow> executor" where
  "store_notified m = m\<lparr>ex_notified := sleeper_is_notified (ex_sleepers m), ex_lock := False\<rparr>"

text \<open>\<open>Ticker::wake\<close> and the \<open>Drop\<close> of a ticker take their id out of the sleepers.\<close>

definition leave_sleepers :: "executor \<Rightarrow> ticker \<Rightarrow> exec_pc \<Rightarrow> exec_pc \<Rightarrow> (bool \<Rightarrow> exec_pc) \<Rightarrow> (executor \<times> exec_pc) fallible" where
  "leave_sleepers m t here awake k =
     (if tk_sleeping t = 0 then Inr (m, awake)
      else if ex_lock m then Inr (m, here)
      else bind_fallible (sleeper_remove (tk_sleeping t) (ex_sleepers m)) (\<lambda>(s, notified).
        Inr (m\<lparr>ex_sleepers := s, ex_lock := True\<rparr>, k notified)))"

definition run_runnable :: "executor \<Rightarrow> runnable \<Rightarrow> executor" where
  "run_runnable m r = m\<lparr>ex_ran := add_mset r (ex_ran m)\<rparr>"

fun ticker_step :: "(waker \<Rightarrow> waker \<Rightarrow> bool) \<Rightarrow> exec_choice \<Rightarrow> executor \<Rightarrow> ticker \<Rightarrow> ticker_pc \<Rightarrow> (executor \<times> exec_pc) fallible" where
  "ticker_step ww ch m t T_Away =
     (case ch of
        Poll_Ticker w \<Rightarrow> Inr (m, Tick t (search_start t w))
      | Drop_Ticker \<Rightarrow> Inr (m, Tick t (if tk_local t = None then D_Ticker else D_Retain))
      | _ \<Rightarrow> Inr (m, Tick t T_Away))"
| "ticker_step ww ch m t (T_Pending k v) =
     (case ch of
        Poll_Ticker w \<Rightarrow> Inr (m, Tick t (search_start t w))
      | Drop_Ticker \<Rightarrow> Inr (m, Tick t (if tk_local t = None then D_Ticker else D_Retain))
      | _ \<Rightarrow> Inr (m, Tick t (T_Pending k v)))"
| "ticker_step ww ch m t (T_Sleep w) = Inr (ticker_sleep ww m t w)"
| "ticker_step ww ch m t (T_Store w) = Inr (store_notified m, Tick t (search_start t w))"
| "ticker_step ww ch m t (T_Found r) =
     leave_sleepers m t (Tick t (T_Found r)) (Notify_Cas (Then_Found t r)) (\<lambda>_. Tick (t\<lparr>tk_sleeping := 0\<rparr>) (T_Swap r))"
| "ticker_step ww ch m t (T_Swap r) = Inr (store_notified m, Notify_Cas (Then_Found t r))"
| "ticker_step ww ch m t (T_Tick r) =
     Inr (m, Tick (t\<lparr>tk_ticks := tk_ticks t + 1\<rparr>) (if tk_ticks t mod 64 = 0 then T_Len None (Steal_Run r) else T_Run r))"
| "ticker_step ww ch m t (T_Run r) = Inr (run_runnable m r, Tick t T_Away)"
| "ticker_step ww ch m t D_Retain =
     (if ex_readers m = 0 then Inr (m\<lparr>ex_locals := filter (\<lambda>q. q \<noteq> own t) (ex_locals m)\<rparr>, Tick t D_Pop) else Inr (m, Tick t D_Retain))"
| "ticker_step ww ch m t D_Pop =
     (case ex_local m (own t) of
        r # _ \<Rightarrow> Inr (src_pop m (Some (own t)), Sched_Push r (Then_Drop t))
      | [] \<Rightarrow> Inr (m, Tick t D_Ticker))"
| "ticker_step ww ch m t D_Ticker =
     leave_sleepers m t (Tick t D_Ticker) Exec_Idle (\<lambda>notified. Tick (t\<lparr>tk_sleeping := 0\<rparr>) (D_Swap notified))"
| "ticker_step ww ch m t (D_Swap notified) = Inr (store_notified m, if notified then Notify_Cas Then_Idle else Exec_Idle)"
| "ticker_step ww ch m t p = map_sum id (\<lambda>(m', p'). (m', Tick t p')) (search_step (case ch of Exec_Go n \<Rightarrow> n | _ \<Rightarrow> 0) m t p)"

fun exec_step :: "(waker \<Rightarrow> waker \<Rightarrow> bool) \<Rightarrow> exec_choice \<Rightarrow> executor \<Rightarrow> exec_pc \<Rightarrow> (executor \<times> exec_pc) fallible" where
  "exec_step ww ch m Exec_Idle =
     (case ch of
        Call_Schedule r \<Rightarrow> Inr (m\<lparr>ex_scheduled := add_mset r (ex_scheduled m)\<rparr>, Sched_Push r Then_Idle)
      | Call_Try_Tick \<Rightarrow> Inr (m, Try_Pop)
      | New_Ticker \<Rightarrow> Inr (m, Tick (ticker_new None) T_Away)
      | New_Runner \<Rightarrow>
          if ex_readers m = 0
          then Inr (m\<lparr>ex_next := Suc (ex_next m), ex_locals := ex_locals m @ [ex_next m]\<rparr>, Tick (ticker_new (Some (ex_next m))) T_Away)
          else Inr (m, Exec_Idle)
      | _ \<Rightarrow> Inr (m, Exec_Idle))"
| "exec_step ww ch m Try_Pop = (case ex_queue m of r # _ \<Rightarrow> Inr (src_pop m None, Notify_Cas (Then_Try r)) | [] \<Rightarrow> Inr (m, Exec_Idle))"
| "exec_step ww ch m (Try_Run r) = Inr (run_runnable m r, Exec_Idle)"
| "exec_step ww ch m (Sched_Push r k) = Inr (m\<lparr>ex_queue := ex_queue m @ [r]\<rparr>, Notify_Cas k)"
| "exec_step ww ch m (Tick t p) = ticker_step ww ch m t p"
| "exec_step ww ch m p = Inr (notify_step m p)"

definition exec_run :: "(waker \<Rightarrow> waker \<Rightarrow> bool) \<Rightarrow> executor \<times> exec_pc list \<Rightarrow> (nat \<times> exec_choice) list \<Rightarrow> (executor \<times> exec_pc list) fallible" where
  "exec_run ww = threads_run (exec_step ww)"

end
