(* ===== verification/Executor_Wake.thy ===== *)
theory Executor_Wake
  imports Executor
begin

text \<open>
  Nobody sleeps while there is work: the invariant that ties the tickers to the sleepers, the flag
  \<open>notified\<close> and the global queue, and its preservation by every step.
\<close>

section \<open>The invariant\<close>

fun next_ticker :: "notify_next \<Rightarrow> ticker option" where
  "next_ticker (Then_Found t r) = Some t"
| "next_ticker (Then_Drop t) = Some t"
| "next_ticker _ = None"

fun ticker_of :: "exec_pc \<Rightarrow> ticker option" where
  "ticker_of (Tick t p) = Some t"
| "ticker_of (Sched_Push r k) = next_ticker k"
| "ticker_of (Notify_Cas k) = next_ticker k"
| "ticker_of (Notify_Lock k) = next_ticker k"
| "ticker_of (Notify_Wake w k) = next_ticker k"
| "ticker_of _ = None"

definition sleep_key :: "exec_pc \<Rightarrow> nat" where
  "sleep_key p = (case ticker_of p of Some t \<Rightarrow> tk_sleeping t | None \<Rightarrow> 0)"

definition keys :: "exec_pc \<Rightarrow> nat multiset" where
  "keys p = (if sleep_key p = 0 then {#} else {#sleep_key p#})"

fun lock_holder :: "exec_pc \<Rightarrow> nat" where
  "lock_holder (Tick t (T_Store w)) = 1"
| "lock_holder (Tick t (T_Swap r)) = 1"
| "lock_holder (Tick t (D_Swap b)) = 1"
| "lock_holder _ = 0"

text \<open>The points at which \<open>notified\<close> may be stale, and the points from which the global queue is searched or \<open>notify\<close> is called.\<close>

fun stale :: "exec_pc \<Rightarrow> nat" where
  "stale (Notify_Lock k) = 1"
| "stale (Tick t (T_Store w)) = 1"
| "stale (Tick t (T_Swap r)) = 1"
| "stale (Tick t (D_Swap b)) = of_bool b"
| "stale _ = 0"

fun steal_on_duty :: "steal_next \<Rightarrow> nat" where
  "steal_on_duty (Steal_Found r) = 1"
| "steal_on_duty _ = 0"

fun ticker_on_duty :: "ticker_pc \<Rightarrow> nat" where
  "ticker_on_duty (T_Local w) = 1"
| "ticker_on_duty (T_Global w) = 1"
| "ticker_on_duty (T_Len src k) = steal_on_duty k"
| "ticker_on_duty (T_Cap src c k) = steal_on_duty k"
| "ticker_on_duty (T_Take src c k) = steal_on_duty k"
| "ticker_on_duty (T_Put src c r k) = steal_on_duty k"
| "ticker_on_duty (T_Store w) = 1"
| "ticker_on_duty (T_Found r) = 1"
| "ticker_on_duty (T_Swap r) = 1"
| "ticker_on_duty (D_Swap b) = of_bool b"
| "ticker_on_duty _ = 0"

fun on_duty :: "exec_pc \<Rightarrow> nat" where
  "on_duty (Sched_Push r k) = 1"
| "on_duty (Notify_Cas k) = 1"
| "on_duty (Notify_Lock k) = 1"
| "on_duty (Tick t p) = ticker_on_duty p"
| "on_duty _ = 0"

fun flight :: "exec_pc \<Rightarrow> nat multiset" where
  "flight (Notify_Wake w k) = {#w#}"
| "flight _ = {#}"

fun awake_steal :: "steal_next \<Rightarrow> bool" where
  "awake_steal (Steal_Run r) = True"
| "awake_steal _ = False"

fun awake_next :: "notify_next \<Rightarrow> bool" where
  "awake_next (Then_Found t r) = True"
| "awake_next _ = False"

text \<open>The points at which a ticker is not registered with the sleepers.\<close>

fun awake :: "exec_pc \<Rightarrow> bool" where
  "awake (Sched_Push r k) = awake_next k"
| "awake (Notify_Cas k) = awake_next k"
| "awake (Notify_Lock k) = awake_next k"
| "awake (Notify_Wake w k) = awake_next k"
| "awake (Tick t T_Away) = True"
| "awake (Tick t (T_Swap r)) = True"
| "awake (Tick t (T_Tick r)) = True"
| "awake (Tick t (T_Run r)) = True"
| "awake (Tick t (T_Len src k)) = awake_steal k"
| "awake (Tick t (T_Cap src c k)) = awake_steal k"
| "awake (Tick t (T_Take src c k)) = awake_steal k"
| "awake (Tick t (T_Put src c r k)) = awake_steal k"
| "awake (Tick t (D_Swap b)) = True"
| "awake _ = False"

fun is_pending :: "exec_pc \<Rightarrow> bool" where
  "is_pending (Tick t (T_Pending k w)) = True"
| "is_pending _ = False"

text \<open>
  A pending ticker is registered, and a waker that wakes its task is in the list, was called since it
  went to sleep, or is about to be called.
\<close>

definition pending_ok :: "(waker \<Rightarrow> waker \<Rightarrow> bool) \<Rightarrow> sleeper \<Rightarrow> waker list \<Rightarrow> nat multiset \<Rightarrow> exec_pc \<Rightarrow> bool" where
  "pending_ok ww s log N p \<longleftrightarrow>
     (\<forall>t k w. p = Tick t (T_Pending k w) \<longrightarrow> tk_sleeping t \<noteq> 0 \<and> k \<le> length log \<and>
        (\<exists>v. (v = w \<or> ww v w) \<and> ((tk_sleeping t, v) \<in> set (sl_wakers s) \<or> v \<in> set (drop k log) \<or> v \<in># N)))"

definition awake_ok :: "exec_pc \<Rightarrow> bool" where
  "awake_ok p \<longleftrightarrow> (awake p \<longrightarrow> sleep_key p = 0)"

definition wake_inv :: "(waker \<Rightarrow> waker \<Rightarrow> bool) \<Rightarrow> executor \<Rightarrow> exec_pc multiset \<Rightarrow> bool" where
  "wake_inv ww m T \<longleftrightarrow>
     (\<exists>A. sleeper_inv (ex_sleepers m) A \<and> entries keys T = mset_set A) \<and>
     tokens lock_holder T = of_bool (ex_lock m) \<and>
     (ex_queue m \<noteq> [] \<longrightarrow> 0 < tokens on_duty T \<or> sleeper_is_notified (ex_sleepers m)) \<and>
     (ex_notified m \<longrightarrow> 0 < tokens stale T \<or> sleeper_is_notified (ex_sleepers m)) \<and>
     (\<forall>p\<in>#T. pending_ok ww (ex_sleepers m) (ex_woken m) (entries flight T) p \<and> awake_ok p)"

lemma pending_ok_free: "\<not> is_pending p \<Longrightarrow> pending_ok ww s log N p"
  by (cases p rule: is_pending.cases) (simp_all add: pending_ok_def)

lemma wake_invE:
  assumes "wake_inv ww m (add_mset p R)"
  obtains A where "sleeper_inv (ex_sleepers m) A" "keys p + entries keys R = mset_set A"
    "lock_holder p + tokens lock_holder R = of_bool (ex_lock m)"
    "ex_queue m \<noteq> [] \<Longrightarrow> 0 < on_duty p + tokens on_duty R \<or> sleeper_is_notified (ex_sleepers m)"
    "ex_notified m \<Longrightarrow> 0 < stale p + tokens stale R \<or> sleeper_is_notified (ex_sleepers m)"
    "\<And>q. q \<in># R \<Longrightarrow> pending_ok ww (ex_sleepers m) (ex_woken m) (flight p + entries flight R) q \<and> awake_ok q"
    "pending_ok ww (ex_sleepers m) (ex_woken m) (flight p + entries flight R) p" "awake_ok p"
  using assms unfolding wake_inv_def by fastforce

lemma wake_invI:
  assumes "sleeper_inv (ex_sleepers m) A" "keys p + entries keys R = mset_set A"
    "lock_holder p + tokens lock_holder R = of_bool (ex_lock m)"
    "ex_queue m \<noteq> [] \<Longrightarrow> 0 < on_duty p + tokens on_duty R \<or> sleeper_is_notified (ex_sleepers m)"
    "ex_notified m \<Longrightarrow> 0 < stale p + tokens stale R \<or> sleeper_is_notified (ex_sleepers m)"
    "\<And>q. q \<in># R \<Longrightarrow> pending_ok ww (ex_sleepers m) (ex_woken m) (flight p + entries flight R) q \<and> awake_ok q"
    "pending_ok ww (ex_sleepers m) (ex_woken m) (flight p + entries flight R) p" "awake_ok p"
  shows "wake_inv ww m (add_mset p R)"
  using assms unfolding wake_inv_def by auto

section \<open>Every step keeps it\<close>

text \<open>A step that does not touch the sleepers.\<close>

lemma plain_wake_step:
  assumes inv: "wake_inv ww m (add_mset p R)"
    and m: "ex_sleepers m' = ex_sleepers m" "ex_lock m' = ex_lock m" "ex_notified m' = ex_notified m" "ex_woken m' = ex_woken m"
    and p: "keys p' = keys p" "lock_holder p' = lock_holder p" "stale p' = stale p" "flight p' = flight p" "\<not> is_pending p' \<or> p' = p" "awake_ok p'"
    and q: "ex_queue m' \<noteq> [] \<Longrightarrow> 0 < on_duty p' \<or> ex_queue m \<noteq> [] \<and> on_duty p = 0"
  shows "wake_inv ww m' (add_mset p' R)"
proof (rule wake_invE [OF inv])
  fix A
  assume a: "sleeper_inv (ex_sleepers m) A" "keys p + entries keys R = mset_set A" "lock_holder p + tokens lock_holder R = of_bool (ex_lock m)"
    and d: "ex_queue m \<noteq> [] \<Longrightarrow> 0 < on_duty p + tokens on_duty R \<or> sleeper_is_notified (ex_sleepers m)"
    and f: "ex_notified m \<Longrightarrow> 0 < stale p + tokens stale R \<or> sleeper_is_notified (ex_sleepers m)"
    and o: "\<And>q. q \<in># R \<Longrightarrow> pending_ok ww (ex_sleepers m) (ex_woken m) (flight p + entries flight R) q \<and> awake_ok q"
    and w: "pending_ok ww (ex_sleepers m) (ex_woken m) (flight p + entries flight R) p"
  show ?thesis
  proof (rule wake_invI)
    show "ex_queue m' \<noteq> [] \<Longrightarrow> 0 < on_duty p' + tokens on_duty R \<or> sleeper_is_notified (ex_sleepers m')" using q d m by auto
    show "pending_ok ww (ex_sleepers m') (ex_woken m') (flight p' + entries flight R) p'" using w m p pending_ok_free by auto
  qed (use a f o m p in auto)
qed

lemma pending_ok_step:
  assumes "pending_ok ww s log N q"
    and "\<And>v. (sleep_key q, v) \<in> set (sl_wakers s) \<Longrightarrow> (sleep_key q, v) \<in> set (sl_wakers s') \<or> v \<in># N'"
    and "\<And>v. v \<in># N \<Longrightarrow> v \<in># N' \<or> v \<in> set new"
  shows "pending_ok ww s' (log @ new) N' q"
  unfolding pending_ok_def
proof (intro allI impI)
  fix t k w
  assume q: "q = Tick t (T_Pending k w)"
  then obtain v where v: "tk_sleeping t \<noteq> 0" "k \<le> length log" "v = w \<or> ww v w" "(tk_sleeping t, v) \<in> set (sl_wakers s) \<or> v \<in> set (drop k log) \<or> v \<in># N"
    using assms(1) by (auto simp: pending_ok_def)
  moreover have "sleep_key q = tk_sleeping t" using q by (simp add: sleep_key_def)
  ultimately show "tk_sleeping t \<noteq> 0 \<and> k \<le> length (log @ new) \<and>
      (\<exists>v. (v = w \<or> ww v w) \<and> ((tk_sleeping t, v) \<in> set (sl_wakers s') \<or> v \<in> set (drop k (log @ new)) \<or> v \<in># N'))"
    using assms(2,3) by fastforce
qed

lemma stale_on_duty: "tokens stale T \<le> tokens on_duty T"
proof (rule tokens_mono)
  show "stale p \<le> on_duty p" for p by (cases p rule: stale.cases) simp_all
qed

text \<open>The call of \<open>notify\<close> returns.\<close>

lemma notify_done_simps:
  assumes "awake_ok (Notify_Cas k)"
  shows "keys (notify_done k) = keys (Notify_Cas k)" "lock_holder (notify_done k) = 0" "stale (notify_done k) = 0" "flight (notify_done k) = {#}"
    "\<not> is_pending (notify_done k)" "awake_ok (notify_done k)" "on_duty (notify_done k) = 0"
  using assms by (cases k; simp add: awake_ok_def sleep_key_def keys_def)+

lemma notify_same: "keys (Notify_Lock k) = keys (Notify_Cas k)" "keys (Notify_Wake w k) = keys (Notify_Cas k)"
    "awake_ok (Notify_Lock k) = awake_ok (Notify_Cas k)" "awake_ok (Notify_Wake w k) = awake_ok (Notify_Cas k)"
  by (simp_all add: keys_def sleep_key_def awake_ok_def)

lemma cas_wake_step:
  assumes inv: "wake_inv ww m (add_mset (Notify_Cas k) R)"
  shows "case notify_step m (Notify_Cas k) of (m', p') \<Rightarrow> wake_inv ww m' (add_mset p' R)"
proof (rule wake_invE [OF inv])
  fix A
  assume a: "sleeper_inv (ex_sleepers m) A" "keys (Notify_Cas k) + entries keys R = mset_set A" "lock_holder (Notify_Cas k) + tokens lock_holder R = of_bool (ex_lock m)"
    and f: "ex_notified m \<Longrightarrow> 0 < stale (Notify_Cas k) + tokens stale R \<or> sleeper_is_notified (ex_sleepers m)"
    and o: "\<And>q. q \<in># R \<Longrightarrow> pending_ok ww (ex_sleepers m) (ex_woken m) (flight (Notify_Cas k) + entries flight R) q \<and> awake_ok q"
    and k: "awake_ok (Notify_Cas k)"
  note n = notify_done_simps [OF k] pending_ok_free
  show ?thesis
  proof (cases "ex_notified m")
    case True
    then have "0 < tokens on_duty R \<or> sleeper_is_notified (ex_sleepers m)" using f stale_on_duty [of R] by auto
    then have "wake_inv ww m (add_mset (notify_done k) R)" by (intro wake_invI [of m A]) (use a f o n in auto)
    then show ?thesis using True by simp
  next
    case False
    have "wake_inv ww (m\<lparr>ex_notified := True\<rparr>) (add_mset (Notify_Lock k) R)"
      by (intro wake_invI [of _ A]) (use a o k in \<open>auto simp: notify_same pending_ok_free\<close>)
    then show ?thesis using False by simp
  qed
qed

lemma lock_wake_step:
  assumes inv: "wake_inv ww m (add_mset (Notify_Lock k) R)"
  shows "case notify_step m (Notify_Lock k) of (m', p') \<Rightarrow> wake_inv ww m' (add_mset p' R)"
proof (cases "ex_lock m")
  case False
  obtain s' r where n: "sleeper_notify (ex_sleepers m) = (s', r)" by (cases "sleeper_notify (ex_sleepers m)")
  define p' where "p' = (case r of Some w \<Rightarrow> Notify_Wake w k | None \<Rightarrow> notify_done k)"
  show ?thesis
  proof (rule wake_invE [OF inv])
    fix A
    assume a: "sleeper_inv (ex_sleepers m) A" "keys (Notify_Lock k) + entries keys R = mset_set A" "lock_holder (Notify_Lock k) + tokens lock_holder R = of_bool (ex_lock m)"
      and o: "\<And>q. q \<in># R \<Longrightarrow> pending_ok ww (ex_sleepers m) (ex_woken m) (flight (Notify_Lock k) + entries flight R) q \<and> awake_ok q"
      and k: "awake_ok (Notify_Lock k)"
    note i = sleeper_notify_inv [OF a(1) n]
    have dn: "awake_ok (Notify_Cas k)" using k by (simp add: notify_same)
    have "sleeper_is_notified s'" using i by (auto simp: sleeper_is_notified_def)
    moreover have "pending_ok ww s' (ex_woken m) (flight p' + entries flight R) q" if "q \<in># R" for q
    proof -
      have "pending_ok ww s' (ex_woken m @ []) (flight p' + entries flight R) q"
        by (rule pending_ok_step [of ww "ex_sleepers m" _ "entries flight R"]) (use i o [OF that] in \<open>auto simp: p'_def split: option.splits\<close>)
      then show ?thesis by simp
    qed
    moreover have "keys p' = keys (Notify_Lock k) \<and> lock_holder p' = 0 \<and> \<not> is_pending p' \<and> awake_ok p'"
      using notify_done_simps [OF dn] k by (simp add: p'_def notify_same split: option.splits)
    ultimately have "wake_inv ww (m\<lparr>ex_sleepers := s'\<rparr>) (add_mset p' R)"
      by (intro wake_invI [of _ A]) (use a i o in \<open>auto simp: pending_ok_free\<close>)
    then show ?thesis using False n by (simp add: p'_def)
  qed
qed (use inv in simp)

lemma waking_wake_step:
  assumes inv: "wake_inv ww m (add_mset (Notify_Wake w k) R)"
  shows "case notify_step m (Notify_Wake w k) of (m', p') \<Rightarrow> wake_inv ww m' (add_mset p' R)"
proof (rule wake_invE [OF inv])
  fix A
  assume a: "sleeper_inv (ex_sleepers m) A" "keys (Notify_Wake w k) + entries keys R = mset_set A" "lock_holder (Notify_Wake w k) + tokens lock_holder R = of_bool (ex_lock m)"
    and d: "ex_queue m \<noteq> [] \<Longrightarrow> 0 < on_duty (Notify_Wake w k) + tokens on_duty R \<or> sleeper_is_notified (ex_sleepers m)"
    and f: "ex_notified m \<Longrightarrow> 0 < stale (Notify_Wake w k) + tokens stale R \<or> sleeper_is_notified (ex_sleepers m)"
    and o: "\<And>q. q \<in># R \<Longrightarrow> pending_ok ww (ex_sleepers m) (ex_woken m) (flight (Notify_Wake w k) + entries flight R) q \<and> awake_ok q"
    and k: "awake_ok (Notify_Wake w k)"
  have dn: "awake_ok (Notify_Cas k)" using k by (simp add: notify_same)
  note n = notify_done_simps [OF dn]
  have "pending_ok ww (ex_sleepers m) (ex_woken m @ [w]) (flight (notify_done k) + entries flight R) q" if "q \<in># R" for q
    by (rule pending_ok_step [of ww "ex_sleepers m" _ "{#w#} + entries flight R"]) (use o [OF that] n in auto)
  then have "wake_inv ww (m\<lparr>ex_woken := ex_woken m @ [w]\<rparr>) (add_mset (notify_done k) R)"
    by (intro wake_invI [of _ A]) (use a d f o n in \<open>auto simp: notify_same pending_ok_free\<close>)
  then show ?thesis by simp
qed

text \<open>The keys of different tickers are different.\<close>

lemma key_owned:
  assumes "sleeper_inv s A" "keys p + entries keys R = mset_set A" "sleep_key p \<noteq> 0"
  shows "sleep_key p \<in> A" "entries keys R = mset_set (A - {sleep_key p})" "\<And>q. q \<in># R \<Longrightarrow> sleep_key q \<noteq> sleep_key p"
proof -
  have f: "finite A" using assms(1) by (simp add: sleeper_inv_def)
  have "add_mset (sleep_key p) (entries keys R) = mset_set A" using assms(2,3) by (simp add: keys_def)
  note o = owned_remove [OF f this]
  then show "sleep_key p \<in> A" "entries keys R = mset_set (A - {sleep_key p})" by blast+
  show "sleep_key q \<noteq> sleep_key p" if "q \<in># R" for q
  proof
    assume e: "sleep_key q = sleep_key p"
    then have "sleep_key p \<in># entries keys R" using entries_in [OF that, of keys] assms(3) by (simp add: keys_def mset_subset_eq_single)
    then show False using o f by simp
  qed
qed

lemma insert_wake_step:
  assumes inv: "wake_inv ww m (add_mset (Tick t (T_Sleep w)) R)" and z: "tk_sleeping t = 0" "\<not> ex_lock m"
    and i: "sleeper_insert w (ex_sleepers m) = (s', key)"
  shows "wake_inv ww (m\<lparr>ex_sleepers := s', ex_lock := True\<rparr>) (add_mset (Tick (t\<lparr>tk_sleeping := key\<rparr>) (T_Store w)) R)"
proof (rule wake_invE [OF inv])
  fix A
  let ?p = "Tick t (T_Sleep w)" and ?p' = "Tick (t\<lparr>tk_sleeping := key\<rparr>) (T_Store w)"
  assume a: "sleeper_inv (ex_sleepers m) A" "keys ?p + entries keys R = mset_set A" "lock_holder ?p + tokens lock_holder R = of_bool (ex_lock m)"
    and o: "\<And>q. q \<in># R \<Longrightarrow> pending_ok ww (ex_sleepers m) (ex_woken m) (flight ?p + entries flight R) q \<and> awake_ok q"
  note n = sleeper_insert_inv [OF a(1) i]
  have f: "finite A" using a(1) by (simp add: sleeper_inv_def)
  have "entries keys R = mset_set A" using a(2) z by (simp add: keys_def sleep_key_def)
  then have k: "keys ?p' + entries keys R = mset_set (insert key A)" using n owned_add [OF f, of key] by (simp add: keys_def sleep_key_def)
  have "pending_ok ww s' (ex_woken m @ []) (flight ?p' + entries flight R) q" if "q \<in># R" for q
    by (rule pending_ok_step [of ww "ex_sleepers m" _ "entries flight R"]) (use o [OF that] n in auto)
  then show ?thesis
    by (intro wake_invI [of _ "insert key A"]) (use a o n k z in \<open>auto simp: pending_ok_free awake_ok_def\<close>)
qed

lemma update_wake_step:
  assumes inv: "wake_inv ww m (add_mset (Tick t (T_Sleep w)) R)" and z: "tk_sleeping t \<noteq> 0" "\<not> ex_lock m"
    and u: "sleeper_update ww (tk_sleeping t) w (ex_sleepers m) = (s', new)"
  shows "wake_inv ww (m\<lparr>ex_sleepers := s', ex_lock := new\<rparr>) (add_mset (Tick t (if new then T_Store w else T_Pending (length (ex_woken m)) w)) R)"
proof (rule wake_invE [OF inv])
  fix A
  let ?p = "Tick t (T_Sleep w)" and ?p' = "Tick t (if new then T_Store w else T_Pending (length (ex_woken m)) w)"
  assume a: "sleeper_inv (ex_sleepers m) A" "keys ?p + entries keys R = mset_set A" "lock_holder ?p + tokens lock_holder R = of_bool (ex_lock m)"
    and d: "ex_queue m \<noteq> [] \<Longrightarrow> 0 < on_duty ?p + tokens on_duty R \<or> sleeper_is_notified (ex_sleepers m)"
    and f: "ex_notified m \<Longrightarrow> 0 < stale ?p + tokens stale R \<or> sleeper_is_notified (ex_sleepers m)"
    and o: "\<And>q. q \<in># R \<Longrightarrow> pending_ok ww (ex_sleepers m) (ex_woken m) (flight ?p + entries flight R) q \<and> awake_ok q"
  have key: "sleep_key ?p = tk_sleeping t" "keys ?p' = keys ?p" by (simp_all add: sleep_key_def keys_def)
  note c = key_owned [OF a(1,2), unfolded key(1), OF z(1)]
  note n = sleeper_update_inv [OF a(1) u c(1)]
  have "pending_ok ww s' (ex_woken m @ []) (flight ?p' + entries flight R) q" if "q \<in># R" for q
    by (rule pending_ok_step [of ww "ex_sleepers m" _ "entries flight R"]) (use o [OF that] n c(3) [OF that] in auto)
  moreover have "pending_ok ww s' (ex_woken m) N ?p'" for N using n z by (auto simp: pending_ok_def)
  moreover have "sleeper_is_notified s'" if "sleeper_is_notified (ex_sleepers m)" "\<not> new" using that n by (simp add: sleeper_is_notified_def)
  ultimately show ?thesis
    by (intro wake_invI [of _ A]) (use a d f o n key z in \<open>auto simp: awake_ok_def\<close>)
qed

lemma sleep_wake_step:
  assumes inv: "wake_inv ww m (add_mset (Tick t (T_Sleep w)) R)"
  shows "case ticker_sleep ww m t w of (m', p') \<Rightarrow> wake_inv ww m' (add_mset p' R)"
proof -
  consider "ex_lock m" | "\<not> ex_lock m" "tk_sleeping t = 0" | "\<not> ex_lock m" "tk_sleeping t \<noteq> 0" by blast
  then show ?thesis
  proof cases
    case 2
    then show ?thesis using insert_wake_step [OF inv] by (simp add: ticker_sleep_def split: prod.splits)
  next
    case 3
    obtain s' new where u: "sleeper_update ww (tk_sleeping t) w (ex_sleepers m) = (s', new)" by (cases "sleeper_update ww (tk_sleeping t) w (ex_sleepers m)")
    have e: "m\<lparr>ex_sleepers := s', ex_lock := False\<rparr> = m\<lparr>ex_sleepers := s'\<rparr>" using 3(1) by simp
    show ?thesis
    proof (cases new)
      case False
      then have "wake_inv ww (m\<lparr>ex_sleepers := s', ex_lock := False\<rparr>) (add_mset (Tick t (T_Pending (length (ex_woken m)) w)) R)"
        using update_wake_step [OF inv 3(2,1) u] by simp
      then show ?thesis unfolding e using False 3 u by (simp add: ticker_sleep_def)
    qed (use 3 u update_wake_step [OF inv 3(2,1) u] in \<open>simp add: ticker_sleep_def\<close>)
  qed (use inv in \<open>simp add: ticker_sleep_def\<close>)
qed

lemma store_wake_step:
  assumes inv: "wake_inv ww m (add_mset p R)" and p: "lock_holder p = 1"
    "keys p' = keys p" "lock_holder p' = 0" "flight p = {#}" "flight p' = {#}" "on_duty p \<le> on_duty p'" "\<not> is_pending p'" "awake_ok p'"
  shows "wake_inv ww (store_notified m) (add_mset p' R)"
proof (rule wake_invE [OF inv])
  fix A
  assume a: "sleeper_inv (ex_sleepers m) A" "keys p + entries keys R = mset_set A" "lock_holder p + tokens lock_holder R = of_bool (ex_lock m)"
    and d: "ex_queue m \<noteq> [] \<Longrightarrow> 0 < on_duty p + tokens on_duty R \<or> sleeper_is_notified (ex_sleepers m)"
    and o: "\<And>q. q \<in># R \<Longrightarrow> pending_ok ww (ex_sleepers m) (ex_woken m) (flight p + entries flight R) q \<and> awake_ok q"
  have "tokens lock_holder R = 0" using a(3) p(1) by (cases "ex_lock m") simp_all
  then show ?thesis unfolding store_notified_def
    by (intro wake_invI [of _ A]) (use a d o p in \<open>auto simp: pending_ok_free\<close>)
qed

lemma leave_wake_step:
  assumes inv: "wake_inv ww m (add_mset p R)" and z: "sleep_key p \<noteq> 0" "\<not> ex_lock m" "flight p = {#}"
    and r: "sleeper_remove (sleep_key p) (ex_sleepers m) = Inr (s', notified)"
    and p: "keys p' = {#}" "lock_holder p' = 1" "flight p' = {#}" "\<not> is_pending p'" "awake_ok p'"
      "on_duty p' = 1 \<and> stale p' = 1 \<or> \<not> notified \<and> on_duty p = 0 \<and> stale p = 0"
  shows "wake_inv ww (m\<lparr>ex_sleepers := s', ex_lock := True\<rparr>) (add_mset p' R)"
proof (rule wake_invE [OF inv])
  fix A
  assume a: "sleeper_inv (ex_sleepers m) A" "keys p + entries keys R = mset_set A" "lock_holder p + tokens lock_holder R = of_bool (ex_lock m)"
    and d: "ex_queue m \<noteq> [] \<Longrightarrow> 0 < on_duty p + tokens on_duty R \<or> sleeper_is_notified (ex_sleepers m)"
    and f: "ex_notified m \<Longrightarrow> 0 < stale p + tokens stale R \<or> sleeper_is_notified (ex_sleepers m)"
    and o: "\<And>q. q \<in># R \<Longrightarrow> pending_ok ww (ex_sleepers m) (ex_woken m) (flight p + entries flight R) q \<and> awake_ok q"
  note c = key_owned [OF a(1,2) z(1)]
  have n: "notified \<longleftrightarrow> sleep_key p \<notin> fst ` set (sl_wakers (ex_sleepers m))" "sleeper_inv s' (A - {sleep_key p})"
    "Suc (sl_count s') = sl_count (ex_sleepers m)" "set (sl_wakers s') = {e \<in> set (sl_wakers (ex_sleepers m)). fst e \<noteq> sleep_key p}"
    "length (sl_wakers (ex_sleepers m)) = length (sl_wakers s') + of_bool (sleep_key p \<in> fst ` set (sl_wakers (ex_sleepers m)))"
    using sleeper_remove_inv [OF a(1) c(1)] r by auto
  have "pending_ok ww s' (ex_woken m @ []) (entries flight R) q" if "q \<in># R" for q
    by (rule pending_ok_step [of ww "ex_sleepers m" _ "entries flight R"]) (use o [OF that] n c(3) [OF that] z in auto)
  moreover have "sleeper_is_notified s'" if "sleeper_is_notified (ex_sleepers m)" "\<not> notified" using that n(1,3,5) by (auto simp: sleeper_is_notified_def)
  ultimately show ?thesis
    by (intro wake_invI [of _ "A - {sleep_key p}"]) (use a d f o n c z p in \<open>auto simp: pending_ok_free\<close>)
qed

text \<open>The steps of a search leave the sleepers alone.\<close>

lemma src_pop_simps [simp]:
  "ex_sleepers (src_pop m src) = ex_sleepers m" "ex_lock (src_pop m src) = ex_lock m" "ex_notified (src_pop m src) = ex_notified m"
  "ex_woken (src_pop m src) = ex_woken m" "ex_queue (src_pop m src) = (if src = None then tl (ex_queue m) else ex_queue m)"
  by (simp_all add: src_pop_def split: option.splits)

lemma steal_done_simps: "lock_holder (Tick t (steal_done k)) = 0" "stale (Tick t (steal_done k)) = 0" "flight (Tick t (steal_done k)) = {#}"
  "\<not> is_pending (Tick t (steal_done k))" "awake (Tick t (steal_done k)) = awake_steal k" "ticker_on_duty (steal_done k) = steal_on_duty k"
  by (cases k; simp)+

lemma search_wake_step:
  assumes "wake_inv ww m (add_mset (Tick t p) R)" "search_step n m t p = Inr (m', p')"
  shows "wake_inv ww m' (add_mset (Tick t p') R)"
proof (rule plain_wake_step [OF assms(1)])
  have aw: "awake_ok (Tick t p)" using assms(1) by (auto elim: wake_invE)
  note s = assms(2) and d = steal_done_simps
  show "ex_sleepers m' = ex_sleepers m" "ex_lock m' = ex_lock m" "ex_notified m' = ex_notified m" "ex_woken m' = ex_woken m"
    using s by (cases p; auto simp: Let_def split: list.splits if_splits)+
  show "keys (Tick t p') = keys (Tick t p)" by (simp add: keys_def sleep_key_def)
  show "lock_holder (Tick t p') = lock_holder (Tick t p)" "stale (Tick t p') = stale (Tick t p)" "flight (Tick t p') = flight (Tick t p)"
    using s d by (cases p; auto simp: Let_def split: list.splits if_splits)+
  show "\<not> is_pending (Tick t p') \<or> Tick t p' = Tick t p" using s d by (cases p) (auto simp: Let_def split: list.splits if_splits)
  show "awake_ok (Tick t p')" using s d aw by (cases p) (auto simp: awake_ok_def sleep_key_def Let_def split: list.splits if_splits)
  show "ex_queue m' \<noteq> [] \<Longrightarrow> 0 < on_duty (Tick t p') \<or> ex_queue m \<noteq> [] \<and> on_duty (Tick t p) = 0"
    using s d by (cases p) (auto simp: Let_def split: list.splits if_splits)
qed

lemma leaving_wake_step:
  assumes inv: "wake_inv ww m (add_mset (Tick t p) R)" and p: "p = T_Found r \<and> awk = Notify_Cas (Then_Found t r) \<and> k = (\<lambda>_. Tick (t\<lparr>tk_sleeping := 0\<rparr>) (T_Swap r)) \<or>
      p = D_Ticker \<and> awk = Exec_Idle \<and> k = (\<lambda>notified. Tick (t\<lparr>tk_sleeping := 0\<rparr>) (D_Swap notified))"
  shows "\<exists>m' p'. leave_sleepers m t (Tick t p) awk k = Inr (m', p') \<and> wake_inv ww m' (add_mset p' R)"
proof -
  have key: "sleep_key (Tick t p) = tk_sleeping t" by (simp add: sleep_key_def)
  consider "tk_sleeping t = 0" | "tk_sleeping t \<noteq> 0" "ex_lock m" | "tk_sleeping t \<noteq> 0" "\<not> ex_lock m" by blast
  then show ?thesis
  proof cases
    case 1
    have "wake_inv ww m (add_mset awk R)"
      by (rule plain_wake_step [OF inv]) (use p 1 in \<open>auto simp: keys_def sleep_key_def awake_ok_def\<close>)
    then show ?thesis using 1 by (simp add: leave_sleepers_def)
  next
    case 3
    obtain A where A: "sleeper_inv (ex_sleepers m) A" "keys (Tick t p) + entries keys R = mset_set A" using inv by (rule wake_invE)
    have "tk_sleeping t \<in> A" using key_owned(1) [OF A] 3 key by simp
    then obtain s' notified where r: "sleeper_remove (tk_sleeping t) (ex_sleepers m) = Inr (s', notified)" using sleeper_remove_inv [OF A(1)] by blast
    have "wake_inv ww (m\<lparr>ex_sleepers := s', ex_lock := True\<rparr>) (add_mset (k notified) R)"
      by (rule leave_wake_step [OF inv]) (use p 3 r key in \<open>auto simp: keys_def sleep_key_def awake_ok_def\<close>)
    then show ?thesis using 3 r by (simp add: leave_sleepers_def)
  qed (use inv in \<open>simp add: leave_sleepers_def\<close>)
qed

lemma search_start_simps: "lock_holder (Tick t (search_start u w)) = 0" "stale (Tick t (search_start u w)) = 0" "flight (Tick t (search_start u w)) = {#}"
  "\<not> is_pending (Tick t (search_start u w))" "awake (Tick t (search_start u w)) = False" "ticker_on_duty (search_start u w) = 1"
  by (simp_all add: search_start_def)

lemma ticker_wake_step:
  assumes inv: "wake_inv ww m (add_mset (Tick t p) R)" and step: "ticker_step ww ch m t p = Inr (m', p')"
  shows "wake_inv ww m' (add_mset p' R)"
proof -
  have aw: "awake_ok (Tick t p)" using inv by (auto elim: wake_invE)
  note plain = plain_wake_step [OF inv] and store = store_wake_step [OF inv] and d = search_start_simps
  note simps = keys_def sleep_key_def awake_ok_def search_start_simps
  have search: "wake_inv ww m' (add_mset p' R)" if "ticker_step ww ch m t p = map_sum id (\<lambda>(m', p'). (m', Tick t p')) (search_step n m t p)" for n
    using that step search_wake_step [OF inv, of n] by (cases "search_step n m t p") auto
  show ?thesis
  proof (cases p)
    case (T_Sleep w)
    then show ?thesis using step sleep_wake_step [of ww m t w R] inv by simp
  next
    case (T_Found r)
    then show ?thesis using step leaving_wake_step [OF inv, of r "Notify_Cas (Then_Found t r)" "\<lambda>_. Tick (t\<lparr>tk_sleeping := 0\<rparr>) (T_Swap r)"] by auto
  next
    case D_Ticker
    then show ?thesis using step leaving_wake_step [OF inv, of 0 Exec_Idle "\<lambda>notified. Tick (t\<lparr>tk_sleeping := 0\<rparr>) (D_Swap notified)"] by auto
  next
    case (T_Store w)
    have "wake_inv ww (store_notified m) (add_mset (Tick t (search_start t w)) R)" by (rule store) (use T_Store in \<open>simp_all add: simps\<close>)
    then show ?thesis using step T_Store by simp
  next
    case (T_Swap r)
    have "wake_inv ww (store_notified m) (add_mset (Notify_Cas (Then_Found t r)) R)" by (rule store) (use T_Swap aw in \<open>simp_all add: simps\<close>)
    then show ?thesis using step T_Swap by simp
  next
    case (D_Swap b)
    have "wake_inv ww (store_notified m) (add_mset (if b then Notify_Cas Then_Idle else Exec_Idle) R)" by (rule store) (use D_Swap aw in \<open>simp_all add: simps\<close>)
    then show ?thesis using step D_Swap by simp
  next
    case T_Away
    then show ?thesis using step aw by (intro plain) (auto simp: simps split: exec_choice.splits if_splits)
  next
    case (T_Pending k v)
    then show ?thesis using step by (intro plain) (auto simp: simps split: exec_choice.splits if_splits)
  next
    case (T_Tick r)
    then show ?thesis using step aw by (intro plain) (auto simp: simps split: if_splits)
  next
    case (T_Run r)
    then show ?thesis using step aw by (intro plain) (auto simp: simps run_runnable_def)
  next
    case D_Retain
    then show ?thesis using step by (intro plain) (auto simp: simps split: if_splits)
  next
    case D_Pop
    then show ?thesis using step by (intro plain) (auto simp: simps split: list.splits)
  qed (rule search, simp)+
qed

lemma exec_wake_step:
  assumes inv: "wake_inv ww m (add_mset p R)" and step: "exec_step ww ch m p = Inr (m', p')"
  shows "wake_inv ww m' (add_mset p' R)"
proof (cases p)
  case (Tick t q)
  then show ?thesis using ticker_wake_step [of ww m t q R ch m' p'] inv step by simp
next
  case (Notify_Cas k)
  then show ?thesis using cas_wake_step [of ww m k R] inv step by (simp split: prod.splits)
next
  case (Notify_Lock k)
  then show ?thesis using lock_wake_step [of ww m k R] inv step by (simp split: prod.splits)
next
  case (Notify_Wake w k)
  then show ?thesis using waking_wake_step [of ww m w k R] inv step by simp
next
  case Exec_Idle
  then show ?thesis using step by (intro plain_wake_step [OF inv]) (auto simp: keys_def sleep_key_def awake_ok_def ticker_new_def split: exec_choice.splits if_splits)
next
  case Try_Pop
  then show ?thesis using step by (intro plain_wake_step [OF inv]) (auto simp: keys_def sleep_key_def awake_ok_def split: list.splits)
next
  case (Try_Run r)
  then show ?thesis using step by (intro plain_wake_step [OF inv]) (auto simp: keys_def sleep_key_def awake_ok_def run_runnable_def)
next
  case (Sched_Push r k)
  have "awake_ok p" using inv by (auto elim: wake_invE)
  then show ?thesis using step Sched_Push by (intro plain_wake_step [OF inv]) (auto simp: keys_def sleep_key_def awake_ok_def)
qed

end
