(* ===== verification/Executor_Work.thy ===== *)
theory Executor_Work
  imports Executor_Wake
begin

text \<open>
  No runnable gets lost: every scheduled runnable is in a queue, in the hands of a thread, or has been
  run. The local queue of a runner is filled by its owner alone, so that stealing never overfills it, and
  it is empty when its owner is gone.
\<close>

section \<open>The invariant\<close>

fun steal_hand :: "steal_next \<Rightarrow> runnable multiset" where
  "steal_hand (Steal_Found r) = {#r#}"
| "steal_hand (Steal_Iter w others) = {#}"
| "steal_hand (Steal_Run r) = {#r#}"

fun notify_hand :: "notify_next \<Rightarrow> runnable multiset" where
  "notify_hand (Then_Try r) = {#r#}"
| "notify_hand (Then_Found t r) = {#r#}"
| "notify_hand _ = {#}"

fun hand :: "exec_pc \<Rightarrow> runnable multiset" where
  "hand (Try_Run r) = {#r#}"
| "hand (Sched_Push r k) = add_mset r (notify_hand k)"
| "hand (Notify_Cas k) = notify_hand k"
| "hand (Notify_Lock k) = notify_hand k"
| "hand (Notify_Wake w k) = notify_hand k"
| "hand (Tick t (T_Len src k)) = steal_hand k"
| "hand (Tick t (T_Cap src c k)) = steal_hand k"
| "hand (Tick t (T_Take src c k)) = steal_hand k"
| "hand (Tick t (T_Put src c r k)) = add_mset r (steal_hand k)"
| "hand (Tick t (T_Found r)) = {#r#}"
| "hand (Tick t (T_Swap r)) = {#r#}"
| "hand (Tick t (T_Tick r)) = {#r#}"
| "hand (Tick t (T_Run r)) = {#r#}"
| "hand _ = {#}"

text \<open>The local queue that a thread owns, and the points at which it must have one.\<close>

definition owns :: "exec_pc \<Rightarrow> nat multiset" where
  "owns p = (case ticker_of p of Some t \<Rightarrow> (case tk_local t of Some q \<Rightarrow> {#q#} | None \<Rightarrow> {#}) | None \<Rightarrow> {#})"

fun needs_local :: "exec_pc \<Rightarrow> bool" where
  "needs_local (Tick t T_Away) = False"
| "needs_local (Tick t (T_Pending k w)) = False"
| "needs_local (Tick t (T_Global w)) = False"
| "needs_local (Tick t (T_Sleep w)) = False"
| "needs_local (Tick t (T_Store w)) = False"
| "needs_local (Tick t (T_Found r)) = False"
| "needs_local (Tick t (T_Swap r)) = False"
| "needs_local (Tick t D_Ticker) = False"
| "needs_local (Tick t (D_Swap b)) = False"
| "needs_local (Tick t p) = True"
| "needs_local p = False"

fun drop_next :: "notify_next \<Rightarrow> bool" where
  "drop_next (Then_Drop t) = True"
| "drop_next k = False"

fun dropping :: "exec_pc \<Rightarrow> bool" where
  "dropping (Sched_Push r k) = drop_next k"
| "dropping (Notify_Cas k) = drop_next k"
| "dropping (Notify_Lock k) = drop_next k"
| "dropping (Notify_Wake w k) = drop_next k"
| "dropping (Tick t D_Pop) = True"
| "dropping (Tick t D_Ticker) = True"
| "dropping (Tick t (D_Swap b)) = True"
| "dropping p = False"

fun drained :: "exec_pc \<Rightarrow> bool" where
  "drained (Tick t D_Ticker) = True"
| "drained (Tick t (D_Swap b)) = True"
| "drained p = False"

fun room :: "exec_pc \<Rightarrow> nat" where
  "room (Tick t (T_Take src c k)) = c"
| "room (Tick t (T_Put src c r k)) = Suc c"
| "room p = 0"

definition work_ok :: "executor \<Rightarrow> exec_pc \<Rightarrow> bool" where
  "work_ok m p \<longleftrightarrow>
     (needs_local p \<or> dropping p \<and> \<not> drained p \<longrightarrow> owns p \<noteq> {#}) \<and>
     (\<forall>q. owns p = {#q#} \<longrightarrow>
        (dropping p \<or> q \<in> set (ex_locals m)) \<and> (drained p \<longrightarrow> ex_local m q = []) \<and> length (ex_local m q) + room p \<le> local_capacity)"

definition stock :: "executor \<Rightarrow> runnable multiset" where
  "stock m = mset (ex_queue m) + (\<Sum>q<ex_next m. mset (ex_local m q))"

definition work_inv :: "executor \<Rightarrow> exec_pc multiset \<Rightarrow> bool" where
  "work_inv m T \<longleftrightarrow>
     (\<exists>B. finite B \<and> entries owns T = mset_set B \<and> B \<subseteq> {..<ex_next m} \<and> (\<forall>q. q \<notin> B \<longrightarrow> ex_local m q = [])) \<and>
     ex_scheduled m = ex_ran m + stock m + entries hand T \<and> (\<forall>p\<in>#T. work_ok m p)"

lemma work_invE:
  assumes "work_inv m (add_mset p R)"
  obtains B where "finite B" "owns p + entries owns R = mset_set B" "B \<subseteq> {..<ex_next m}" "\<And>q. q \<notin> B \<Longrightarrow> ex_local m q = []"
    "ex_scheduled m = ex_ran m + stock m + hand p + entries hand R" "work_ok m p" "\<And>x. x \<in># R \<Longrightarrow> work_ok m x"
  using assms unfolding work_inv_def by (auto simp: ac_simps)

lemma work_invI:
  assumes "finite B" "owns p + entries owns R = mset_set B" "B \<subseteq> {..<ex_next m}" "\<And>q. q \<notin> B \<Longrightarrow> ex_local m q = []"
    "ex_scheduled m = ex_ran m + stock m + hand p + entries hand R" "work_ok m p" "\<And>x. x \<in># R \<Longrightarrow> work_ok m x"
  shows "work_inv m (add_mset p R)"
  using assms unfolding work_inv_def by (auto simp: ac_simps)

lemma owns_cases: "owns p = {#} \<or> (\<exists>q. owns p = {#q#})"
  by (simp add: owns_def split: option.splits)

text \<open>Different threads own different queues.\<close>

lemma owns_distinct:
  assumes "finite B" "owns p + entries owns R = mset_set B" "x \<in># R" "owns x = {#q#}"
  shows "q \<in> B" "owns p \<noteq> {#q#}"
proof -
  have q: "q \<in># entries owns R" using entries_in [OF assms(3), of owns] assms(4) by (simp add: mset_subset_eq_single)
  then have "q \<in># mset_set B" using assms(2) by (metis union_iff)
  then show "q \<in> B" using assms(1) by simp
  show "owns p \<noteq> {#q#}"
  proof
    assume "owns p = {#q#}"
    then have "add_mset q (entries owns R) = mset_set B" using assms(2) by simp
    from owned_remove [OF assms(1) this] q assms(1) show False by simp
  qed
qed

text \<open>What a step of one thread may do to the queues that it does not own.\<close>

definition others_keep :: "executor \<Rightarrow> executor \<Rightarrow> exec_pc \<Rightarrow> bool" where
  "others_keep m m' p \<longleftrightarrow>
     (\<forall>q. owns p \<noteq> {#q#} \<longrightarrow> length (ex_local m' q) \<le> length (ex_local m q) \<and> (q \<in> set (ex_locals m) \<longrightarrow> q \<in> set (ex_locals m')))"

lemma others_work_ok:
  assumes "others_keep m m' p" "finite B" "owns p + entries owns R = mset_set B" "x \<in># R" "work_ok m x"
  shows "work_ok m' x"
  unfolding work_ok_def
proof (intro conjI allI impI)
  show "needs_local x \<or> dropping x \<and> \<not> drained x \<Longrightarrow> owns x \<noteq> {#}" using assms(5) by (simp add: work_ok_def)
  fix q
  assume q: "owns x = {#q#}"
  then have k: "length (ex_local m' q) \<le> length (ex_local m q)" "q \<in> set (ex_locals m) \<Longrightarrow> q \<in> set (ex_locals m')"
    using owns_distinct(2) [OF assms(2,3,4) q] assms(1) by (auto simp: others_keep_def)
  then show "dropping x \<or> q \<in> set (ex_locals m')" "length (ex_local m' q) + room x \<le> local_capacity" "drained x \<Longrightarrow> ex_local m' q = []"
    using assms(5) q by (auto simp: work_ok_def)
qed

lemma work_step:
  assumes inv: "work_inv m (add_mset p R)" and x: "others_keep m m' p" and p: "owns p' = owns p" "work_ok m' p'"
    and n: "ex_next m' = ex_next m" and s: "ex_scheduled m' = ex_scheduled m" "ex_ran m' + stock m' + hand p' = ex_ran m + stock m + hand p"
  shows "work_inv m' (add_mset p' R)"
proof (rule work_invE [OF inv])
  fix B
  assume B: "finite B" "owns p + entries owns R = mset_set B" "B \<subseteq> {..<ex_next m}" "\<And>q. q \<notin> B \<Longrightarrow> ex_local m q = []"
    and b: "ex_scheduled m = ex_ran m + stock m + hand p + entries hand R" and w: "\<And>x. x \<in># R \<Longrightarrow> work_ok m x"
  have "ex_local m' q = []" if "q \<notin> B" for q
  proof -
    have "owns p \<noteq> {#q#}" using that B(1,2) by (metis elem_mset_set union_iff union_single_eq_member)
    then show ?thesis using x B(4) [OF that] by (auto simp: others_keep_def)
  qed
  then show ?thesis
    by (intro work_invI [of B]) (use B b w p n s others_work_ok [OF x B(1,2)] in auto)
qed

section \<open>Every step keeps it\<close>

lemma owns_Tick [simp]: "owns (Tick t p) = (case tk_local t of Some q \<Rightarrow> {#q#} | None \<Rightarrow> {#})"
  by (simp add: owns_def)

lemma others_keep_same [simp]: "ex_local m' = ex_local m \<Longrightarrow> ex_locals m' = ex_locals m \<Longrightarrow> others_keep m m' p"
  by (simp add: others_keep_def)

lemma work_beyond:
  assumes "work_inv m (add_mset p R)" "ex_next m \<le> q"
  shows "ex_local m q = []"
  using assms by (elim work_invE) (metis lessThan_iff not_le subsetD)

lemma owned_next:
  assumes "work_inv m (add_mset p R)" "owns p = {#q#}"
  shows "q < ex_next m"
  using assms by (elim work_invE) (metis elem_mset_set lessThan_iff subsetD union_iff union_single_eq_member)

lemma src_pop_work [simp]:
  "ex_locals (src_pop m src) = ex_locals m" "ex_next (src_pop m src) = ex_next m" "ex_scheduled (src_pop m src) = ex_scheduled m"
  "ex_ran (src_pop m src) = ex_ran m" "ex_readers (src_pop m src) = ex_readers m"
  "ex_local (src_pop m src) = (case src of None \<Rightarrow> ex_local m | Some q \<Rightarrow> (ex_local m)(q := tl (ex_local m q)))"
  by (simp_all add: src_pop_def split: option.splits)

lemma others_keep_pop [simp]: "others_keep m (src_pop m src) p"
  by (simp add: others_keep_def split: option.splits)

lemma local_update:
  fixes f :: "nat \<Rightarrow> runnable list"
  assumes "q < n"
  shows "(\<Sum>i<n. mset ((f(q := xs)) i)) + mset (f q) = (\<Sum>i<n. mset (f i)) + mset xs"
proof -
  have s: "(\<Sum>i<n. h i) = h q + (\<Sum>i\<in>{..<n} - {q}. h i)" for h :: "nat \<Rightarrow> runnable multiset"
    using assms by (simp add: sum.remove)
  have "(\<Sum>i\<in>{..<n} - {q}. mset ((f(q := xs)) i)) = (\<Sum>i\<in>{..<n} - {q}. mset (f i))" by (rule sum.cong) auto
  then show ?thesis by (simp add: s [of "\<lambda>i. mset ((f(q := xs)) i)"] s [of "\<lambda>i. mset (f i)"] del: fun_upd_apply) (simp add: ac_simps)
qed

lemma stock_pop:
  assumes "\<And>q. ex_next m \<le> q \<Longrightarrow> ex_local m q = []" "src_queue m src = r # rs"
  shows "stock m = add_mset r (stock (src_pop m src))"
proof (cases src)
  case None
  then show ?thesis using assms(2) by (simp add: stock_def src_queue_def src_pop_def)
next
  case (Some q)
  then have q: "ex_local m q = r # rs" using assms(2) by (simp add: src_queue_def)
  then have "q < ex_next m" using assms(1) by (metis list.distinct(1) not_le)
  from local_update [OF this, of "ex_local m" rs] q Some show ?thesis by (simp add: stock_def src_pop_def)
qed

lemma stock_push:
  assumes "q < ex_next m"
  shows "stock (m\<lparr>ex_local := (ex_local m)(q := ex_local m q @ [r])\<rparr>) = add_mset r (stock m)"
  using local_update [OF assms, of "ex_local m" "ex_local m q @ [r]"] by (simp add: stock_def)

lemma pop_work_step:
  assumes inv: "work_inv m (add_mset p R)" and q: "src_queue m src = r # rs" and p: "owns p' = owns p" "work_ok (src_pop m src) p'" "hand p' = add_mset r (hand p)"
  shows "work_inv (src_pop m src) (add_mset p' R)"
  using work_step [OF inv others_keep_pop p(1,2)] stock_pop [OF work_beyond [OF inv] q] p(3) by simp

lemma plain_work_step:
  assumes "work_inv m (add_mset p R)" "ex_local m' = ex_local m" "ex_locals m' = ex_locals m" "ex_next m' = ex_next m" "ex_queue m' = ex_queue m"
    "ex_scheduled m' = ex_scheduled m" "ex_ran m' = ex_ran m" "owns p' = owns p" "hand p' = hand p" "work_ok m' p'"
  shows "work_inv m' (add_mset p' R)"
  using assms by (intro work_step [OF assms(1)]) (simp_all add: stock_def)

text \<open>A thread that needs no more room than before is content with shorter queues.\<close>

lemma work_ok_keep:
  assumes "work_ok m p" "owns p' = owns p" "needs_local p' \<Longrightarrow> owns p \<noteq> {#}" "dropping p' = dropping p" "drained p' = drained p" "room p' \<le> room p"
    and "\<And>q. length (ex_local m' q) \<le> length (ex_local m q)" "set (ex_locals m) \<subseteq> set (ex_locals m')"
  shows "work_ok m' p'"
  unfolding work_ok_def
proof (intro conjI allI impI)
  show "needs_local p' \<or> dropping p' \<and> \<not> drained p' \<Longrightarrow> owns p' \<noteq> {#}" using assms(1-5) by (auto simp: work_ok_def)
  fix q
  assume "owns p' = {#q#}"
  then have w: "dropping p \<or> q \<in> set (ex_locals m)" "drained p \<Longrightarrow> ex_local m q = []" "length (ex_local m q) + room p \<le> local_capacity"
    using assms(1,2) by (auto simp: work_ok_def)
  show "dropping p' \<or> q \<in> set (ex_locals m')" using w(1) assms(4,8) by blast
  show "drained p' \<Longrightarrow> ex_local m' q = []" using w(2) assms(5) assms(7) [of q] by simp
  show "length (ex_local m' q) + room p' \<le> local_capacity" using w(3) assms(6) assms(7) [of q] by linarith
qed

lemma src_pop_shorter: "length (ex_local (src_pop m src) q) \<le> length (ex_local m q)"
  by (simp split: option.splits)

lemma steal_done_work: "hand (Tick t (steal_done k)) = steal_hand k" "\<not> dropping (Tick t (steal_done k))" "\<not> drained (Tick t (steal_done k))" "room (Tick t (steal_done k)) = 0"
  by (cases k; simp)+

definition searching :: "ticker_pc \<Rightarrow> bool" where
  "searching p \<longleftrightarrow> (case p of
     T_Local _ \<Rightarrow> True | T_Global _ \<Rightarrow> True | T_Others _ \<Rightarrow> True | T_Next _ _ \<Rightarrow> True | T_Own _ _ \<Rightarrow> True |
     T_Len _ _ \<Rightarrow> True | T_Cap _ _ _ \<Rightarrow> True | T_Take _ _ _ \<Rightarrow> True | T_Put _ _ _ _ \<Rightarrow> True | _ \<Rightarrow> False)"

lemma plain_search_step:
  assumes inv: "work_inv m (add_mset (Tick t p) R)" and w: "work_ok m (Tick t p)" and p: "searching p"
    and p': "needs_local (Tick t p') \<Longrightarrow> tk_local t \<noteq> None" "hand (Tick t p') = hand (Tick t p)" "\<not> dropping (Tick t p')" "room (Tick t p') \<le> room (Tick t p)"
  shows "work_inv (m\<lparr>ex_readers := n\<rparr>) (add_mset (Tick t p') R)" "work_inv m (add_mset (Tick t p') R)"
proof -
  have d: "\<not> dropping (Tick t p)" "\<not> drained (Tick t p)" using p by (cases p; simp add: searching_def)+
  have dr: "\<not> drained (Tick t p')" using p'(3) by (cases p') simp_all
  have k: "owns (Tick t p') = owns (Tick t p)" by simp
  have "work_ok (m\<lparr>ex_readers := n\<rparr>) (Tick t p')" "work_ok m (Tick t p')"
    by (rule work_ok_keep [OF w k]; use d dr p' in \<open>simp split: option.splits\<close>)+
  then show "work_inv (m\<lparr>ex_readers := n\<rparr>) (add_mset (Tick t p') R)" "work_inv m (add_mset (Tick t p') R)"
    by (intro plain_work_step [OF inv]; use p' in simp)+
qed

lemma pop_search_step:
  assumes inv: "work_inv m (add_mset (Tick t p) R)" and w: "work_ok m (Tick t p)" and p: "searching p" and q: "src_queue m src = r # rs"
    and p': "needs_local (Tick t p') \<Longrightarrow> tk_local t \<noteq> None" "hand (Tick t p') = add_mset r (hand (Tick t p))" "\<not> dropping (Tick t p')" "room (Tick t p') \<le> room (Tick t p)"
  shows "work_inv (src_pop m src) (add_mset (Tick t p') R)"
proof (rule pop_work_step [OF inv q])
  have d: "\<not> dropping (Tick t p)" "\<not> drained (Tick t p)" using p by (cases p; simp add: searching_def)+
  have dr: "\<not> drained (Tick t p')" using p'(3) by (cases p') simp_all
  have k: "owns (Tick t p') = owns (Tick t p)" by simp
  show "work_ok (src_pop m src) (Tick t p')"
    by (rule work_ok_keep [OF w k]) (use d dr p' in \<open>simp_all split: option.splits\<close>)
qed (use p' in simp_all)

lemma work_ok_readers [simp]: "work_ok (m\<lparr>ex_readers := n\<rparr>) p = work_ok m p"
  by (simp add: work_ok_def)

lemma work_inv_readers [simp]: "work_inv (m\<lparr>ex_readers := n\<rparr>) T = work_inv m T"
  by (simp add: work_inv_def stock_def)

lemma cap_work_step:
  assumes inv: "work_inv m (add_mset (Tick t (T_Cap src c k)) R)" and w: "work_ok m (Tick t (T_Cap src c k))" and q: "tk_local t = Some q"
  shows "work_inv m (add_mset (Tick t (T_Take src (min c (local_capacity - length (ex_local m q))) k)) R)"
proof (rule plain_work_step [OF inv])
  show "work_ok m (Tick t (T_Take src (min c (local_capacity - length (ex_local m q))) k))" using w q by (auto simp: work_ok_def)
qed simp_all

lemma put_work_step:
  assumes inv: "work_inv m (add_mset (Tick t (T_Put src c r k)) R)" and w: "work_ok m (Tick t (T_Put src c r k))" and q: "tk_local t = Some q"
  shows "work_inv (m\<lparr>ex_local := (ex_local m)(q := ex_local m q @ [r])\<rparr>) (add_mset (Tick t (T_Take src c k)) R)"
proof (rule work_step [OF inv])
  let ?m = "m\<lparr>ex_local := (ex_local m)(q := ex_local m q @ [r])\<rparr>"
  have "q < ex_next m" using owned_next [OF inv] q by simp
  from stock_push [OF this] show "ex_ran ?m + stock ?m + hand (Tick t (T_Take src c k)) = ex_ran m + stock m + hand (Tick t (T_Put src c r k))" by simp
  show "work_ok ?m (Tick t (T_Take src c k))" using w q by (auto simp: work_ok_def)
  show "others_keep m ?m (Tick t (T_Put src c r k))" using q by (simp add: others_keep_def)
qed simp_all

lemma search_work_step:
  assumes inv: "work_inv m (add_mset (Tick t p) R)" and p: "searching p"
  shows "\<exists>m' p'. search_step n m t p = Inr (m', p') \<and> work_inv m' (add_mset (Tick t p') R)"
proof -
  have w: "work_ok m (Tick t p)" using inv by (rule work_invE)
  note plain = plain_search_step [OF inv w p] and pop = pop_search_step [OF inv w p] and d = steal_done_work
  have loc: "tk_local t \<noteq> None" if "needs_local (Tick t p)" using w that by (cases "tk_local t") (auto simp: work_ok_def)
  show ?thesis
  proof (cases "\<exists>w. p = T_Global w")
    case True
    then obtain w where g: "p = T_Global w" by blast
    show ?thesis
    proof (cases "ex_queue m")
      case Nil
      have "work_inv m (add_mset (Tick t (if tk_local t = None then T_Sleep w else T_Others w)) R)" by (rule plain(2)) (use g in \<open>auto split: if_splits\<close>)
      then show ?thesis using g Nil by simp
    next
      case (Cons r rs)
      then have q: "src_queue m None = r # rs" by (simp add: src_queue_def)
      have "work_inv (src_pop m None) (add_mset (Tick t (if tk_local t = None then T_Found r else T_Len None (Steal_Found r))) R)"
        by (rule pop [OF q]) (use g in \<open>auto split: if_splits\<close>)
      then show ?thesis using g Cons by simp
    qed
  next
    case False
    then have "needs_local (Tick t p)" using p by (cases p) (simp_all add: searching_def)
    with loc obtain q where q: "tk_local t = Some q" by blast
    then have own: "own t = q" by (simp add: own_def)
    have in_locals: "q \<in> set (ex_locals m)" if "\<not> dropping (Tick t p)" using w q that by (simp add: work_ok_def)
    have cap: "length (ex_local m q) + room (Tick t p) \<le> local_capacity" using w q by (simp add: work_ok_def)
    show ?thesis
    proof (cases p)
      case (T_Local v)
      then show ?thesis using plain(2) [of "T_Global v"] pop [of "Some q"] q own
        by (cases "ex_local m q") (auto simp: src_queue_def)
    next
      case (T_Others v)
      then have "ex_locals m \<noteq> []" using in_locals by auto
      then show ?thesis using T_Others plain(1) [of "T_Next v _"] q by (simp add: Let_def)
    next
      case (T_Next v others)
      then show ?thesis using plain(2) [of "T_Len (Some (hd others)) (Steal_Iter v (tl others))"] plain(1) [of "T_Sleep v"] q
        by (cases others) simp_all
    next
      case (T_Own v others)
      then show ?thesis using plain(2) [of "T_Next v others"] pop [of "Some q"] q own
        by (cases "ex_local m q") (auto simp: src_queue_def)
    next
      case (T_Len src k)
      then show ?thesis using plain(2) [of "steal_done k"] plain(2) [of "T_Cap src _ k"] q d by (simp add: Let_def)
    next
      case (T_Cap src c k)
      then show ?thesis using cap_work_step [of m t src c k R q] inv w q own cap by simp
    next
      case (T_Take src c k)
      then show ?thesis using plain(2) [of "steal_done k"] pop [of src] q d by (cases "src_queue m src") auto
    next
      case (T_Put src c r k)
      then show ?thesis using put_work_step [of m t src c r k R q] inv w q own cap by simp
    qed (use p False in \<open>simp_all add: searching_def\<close>)
  qed
qed

lemma work_ok_same: "ex_local m' = ex_local m \<Longrightarrow> ex_locals m' = ex_locals m \<Longrightarrow> work_ok m' p = work_ok m p"
  by (simp add: work_ok_def)

lemma work_keep_same:
  assumes "work_inv m (add_mset p R)" "work_ok m p" "ex_local m' = ex_local m" "ex_locals m' = ex_locals m" "ex_next m' = ex_next m" "ex_queue m' = ex_queue m"
    "ex_scheduled m' = ex_scheduled m" "ex_ran m' = ex_ran m" "owns p' = owns p" "hand p' = hand p"
    "needs_local p' \<Longrightarrow> owns p \<noteq> {#}" "dropping p' = dropping p" "drained p' = drained p" "room p' \<le> room p"
  shows "work_inv m' (add_mset p' R)"
proof (rule plain_work_step [OF assms(1,3-10)])
  show "work_ok m' p'" by (rule work_ok_keep [OF assms(2,9)]) (use assms(3,4,11-14) in simp_all)
qed

text \<open>A thread that is done with its local queue leaves it empty.\<close>

lemma release_work_step:
  assumes inv: "work_inv m (add_mset p R)" and p: "drained p" "hand p = {#}" "owns p' = {#}" "hand p' = {#}" "work_ok m p'"
    and m: "ex_local m' = ex_local m" "ex_locals m' = ex_locals m" "ex_next m' = ex_next m" "ex_queue m' = ex_queue m" "ex_scheduled m' = ex_scheduled m" "ex_ran m' = ex_ran m"
  shows "work_inv m' (add_mset p' R)"
proof (rule work_invE [OF inv])
  fix B
  assume B: "finite B" "owns p + entries owns R = mset_set B" "B \<subseteq> {..<ex_next m}" "\<And>q. q \<notin> B \<Longrightarrow> ex_local m q = []"
    and b: "ex_scheduled m = ex_ran m + stock m + hand p + entries hand R" and w: "work_ok m p" "\<And>x. x \<in># R \<Longrightarrow> work_ok m x"
  note rest = m b p w(2) work_ok_same [OF m(1,2)] stock_def
  consider "owns p = {#}" | q where "owns p = {#q#}" using owns_cases by blast
  then show ?thesis
  proof cases
    case 1
    then show ?thesis by (intro work_invI [of B]) (use B rest in auto)
  next
    case (2 q)
    then have "add_mset q (entries owns R) = mset_set B" using B(2) by simp
    note o = owned_remove [OF B(1) this]
    have "ex_local m q = []" using w(1) p(1) 2 by (simp add: work_ok_def)
    then show ?thesis by (intro work_invI [of "B - {q}"]) (use B o rest in auto)
  qed
qed

lemma new_runner_step:
  assumes inv: "work_inv m (add_mset Exec_Idle R)"
  shows "work_inv (m\<lparr>ex_next := Suc (ex_next m), ex_locals := ex_locals m @ [ex_next m]\<rparr>) (add_mset (Tick (ticker_new (Some (ex_next m))) T_Away) R)"
proof (rule work_invE [OF inv])
  fix B
  let ?m = "m\<lparr>ex_next := Suc (ex_next m), ex_locals := ex_locals m @ [ex_next m]\<rparr>"
  assume B: "finite B" "owns Exec_Idle + entries owns R = mset_set B" "B \<subseteq> {..<ex_next m}" "\<And>q. q \<notin> B \<Longrightarrow> ex_local m q = []"
    and b: "ex_scheduled m = ex_ran m + stock m + hand Exec_Idle + entries hand R" and w: "\<And>x. x \<in># R \<Longrightarrow> work_ok m x"
  have n: "ex_next m \<notin> B" using B(3) by auto
  have e: "ex_local m (ex_next m) = []" using B(4) [OF n] .
  have "entries owns R = mset_set B" using B(2) by (simp add: owns_def)
  then have "owns (Tick (ticker_new (Some (ex_next m))) T_Away) + entries owns R = mset_set (insert (ex_next m) B)"
    using owned_add [OF B(1) n] by (simp add: ticker_new_def)
  moreover have "stock ?m = stock m" using e by (simp add: stock_def)
  moreover have "work_ok ?m x" if "x \<in># R" for x by (rule work_ok_keep [OF w [OF that]]) (use w [OF that] in \<open>auto simp: work_ok_def\<close>)
  moreover have "work_ok ?m (Tick (ticker_new (Some (ex_next m))) T_Away)" using e by (simp add: work_ok_def ticker_new_def)
  ultimately show ?thesis by (intro work_invI [of "insert (ex_next m) B"]) (use B b n in auto)
qed

lemma notify_work_step:
  assumes inv: "work_inv m (add_mset p R)" and w: "work_ok m p" and p: "p = Notify_Cas k \<or> p = Notify_Lock k \<or> p = Notify_Wake v k"
  shows "case notify_step m p of (m', p') \<Rightarrow> work_inv m' (add_mset p' R)"
proof -
  have same: "owns (Notify_Cas k) = owns p" "owns (Notify_Lock k) = owns p" "owns (Notify_Wake x k) = owns p" for x using p by (auto simp: owns_def)
  have n: "owns (notify_done k) = owns p \<and> hand (notify_done k) = hand p \<and> (needs_local (notify_done k) \<longrightarrow> owns p \<noteq> {#}) \<and>
      dropping (notify_done k) = dropping p \<and> drained (notify_done k) = drained p \<and> room (notify_done k) = 0"
  proof -
    have d: "owns p = owns (Notify_Cas k)" "hand p = notify_hand k" "dropping p = drop_next k" "drained p = False" using p same(1) by auto
    moreover have "drop_next k \<Longrightarrow> owns (Notify_Cas k) \<noteq> {#}" using w d by (simp add: work_ok_def)
    ultimately show ?thesis by (cases k) (simp_all add: owns_def split: option.splits)
  qed
  note keep = work_keep_same [OF inv w]
  have done_same: "work_inv m (add_mset (notify_done k) R)" "work_inv (m\<lparr>ex_sleepers := s\<rparr>) (add_mset (notify_done k) R)"
    "work_inv (m\<lparr>ex_woken := ws\<rparr>) (add_mset (notify_done k) R)" for s ws
    by (rule keep; use n in simp)+
  have go: "work_inv (m\<lparr>ex_notified := b\<rparr>) (add_mset (Notify_Lock k) R)" "work_inv (m\<lparr>ex_sleepers := s\<rparr>) (add_mset (Notify_Wake x k) R)" for b s x
    by (rule keep; use same p in auto)+
  from p show ?thesis
  proof (elim disjE)
    assume "p = Notify_Cas k"
    then show ?thesis using done_same(1) go(1) by simp
  next
    assume l: "p = Notify_Lock k"
    show ?thesis
    proof (cases "ex_lock m")
      case False
      then show ?thesis using l done_same(2) go(2) by (simp split: prod.splits option.splits)
    qed (use l inv in simp)
  next
    assume "p = Notify_Wake v k"
    then show ?thesis using done_same(3) by simp
  qed
qed

lemma work_ok_free: "owns p = {#} \<Longrightarrow> \<not> needs_local p \<Longrightarrow> dropping p \<longrightarrow> drained p \<Longrightarrow> work_ok m p"
  by (auto simp: work_ok_def)

lemma owns_next: "owns (Notify_Cas (Then_Found t r)) = owns (Tick t p)" "owns (Sched_Push r (Then_Drop t)) = owns (Tick t p)"
  by (simp_all add: owns_def)

lemma owns_free [simp]: "owns Exec_Idle = {#}" "owns (Notify_Cas Then_Idle) = {#}" "owns (Try_Run r) = {#}" "owns Try_Pop = {#}" "owns (Notify_Cas (Then_Try r)) = {#}"
  by (simp_all add: owns_def)

lemma run_work_step:
  assumes inv: "work_inv m (add_mset p R)" and w: "work_ok m p" and p: "hand p = {#r#}" "hand p' = {#}" "owns p' = owns p"
    "\<not> needs_local p'" "dropping p' = dropping p" "drained p' = drained p" "room p' = 0"
  shows "work_inv (run_runnable m r) (add_mset p' R)"
proof (rule work_step [OF inv])
  show "work_ok (run_runnable m r) p'" by (rule work_ok_keep [OF w p(3)]) (use p in \<open>simp_all add: run_runnable_def\<close>)
qed (use p in \<open>simp_all add: run_runnable_def stock_def\<close>)

lemma retain_work_step:
  assumes inv: "work_inv m (add_mset (Tick t D_Retain) R)" and w: "work_ok m (Tick t D_Retain)"
  shows "work_inv (m\<lparr>ex_locals := filter (\<lambda>q. q \<noteq> own t) (ex_locals m)\<rparr>) (add_mset (Tick t D_Pop) R)"
proof (rule work_step [OF inv])
  obtain q where q: "tk_local t = Some q" using w by (cases "tk_local t") (auto simp: work_ok_def)
  let ?m = "m\<lparr>ex_locals := filter (\<lambda>q. q \<noteq> own t) (ex_locals m)\<rparr>"
  show "work_ok ?m (Tick t D_Pop)" using w q by (simp add: work_ok_def)
  show "others_keep m ?m (Tick t D_Retain)" using q by (simp add: others_keep_def own_def)
qed (simp_all add: stock_def)

lemma drop_pop_work_step:
  assumes inv: "work_inv m (add_mset (Tick t D_Pop) R)" and w: "work_ok m (Tick t D_Pop)" and step: "ticker_step ww ch m t D_Pop = Inr (m', p')"
  shows "work_inv m' (add_mset p' R)"
proof -
  obtain q where q: "tk_local t = Some q" "own t = q" using w by (cases "tk_local t") (auto simp: work_ok_def own_def)
  show ?thesis
  proof (cases "ex_local m q")
    case Nil
    have "work_inv m (add_mset (Tick t D_Ticker) R)"
      by (rule plain_work_step [OF inv]) (use w q Nil in \<open>simp_all add: work_ok_def\<close>)
    then show ?thesis using step q Nil by simp
  next
    case (Cons r rs)
    have "work_inv (src_pop m (Some q)) (add_mset (Sched_Push r (Then_Drop t)) R)"
    proof (rule pop_work_step [OF inv])
      show "work_ok (src_pop m (Some q)) (Sched_Push r (Then_Drop t))"
        by (rule work_ok_keep [OF w]) (use q in \<open>simp_all add: owns_next(2) [of r t D_Pop]\<close>)
    qed (use q Cons in \<open>simp_all add: src_queue_def owns_next(2) [of r t D_Pop]\<close>)
    then show ?thesis using step q Cons by simp
  qed
qed

lemma leaving_work_step:
  assumes inv: "work_inv m (add_mset (Tick t p) R)" and w: "work_ok m (Tick t p)" and step: "leave_sleepers m t (Tick t p) awk k = Inr (m', p')"
    and p: "p = T_Found r \<and> awk = Notify_Cas (Then_Found t r) \<and> k = (\<lambda>_. Tick (t\<lparr>tk_sleeping := 0\<rparr>) (T_Swap r)) \<or>
      p = D_Ticker \<and> awk = Exec_Idle \<and> k = (\<lambda>notified. Tick (t\<lparr>tk_sleeping := 0\<rparr>) (D_Swap notified))"
  shows "work_inv m' (add_mset p' R)"
proof -
  have a: "work_inv m (add_mset awk R)"
    using p
  proof
    assume "p = D_Ticker \<and> awk = Exec_Idle \<and> k = (\<lambda>notified. Tick (t\<lparr>tk_sleeping := 0\<rparr>) (D_Swap notified))"
    then show ?thesis using release_work_step [OF inv, of Exec_Idle m] work_ok_free [of Exec_Idle m] by simp
  next
    assume "p = T_Found r \<and> awk = Notify_Cas (Then_Found t r) \<and> k = (\<lambda>_. Tick (t\<lparr>tk_sleeping := 0\<rparr>) (T_Swap r))"
    then show ?thesis using work_keep_same [OF inv w, of m "Notify_Cas (Then_Found t r)"] by (simp add: owns_next(1) [of t r p])
  qed
  have k: "work_inv (m\<lparr>ex_sleepers := s, ex_lock := True\<rparr>) (add_mset (k notified) R)" for s notified
    by (rule work_keep_same [OF inv w]) (use p in auto)
  show ?thesis using step a k inv by (auto simp: leave_sleepers_def split: if_splits)
qed

lemma ticker_work_step:
  assumes inv: "work_inv m (add_mset (Tick t p) R)" and step: "ticker_step ww ch m t p = Inr (m', p')"
  shows "work_inv m' (add_mset p' R)"
proof -
  have w: "work_ok m (Tick t p)" using inv by (rule work_invE)
  note keep = work_keep_same [OF inv w] and plain = plain_work_step [OF inv]
  have search: "work_inv m' (add_mset p' R)" if "ticker_step ww ch m t p = map_sum id (\<lambda>(m', p'). (m', Tick t p')) (search_step n m t p)" "searching p" for n
    using that step search_work_step [OF inv that(2), of n] by auto
  have start: "work_inv m (add_mset (Tick t (search_start t v)) R)" if "p = T_Away \<or> p = T_Pending n u" for v n u
    by (rule keep) (use that in \<open>auto simp: search_start_def split: if_splits option.splits\<close>)
  have drop: "work_inv m (add_mset (Tick t (if tk_local t = None then D_Ticker else D_Retain)) R)" if "p = T_Away \<or> p = T_Pending n u" for n u
    by (rule plain) (use that w in \<open>auto simp: work_ok_def\<close>)
  show ?thesis
  proof (cases p)
    case (T_Sleep v)
    have "work_inv (m\<lparr>ex_sleepers := s, ex_lock := b\<rparr>) (add_mset (Tick (t\<lparr>tk_sleeping := key\<rparr>) (T_Store v)) R)"
      "work_inv (m\<lparr>ex_sleepers := s, ex_lock := b\<rparr>) (add_mset (Tick t (T_Store v)) R)"
      "work_inv (m\<lparr>ex_sleepers := s\<rparr>) (add_mset (Tick t (T_Pending n v)) R)" for s b key n
      by (rule keep; use T_Sleep in simp)+
    then show ?thesis using step T_Sleep inv by (auto simp: ticker_sleep_def split: if_splits prod.splits)
  next
    case (T_Found r)
    then show ?thesis using step leaving_work_step [OF inv w, of "Notify_Cas (Then_Found t r)" "\<lambda>_. Tick (t\<lparr>tk_sleeping := 0\<rparr>) (T_Swap r)" m' p' r] by simp
  next
    case D_Ticker
    then show ?thesis using step leaving_work_step [OF inv w, of Exec_Idle "\<lambda>notified. Tick (t\<lparr>tk_sleeping := 0\<rparr>) (D_Swap notified)" m' p' 0] by simp
  next
    case (T_Store v)
    have "work_inv (store_notified m) (add_mset (Tick t (search_start t v)) R)"
      by (rule keep) (use T_Store in \<open>auto simp: store_notified_def search_start_def split: if_splits option.splits\<close>)
    then show ?thesis using step T_Store by simp
  next
    case (T_Swap r)
    have "work_inv (store_notified m) (add_mset (Notify_Cas (Then_Found t r)) R)"
      by (rule keep) (use T_Swap in \<open>auto simp: store_notified_def owns_next(1) [of t r p]\<close>)
    then show ?thesis using step T_Swap by simp
  next
    case (D_Swap b)
    have "work_inv (store_notified m) (add_mset (if b then Notify_Cas Then_Idle else Exec_Idle) R)"
      by (rule release_work_step [OF inv]) (use D_Swap in \<open>auto simp: store_notified_def work_ok_free\<close>)
    then show ?thesis using step D_Swap by simp
  next
    case T_Away
    then show ?thesis using step inv start drop by (auto split: exec_choice.splits)
  next
    case (T_Pending k v)
    then show ?thesis using step inv start [of k v] drop [of k v] by (auto split: exec_choice.splits)
  next
    case (T_Tick r)
    have "work_inv m (add_mset (Tick (t\<lparr>tk_ticks := tk_ticks t + 1\<rparr>) (if tk_ticks t mod 64 = 0 then T_Len None (Steal_Run r) else T_Run r)) R)"
      by (rule keep) (use T_Tick w in \<open>auto simp: work_ok_def\<close>)
    then show ?thesis using step T_Tick by simp
  next
    case (T_Run r)
    have "work_inv (run_runnable m r) (add_mset (Tick t T_Away) R)" by (rule run_work_step [OF inv w]) (use T_Run in simp_all)
    then show ?thesis using step T_Run by simp
  next
    case D_Retain
    then show ?thesis using step inv w retain_work_step [of m t R] by (auto split: if_splits)
  next
    case D_Pop
    then show ?thesis using step inv w drop_pop_work_step [of m t R] by simp
  qed (rule search, simp, simp add: searching_def)+
qed

lemma exec_work_step:
  assumes inv: "work_inv m (add_mset p R)" and step: "exec_step ww ch m p = Inr (m', p')"
  shows "work_inv m' (add_mset p' R)"
proof -
  have w: "work_ok m p" using inv by (rule work_invE)
  note keep = work_keep_same [OF inv w]
  show ?thesis
  proof (cases p)
    case (Tick t q)
    then show ?thesis using ticker_work_step [of m t q R ww ch m' p'] inv step by simp
  next
    case (Notify_Cas k)
    then show ?thesis using notify_work_step [OF inv w, of k 0] step by (simp split: prod.splits)
  next
    case (Notify_Lock k)
    then show ?thesis using notify_work_step [OF inv w, of k 0] step by (simp split: prod.splits)
  next
    case (Notify_Wake v k)
    then show ?thesis using notify_work_step [OF inv w, of k v] step by simp
  next
    case (Try_Run r)
    have "work_inv (run_runnable m r) (add_mset Exec_Idle R)" by (rule run_work_step [OF inv w]) (use Try_Run in simp_all)
    then show ?thesis using step Try_Run by simp
  next
    case Try_Pop
    have "work_inv (src_pop m None) (add_mset (Notify_Cas (Then_Try r)) R)" if "ex_queue m = r # rs" for r rs
      by (rule pop_work_step [OF inv]) (use that Try_Pop in \<open>auto simp: src_queue_def work_ok_free\<close>)
    moreover have "work_inv m (add_mset Exec_Idle R)" by (rule keep) (use Try_Pop in simp_all)
    ultimately show ?thesis using step Try_Pop by (auto split: list.splits)
  next
    case (Sched_Push r k)
    have o: "owns (Notify_Cas k) = owns p" using Sched_Push by (simp add: owns_def)
    have "work_inv (m\<lparr>ex_queue := ex_queue m @ [r]\<rparr>) (add_mset (Notify_Cas k) R)"
    proof (rule work_step [OF inv _ o])
      show "work_ok (m\<lparr>ex_queue := ex_queue m @ [r]\<rparr>) (Notify_Cas k)" by (rule work_ok_keep [OF w o]) (use Sched_Push in simp_all)
    qed (use Sched_Push in \<open>simp_all add: stock_def\<close>)
    then show ?thesis using step Sched_Push by simp
  next
    case Exec_Idle
    have sched: "work_inv (m\<lparr>ex_scheduled := add_mset r (ex_scheduled m)\<rparr>) (add_mset (Sched_Push r Then_Idle) R)" for r
    proof (rule work_invE [OF inv])
      fix B
      assume "finite B" "owns p + entries owns R = mset_set B" "B \<subseteq> {..<ex_next m}" "\<And>q. q \<notin> B \<Longrightarrow> ex_local m q = []"
        "ex_scheduled m = ex_ran m + stock m + hand p + entries hand R" "\<And>x. x \<in># R \<Longrightarrow> work_ok m x"
      then show ?thesis by (intro work_invI [of B]) (use Exec_Idle in \<open>auto simp: stock_def work_ok_def owns_def\<close>)
    qed
    have other: "work_inv m (add_mset Try_Pop R)" "work_inv m (add_mset (Tick (ticker_new None) T_Away) R)"
      by (rule keep; use Exec_Idle in \<open>simp add: ticker_new_def\<close>)+
    show ?thesis using step Exec_Idle inv sched other new_runner_step by (auto split: exec_choice.splits if_splits)
  qed
qed

section \<open>Properties\<close>

definition exec_inv :: "(waker \<Rightarrow> waker \<Rightarrow> bool) \<Rightarrow> executor \<Rightarrow> exec_pc multiset \<Rightarrow> bool" where
  "exec_inv ww m T \<longleftrightarrow> wake_inv ww m T \<and> work_inv m T"

lemma exec_total:
  assumes "exec_inv ww m (add_mset p R)"
  shows "\<exists>m' p'. exec_step ww ch m p = Inr (m', p')"
proof (cases p)
  case (Tick t q)
  then have i: "wake_inv ww m (add_mset (Tick t q) R)" "work_inv m (add_mset (Tick t q) R)" using assms by (simp_all add: exec_inv_def)
  have "\<exists>m' p'. ticker_step ww ch m t q = Inr (m', p')"
  proof (cases "searching q")
    case True
    then have "ticker_step ww ch m t q = map_sum id (\<lambda>(m', p'). (m', Tick t p')) (search_step (case ch of Exec_Go n \<Rightarrow> n | _ \<Rightarrow> 0) m t q)"
      by (cases q) (simp_all add: searching_def)
    then show ?thesis using search_work_step [OF i(2) True, of "case ch of Exec_Go n \<Rightarrow> n | _ \<Rightarrow> 0"] by auto
  next
    case False
    show ?thesis
    proof (cases q)
      case (T_Found r)
      then show ?thesis using leaving_wake_step [OF i(1), of r "Notify_Cas (Then_Found t r)" "\<lambda>_. Tick (t\<lparr>tk_sleeping := 0\<rparr>) (T_Swap r)"] by auto
    next
      case D_Ticker
      then show ?thesis using leaving_wake_step [OF i(1), of 0 Exec_Idle "\<lambda>notified. Tick (t\<lparr>tk_sleeping := 0\<rparr>) (D_Swap notified)"] by auto
    qed (use False in \<open>auto simp: searching_def split: exec_choice.splits list.splits\<close>)
  qed
  then show ?thesis using Tick by simp
qed (auto split: exec_choice.splits list.splits)

interpretation exec_system: thread_system "exec_step ww" "exec_inv ww" "\<lambda>_. True" for ww
proof
  fix m p R ch
  assume a: "exec_inv ww m (add_mset p R)"
  then obtain m' p' where s: "exec_step ww ch m p = Inr (m', p')" using exec_total by blast
  then show "\<exists>m' p'. exec_step ww ch m p = Inr (m', p') \<and> exec_inv ww m' (add_mset p' R)"
    using a exec_wake_step [of ww m p R ch m' p'] exec_work_step [of m p R ww ch m' p'] by (auto simp: exec_inv_def)
qed

lemma executor_new_inv: "exec_inv ww executor_new (mset (replicate n Exec_Idle))"
proof -
  have t: "tokens f (replicate_mset n Exec_Idle) = 0" if "f Exec_Idle = 0" for f using that by (induction n) simp_all
  have e: "entries f (replicate_mset n Exec_Idle) = {#}" if "f Exec_Idle = {#}" for f using that by (induction n) simp_all
  have "wake_inv ww executor_new (replicate_mset n Exec_Idle)"
    by (auto simp: wake_inv_def executor_new_def t e keys_def sleep_key_def sleeper_new_inv sleeper_is_notified_def sleeper_new_def pending_ok_def awake_ok_def
      intro!: exI [of _ "{}"] sleeper_new_inv [unfolded sleeper_new_def])
  moreover have "work_inv executor_new (replicate_mset n Exec_Idle)"
    by (auto simp: work_inv_def executor_new_def t e stock_def work_ok_def intro!: exI [of _ "{}"])
  ultimately show ?thesis by (simp add: exec_inv_def)
qed

lemma entries_elem: "k \<in># entries f T \<longleftrightarrow> (\<exists>p\<in>#T. k \<in># f p)"
  by (induction T) auto

text \<open>A thread rests when it is outside of the executor, is pending, or runs a runnable.\<close>

fun at_rest :: "exec_pc \<Rightarrow> bool" where
  "at_rest Exec_Idle = True"
| "at_rest (Try_Run r) = True"
| "at_rest (Tick t T_Away) = True"
| "at_rest (Tick t (T_Run r)) = True"
| "at_rest (Tick t (T_Pending k w)) = True"
| "at_rest p = False"

lemma at_rest_simps: "at_rest p \<Longrightarrow> on_duty p = 0" "at_rest p \<Longrightarrow> flight p = {#}"
  "at_rest p \<Longrightarrow> awake_ok p \<Longrightarrow> sleep_key p \<noteq> 0 \<Longrightarrow> \<exists>t k w. p = Tick t (T_Pending k w)"
  by (cases p rule: at_rest.cases; simp add: awake_ok_def sleep_key_def)+

lemma rest_woken:
  assumes inv: "wake_inv ww m T" and rest: "\<forall>p\<in>#T. at_rest p" and q: "ex_queue m \<noteq> []" and p: "p \<in># T" "is_pending p"
  shows "\<exists>t k w v. Tick t (T_Pending k w) \<in># T \<and> v \<in> set (drop k (ex_woken m)) \<and> (v = w \<or> ww v w)"
proof -
  let ?s = "ex_sleepers m"
  obtain A where A: "sleeper_inv ?s A" "entries keys T = mset_set A" using inv by (auto simp: wake_inv_def)
  have ok: "pending_ok ww ?s (ex_woken m) (entries flight T) p'" "awake_ok p'" if "p' \<in># T" for p' using inv that by (auto simp: wake_inv_def)
  have d: "tokens on_duty T = 0" using rest at_rest_simps(1) by (induction T) simp_all
  have f: "entries flight T = {#}" using rest at_rest_simps(2) by (induction T) simp_all
  have n: "sleeper_is_notified ?s" using inv q d by (auto simp: wake_inv_def)
  obtain t k w where "p = Tick t (T_Pending k w)" using p(2) by (cases p rule: is_pending.cases) auto
  then have "keys p \<noteq> {#}" using ok(1) [OF p(1)] by (simp add: pending_ok_def keys_def sleep_key_def)
  then have "A \<noteq> {}" using A p(1) entries_elem by (metis mset_set.empty multiset_nonemptyE not_in_iff count_empty)
  moreover have fin: "finite A" "card A = sl_count ?s" using A by (simp_all add: sleeper_inv_def)
  ultimately have "sl_count ?s \<noteq> 0" by auto
  then have "length (sl_wakers ?s) < card A" using n fin by (simp add: sleeper_is_notified_def)
  then have "\<not> A \<subseteq> fst ` set (sl_wakers ?s)" using card_mono [of "fst ` set (sl_wakers ?s)" A] card_image_le [of "set (sl_wakers ?s)" fst] card_length [of "sl_wakers ?s"] by force
  then obtain key where key: "key \<in> A" "key \<notin> fst ` set (sl_wakers ?s)" by blast
  then obtain p' where p': "p' \<in># T" "key \<in># keys p'" using A fin entries_elem [of key keys T] by auto
  then have "sleep_key p' = key" "sleep_key p' \<noteq> 0" by (auto simp: keys_def split: if_splits)
  moreover obtain t k w where t: "p' = Tick t (T_Pending k w)" using at_rest_simps(3) rest ok(2) p'(1) calculation(2) by blast
  ultimately have "tk_sleeping t = key" by (simp add: sleep_key_def)
  then obtain v where "v = w \<or> ww v w" "v \<in> set (drop k (ex_woken m))" using ok(1) [OF p'(1)] t f key(2) by (force simp: pending_ok_def)
  then show ?thesis using p'(1) t by blast
qed

text \<open>A ticker goes to sleep and another thread schedules a runnable.\<close>

definition sleep_and_schedule :: "(nat \<times> exec_choice) list" where
  "sleep_and_schedule = [(0, New_Ticker), (0, Poll_Ticker 7), (0, Exec_Go 0), (0, Exec_Go 0), (0, Exec_Go 0), (0, Exec_Go 0), (0, Exec_Go 0),
     (1, Call_Schedule 5), (1, Exec_Go 0), (1, Exec_Go 0), (1, Exec_Go 0), (1, Exec_Go 0)]"

lemma sleep_and_schedule_run:
  "exec_run (=) (executor_new, replicate 2 Exec_Idle) sleep_and_schedule =
   Inr (executor_new\<lparr>ex_queue := [5], ex_notified := True, ex_sleepers := \<lparr>sl_count = 1, sl_wakers = [], sl_free = []\<rparr>,
          ex_scheduled := {#5#}, ex_woken := [7]\<rparr>,
        [Tick \<lparr>tk_sleeping = 1, tk_local = None, tk_ticks = 0\<rparr> (T_Pending 0 7), Exec_Idle])"
proof -
  have two: "replicate 2 Exec_Idle = [Exec_Idle, Exec_Idle]" by (simp add: numeral_2_eq_2)
  show ?thesis
    by (simp add: exec_run_def sleep_and_schedule_def threads_step_def executor_new_def ticker_new_def search_start_def ticker_sleep_def
      sleeper_insert_def sleeper_update_def sleeper_notify_def sleeper_new_def store_notified_def sleeper_is_notified_def two)
qed



text \<open>
  Runnables are neither lost nor duplicated (C7). In the same runs, the runnables that were scheduled are
  those that were run, those in the global queue and in the local queues, and those that a thread
  holds. A local queue never holds more than 512, and the queue of a runner that is gone is empty.
\<close>

theorem executor_conserves:
  "\<exists>m ths. exec_run ww (executor_new, replicate n Exec_Idle) chs = Inr (m, ths) \<and>
     ex_scheduled m = ex_ran m + mset (ex_queue m) + (\<Sum>q<ex_next m. mset (ex_local m q)) + (\<Sum>p\<in>#mset ths. hand p) \<and>
     (\<forall>q. length (ex_local m q) \<le> local_capacity) \<and> (\<forall>q. (\<forall>p\<in>set ths. owns p \<noteq> {#q#}) \<longrightarrow> ex_local m q = [])"
proof -
  obtain m ths where r: "threads_run (exec_step ww) (executor_new, replicate n Exec_Idle) chs = Inr (m, ths)" "exec_inv ww m (mset ths)"
    using exec_system.run_keeps [OF executor_new_inv [of ww n], of chs] by auto
  then obtain B where B: "finite B" "entries owns (mset ths) = mset_set B" "\<And>q. q \<notin> B \<Longrightarrow> ex_local m q = []"
    and w: "\<And>p. p \<in> set ths \<Longrightarrow> work_ok m p" and b: "ex_scheduled m = ex_ran m + stock m + entries hand (mset ths)"
    by (auto simp: exec_inv_def work_inv_def)
  have own: "\<exists>p\<in>set ths. owns p = {#q#}" if "q \<in> B" for q
  proof -
    have "q \<in># entries owns (mset ths)" using that B by simp
    then obtain p where "p \<in> set ths" "q \<in># owns p" by (auto simp: entries_elem)
    then show ?thesis using owns_cases [of p] by auto
  qed
  have e: "ex_local m q = []" if "\<forall>p\<in>set ths. owns p \<noteq> {#q#}" for q using own that B(3) by blast
  moreover have "length (ex_local m q) \<le> local_capacity" for q
  proof (cases "q \<in> B")
    case True
    then obtain p where "p \<in> set ths" "owns p = {#q#}" using own by blast
    then show ?thesis using w [of p] by (auto simp: work_ok_def)
  qed (simp add: B(3))
  ultimately show ?thesis using r(1) b by (auto simp: exec_run_def stock_def entries_def ac_simps)
qed

theorem executor_conserves_witness:
  "\<exists>m ths. exec_run (=) (executor_new, replicate 2 Exec_Idle) sleep_and_schedule = Inr (m, ths) \<and>
     {#5#} = ex_ran m + mset (ex_queue m) + (\<Sum>q<ex_next m. mset (ex_local m q)) + (\<Sum>p\<in>#mset ths. hand p) \<and> ex_local m 0 = []"
  using executor_conserves [of "(=)" 2 sleep_and_schedule] by (simp add: sleep_and_schedule_run)

end
