(* ===== verification/Executor_Active.thy ===== *)
theory Executor_Active
  imports Colo Event_Listener Token_Count
begin

text \<open>
  The tasks of an executor (\<open>spawn\<close>, \<open>is_empty\<close> and the \<open>Drop\<close> of src/cynthia/src/runtime/executor.rs;
  \<open>MonoExecutor\<close> and \<open>LocalExecutor\<close> spawn in the same way). \<open>spawn\<close> reads the next vacant index of the slab \<open>active\<close>
  under its lock, moves it into the future as a guard and inserts the waker of the task; when
  the future is dropped, the guard removes what is at its index. The lock makes each of these
  one step. The guards go through the interface of the slab alone.
\<close>

section \<open>Spawning and finishing\<close>

text \<open>A spawned task: the index in its guard, its waker, and whether its future is still there.\<close>

record spawned =
  sp_index :: nat
  sp_waker :: waker
  sp_live :: bool

record spawner =
  sp_active :: "waker colo"
  sp_tasks :: "spawned list"

definition spawner_new :: spawner where
  "spawner_new = \<lparr>sp_active = colo_new, sp_tasks = []\<rparr>"

definition executor_is_empty :: "spawner \<Rightarrow> bool" where
  "executor_is_empty s = colo_is_empty (sp_active s)"

definition executor_spawn :: "waker \<Rightarrow> spawner \<Rightarrow> spawner fallible" where
  "executor_spawn w s =
     (let index = colo_next_vacant (sp_active s)
      in bind_fallible (colo_insert (sp_active s) w) (\<lambda>(_, active).
           Inr (s\<lparr>sp_active := active, sp_tasks := sp_tasks s @ [\<lparr>sp_index = index, sp_waker = w, sp_live = True\<rparr>]\<rparr>)))"

text \<open>The future of the \<open>i\<close>-th task is dropped, which happens once; the answer is what the guard removes.\<close>

definition active_guard_drop :: "nat \<Rightarrow> spawner \<Rightarrow> spawner \<times> waker option" where
  "active_guard_drop i s =
     (if i < length (sp_tasks s) \<and> sp_live (sp_tasks s ! i) then
        (case colo_remove (sp_active s) (sp_index (sp_tasks s ! i)) of (r, active) \<Rightarrow>
           (s\<lparr>sp_active := active, sp_tasks := (sp_tasks s)[i := (sp_tasks s ! i)\<lparr>sp_live := False\<rparr>]\<rparr>, r))
      else (s, None))"

text \<open>The loop in the \<open>Drop\<close> of the executor, over the indices below the capacity: the wakers that it wakes.\<close>

fun drop_active :: "nat list \<Rightarrow> waker colo \<Rightarrow> waker list \<times> waker colo" where
  "drop_active [] active = ([], active)"
| "drop_active (i # is) active =
     (case colo_remove active i of (r, active1) \<Rightarrow>
      case drop_active is active1 of (ws, active2) \<Rightarrow> (case r of Some w \<Rightarrow> w # ws | None \<Rightarrow> ws, active2))"

definition executor_drop :: "nat \<Rightarrow> spawner \<Rightarrow> waker list \<times> waker colo" where
  "executor_drop capacity s = drop_active [0..<capacity] (sp_active s)"

datatype spawn_op = Op_Spawn waker | Op_Finish nat

fun spawn_run :: "spawner \<Rightarrow> spawn_op list \<Rightarrow> spawner fallible" where
  "spawn_run s [] = Inr s"
| "spawn_run s (Op_Spawn w # ops) = bind_fallible (executor_spawn w s) (\<lambda>s'. spawn_run s' ops)"
| "spawn_run s (Op_Finish i # ops) = spawn_run (fst (active_guard_drop i s)) ops"

section \<open>The invariant\<close>

text \<open>The table of the live tasks.\<close>

definition live_tasks :: "spawned list \<Rightarrow> (nat \<times> waker) list" where
  "live_tasks ts = map (\<lambda>t. (sp_index t, sp_waker t)) (filter sp_live ts)"

definition spawner_inv :: "spawner \<Rightarrow> bool" where
  "spawner_inv s \<longleftrightarrow>
     runtime_colo (sp_active s) \<and> length (c_slots (sp_active s)) \<le> length (sp_tasks s) \<and>
     distinct (map fst (live_tasks (sp_tasks s))) \<and> colo_get (sp_active s) = map_of (live_tasks (sp_tasks s))"

lemma colo_insert_slots: "colo_insert c x = Inr (k, c') \<Longrightarrow> length (c_slots c') \<le> Suc (length (c_slots c))"
  by (auto elim: colo_insert_cases)

lemma colo_remove_slots: "colo_remove c k = (r, c') \<Longrightarrow> length (c_slots c') = length (c_slots c)"
  by (auto simp: colo_remove_def split: if_splits slot.splits)

lemma live_tasks_snoc: "live_tasks (ts @ [t]) = live_tasks ts @ (if sp_live t then [(sp_index t, sp_waker t)] else [])"
  by (simp add: live_tasks_def)

lemma map_of_snoc: "k \<notin> fst ` set xs \<Longrightarrow> map_of (xs @ [(k, w)]) = (map_of xs)(k \<mapsto> w)"
  using map_of_eq_None_iff [of xs k] by (auto simp: fun_eq_iff map_add_def split: option.splits)

lemma spawn_inv:
  assumes "spawner_inv s" "length (sp_tasks s) < isize_max"
  shows "\<exists>s'. executor_spawn w s = Inr s' \<and> spawner_inv s' \<and> length (sp_tasks s') = Suc (length (sp_tasks s))"
proof -
  let ?c = "sp_active s" and ?k = "colo_next_vacant (sp_active s)"
  have i: "runtime_colo ?c" "length (c_slots ?c) < isize_max" using assms by (auto simp: spawner_inv_def)
  then obtain k c' where k: "colo_insert ?c w = Inr (k, c')" using colo_insert_total [of ?c w] by (auto simp: runtime_colo_def)
  have e: "k = ?k" "colo_get c' = (colo_get ?c)(?k \<mapsto> w)" "runtime_colo c'" "colo_get ?c ?k = None"
    using colo.put_key [OF i(1) k] colo.put_lookup [OF i(1) k] colo.put_invar [OF i(1) k] colo.next_key_fresh [OF i(1)] by simp_all
  then have "?k \<notin> fst ` set (live_tasks (sp_tasks s))" using assms(1) by (simp add: spawner_inv_def map_of_eq_None_iff)
  moreover from this have "map_of (live_tasks (sp_tasks s) @ [(?k, w)]) = (map_of (live_tasks (sp_tasks s)))(?k \<mapsto> w)"
    by (rule map_of_snoc)
  ultimately show ?thesis using assms(1) k e colo_insert_slots [OF k]
    by (auto simp: executor_spawn_def spawner_inv_def live_tasks_snoc Let_def)
qed

lemma live_tasks_finish:
  assumes "i < length ts" "sp_live (ts ! i)" "distinct (map fst (live_tasks ts))"
  shows "distinct (map fst (live_tasks (ts[i := (ts ! i)\<lparr>sp_live := False\<rparr>])))"
    "map_of (live_tasks (ts[i := (ts ! i)\<lparr>sp_live := False\<rparr>])) = (map_of (live_tasks ts))(sp_index (ts ! i) := None)"
    "map_of (live_tasks ts) (sp_index (ts ! i)) = Some (sp_waker (ts ! i))"
proof -
  obtain xs t ys where ts: "take i ts = xs" "ts ! i = t" "drop (Suc i) ts = ys" by blast
  have e: "ts = xs @ t # ys" "ts[i := (ts ! i)\<lparr>sp_live := False\<rparr>] = xs @ t\<lparr>sp_live := False\<rparr> # ys"
    using id_take_nth_drop [OF assms(1)] upd_conv_take_nth_drop [OF assms(1)] unfolding ts by simp_all
  have l: "live_tasks ts = live_tasks xs @ (sp_index t, sp_waker t) # live_tasks ys"
    "live_tasks (ts[i := (ts ! i)\<lparr>sp_live := False\<rparr>]) = live_tasks xs @ live_tasks ys"
    using assms(2) ts(2) unfolding e(2) by (simp_all add: e(1) live_tasks_def)
  have d: "distinct (map fst (live_tasks xs @ (sp_index t, sp_waker t) # live_tasks ys))" using assms(3) l(1) by simp
  then show "distinct (map fst (live_tasks (ts[i := (ts ! i)\<lparr>sp_live := False\<rparr>])))" unfolding l(2) by simp
  have n: "map_of (live_tasks xs) (sp_index t) = None" "map_of (live_tasks ys) (sp_index t) = None"
    using d by (auto simp: map_of_eq_None_iff)
  show "map_of (live_tasks (ts[i := (ts ! i)\<lparr>sp_live := False\<rparr>])) = (map_of (live_tasks ts))(sp_index (ts ! i) := None)"
    unfolding l(2) unfolding l(1) ts(2) using n by (auto simp: fun_eq_iff map_add_def split: option.splits)
  show "map_of (live_tasks ts) (sp_index (ts ! i)) = Some (sp_waker (ts ! i))"
    unfolding l(1) ts(2) using n by (simp add: map_add_def)
qed

lemma finish_inv:
  assumes "spawner_inv s"
  shows "spawner_inv (fst (active_guard_drop i s)) \<and> length (sp_tasks (fst (active_guard_drop i s))) = length (sp_tasks s)"
    and "i < length (sp_tasks s) \<Longrightarrow> sp_live (sp_tasks s ! i) \<Longrightarrow> snd (active_guard_drop i s) = Some (sp_waker (sp_tasks s ! i))"
proof -
  let ?t = "sp_tasks s ! i"
  obtain r c' where r: "colo_remove (sp_active s) (sp_index ?t) = (r, c')" by (cases "colo_remove (sp_active s) (sp_index ?t)")
  have i: "runtime_colo (sp_active s)" "distinct (map fst (live_tasks (sp_tasks s)))" "colo_get (sp_active s) = map_of (live_tasks (sp_tasks s))"
    using assms by (simp_all add: spawner_inv_def)
  note t = colo.take_result [OF i(1) r] colo.take_lookup [OF i(1) r] colo.take_invar [OF i(1) r]
  show "snd (active_guard_drop i s) = Some (sp_waker ?t)" if "i < length (sp_tasks s)" "sp_live ?t"
    using that r t(1) i(3) live_tasks_finish(3) [OF that i(2)] by (simp add: active_guard_drop_def)
  show "spawner_inv (fst (active_guard_drop i s)) \<and> length (sp_tasks (fst (active_guard_drop i s))) = length (sp_tasks s)"
  proof (cases "i < length (sp_tasks s) \<and> sp_live ?t")
    case True
    then show ?thesis using r t i live_tasks_finish(1,2) [of i "sp_tasks s"] colo_remove_slots [OF r] assms
      by (simp add: active_guard_drop_def spawner_inv_def)
  qed (use assms in \<open>auto simp: active_guard_drop_def\<close>)
qed

lemma spawn_run_inv:
  assumes "spawner_inv s" "length (sp_tasks s) + length ops \<le> isize_max"
  shows "\<exists>s'. spawn_run s ops = Inr s' \<and> spawner_inv s' \<and> length (sp_tasks s') \<le> length (sp_tasks s) + length ops"
  using assms
proof (induction s ops rule: spawn_run.induct)
  case (2 s w ops)
  then obtain s' where "executor_spawn w s = Inr s'" "spawner_inv s'" "length (sp_tasks s') = Suc (length (sp_tasks s))"
    using spawn_inv [of s w] by auto
  then show ?case using "2.IH" [of s'] "2.prems" by simp
next
  case (3 s i ops)
  then show ?case using finish_inv(1) [of s i] by (fastforce intro: le_SucI)
qed simp

lemma drop_active_correct:
  assumes "runtime_colo c" "distinct is"
  shows "case drop_active is c of (ws, c') \<Rightarrow> ws = List.map_filter (colo_get c) is \<and> colo_get c' = (colo_get c) |` (- set is) \<and> runtime_colo c'"
  using assms
proof (induction "is" arbitrary: c)
  case (Cons i "is")
  obtain r c1 where r: "colo_remove c i = (r, c1)" by (cases "colo_remove c i")
  note t = colo.take_result [OF Cons.prems(1) r] colo.take_lookup [OF Cons.prems(1) r] colo.take_invar [OF Cons.prems(1) r]
  have m: "List.map_filter (colo_get c1) is = List.map_filter (colo_get c) is"
    using Cons.prems(2) t(2) by (auto simp: List.map_filter_def intro!: map_cong filter_cong)
  obtain ws c2 where w: "drop_active is c1 = (ws, c2)" by (cases "drop_active is c1")
  have i: "ws = List.map_filter (colo_get c) is" "colo_get c2 = (colo_get c1) |` (- set is)" "runtime_colo c2"
    using Cons.IH [OF t(3)] Cons.prems(2) w m by simp_all
  have "colo_get c2 = (colo_get c) |` (- set (i # is))" unfolding i(2) t(2) by (auto simp: restrict_map_def fun_eq_iff)
  then show ?case using r w i(1,3) t(1) by (simp add: map_filter_simps split: option.splits)
qed (simp add: map_filter_simps restrict_map_def)

lemma map_filter_table:
  fixes xs :: "(nat \<times> 'a) list"
  assumes "distinct (map fst xs)" "\<And>k. k \<in> fst ` set xs \<Longrightarrow> k < n"
  shows "mset (List.map_filter (map_of xs) [0..<n]) = mset (map snd xs)"
proof -
  have "mset (filter (\<lambda>k. map_of xs k \<noteq> None) [0..<n]) = mset_set {k. k < n \<and> map_of xs k \<noteq> None}"
    by (subst mset_set_set [symmetric]) (auto intro!: arg_cong [of _ _ mset_set])
  also have "{k. k < n \<and> map_of xs k \<noteq> None} = fst ` set xs" using assms(2) by (force simp: map_of_eq_None_iff)
  also have "mset_set (fst ` set xs) = mset (map fst xs)" using mset_set_set [OF assms(1)] by simp
  finally have "mset (List.map_filter (map_of xs) [0..<n]) = image_mset (the \<circ> map_of xs) (mset (map fst xs))"
    by (simp add: List.map_filter_def comp_def)
  also have "\<dots> = mset (map (the \<circ> map_of xs \<circ> fst) xs)" by (simp add: image_mset.compositionality comp_def)
  also have "map (the \<circ> map_of xs \<circ> fst) xs = map snd xs" using assms(1) by (auto simp: map_of_is_SomeI)
  finally show ?thesis .
qed

lemma empty_iff:
  assumes "runtime_colo c"
  shows "colo_is_empty c \<longleftrightarrow> colo_get c = Map.empty"
proof -
  have "colo_is_empty c \<longleftrightarrow> colo_iter c = []" using assms colo_iter_length [of c] unfolding colo_is_empty_def runtime_colo_def colo_inv_def by (metis length_0_conv)
  also have "\<dots> \<longleftrightarrow> (\<forall>k x. (k, x) \<notin> set (colo_iter c))" by (cases "colo_iter c") auto
  finally show ?thesis by (simp add: colo_iter_entries fun_eq_iff)
qed

section \<open>Properties\<close>



end
