(* ===== verification/Read_Buf.thy ===== *)
theory Read_Buf
  imports Cynthia_Prelude
begin

text \<open>
  The buffer of src/cynthia/src/utils/read_buf.rs: a slice of memory of which a first part is filled
  and a longer first part is initialized. A byte of memory is \<open>None\<close> as long as nothing was written to
  it; to read it as a byte is undefined behaviour, \<open>Dangling\<close>. The lengths of slices are below
  \<open>isize::MAX\<close>, so that sums of positions inside of one slice do not overflow; the argument of \<open>advance\<close> is checked.
\<close>

section \<open>Operations\<close>

type_synonym memory = "8 word option list"

record read_buf =
  rb_buf :: memory
  rb_filled :: nat
  rb_initialized :: nat

definition read_buf_new :: "8 word list \<Rightarrow> read_buf" where
  "read_buf_new bytes = \<lparr>rb_buf = map Some bytes, rb_filled = 0, rb_initialized = length bytes\<rparr>"

definition read_buf_uninit :: "memory \<Rightarrow> read_buf" where
  "read_buf_uninit mem = \<lparr>rb_buf = mem, rb_filled = 0, rb_initialized = 0\<rparr>"

definition rb_capacity :: "read_buf \<Rightarrow> nat" where
  "rb_capacity b = length (rb_buf b)"

text \<open>A subslice by its bounds, and its bytes: \<open>transmute\<close> reads every one of them.\<close>

definition subslice :: "nat \<Rightarrow> nat \<Rightarrow> memory \<Rightarrow> memory fallible" where
  "subslice i j mem = (if i \<le> j \<and> j \<le> length mem then Inr (take (j - i) (drop i mem)) else Inl IndexOutOfBounds)"

definition as_bytes :: "memory \<Rightarrow> 8 word list fallible" where
  "as_bytes mem = (if None \<in> set mem then Inl Dangling else Inr (map the mem))"

definition filled :: "read_buf \<Rightarrow> 8 word list fallible" where
  "filled b = bind_fallible (subslice 0 (rb_filled b) (rb_buf b)) as_bytes"

definition initialized :: "read_buf \<Rightarrow> 8 word list fallible" where
  "initialized b = bind_fallible (subslice 0 (rb_initialized b) (rb_buf b)) as_bytes"

definition unfilled_mut :: "read_buf \<Rightarrow> memory fallible" where
  "unfilled_mut b = subslice (rb_filled b) (length (rb_buf b)) (rb_buf b)"

definition remaining :: "read_buf \<Rightarrow> nat fallible" where
  "remaining b = (if rb_filled b \<le> rb_capacity b then Inr (rb_capacity b - rb_filled b) else Inl Overflow)"

text \<open>Writing to the memory from position \<open>i\<close>.\<close>

definition write_at :: "nat \<Rightarrow> memory \<Rightarrow> memory \<Rightarrow> memory" where
  "write_at i xs mem = take i mem @ xs @ drop (i + length xs) mem"

text \<open>\<open>take\<close> lends the first part of the unfilled memory to a buffer of its own; what that buffer has written is in the memory when it is given back.\<close>

definition take_buf :: "nat \<Rightarrow> read_buf \<Rightarrow> read_buf fallible" where
  "take_buf n b =
     bind_fallible (remaining b) (\<lambda>r. bind_fallible (unfilled_mut b) (\<lambda>mem.
       bind_fallible (subslice 0 (min r n) mem) (\<lambda>mem'. Inr (read_buf_uninit mem'))))"

definition give_back :: "read_buf \<Rightarrow> read_buf \<Rightarrow> read_buf" where
  "give_back b t = b\<lparr>rb_buf := write_at (rb_filled b) (rb_buf t) (rb_buf b)\<rparr>"

definition initialize_unfilled_to :: "nat \<Rightarrow> read_buf \<Rightarrow> (read_buf \<times> 8 word list) fallible" where
  "initialize_unfilled_to n b =
     bind_fallible (remaining b) (\<lambda>r.
       if r < n then Inl AssertFailed
       else
         let stop = rb_filled b + n in
         bind_fallible
           (if rb_initialized b < stop then
              bind_fallible (subslice (rb_initialized b) stop (rb_buf b)) (\<lambda>_.
                Inr (b\<lparr>rb_buf := write_at (rb_initialized b) (replicate (stop - rb_initialized b) (Some 0)) (rb_buf b), rb_initialized := stop\<rparr>))
            else Inr b)
           (\<lambda>b'. bind_fallible (bind_fallible (subslice (rb_filled b') stop (rb_buf b')) as_bytes) (\<lambda>xs. Inr (b', xs))))"

definition initialize_unfilled :: "read_buf \<Rightarrow> (read_buf \<times> 8 word list) fallible" where
  "initialize_unfilled b = bind_fallible (remaining b) (\<lambda>r. initialize_unfilled_to r b)"

definition rb_clear :: "read_buf \<Rightarrow> read_buf" where
  "rb_clear b = b\<lparr>rb_filled := 0\<rparr>"

definition set_filled :: "nat \<Rightarrow> read_buf \<Rightarrow> read_buf fallible" where
  "set_filled n b = (if n \<le> rb_initialized b then Inr (b\<lparr>rb_filled := n\<rparr>) else Inl AssertFailed)"

definition advance :: "nat \<Rightarrow> read_buf \<Rightarrow> read_buf fallible" where
  "advance n b = (if rb_filled b + n \<le> usize_max then set_filled (rb_filled b + n) b else Inl ExpectNone)"

definition assume_init :: "nat \<Rightarrow> read_buf \<Rightarrow> read_buf" where
  "assume_init n b = (let new = rb_filled b + n in if new > rb_initialized b then b\<lparr>rb_initialized := new\<rparr> else b)"

definition put_slice :: "8 word list \<Rightarrow> read_buf \<Rightarrow> read_buf fallible" where
  "put_slice bytes b =
     bind_fallible (remaining b) (\<lambda>r.
       if r < length bytes then Inl AssertFailed
       else
         let stop = rb_filled b + length bytes in
         bind_fallible (subslice (rb_filled b) stop (rb_buf b)) (\<lambda>_.
           let b' = b\<lparr>rb_buf := write_at (rb_filled b) (map Some bytes) (rb_buf b)\<rparr>;
               b'' = (if rb_initialized b' < stop then b'\<lparr>rb_initialized := stop\<rparr> else b')
           in Inr (b''\<lparr>rb_filled := stop\<rparr>)))"

section \<open>The invariant\<close>

definition read_buf_inv :: "read_buf \<Rightarrow> bool" where
  "read_buf_inv b \<longleftrightarrow> rb_filled b \<le> rb_initialized b \<and> rb_initialized b \<le> length (rb_buf b) \<and> None \<notin> set (take (rb_initialized b) (rb_buf b))"

text \<open>The contents: the filled bytes.\<close>

definition contents :: "read_buf \<Rightarrow> 8 word list" where
  "contents b = map the (take (rb_filled b) (rb_buf b))"

lemma init_nth: "n \<le> length mem \<Longrightarrow> None \<notin> set (take n mem) \<longleftrightarrow> (\<forall>i<n. mem ! i \<noteq> None)"
  by (auto simp: in_set_conv_nth min_def)

lemma write_at_length [simp]: "i + length xs \<le> length mem \<Longrightarrow> length (write_at i xs mem) = length mem"
  by (simp add: write_at_def)

lemma write_at_nth: "i + length xs \<le> length mem \<Longrightarrow> k < length mem \<Longrightarrow>
    write_at i xs mem ! k = (if k < i then mem ! k else if k < i + length xs then xs ! (k - i) else mem ! k)"
  by (auto simp: write_at_def nth_append min_def)

lemma filled_ok:
  assumes "read_buf_inv b"
  shows "filled b = Inr (contents b)" "\<exists>xs. initialized b = Inr xs \<and> take (rb_filled b) xs = contents b"
proof -
  have t: "None \<notin> set (take (rb_filled b) (rb_buf b))"
    using assms set_take_subset_set_take [of "rb_filled b" "rb_initialized b" "rb_buf b"] by (auto simp: read_buf_inv_def)
  then show "filled b = Inr (contents b)" using assms by (simp add: filled_def subslice_def as_bytes_def contents_def read_buf_inv_def)
  show "\<exists>xs. initialized b = Inr xs \<and> take (rb_filled b) xs = contents b"
    using assms by (simp add: initialized_def subslice_def as_bytes_def contents_def read_buf_inv_def take_map min_def)
qed

lemma remaining_ok: "read_buf_inv b \<Longrightarrow> remaining b = Inr (length (rb_buf b) - rb_filled b)"
  by (simp add: read_buf_inv_def remaining_def rb_capacity_def)

lemma put_slice_ok:
  assumes inv: "read_buf_inv b"
  shows "if rb_filled b + length bytes \<le> rb_capacity b
    then \<exists>b'. put_slice bytes b = Inr b' \<and> read_buf_inv b' \<and> contents b' = contents b @ bytes \<and> rb_capacity b' = rb_capacity b
    else put_slice bytes b = Inl AssertFailed"
proof (cases "rb_filled b + length bytes \<le> rb_capacity b")
  case True
  let ?w = "write_at (rb_filled b) (map Some bytes) (rb_buf b)"
  let ?b = "b\<lparr>rb_buf := ?w, rb_initialized := max (rb_initialized b) (rb_filled b + length bytes), rb_filled := rb_filled b + length bytes\<rparr>"
  have l: "rb_filled b + length (map Some bytes) \<le> length (rb_buf b)" using True by (simp add: rb_capacity_def)
  have "put_slice bytes b = Inr ?b" using l inv by (simp add: put_slice_def remaining_ok subslice_def Let_def max_def)
  moreover have "read_buf_inv ?b"
    using l inv by (auto simp: read_buf_inv_def init_nth write_at_nth)
  moreover have "contents ?b = contents b @ bytes"
    using l by (simp add: contents_def write_at_def comp_def min_absorb2)
  ultimately show ?thesis using True l by (auto simp: rb_capacity_def)
next
  case False
  then have "length (rb_buf b) - rb_filled b < length bytes" using inv by (auto simp: read_buf_inv_def rb_capacity_def)
  then show ?thesis using False inv by (simp add: put_slice_def remaining_ok)
qed

lemma initialize_ok:
  assumes inv: "read_buf_inv b"
  shows "if rb_filled b + n \<le> rb_capacity b
    then \<exists>b' xs. initialize_unfilled_to n b = Inr (b', xs) \<and> length xs = n \<and> read_buf_inv b' \<and> contents b' = contents b \<and> rb_filled b' = rb_filled b \<and> rb_filled b + n \<le> rb_initialized b'
    else initialize_unfilled_to n b = Inl AssertFailed"
proof (cases "rb_filled b + n \<le> rb_capacity b")
  case True
  let ?e = "rb_filled b + n"
  let ?w = "write_at (rb_initialized b) (replicate (?e - rb_initialized b) (Some 0)) (rb_buf b)"
  define b' where "b' = (if rb_initialized b < ?e then b\<lparr>rb_buf := ?w, rb_initialized := ?e\<rparr> else b)"
  have l: "?e \<le> length (rb_buf b)" "rb_initialized b \<le> length (rb_buf b)" using True inv by (simp_all add: rb_capacity_def read_buf_inv_def)
  have i: "read_buf_inv b'" using l inv by (auto simp: b'_def read_buf_inv_def init_nth write_at_nth)
  have c: "contents b' = contents b" using inv l by (auto simp: b'_def contents_def read_buf_inv_def write_at_def min_def)
  have e: "?e \<le> rb_initialized b'" "rb_filled b' = rb_filled b" "length (rb_buf b') = length (rb_buf b)" using l by (auto simp: b'_def)
  have "None \<notin> set (take n (drop (rb_filled b) (rb_buf b')))"
  proof -
    have "set (take n (drop (rb_filled b) (rb_buf b'))) \<subseteq> set (take ?e (rb_buf b'))" by (metis add.commute set_drop_subset take_drop)
    then show ?thesis using i e(1) set_take_subset_set_take [of ?e "rb_initialized b'" "rb_buf b'"] by (auto simp: read_buf_inv_def)
  qed
  then have "bind_fallible (subslice (rb_filled b') ?e (rb_buf b')) as_bytes = Inr (map the (take n (drop (rb_filled b) (rb_buf b'))))"
    using e l by (simp add: subslice_def as_bytes_def)
  then have "initialize_unfilled_to n b = Inr (b', map the (take n (drop (rb_filled b) (rb_buf b'))))"
    using inv l by (auto simp: initialize_unfilled_to_def remaining_ok b'_def subslice_def Let_def)
  then show ?thesis using True i c e l by auto
next
  case False
  then have "length (rb_buf b) - rb_filled b < n" using inv by (auto simp: read_buf_inv_def rb_capacity_def)
  then show ?thesis using False inv by (simp add: initialize_unfilled_to_def remaining_ok)
qed

lemma set_filled_ok: "read_buf_inv b \<Longrightarrow> set_filled n b = Inr b' \<Longrightarrow> read_buf_inv b' \<and> rb_filled b' = n"
  by (auto simp: set_filled_def read_buf_inv_def split: if_splits)

lemma take_buf_ok:
  assumes inv: "read_buf_inv b"
  shows "\<exists>t. take_buf n b = Inr t \<and> read_buf_inv t \<and> rb_capacity t = min (rb_capacity b - rb_filled b) n"
  using assms by (auto simp: take_buf_def remaining_ok unfilled_mut_def subslice_def read_buf_uninit_def rb_capacity_def read_buf_inv_def min_def)

lemma give_back_ok:
  assumes inv: "read_buf_inv b" and t: "rb_filled b + length (rb_buf t) \<le> length (rb_buf b)"
    and keep: "\<And>i. i < length (rb_buf t) \<Longrightarrow> rb_buf b ! (rb_filled b + i) \<noteq> None \<Longrightarrow> rb_buf t ! i \<noteq> None"
  shows "read_buf_inv (give_back b t) \<and> contents (give_back b t) = contents b"
proof -
  have "write_at (rb_filled b) (rb_buf t) (rb_buf b) ! k \<noteq> None" if "k < rb_initialized b" for k
  proof -
    have b: "rb_buf b ! k \<noteq> None" "k < length (rb_buf b)" using that inv by (auto simp: read_buf_inv_def init_nth)
    show ?thesis using b keep [of "k - rb_filled b"] t by (auto simp: write_at_nth)
  qed
  then have "read_buf_inv (give_back b t)" using inv t by (auto simp: give_back_def read_buf_inv_def init_nth)
  moreover have "take (rb_filled b) (write_at (rb_filled b) (rb_buf t) (rb_buf b)) = take (rb_filled b) (rb_buf b)" using t by (simp add: write_at_def)
  ultimately show ?thesis by (simp add: give_back_def contents_def)
qed

section \<open>Properties\<close>

text \<open>The calls that safe code can make, with the bytes that a caller of \<open>assume_init\<close> has written before, as its contract demands.\<close>

datatype read_buf_op = Put_Slice "8 word list" | Initialize nat | Initialize_All | Clear | Set_Filled nat | Advance nat | Assume_Init "8 word list"

fun read_buf_call :: "read_buf_op \<Rightarrow> read_buf \<Rightarrow> read_buf fallible" where
  "read_buf_call (Put_Slice bytes) b = put_slice bytes b"
| "read_buf_call (Initialize n) b = map_sum id fst (initialize_unfilled_to n b)"
| "read_buf_call Initialize_All b = map_sum id fst (initialize_unfilled b)"
| "read_buf_call Clear b = Inr (rb_clear b)"
| "read_buf_call (Set_Filled n) b = set_filled n b"
| "read_buf_call (Advance n) b = advance n b"
| "read_buf_call (Assume_Init bytes) b =
     (if rb_filled b + length bytes \<le> rb_capacity b
      then Inr (assume_init (length bytes) (b\<lparr>rb_buf := write_at (rb_filled b) (map Some bytes) (rb_buf b)\<rparr>)) else Inr b)"

fun read_buf_calls :: "read_buf_op list \<Rightarrow> read_buf \<Rightarrow> read_buf fallible" where
  "read_buf_calls [] b = Inr b"
| "read_buf_calls (f # fs) b = bind_fallible (read_buf_call f b) (read_buf_calls fs)"

lemma assume_init_ok:
  assumes inv: "read_buf_inv b" and l: "rb_filled b + length bytes \<le> length (rb_buf b)"
  shows "read_buf_inv (assume_init (length bytes) (b\<lparr>rb_buf := write_at (rb_filled b) (map Some bytes) (rb_buf b)\<rparr>))"
  using assms by (auto simp: assume_init_def read_buf_inv_def Let_def init_nth write_at_nth)

lemma read_buf_call_ok:
  assumes "read_buf_inv b"
  shows "case read_buf_call f b of Inl e \<Rightarrow> e = AssertFailed \<or> e = ExpectNone | Inr b' \<Rightarrow> read_buf_inv b'"
proof (cases f)
  case (Put_Slice bytes)
  then show ?thesis using put_slice_ok [OF assms, of bytes] by (auto split: if_splits)
next
  case (Initialize n)
  then show ?thesis using initialize_ok [OF assms, of n] by (auto split: if_splits)
next
  case Initialize_All
  then show ?thesis using initialize_ok [OF assms, of "length (rb_buf b) - rb_filled b"] remaining_ok [OF assms]
    by (auto simp: initialize_unfilled_def split: if_splits)
next
  case (Assume_Init bytes)
  then show ?thesis using assume_init_ok [OF assms, of bytes] assms by (simp add: rb_capacity_def)
qed (use assms in \<open>auto simp: rb_clear_def read_buf_inv_def set_filled_def advance_def split: sum.splits if_splits\<close>)

text \<open>
  The read buffer is well formed (C40). Whatever calls a caller makes, starting with initialized or with
  uninitialized memory, a call ends with one of the documented assertions or leaves a buffer in
  which the filled part is inside the initialized part, which is inside the memory, and every
  byte of the initialized part was written: \<open>filled\<close> and \<open>initialized\<close> return bytes and never read memory
  that was not written. \<open>put_slice\<close> appends its bytes to the filled ones, if and only if they fit.
\<close>

theorem read_buf_safe:
  assumes "fresh = read_buf_new bytes \<or> fresh = read_buf_uninit mem"
  shows "case read_buf_calls fs fresh of
      Inl e \<Rightarrow> e = AssertFailed \<or> e = ExpectNone
    | Inr b \<Rightarrow> rb_filled b \<le> rb_initialized b \<and> rb_initialized b \<le> rb_capacity b \<and> filled b = Inr (contents b) \<and> (\<exists>xs. initialized b = Inr xs) \<and>
        (if rb_filled b + length extra \<le> rb_capacity b
         then \<exists>b'. put_slice extra b = Inr b' \<and> filled b' = Inr (contents b @ extra) else put_slice extra b = Inl AssertFailed)"
proof -
  have run: "case read_buf_calls fs b of Inl e \<Rightarrow> e = AssertFailed \<or> e = ExpectNone | Inr b' \<Rightarrow> read_buf_inv b'" if "read_buf_inv b" for b
    using that
  proof (induction fs arbitrary: b)
    case (Cons f fs)
    then show ?case using read_buf_call_ok [OF Cons.prems, of f] Cons.IH by (cases "read_buf_call f b") simp_all
  qed simp
  have "read_buf_inv fresh" using assms by (auto simp: read_buf_inv_def read_buf_new_def read_buf_uninit_def)
  from run [OF this] show ?thesis
    using filled_ok put_slice_ok by (fastforce simp: read_buf_inv_def rb_capacity_def split: sum.splits if_splits)
qed

theorem read_buf_safe_witness:
  "\<exists>b b'. read_buf_calls [Put_Slice [1, 2], Initialize 2, Set_Filled 3] (read_buf_uninit [None, None, None, None]) = Inr b \<and>
     filled b = Inr (contents b) \<and> put_slice [9] b = Inr b' \<and> filled b' = Inr (contents b @ [9])"
proof -
  let ?b = "read_buf_uninit [None, None, None, None]" and ?fs = "[Put_Slice [1, 2], Initialize 2, Set_Filled 3]"
  have "case read_buf_calls ?fs ?b of Inl e \<Rightarrow> False | Inr b \<Rightarrow> rb_filled b = 3 \<and> rb_capacity b = 4"
    by (simp add: read_buf_uninit_def put_slice_def initialize_unfilled_to_def remaining_def rb_capacity_def subslice_def write_at_def as_bytes_def
      set_filled_def Let_def eval_nat_numeral)
  then show ?thesis using read_buf_safe [where fresh = ?b and mem = "[None, None, None, None]" and fs = ?fs and extra = "[9]"] by (auto split: sum.splits)
qed

end
