(* ===== verification/Atomic_Waker.thy ===== *)
theory Atomic_Waker
  imports Lock_Base
begin

text \<open>
  The atomic waker (src/cynthia/src/platform/atomic_waker/waker.rs): one task registers its waker, any number of
  threads wake it. A thread is a program point and a step is one access to the state, to the cell,
  or one call of a waker. An access to the cell while another thread has access to it would be a data
  race; the invariant shows that the bits of the state exclude it.
\<close>

section \<open>The waker\<close>

definition WAITING :: usize where "WAITING = 0"
definition AW_REGISTERING :: usize where "AW_REGISTERING = 1"
definition WAKING :: usize where "WAKING = 2"

lemmas aw_consts = WAITING_def AW_REGISTERING_def WAKING_def

text \<open>\<open>aw_woken\<close> lists the calls of wakers; it is for the proofs and no part of the code.\<close>

record atomic_waker =
  aw_state :: usize
  aw_cell :: "waker option"
  aw_woken :: "waker list"

definition atomic_waker_new :: atomic_waker where
  "atomic_waker_new = \<lparr>aw_state = WAITING, aw_cell = None, aw_woken = []\<rparr>"

text \<open>
  The points of \<open>register\<close>, with the waker and the number of calls of wakers when it was called, and of
  \<open>take\<close> and \<open>wake\<close>. \<open>R_Done\<close> is where \<open>register\<close> has returned.
\<close>

datatype aw_pc =
    R_Idle
  | R_Start nat waker
  | R_Write nat waker
  | R_Cas nat waker
  | R_Take nat waker
  | R_Swap nat waker waker
  | R_Wake nat waker waker
  | R_Done nat waker
  | W_Idle
  | W_Or
  | W_Take
  | W_And "waker option"
  | W_Wake waker

datatype aw_choice = Call_Register waker | Call_Wake | Aw_Go

fun register_step :: "aw_choice \<Rightarrow> atomic_waker \<Rightarrow> aw_pc \<Rightarrow> (atomic_waker \<times> aw_pc) fallible" where
  "register_step ch m R_Idle = Inr (m, case ch of Call_Register w \<Rightarrow> R_Start (length (aw_woken m)) w | _ \<Rightarrow> R_Idle)"
| "register_step ch m (R_Done k w) = Inr (m, case ch of Call_Register w' \<Rightarrow> R_Start (length (aw_woken m)) w' | _ \<Rightarrow> R_Done k w)"
| "register_step ch m (R_Start k w) =
     (if aw_state m = WAITING then Inr (m\<lparr>aw_state := AW_REGISTERING\<rparr>, R_Write k w)
      else if aw_state m = WAKING then Inr (m, R_Wake k w w)
      else if aw_state m = AW_REGISTERING \<or> aw_state m = AW_REGISTERING OR WAKING then Inr (m, R_Done k w)
      else Inl AssertFailed)"
| "register_step ch m (R_Write k w) = Inr (m\<lparr>aw_cell := Some w\<rparr>, R_Cas k w)"
| "register_step ch m (R_Cas k w) =
     (if aw_state m = AW_REGISTERING then Inr (m\<lparr>aw_state := WAITING\<rparr>, R_Done k w)
      else if aw_state m = AW_REGISTERING OR WAKING then Inr (m, R_Take k w)
      else Inl AssertFailed)"
| "register_step ch m (R_Take k w) = (case aw_cell m of Some v \<Rightarrow> Inr (m\<lparr>aw_cell := None\<rparr>, R_Swap k w v) | None \<Rightarrow> Inl ExpectNone)"
| "register_step ch m (R_Swap k w v) = Inr (m\<lparr>aw_state := WAITING\<rparr>, R_Wake k w v)"
| "register_step ch m (R_Wake k w v) = Inr (m\<lparr>aw_woken := aw_woken m @ [v]\<rparr>, R_Done k w)"
| "register_step ch m p = Inr (m, p)"

fun take_step :: "aw_choice \<Rightarrow> atomic_waker \<Rightarrow> aw_pc \<Rightarrow> (atomic_waker \<times> aw_pc) fallible" where
  "take_step ch m W_Idle = Inr (m, if ch = Call_Wake then W_Or else W_Idle)"
| "take_step ch m W_Or =
     (let m' = m\<lparr>aw_state := aw_state m OR WAKING\<rparr> in
      if aw_state m = WAITING then Inr (m', W_Take)
      else if aw_state m = AW_REGISTERING \<or> aw_state m = AW_REGISTERING OR WAKING \<or> aw_state m = WAKING then Inr (m', W_Idle)
      else Inl AssertFailed)"
| "take_step ch m W_Take = Inr (m\<lparr>aw_cell := None\<rparr>, W_And (aw_cell m))"
| "take_step ch m (W_And r) = Inr (m\<lparr>aw_state := aw_state m AND NOT WAKING\<rparr>, case r of Some w \<Rightarrow> W_Wake w | None \<Rightarrow> W_Idle)"
| "take_step ch m (W_Wake w) = Inr (m\<lparr>aw_woken := aw_woken m @ [w]\<rparr>, W_Idle)"
| "take_step ch m p = register_step ch m p"

definition aw_run :: "atomic_waker \<times> aw_pc list \<Rightarrow> (nat \<times> aw_choice) list \<Rightarrow> (atomic_waker \<times> aw_pc list) fallible" where
  "aw_run = threads_run take_step"

section \<open>The invariant\<close>

fun registrant :: "aw_pc \<Rightarrow> nat" where
  "registrant W_Idle = 0" | "registrant W_Or = 0" | "registrant W_Take = 0" | "registrant (W_And r) = 0" | "registrant (W_Wake w) = 0" | "registrant _ = 1"

text \<open>The points with access to the cell.\<close>

fun registering :: "aw_pc \<Rightarrow> nat" where
  "registering (R_Write k w) = 1" | "registering (R_Cas k w) = 1" | "registering (R_Take k w) = 1" | "registering (R_Swap k w v) = 1" | "registering _ = 0"

fun taking :: "aw_pc \<Rightarrow> nat" where
  "taking W_Take = 1" | "taking (W_And r) = 1" | "taking _ = 0"

fun carries :: "waker \<Rightarrow> aw_pc \<Rightarrow> nat" where
  "carries w (W_And r) = of_bool (r = Some w)" | "carries w (W_Wake v) = of_bool (v = w)" | "carries w _ = 0"

text \<open>
  What a registrant knows. When \<open>register\<close> has returned, its waker is in the cell, is about to be
  called, or was called.
\<close>

fun reg_ok :: "atomic_waker \<Rightarrow> (waker \<Rightarrow> nat) \<Rightarrow> aw_pc \<Rightarrow> bool" where
  "reg_ok m N (R_Start k w) = (k \<le> length (aw_woken m))"
| "reg_ok m N (R_Write k w) = (k \<le> length (aw_woken m))"
| "reg_ok m N (R_Cas k w) = (k \<le> length (aw_woken m) \<and> aw_cell m = Some w)"
| "reg_ok m N (R_Take k w) = (k \<le> length (aw_woken m) \<and> aw_cell m = Some w \<and> aw_state m = 3)"
| "reg_ok m N (R_Swap k w v) = (k \<le> length (aw_woken m) \<and> v = w \<and> aw_cell m = None \<and> aw_state m = 3)"
| "reg_ok m N (R_Wake k w v) = (k \<le> length (aw_woken m) \<and> v = w)"
| "reg_ok m N (R_Done k w) = (k \<le> length (aw_woken m) \<and> (aw_cell m = Some w \<or> w \<in> set (drop k (aw_woken m)) \<or> 0 < N w))"
| "reg_ok m N p = True"

definition aw_inv :: "atomic_waker \<Rightarrow> aw_pc multiset \<Rightarrow> bool" where
  "aw_inv m T \<longleftrightarrow>
     tokens registrant T \<le> 1 \<and>
     (aw_state m = 0 \<and> tokens registering T = 0 \<and> tokens taking T = 0 \<or>
      aw_state m = 1 \<and> tokens registering T = 1 \<and> tokens taking T = 0 \<or>
      aw_state m = 2 \<and> tokens registering T = 0 \<and> tokens taking T = 1 \<or>
      aw_state m = 3 \<and> tokens registering T = 1 \<and> tokens taking T = 0) \<and>
     (\<forall>p\<in>#T. reg_ok m (\<lambda>w. tokens (carries w) T) p)"

lemma aw_words: "(1 :: usize) OR 2 = 3" "(0 :: usize) OR 2 = 2" "(2 :: usize) OR 2 = 2" "(3 :: usize) OR 2 = 3" "(2 :: usize) AND NOT 2 = 0"
  by simp_all

text \<open>The threads that only wake know nothing that could change.\<close>

lemma reg_ok_waker: "registrant p = 0 \<Longrightarrow> reg_ok m N p"
  by (cases p) simp_all

lemma registering_le: "tokens registering T \<le> tokens registrant T"
proof (rule tokens_mono)
  show "registering p \<le> registrant p" for p by (cases p) simp_all
qed

lemma aw_inv_split:
  "aw_inv m (add_mset p R) \<longleftrightarrow>
     registrant p + tokens registrant R \<le> 1 \<and>
     (aw_state m = 0 \<and> registering p + tokens registering R = 0 \<and> taking p + tokens taking R = 0 \<or>
      aw_state m = 1 \<and> registering p + tokens registering R = 1 \<and> taking p + tokens taking R = 0 \<or>
      aw_state m = 2 \<and> registering p + tokens registering R = 0 \<and> taking p + tokens taking R = 1 \<or>
      aw_state m = 3 \<and> registering p + tokens registering R = 1 \<and> taking p + tokens taking R = 0) \<and>
     reg_ok m (\<lambda>w. carries w p + tokens (carries w) R) p \<and>
     (\<forall>q\<in>#R. reg_ok m (\<lambda>w. carries w p + tokens (carries w) R) q)"
  by (auto simp: aw_inv_def)

section \<open>Every step keeps it\<close>

lemma register_step_ok:
  assumes inv: "aw_inv m (add_mset p R)" and p: "registrant p = 1"
  shows "\<exists>m' p'. register_step ch m p = Inr (m', p') \<and> aw_inv m' (add_mset p' R)"
proof -
  have r: "tokens registrant R = 0" using inv p by (simp add: aw_inv_def)
  then have R: "tokens registering R = 0" using registering_le [of R] by simp
  have o: "reg_ok m' N q" if "q \<in># R" for m' N q using tokens_0 [OF r that] by (rule reg_ok_waker)
  show ?thesis
    using inv p unfolding aw_inv_split
    by (cases p) (auto simp: aw_consts aw_words r R o split: aw_choice.splits)
qed

lemma reg_ok_keep:
  assumes "reg_ok m N q" "registering q = 0 \<or> aw_cell m' = aw_cell m \<and> (aw_state m = 3 \<longrightarrow> aw_state m' = 3)" "aw_woken m' = aw_woken m @ new"
    "\<And>w. aw_cell m = Some w \<Longrightarrow> aw_cell m' = Some w \<or> 0 < N' w" "\<And>w. 0 < N w \<Longrightarrow> 0 < N' w \<or> w \<in> set new"
  shows "reg_ok m' N' q"
proof (cases q)
  case (R_Done k w)
  then show ?thesis using assms(1,3) assms(4,5) [of w] by auto
qed (use assms in auto)

lemma take_step_ok:
  assumes inv: "aw_inv m (add_mset p R)" and p: "registrant p = 0"
  shows "\<exists>m' p'. take_step ch m p = Inr (m', p') \<and> aw_inv m' (add_mset p' R)"
proof -
  note i = inv [unfolded aw_inv_split]
  let ?N = "\<lambda>p w. carries w p + tokens (carries w) R"
  have ok: "reg_ok m (?N p) q" if "q \<in># R" for q using i that by blast
  have keep: "reg_ok m' (?N p') q" if "q \<in># R" "registering q = 0 \<or> aw_cell m' = aw_cell m \<and> (aw_state m = 3 \<longrightarrow> aw_state m' = 3)" "aw_woken m' = aw_woken m @ new"
    "\<And>w. aw_cell m = Some w \<Longrightarrow> aw_cell m' = Some w \<or> 0 < ?N p' w" "\<And>w. 0 < ?N p w \<Longrightarrow> 0 < ?N p' w \<or> w \<in> set new" for m' p' q new
    using reg_ok_keep [OF ok [OF that(1)] that(2-5)] .
  show ?thesis
  proof (cases p)
    case W_Or
    then show ?thesis using i keep [of _ "m\<lparr>aw_state := aw_state m OR 2\<rparr>" "[]" W_Take] keep [of _ "m\<lparr>aw_state := aw_state m OR 2\<rparr>" "[]" W_Idle]
      by (auto simp: aw_inv_split aw_consts aw_words)
  next
    case W_Take
    then have z: "tokens registering R = 0" "aw_state m = 2" using i by auto
    have "reg_ok (m\<lparr>aw_cell := None\<rparr>) (?N (W_And (aw_cell m))) q" if "q \<in># R" for q
      by (rule keep [OF that, of _ "[]"]) (use tokens_0 [OF z(1) that] W_Take in auto)
    then show ?thesis using i W_Take by (auto simp: aw_inv_split)
  next
    case (W_And r)
    then have z: "tokens registering R = 0" "aw_state m = 2" using i by auto
    let ?p = "case r of Some w \<Rightarrow> W_Wake w | None \<Rightarrow> W_Idle"
    have "reg_ok (m\<lparr>aw_state := 0\<rparr>) (?N ?p) q" if "q \<in># R" for q
      by (rule keep [OF that, of _ "[]"]) (use tokens_0 [OF z(1) that] W_And in \<open>auto split: option.splits\<close>)
    then show ?thesis using i W_And z by (auto simp: aw_inv_split aw_consts aw_words split: option.splits)
  next
    case (W_Wake w)
    have "reg_ok (m\<lparr>aw_woken := aw_woken m @ [w]\<rparr>) (?N W_Idle) q" if "q \<in># R" for q
      by (rule keep [OF that, of _ "[w]"]) (use W_Wake in \<open>auto split: if_splits\<close>)
    then show ?thesis using i W_Wake by (auto simp: aw_inv_split)
  next
    case W_Idle
    then show ?thesis using i keep [of _ m "[]" W_Or] by (auto simp: aw_inv_split)
  qed (use p in simp_all)
qed

interpretation aw_system: thread_system take_step aw_inv "\<lambda>_. True"
proof
  fix m p R ch
  assume inv: "aw_inv m (add_mset p R)"
  show "\<exists>m' p'. take_step ch m p = Inr (m', p') \<and> aw_inv m' (add_mset p' R)"
  proof (cases "registrant p = 0")
    case False
    then have "registrant p = 1" "take_step ch m p = register_step ch m p" by (cases p; simp)+
    then show ?thesis using register_step_ok [OF inv] by simp
  qed (rule take_step_ok [OF inv])
qed

section \<open>Properties\<close>



end
