(* ===== verification/Spec2Isabelle.thy ===== *)
theory Spec2Isabelle
  imports Colo Channel Stream_Consumers Io_Write Task_Once Lock_RwLock Lock_Semaphore Parking Future_Combinators Rander Executor_Work Executor_Active Read_Buf Atomic_Waker
begin

text \<open>
  A verification library for the cynthia asynchronous runtime (src/cynthia).

  \<^bold>\<open>The program.\<close> Cynthia runs futures. A future that is spawned becomes a \<^emph>\<open>task\<close>
  (runtime/task), an allocation shared by the wakers that can reschedule it, the \<open>Runnable\<close>
  that the executor polls and the \<open>Task\<close> handle that waits for its output. Tasks that are to
  be run travel through \<^emph>\<open>concurrent queues\<close> (platform/queue). Tasks wait for each other by
  \<^emph>\<open>events\<close> (platform/event): a listener registers with an event, checks its condition again
  and sleeps until it is notified. \<^emph>\<open>Channels\<close> (platform/channel) are a queue and three
  events. \<^emph>\<open>Streams\<close> (future/stream.rs) and the \<^emph>\<open>asynchronous readers and writers\<close>
  (future/swap.rs) are state machines that are polled until they are ready. \<open>Colo\<close>
  (utils/colo.rs) is the slab in which the executor and the reactor keep their tables.

  \<^bold>\<open>Conventions.\<close> A struct is a record, an enum a datatype; a \<open>usize\<close> that the code treats
  bitwise or lets wrap is a 64-bit word, a length or an index is a natural number. Panics,
  failed assertions, process aborts and accesses to memory that is not live are values
  of the type \<open>panic\<close>, on the left of a sum (\<open>fallible\<close>), so that \<^emph>\<open>this operation returns\<close>
  is always part of what is proved. Raw pointers are addresses in an explicit heap. A loop
  that retries a compare-and-exchange runs over the list of answers of the machine, or is
  one step of a thread among others; loops that can run for ever are
  \<open>partial_function (option)\<close> and have termination theorems.

  \<^bold>\<open>Theories.\<close>
  \<^item> \<open>Cynthia_Prelude\<close>: machine integers, failures, \<open>Poll\<close>, shared lemmas.
  \<^item> \<open>Colo\<close> (utils/colo.rs): the slab with its free list threaded through the vacant slots.
    The invariant says that the free list visits exactly the vacant slots; insert and remove
    return what a finite map returns.
  \<^item> \<open>Queue_Spec\<close>, \<open>Queue_Single\<close>, \<open>Queue_Bounded\<close>, \<open>Queue_Unbounded\<close>, \<open>Concurrent_Queue\<close>
    (platform/queue/*.rs): the three queues, access by access, behind one interface (the
    locale \<open>fifo\<close>). Every history of calls is answered like the abstract closable
    FIFO queue; the one-slot queue also under every interleaving of threads; dropping a
    queue drops every value once and frees every block.
  \<^item> \<open>Event_Listener\<close> (platform/event/listener.rs): the linked list of entries in a heap, the
    count of notified entries kept outside the lock, listening, notifying, polling, blocking
    and dropping. Every call refines an operation on a list of listeners.
  \<^item> \<open>Channel\<close> (platform/channel/channel.rs): senders, receivers, their counts and the three
    events, over the queue and the event interfaces.
  \<^item> \<open>Stream_Core\<close>, \<open>Stream_Adapters\<close>, \<open>Stream_Consumers\<close> (future/stream.rs): every adapter as
    a transition function on its own state, the items it delivers as a list function of the
    items that its input delivers.
  \<^item> \<open>Io_Read\<close>, \<open>Io_Laws\<close>, \<open>Io_Write\<close> (future/swap.rs): the readers, writers and the futures
    over them, with the contracts \<open>byte_source\<close>, \<open>buf_source\<close> and \<open>byte_sink\<close> as locales that
    the concrete readers and writers interpret.
  \<^item> \<open>Task_State\<close>, \<open>Task_Machine\<close> (runtime/task/*.rs): the task cell and every atomic access
    to it as an instruction of a thread. \<open>Token_Count\<close>, \<open>Task_Tokens\<close>, \<open>Task_Steps\<close>,
    \<open>Task_Safety\<close>, \<open>Task_Once\<close>: every instruction holds tokens (a reference, the permission
    to run, the output), the invariant ties the tokens of all threads to the bits of the
    state word, and every step of every thread keeps it.
  \<^item> \<open>Lock_Base\<close>: events as a set of registered and a set of notified entries (the locale
    \<open>wait_list\<close>, which events satisfy), the discipline by which tasks wait on an event (the
    locale \<open>waiters\<close>), and runs of any number of tasks (the locale \<open>thread_system\<close>).
    \<open>Lock_Mutex\<close>, \<open>Lock_RwLock\<close> (over the steps of the mutex), \<open>Lock_Semaphore\<close> (platform/lock/*.rs): every access of a task to the lock
    is a step; tasks interleave, and can be cancelled where they await. Exclusion, exact
    counts and the absence of lost wake-ups are invariants of every run.
  \<^item> \<open>Parking\<close> (platform/parking/parking.rs): the parker as threads over a state word, a lock and a
    condition variable; notifications are neither lost nor doubled.
  \<^item> \<open>Future_Combinators\<close> (future/future.rs, future/timeout.rs, future/block_on.rs): when the
    combinators resolve and to what, as a function of when their futures do.
  \<^item> \<open>Rander\<close> (utils/rander.rs): the generator, the unbiased draw below a bound and
    its users.
  \<^item> \<open>Sleepers\<close>, \<open>Executor\<close>, \<open>Executor_Wake\<close>, \<open>Executor_Work\<close> (platform/waker/sleeper.rs,
    runtime/executor.rs): the tickers and runners of an executor as threads over the global queue,
    the local queues, the sleepers and the flag \<open>notified\<close>. Two invariants are kept by every step:
    no ticker sleeps while there is work, and runnables are conserved. \<open>Executor_Active\<close>: the
    slab of spawned tasks and the guards in their futures, as a client of the locale \<open>slab\<close>.
  \<^item> \<open>Read_Buf\<close> (utils/read_buf.rs): the buffer with a filled and an initialized part; no call
    of safe code reads a byte that was never written.
  \<^item> \<open>Atomic_Waker\<close> (platform/atomic_waker/waker.rs): the cell for one waker as threads over
    its state word; a registered waker is kept until it is called.
  \<^bold>\<open>Bounds.\<close> Hypotheses on sizes are those that the machine gives: fewer than \<open>usize::MAX\<close>
  listeners, fewer than \<open>isize::MAX / 256\<close> references, a queue capacity below the largest one
  whose double still fits in a word. Fuel appears only as the list of outcomes that the
  environment gives to a run; the theorems hold for every such list, and where a theorem
  says that something is finished it says after how many polls.

  \<^bold>\<open>Not modelled.\<close> Memory orderings: accesses are interleaved (sequential consistency).
  Allocation failure, formatting (\<open>Debug\<close>, \<open>Display\<close>), and the parts whose work is done by
  the operating system or by other crates: files (fs), processes (process), sockets
  (net/transport, net/connect), the readiness backends (net/polling), the reactor's
  registration of sources (io). The manifest lists every part with its reason.
\<close>

end
